(* ===== verification/Prelude.thy ===== *)
theory Prelude
  imports Main "HOL-Library.Word"
begin

text \<open>
  Shared vocabulary of the development: machine integers, the reading of values and byte
  buffers as sequences of bits (least significant bit first, as the jam format orders
  them), and the generic lemmas on them that the component theories rely on.
\<close>

unbundle bit_operations_syntax

type_synonym u8 = "8 word"
type_synonym u32 = "32 word"
type_synonym u64 = "64 word"

text \<open>Facts that turn a bit of a composed value into bits of its parts.\<close>

named_theorems bitval

section \<open>Bits of values and of byte buffers\<close>

definition bits_of :: "nat \<Rightarrow> 'a::semiring_bits \<Rightarrow> bool list" where
  "bits_of n x = map (bit x) [0..<n]"

definition bytes_bits :: "u8 list \<Rightarrow> bool list" where
  "bytes_bits bs = concat (map (bits_of 8) bs)"

definition word_of_bits :: "bool list \<Rightarrow> 'a::len word" where
  "word_of_bits bs = horner_sum of_bool 2 bs"

lemma length_bits_of [simp]: "length (bits_of n x) = n"
  by (simp add: bits_of_def)

lemma nth_bits_of [simp]: "i < n \<Longrightarrow> bits_of n x ! i = bit x i"
  by (simp add: bits_of_def)

lemma bits_of_0 [simp]: "bits_of 0 x = []"
  by (simp add: bits_of_def)

lemma length_bytes_bits [simp]: "length (bytes_bits bs) = 8 * length bs"
  by (induction bs) (simp_all add: bytes_bits_def)

lemma bytes_bits_Nil [simp]: "bytes_bits [] = []"
  by (simp add: bytes_bits_def)

lemma bytes_bits_Cons: "bytes_bits (b # bs) = bits_of 8 b @ bytes_bits bs"
  by (simp add: bytes_bits_def)

lemma bytes_bits_append: "bytes_bits (xs @ ys) = bytes_bits xs @ bytes_bits ys"
  by (simp add: bytes_bits_def)

lemma nth_bytes_bits:
  "i < 8 * length bs \<Longrightarrow> bytes_bits bs ! i = bit (bs ! (i div 8)) (i mod 8)"
proof (induction bs arbitrary: i)
  case Nil
  then show ?case by simp
next
  case (Cons b bs)
  show ?case
  proof (cases "i < 8")
    case True
    then show ?thesis by (simp add: bytes_bits_Cons nth_append)
  next
    case False
    then obtain j where j: "i = j + 8" by (metis add.commute le_Suc_ex not_less)
    have "bytes_bits (b # bs) ! i = bytes_bits bs ! j"
      using j by (simp add: bytes_bits_Cons nth_append)
    also have "\<dots> = bit (bs ! (j div 8)) (j mod 8)"
      using Cons.prems j by (intro Cons.IH) simp
    finally have "bytes_bits (b # bs) ! i = bit (bs ! (j div 8)) (j mod 8)" .
    moreover have "i div 8 = Suc (j div 8)" "i mod 8 = j mod 8" using j by simp_all
    ultimately show ?thesis by simp
  qed
qed

lemma drop_bytes_bits: "bytes_bits (drop n bs) = drop (8 * n) (bytes_bits bs)"
proof (induction n arbitrary: bs)
  case 0
  then show ?case by simp
next
  case (Suc n)
  then show ?case by (cases bs) (simp_all add: bytes_bits_Cons)
qed

lemma take_bytes_bits: "bytes_bits (take n bs) = take (8 * n) (bytes_bits bs)"
proof (induction n arbitrary: bs)
  case 0
  then show ?case by simp
next
  case (Suc n)
  then show ?case by (cases bs) (simp_all add: bytes_bits_Cons)
qed

lemma bytes_bits_inject:
  assumes "bytes_bits xs = bytes_bits ys"
  shows "xs = ys"
proof -
  have len: "length xs = length ys"
    using arg_cong [OF assms, of length] by simp
  show ?thesis
  proof (rule nth_equalityI [OF len])
    fix i
    assume i: "i < length xs"
    show "xs ! i = ys ! i"
    proof (rule bit_word_eqI)
      fix k
      assume k: "k < LENGTH(8)"
      then have "8 * i + k < 8 * length xs" using i by simp
      moreover have "(8 * i + k) div 8 = i" "(8 * i + k) mod 8 = k" using k by auto
      ultimately show "bit (xs ! i) k = bit (ys ! i) k"
        using nth_bytes_bits [of "8 * i + k" xs] nth_bytes_bits [of "8 * i + k" ys] assms len
        by simp
    qed
  qed
qed

lemma bit_word_of_bits [bitval]:
  "bit (word_of_bits bs :: 'a::len word) n \<longleftrightarrow> n < LENGTH('a) \<and> n < length bs \<and> bs ! n"
  unfolding word_of_bits_def by (auto simp: bit_horner_sum_bit_iff)

lemma word_of_bits_Nil [simp]: "word_of_bits [] = 0"
  by (simp add: word_of_bits_def)

lemma bits_of_word_of_bits:
  "length bs \<le> LENGTH('a) \<Longrightarrow> bits_of (length bs) (word_of_bits bs :: 'a::len word) = bs"
  by (rule nth_equalityI) (auto simp: bit_word_of_bits)

lemma word_of_bits_bits_of:
  "word_of_bits (bits_of n w) = take_bit n (w :: 'a::len word)"
  by (rule bit_word_eqI) (auto simp: bit_word_of_bits bit_take_bit_iff)

text \<open>Masks, as the code writes them: \<open>(1 << n) - 1\<close>.\<close>

lemma bit_and_mask [bitval]:
  "bit (w AND mask n :: 'a::len word) k \<longleftrightarrow> k < n \<and> bit w k"
  by (auto simp: bit_and_iff bit_mask_iff dest: bit_imp_le_length)

lemma bit_byte:
  "k < length bs \<Longrightarrow> j < 8 \<Longrightarrow> bit (bs ! k) j = bytes_bits bs ! (8 * k + j)"
  by (simp add: nth_bytes_bits)

text \<open>
  The little-endian load of the first \<open>n\<close> bytes of a buffer, as the code spells it:
  \<open>b[0] ^ b[1] << 8 ^ b[2] << 16 ^ ...\<close>.
\<close>

primrec le_load :: "nat \<Rightarrow> u8 list \<Rightarrow> 'a::len word" where
  "le_load 0 b = 0"
| "le_load (Suc n) b = le_load n b XOR push_bit (8 * n) (ucast (b ! n))"

lemma bit_le_load [bitval]:
  "n \<le> length b \<Longrightarrow>
   bit (le_load n b :: 'a::len word) i \<longleftrightarrow> i < LENGTH('a) \<and> i < 8 * n \<and> bytes_bits b ! i"
proof (induction n)
  case 0
  then show ?case by simp
next
  case (Suc n)
  then have IH: "bit (le_load n b :: 'a word) i \<longleftrightarrow> i < LENGTH('a) \<and> i < 8 * n \<and> bytes_bits b ! i"
    by simp
  have *: "bit (push_bit (8 * n) (ucast (b ! n)) :: 'a word) i \<longleftrightarrow>
      i < LENGTH('a) \<and> 8 * n \<le> i \<and> i < 8 * n + 8 \<and> bytes_bits b ! i"
  proof (cases "8 * n \<le> i \<and> i < 8 * n + 8")
    case True
    then have "bit (b ! n) (i - 8 * n) = bytes_bits b ! i"
      using Suc.prems bit_byte [of n b "i - 8 * n"] by auto
    with True show ?thesis by (auto simp: bit_simps)
  next
    case False
    then show ?thesis by (auto simp: bit_simps dest: bit_imp_le_length)
  qed
  show ?case using IH * by (auto simp: bit_xor_iff)
qed

section \<open>Sequences of bits\<close>

text \<open>The first \<open>n\<close> bits of a stream that continues with zeros.\<close>

definition pad_take :: "nat \<Rightarrow> bool list \<Rightarrow> bool list" where
  "pad_take n bs = take n bs @ replicate (n - length bs) False"

lemma length_pad_take [simp]: "length (pad_take n bs) = n"
  by (simp add: pad_take_def)

lemma nth_pad_take [simp]:
  "i < n \<Longrightarrow> pad_take n bs ! i \<longleftrightarrow> i < length bs \<and> bs ! i"
  by (auto simp: pad_take_def nth_append)

lemma pad_take_eq_take: "n \<le> length bs \<Longrightarrow> pad_take n bs = take n bs"
  by (simp add: pad_take_def)

lemma pad_take_add: "pad_take (m + n) bs = pad_take m bs @ pad_take n (drop m bs)"
  by (rule nth_equalityI) (auto simp: nth_append)

lemma word_of_bits_pad_take: "word_of_bits (pad_take n bs) = word_of_bits (take n bs)"
  by (rule bit_word_eqI) (auto simp: bit_word_of_bits)

section \<open>Buffers written by index\<close>

text \<open>\<open>memcpy (dst + i, src, length src)\<close>.\<close>

definition memcpy_at :: "'a list \<Rightarrow> nat \<Rightarrow> 'a list \<Rightarrow> 'a list" where
  "memcpy_at dst i src = take i dst @ src @ drop (i + length src) dst"

text \<open>\<open>for (i = 0; i < n; i++) dst[k + i] = f i;\<close>\<close>

definition store_loop :: "nat \<Rightarrow> (nat \<Rightarrow> 'a) \<Rightarrow> nat \<Rightarrow> 'a list \<Rightarrow> 'a list" where
  "store_loop k f n dst = fold (\<lambda>i d. d[k + i := f i]) [0..<n] dst"

lemma length_memcpy_at [simp]:
  "i + length src \<le> length dst \<Longrightarrow> length (memcpy_at dst i src) = length dst"
  by (simp add: memcpy_at_def)

lemma nth_memcpy_at:
  "i + length src \<le> length dst \<Longrightarrow> j < length dst \<Longrightarrow>
   memcpy_at dst i src ! j = (if i \<le> j \<and> j < i + length src then src ! (j - i) else dst ! j)"
  by (auto simp: memcpy_at_def nth_append)

lemma length_store_loop [simp]: "length (store_loop k f n dst) = length dst"
  by (induction n) (simp_all add: store_loop_def)

lemma nth_store_loop:
  "k + n \<le> length dst \<Longrightarrow> j < length dst \<Longrightarrow>
   store_loop k f n dst ! j = (if k \<le> j \<and> j < k + n then f (j - k) else dst ! j)"
proof (induction n)
  case 0
  then show ?case by (auto simp: store_loop_def)
next
  case (Suc n)
  have "store_loop k f (Suc n) dst = (store_loop k f n dst)[k + n := f n]"
    by (simp add: store_loop_def)
  with Suc show ?case by (auto simp: nth_list_update less_Suc_eq)
qed

section \<open>Bit length\<close>

text \<open>
  \<open>met0\<close> is the bit length of a number: \<open>ur_met0_64\<close> and its siblings of
  \<open>pkg/ur/defs.h\<close> (the width minus the leading zeros, 0 for 0).
\<close>

fun met0 :: "nat \<Rightarrow> nat" where
  "met0 n = (if n = 0 then 0 else Suc (met0 (n div 2)))"

declare met0.simps [simp del]

lemma met0_0 [simp]: "met0 0 = 0"
  by (simp add: met0.simps)

lemma met0_pos: "0 < n \<Longrightarrow> met0 n = Suc (met0 (n div 2))"
  by (simp add: met0.simps)

lemma met0_eq_0 [simp]: "met0 n = 0 \<longleftrightarrow> n = 0"
  by (cases "n = 0") (simp_all add: met0_pos)

lemma less_exp_met0: "n < 2 ^ met0 n"
proof (induction n rule: met0.induct)
  case (1 n)
  then show ?case by (cases "n = 0") (auto simp: met0_pos)
qed

lemma met0_le_iff: "met0 n \<le> k \<longleftrightarrow> n < 2 ^ k"
proof (induction k arbitrary: n)
  case 0
  then show ?case by auto
next
  case (Suc k)
  show ?case
  proof (cases "n = 0")
    case False
    then have "met0 n \<le> Suc k \<longleftrightarrow> n div 2 < 2 ^ k"
      by (simp add: met0_pos Suc)
    also have "\<dots> \<longleftrightarrow> n < 2 ^ Suc k" by auto
    finally show ?thesis .
  qed simp
qed

lemma exp_le_of_met0: "met0 n = Suc k \<Longrightarrow> 2 ^ k \<le> n"
  using met0_le_iff [of n k] by simp

lemma take_bit_met0 [simp]: "take_bit (met0 n) n = n"
  by (simp add: take_bit_nat_eq_self less_exp_met0)

lemma bit_less_met0: "bit n k \<Longrightarrow> k < met0 n"
  by (metis bit_take_bit_iff take_bit_met0)

end
