(* ===== verification/BitReader.thy ===== *)
theory BitReader
  imports Prelude
begin

text \<open>
  The bitstream reader of \<open>pkg/ur/bitstream.c\<close>: a cursor over a byte buffer.  The
  buffer is the list of the bytes from the read pointer to the end (the null pointer is
  the empty list), \<open>bsr_left\<close> counts them as the code does, \<open>bsr_off\<close> is the bit
  offset in the first byte, and \<open>bsr_bits\<close> the running 64-bit cursor.  The abstract
  state is the stream of bits still to be read (\<open>bsr_stream\<close>); each operation is shown
  to return and drop a prefix of it.  Reads that may run past the end see zeros there.
\<close>

section \<open>State and results\<close>

text \<open>The failures of \<open>ur_cue_res_e\<close>; \<open>ur_cue_good\<close> is \<open>Inr\<close> of the output.\<close>

datatype cue_err = cue_back | cue_gone | cue_meme

datatype cue_tag = jam_atom | jam_cell | jam_back

record bsr =
  bsr_left :: nat
  bsr_bits :: nat
  bsr_off :: nat
  bsr_bytes :: "u8 list"

text \<open>Advance the 64-bit cursor.\<close>

definition bsr_tick :: "nat \<Rightarrow> bsr \<Rightarrow> bsr" where
  "bsr_tick n r = r\<lparr>bsr_bits := (bsr_bits r + n) mod 2 ^ 64\<rparr>"

definition bsr_zero :: bsr where
  "bsr_zero = \<lparr>bsr_left = 0, bsr_bits = 0, bsr_off = 0, bsr_bytes = []\<rparr>"

definition ur_bsr_init :: "bsr \<Rightarrow> nat \<Rightarrow> u8 list \<Rightarrow> (cue_err + unit) \<times> bsr" where
  "ur_bsr_init r len bytes =
     (if (len * 8) mod 2 ^ 64 < len then (Inl cue_meme, r)
      else (Inr (), r\<lparr>bsr_left := len, bsr_bytes := bytes\<rparr>))"

definition ur_bsr_sane :: "bsr \<Rightarrow> bool" where
  "ur_bsr_sane r \<longleftrightarrow>
     bsr_off r < 8 \<and> (bsr_left r = 0 \<longrightarrow> bsr_off r = 0 \<and> bsr_bytes r = [])"

section \<open>Single bits\<close>

text \<open>The common tail of the two bit readers: step one bit forward.\<close>

definition bsr_step_bit :: "bsr \<Rightarrow> bsr" where
  "bsr_step_bit r =
     (if bsr_off r = 7
      then let left = bsr_left r - 1
           in r\<lparr>bsr_bytes := (if left \<noteq> 0 then drop 1 (bsr_bytes r) else []),
                bsr_left := left, bsr_off := 0\<rparr>
      else r\<lparr>bsr_off := 1 + bsr_off r\<rparr>)"

definition ur_bsr_bit :: "bsr \<Rightarrow> (cue_err + u8) \<times> bsr" where
  "ur_bsr_bit r =
     (if bsr_left r = 0 then (Inl cue_gone, r)
      else let bit = drop_bit (bsr_off r) (bsr_bytes r ! 0) AND 1
           in (Inr bit, bsr_tick 1 (bsr_step_bit r)))"

definition ur_bsr_bit_any :: "bsr \<Rightarrow> u8 \<times> bsr" where
  "ur_bsr_bit_any r =
     (let r1 = bsr_tick 1 r
      in if bsr_left r = 0 then (0, r1)
         else (drop_bit (bsr_off r) (bsr_bytes r ! 0) AND 1, bsr_step_bit r1))"

section \<open>Up to 8, 32 and 64 bits\<close>

definition ur_bsr8_any :: "bsr \<Rightarrow> nat \<Rightarrow> u8 \<times> bsr" where
  "ur_bsr8_any r len0 =
     (let left = bsr_left r; len = min 8 len0; r1 = bsr_tick len r
      in if left = 0 then (0, r1)
         else
           let off = bsr_off r; rest = 8 - off; b = bsr_bytes r; m = drop_bit off (b ! 0)
           in if len < rest then (m AND mask len, r1\<lparr>bsr_off := off + len\<rparr>)
              else if left = 1 then
                (m, r1\<lparr>bsr_off := 0, bsr_left := 0, bsr_bytes := []\<rparr>)
              else
                let off' = len - rest; l = b ! 1 AND mask off'
                in (m XOR push_bit rest l,
                    r1\<lparr>bsr_off := off', bsr_left := left - 1, bsr_bytes := drop 1 b\<rparr>))"

text \<open>
  The step shared by the 32- and the 64-bit reader once the rest of the first byte is
  consumed: \<open>len\<close> and \<open>left\<close> are the decremented ones, \<open>b\<close> the incremented
  pointer.  It gives the number of whole bytes to load, the final offset and the new state.
\<close>

definition bsr_word_step :: "bsr \<Rightarrow> nat \<Rightarrow> nat \<Rightarrow> u8 list \<Rightarrow> nat \<times> nat \<times> bsr" where
  "bsr_word_step r len left b =
     (let len_byt = len div 8
      in if left \<le> len_byt
         then (left, 0, r\<lparr>bsr_off := 0, bsr_left := 0, bsr_bytes := []\<rparr>)
         else (len_byt, len mod 8,
               r\<lparr>bsr_off := len mod 8, bsr_left := left - len_byt,
                 bsr_bytes := drop len_byt b\<rparr>))"

text \<open>
  The \<open>switch ( len_byt )\<close>: case \<open>n\<close> xors the first \<open>n\<close> bytes, each shifted to its
  place, and, but for the last case, the masked low bits of the next byte.
\<close>

definition bsr_load :: "nat \<Rightarrow> nat \<Rightarrow> nat \<Rightarrow> u8 list \<Rightarrow> 'a::len word" where
  "bsr_load top_case len_byt off b =
     (let msk = mask off :: u8
      in le_load len_byt b
         XOR (if msk \<noteq> 0 \<and> len_byt \<noteq> top_case
              then push_bit (8 * len_byt) (ucast (b ! len_byt AND msk)) else 0))"

definition ur_bsr32_any :: "bsr \<Rightarrow> nat \<Rightarrow> u32 \<times> bsr" where
  "ur_bsr32_any r len0 =
     (let left = bsr_left r; len = min 32 len0; r1 = bsr_tick len r
      in if left = 0 then (0, r1)
         else
           let off = bsr_off r; rest = 8 - off; m = ucast (drop_bit off (bsr_bytes r ! 0))
           in if len < rest then (m AND mask len, r1\<lparr>bsr_off := off + len\<rparr>)
              else
                let b = drop 1 (bsr_bytes r);
                    (len_byt, off', r2) = bsr_word_step r1 (len - rest) (left - 1) b
                in (m XOR push_bit rest (bsr_load 4 len_byt off' b), r2))"

definition ur_bsr64_any :: "bsr \<Rightarrow> nat \<Rightarrow> u64 \<times> bsr" where
  "ur_bsr64_any r len0 =
     (let left = bsr_left r; len = min 64 len0; r1 = bsr_tick len r
      in if left = 0 then (0, r1)
         else
           let off = bsr_off r; rest = 8 - off; m = ucast (drop_bit off (bsr_bytes r ! 0))
           in if len < rest then (m AND mask len, r1\<lparr>bsr_off := off + len\<rparr>)
              else
                let b = drop 1 (bsr_bytes r);
                    (len_byt, off', r2) = bsr_word_step r1 (len - rest) (left - 1) b
                in (m XOR push_bit rest (bsr_load 8 len_byt off' b), r2))"

section \<open>Byte arrays\<close>

text \<open>
  \<open>out\<close> is the caller's zero-initialized array.  The count of bits wanted from the last
  byte is computed in a \<open>uint8_t\<close>: \<open>len - (last << 3)\<close> wraps at 256.
\<close>

definition bits_of_last :: "nat \<Rightarrow> nat \<Rightarrow> nat" where
  "bits_of_last len lst = nat ((int len - int (lst * 8)) mod 256)"

definition ur_bsr_bytes_any :: "bsr \<Rightarrow> nat \<Rightarrow> u8 list \<Rightarrow> u8 list \<times> bsr" where
  "ur_bsr_bytes_any r len out =
     (let left = bsr_left r; r1 = bsr_tick len r
      in if left = 0 then (out, r1)
         else
           let b = bsr_bytes r; off = bsr_off r; len_byt = len div 8; len_bit = len mod 8;
               need = len_byt + of_bool (len_bit \<noteq> 0)
           in if off = 0 then
                (if left < need
                 then (memcpy_at out 0 (take left b),
                       r1\<lparr>bsr_bytes := [], bsr_off := off, bsr_left := 0\<rparr>)
                 else
                   let out1 = memcpy_at out 0 (take len_byt b);
                       out2 = (if len_bit \<noteq> 0
                               then out1[len_byt := b ! len_byt AND mask len_bit] else out1);
                       left' = left - len_byt
                   in (out2,
                       r1\<lparr>bsr_bytes := (if left' \<noteq> 0 then drop len_byt b else []),
                          bsr_off := len_bit, bsr_left := left'\<rparr>))
              else
                let rest = 8 - off; lst = left - 1; mx = min lst len_byt;
                    out1 = store_loop 0
                      (\<lambda>i. drop_bit off (b ! i) XOR push_bit rest (b ! (i + 1))) mx out;
                    b1 = drop mx b; m = drop_bit off (b1 ! 0)
                in if left \<le> need then
                     (if bits_of_last len lst < rest
                      then (out1[mx := m AND mask len_bit],
                            r1\<lparr>bsr_bytes := b1, bsr_off := off + len_bit, bsr_left := 1\<rparr>)
                      else (out1[mx := m],
                            r1\<lparr>bsr_bytes := [], bsr_off := 0, bsr_left := 0\<rparr>))
                   else
                     let bits = off + len_bit; step = of_bool (bits div 8 \<noteq> 0);
                         off' = bits mod 8;
                         out2 = (if len_bit = 0 then out1
                                 else if len_bit \<le> rest then out1[mx := m AND mask len_bit]
                                 else let l = b1 ! 1 AND mask off'
                                      in out1[mx := (m XOR push_bit rest l) AND mask len_bit])
                     in (out2,
                         r1\<lparr>bsr_bytes := drop step b1, bsr_off := off',
                            bsr_left := left - (len_byt + step)\<rparr>))"

definition ur_bsr_skip_any :: "bsr \<Rightarrow> nat \<Rightarrow> bsr" where
  "ur_bsr_skip_any r len =
     (let left = bsr_left r; r1 = bsr_tick len r
      in if left = 0 then r1
         else
           let b = bsr_bytes r; off = bsr_off r; len_byt = len div 8; len_bit = len mod 8;
               need = len_byt + of_bool (len_bit \<noteq> 0); rest = 8 - off; lst = left - 1;
               k = min lst len_byt + 1
           in if left \<le> need then
                (if bits_of_last len lst < rest
                 then r1\<lparr>bsr_bytes := drop (k - 1) b, bsr_off := off + len_bit, bsr_left := 1\<rparr>
                 else r1\<lparr>bsr_bytes := [], bsr_off := 0, bsr_left := 0\<rparr>)
              else
                let bits = off + len_bit; step = of_bool (bits div 8 \<noteq> 0)
                in r1\<lparr>bsr_bytes := drop (k - (1 - step)) b, bsr_off := bits mod 8,
                      bsr_left := left - (len_byt + step)\<rparr>)"

section \<open>Tags and run lengths\<close>

definition bsr_set_gone :: "bsr \<Rightarrow> nat \<Rightarrow> bsr" where
  "bsr_set_gone r bits =
     (bsr_tick (bits mod 256) r)\<lparr>bsr_bytes := [], bsr_left := 0, bsr_off := 0\<rparr>"

definition ur_bsr_tag :: "bsr \<Rightarrow> (cue_err + cue_tag) \<times> bsr" where
  "ur_bsr_tag r =
     (let left = bsr_left r; b = bsr_bytes r; off = bsr_off r;
          finish = (\<lambda>len tag.
            let bits = off + len; bytes = bits div 8; left' = left - bytes;
                r1 = (if left' = 0 then r\<lparr>bsr_bytes := [], bsr_left := 0, bsr_off := 0\<rparr>
                      else r\<lparr>bsr_bytes := drop bytes b, bsr_left := left',
                             bsr_off := bits mod 8\<rparr>)
            in (Inr tag, bsr_tick len r1))
      in if left = 0 then (Inl cue_gone, r)
         else if drop_bit off (b ! 0) AND 1 = 0 then finish 1 jam_atom
         else if off = 7 \<and> left = 1 then (Inl cue_gone, bsr_set_gone r 1)
         else
           let bit = (if off = 7 then b ! 1 AND 1 else drop_bit (off + 1) (b ! 0) AND 1)
           in finish 2 (if bit = 0 then jam_cell else jam_back))"

definition bsr_log_meme :: "bsr \<Rightarrow> bsr" where
  "bsr_log_meme r =
     (bsr_tick 256 r)\<lparr>bsr_bytes := drop 32 (bsr_bytes r), bsr_left := bsr_left r - 32\<rparr>"

text \<open>
  The scan of \<open>ur_bsr_log\<close> for the first non-zero byte: at most 32 bytes past the
  first.  The code reads \<open>b[skip]\<close> before it compares \<open>skip\<close> with \<open>left\<close> (one
  byte past the end of the buffer when they are equal) and then does not use the byte;
  here the comparison comes first.  \<open>skip\<close> counts up from 0, so \<open>32 == skip\<close> is
  written \<open>32 \<le> skip\<close>.
\<close>

datatype log_scan = Scan_hit u8 nat | Scan_meme | Scan_gone nat

function bsr_log_scan :: "u8 list \<Rightarrow> nat \<Rightarrow> u8 \<Rightarrow> nat \<Rightarrow> log_scan" where
  "bsr_log_scan b left byt skip =
     (if byt \<noteq> 0 then Scan_hit byt skip
      else if 32 \<le> skip then Scan_meme
      else if Suc skip = left then Scan_gone (Suc skip)
      else bsr_log_scan b left (b ! Suc skip) (Suc skip))"
  by pat_completeness auto
termination
  by (relation "measure (\<lambda>(b, left, byt, skip). 32 - skip)") auto

declare bsr_log_scan.simps [simp del]

text \<open>\<open>ur_tz8\<close>: the trailing zeros of a non-zero byte.\<close>

definition tz8 :: "u8 \<Rightarrow> nat" where
  "tz8 b = length (takeWhile Not (bits_of 8 b))"

definition ur_bsr_log :: "bsr \<Rightarrow> (cue_err + nat) \<times> bsr" where
  "ur_bsr_log r =
     (let left = bsr_left r
      in if left = 0 then (Inl cue_gone, r)
         else
           let off = bsr_off r; b = bsr_bytes r
           in case bsr_log_scan b left (drop_bit off (b ! 0)) 0 of
                Scan_meme \<Rightarrow> (Inl cue_meme, bsr_log_meme r)
              | Scan_gone skip \<Rightarrow> (Inl cue_gone, bsr_set_gone r (skip * 8 - off))
              | Scan_hit byt skip \<Rightarrow>
                  let zeros = tz8 byt + (if skip \<noteq> 0 then skip * 8 - off else 0)
                  in if 255 < zeros then (Inl cue_meme, bsr_log_meme r)
                     else
                       let bits = off + 1 + zeros; bytes = bits div 8; left' = left - bytes
                       in (Inr zeros,
                           (bsr_tick (1 + zeros) r)\<lparr>
                             bsr_bytes := (if left' \<noteq> 0 then drop bytes b else []),
                             bsr_left := left', bsr_off := bits mod 8\<rparr>))"

definition ur_bsr_rub_len :: "bsr \<Rightarrow> (cue_err + u64) \<times> bsr" where
  "ur_bsr_rub_len r =
     (case ur_bsr_log r of
        (Inl e, r1) \<Rightarrow> (Inl e, r1)
      | (Inr len, r1) \<Rightarrow>
          if 64 \<le> len then (Inl cue_meme, r1)
          else if len = 0 then (Inr 0, r1)
          else if len = 1 then (Inr 1, r1)
          else let (v, r2) = ur_bsr64_any r1 (len - 1)
               in (Inr (v XOR push_bit (len - 1) 1), r2))"

section \<open>The abstract reader\<close>

definition bsr_wf :: "bsr \<Rightarrow> bool" where
  "bsr_wf r \<longleftrightarrow> ur_bsr_sane r \<and> length (bsr_bytes r) = bsr_left r"

definition bsr_stream :: "bsr \<Rightarrow> bool list" where
  "bsr_stream r = drop (bsr_off r) (bytes_bits (bsr_bytes r))"

lemma bsr_wfD:
  assumes "bsr_wf r"
  shows "bsr_off r < 8" "length (bsr_bytes r) = bsr_left r" "bsr_left r = 0 \<Longrightarrow> bsr_off r = 0"
  using assms by (auto simp: bsr_wf_def ur_bsr_sane_def)

lemma bsr_wfI:
  "bsr_off r < 8 \<Longrightarrow> length (bsr_bytes r) = bsr_left r \<Longrightarrow>
   (bsr_left r = 0 \<Longrightarrow> bsr_off r = 0) \<Longrightarrow> bsr_wf r"
  by (auto simp: bsr_wf_def ur_bsr_sane_def)

lemma bsr_tick_simps [simp]:
  "bsr_left (bsr_tick n r) = bsr_left r"
  "bsr_off (bsr_tick n r) = bsr_off r"
  "bsr_bytes (bsr_tick n r) = bsr_bytes r"
  "bsr_bits (bsr_tick n r) = (bsr_bits r + n) mod 2 ^ 64"
  "bsr_stream (bsr_tick n r) = bsr_stream r"
  "bsr_wf (bsr_tick n r) = bsr_wf r"
  by (simp_all add: bsr_tick_def bsr_stream_def bsr_wf_def ur_bsr_sane_def)

lemma length_bsr_stream:
  "bsr_wf r \<Longrightarrow> length (bsr_stream r) = 8 * bsr_left r - bsr_off r"
  by (simp add: bsr_stream_def bsr_wfD)

lemma bsr_stream_Nil_iff: "bsr_wf r \<Longrightarrow> bsr_stream r = [] \<longleftrightarrow> bsr_left r = 0"
  using bsr_wfD [of r] by (auto simp: bsr_stream_def)

lemma nth_bsr_stream:
  "bsr_wf r \<Longrightarrow> i < length (bsr_stream r) \<Longrightarrow>
   bsr_stream r ! i = bytes_bits (bsr_bytes r) ! (bsr_off r + i)"
  by (simp add: bsr_stream_def bsr_wfD)

text \<open>Moving the pointer by \<open>k\<close> bytes and setting the offset drops a prefix of the stream.\<close>

lemma bsr_stream_move:
  assumes "bsr_bytes r' = drop k (bsr_bytes r)" "8 * k + bsr_off r' = bsr_off r + n"
  shows "bsr_stream r' = drop n (bsr_stream r)"
  using assms by (simp add: bsr_stream_def drop_bytes_bits add.commute)

lemma bsr_stream_done:
  assumes "bsr_bytes r' = []" "bsr_wf r" "8 * bsr_left r \<le> bsr_off r + n"
  shows "bsr_stream r' = drop n (bsr_stream r)"
  using assms length_bsr_stream [of r] by (simp add: bsr_stream_def)

text \<open>
  The contract the sized reads share: they give the next bits of the stream, continued
  with zeros, and drop them.
\<close>

locale any_reader =
  fixes read :: "bsr \<Rightarrow> nat \<Rightarrow> 'w::len word \<times> bsr"
    and cap :: nat
  assumes read_cap: "cap = LENGTH('w)"
    and read_wf: "bsr_wf r \<Longrightarrow> bsr_wf (snd (read r n))"
    and read_stream: "bsr_wf r \<Longrightarrow> bsr_stream (snd (read r n)) = drop (min cap n) (bsr_stream r)"
    and read_value: "bsr_wf r \<Longrightarrow> fst (read r n) = word_of_bits (take (min cap n) (bsr_stream r))"
    and read_bits: "bsr_bits (snd (read r n)) = (bsr_bits r + min cap n) mod 2 ^ 64"
begin

lemma read_bits_of:
  assumes "bsr_wf r" "n \<le> cap"
  shows "bits_of n (fst (read r n)) = pad_take n (bsr_stream r)"
  using assms read_cap by (intro nth_equalityI) (auto simp: read_value bit_word_of_bits)

text \<open>Two reads in sequence read what one longer read reads.\<close>

lemma read_read:
  assumes "bsr_wf r" "m + n \<le> cap"
  shows "bits_of m (fst (read r m)) @ bits_of n (fst (read (snd (read r m)) n))
           = bits_of (m + n) (fst (read r (m + n)))"
proof -
  have "m \<le> cap" "n \<le> cap" using assms by auto
  then show ?thesis
    using assms read_wf [of r m]
    by (simp add: read_bits_of read_stream pad_take_add)
qed

text \<open>Past the end of the stream every read is zero.\<close>

lemma read_past_end:
  "bsr_wf r \<Longrightarrow> bsr_stream r = [] \<Longrightarrow> fst (read r n) = 0 \<and> bsr_stream (snd (read r n)) = []"
  by (simp add: read_value read_stream)

end

section \<open>The sized reads meet the contract\<close>

text \<open>
  What is left of the first byte is the start of the stream, and a value assembled from it
  and from the following bits, shifted up by the bits of the first byte, is a longer prefix.
\<close>

lemma bit_first_byte:
  assumes "bsr_wf r" "bsr_left r \<noteq> 0" "8 \<le> LENGTH('a)"
  shows "bit (ucast (drop_bit (bsr_off r) (bsr_bytes r ! 0)) :: 'a::len word) k \<longleftrightarrow>
         k < 8 - bsr_off r \<and> bsr_stream r ! k"
proof (cases "bsr_off r + k < 8")
  case True
  then have "bsr_stream r ! k = bytes_bits (bsr_bytes r) ! (bsr_off r + k)"
    using assms by (intro nth_bsr_stream) (auto simp: length_bsr_stream)
  with True show ?thesis using assms bit_byte [of 0 "bsr_bytes r" "bsr_off r + k"]
    by (auto simp: bsr_wfD bit_simps)
next
  case False
  then show ?thesis using assms by (auto simp: bit_simps dest: bit_imp_le_length)
qed

lemma value_within_byte:
  assumes m: "\<And>k. bit (m :: 'a::len word) k \<longleftrightarrow> k < rest \<and> S ! k"
    and n: "n < rest" "rest \<le> length S"
  shows "m AND mask n = word_of_bits (take n S)"
proof (rule bit_word_eqI)
  fix k
  assume "k < LENGTH('a)"
  then show "bit (m AND mask n) k = bit (word_of_bits (take n S) :: 'a word) k"
    using n by (auto simp: bit_word_of_bits bit_and_mask m)
qed

lemma value_across_bytes:
  assumes m: "\<And>k. bit (m :: 'a::len word) k \<longleftrightarrow> k < rest \<and> S ! k"
    and l: "\<And>j. j < LENGTH('a) - rest \<Longrightarrow> bit l j \<longleftrightarrow> j < q \<and> S ! (rest + j)"
    and p: "p = rest + q" "p \<le> length S" "p \<le> LENGTH('a)"
  shows "m XOR push_bit rest l = word_of_bits (take p S)"
proof (rule bit_word_eqI)
  fix k
  assume k: "k < LENGTH('a)"
  show "bit (m XOR push_bit rest l) k = bit (word_of_bits (take p S) :: 'a word) k"
    using p k l [of "k - rest"] by (auto simp: bit_word_of_bits bit_xor_iff bit_push_bit_iff m)
qed

lemma ur_bsr8_any_wf: "bsr_wf r \<Longrightarrow> bsr_wf (snd (ur_bsr8_any r n))"
  by (auto simp: ur_bsr8_any_def Let_def bsr_wf_def ur_bsr_sane_def split: if_splits)

lemma ur_bsr8_any_bits: "bsr_bits (snd (ur_bsr8_any r n)) = (bsr_bits r + min 8 n) mod 2 ^ 64"
  by (simp add: ur_bsr8_any_def Let_def)

lemma ur_bsr8_any_stream:
  assumes "bsr_wf r"
  shows "bsr_stream (snd (ur_bsr8_any r n)) = drop (min 8 n) (bsr_stream r)"
proof -
  note off = bsr_wfD [OF assms]
  consider "bsr_left r = 0" | "bsr_left r \<noteq> 0" "min 8 n < 8 - bsr_off r"
    | "bsr_left r = 1" "\<not> min 8 n < 8 - bsr_off r"
    | "1 < bsr_left r" "\<not> min 8 n < 8 - bsr_off r" by linarith
  then show ?thesis
  proof cases
    case 1
    then show ?thesis using assms bsr_stream_Nil_iff [OF assms]
      by (simp add: ur_bsr8_any_def)
  next
    case 2
    then show ?thesis
      by (intro bsr_stream_move [where k = 0]) (auto simp: ur_bsr8_any_def Let_def)
  next
    case 3
    then show ?thesis using assms off
      by (intro bsr_stream_done) (auto simp: ur_bsr8_any_def Let_def)
  next
    case 4
    then show ?thesis using off
      by (intro bsr_stream_move [where k = 1]) (auto simp: ur_bsr8_any_def Let_def)
  qed
qed

lemma ur_bsr8_any_value:
  assumes "bsr_wf r"
  shows "fst (ur_bsr8_any r n) = word_of_bits (take (min 8 n) (bsr_stream r))"
proof (cases "bsr_left r = 0")
  case True
  then show ?thesis using bsr_stream_Nil_iff [OF assms] by (simp add: ur_bsr8_any_def)
next
  case left: False
  note off = bsr_wfD [OF assms] and len = length_bsr_stream [OF assms]
  let ?m = "drop_bit (bsr_off r) (bsr_bytes r ! 0)"
  have first: "bit ?m k \<longleftrightarrow> k < 8 - bsr_off r \<and> bsr_stream r ! k" for k
    using bit_first_byte [OF assms left, where 'a = 8] by simp
  consider "min 8 n < 8 - bsr_off r" | "bsr_left r = 1" "\<not> min 8 n < 8 - bsr_off r"
    | "1 < bsr_left r" "\<not> min 8 n < 8 - bsr_off r" using left by linarith
  then show ?thesis
  proof cases
    case 1
    then have "n < 8 - bsr_off r" "min 8 n = n" by auto
    with left off len show ?thesis
      by (simp add: ur_bsr8_any_def Let_def value_within_byte [OF first])
  next
    case 2
    then have "?m = word_of_bits (take (min 8 n) (bsr_stream r))"
      using off len by (intro bit_word_eqI) (auto simp: bit_word_of_bits first)
    with 2 show ?thesis by (simp add: ur_bsr8_any_def Let_def)
  next
    case 3
    have "bsr_stream r ! (8 - bsr_off r + j) = bytes_bits (bsr_bytes r) ! (8 * 1 + j)"
      if "j < 8" for j using that 3 off nth_bsr_stream [OF assms, of "8 - bsr_off r + j"] len
      by simp
    then have "?m XOR push_bit (8 - bsr_off r) (bsr_bytes r ! 1 AND mask (min 8 n - (8 - bsr_off r)))
        = word_of_bits (take (min 8 n) (bsr_stream r))"
      using 3 off len
      by (intro value_across_bytes [OF first, where q = "min 8 n - (8 - bsr_off r)"])
        (auto simp: bit_and_mask bit_byte)
    with 3 show ?thesis by (simp add: ur_bsr8_any_def Let_def)
  qed
qed

lemma bit_bsr_load:
  assumes "length b = left" "off < 8" "n < left \<or> n = left \<and> off = 0" "n \<noteq> tp"
    "j < LENGTH('a)"
  shows "bit (bsr_load tp n off b :: 'a::len word) j \<longleftrightarrow>
         j < 8 * n + off \<and> bytes_bits b ! j"
proof -
  have part: "bit (push_bit (8 * n) (ucast (b ! n AND mask off)) :: 'a word) j \<longleftrightarrow>
      8 * n \<le> j \<and> j < 8 * n + off \<and> bytes_bits b ! j"
  proof (cases "8 * n \<le> j \<and> j < 8 * n + off")
    case True
    then have "bit (b ! n) (j - 8 * n) = bytes_bits b ! j"
      using assms bit_byte [of n b "j - 8 * n"] by auto
    with True assms show ?thesis by (auto simp: bit_push_bit_iff bit_ucast_iff bit_and_mask)
  next
    case False
    then show ?thesis by (auto simp: bit_push_bit_iff bit_ucast_iff bit_and_mask)
  qed
  have load: "bit (le_load n b :: 'a word) j \<longleftrightarrow> j < 8 * n \<and> bytes_bits b ! j"
    using assms by (auto simp: bit_le_load)
  show ?thesis
  proof (cases "off = 0")
    case True
    then show ?thesis using load by (simp add: bsr_load_def)
  next
    case False
    then have "mask off \<noteq> (0 :: u8)"
      by simp
    with False assms(4) show ?thesis
      using load part by (auto simp: bsr_load_def bit_xor_iff)
  qed
qed

lemma bsr_word_step_wf:
  assumes "bsr_word_step r len left b = (k, off, r2)" "length b = left"
  shows "bsr_wf r2"
  using assms by (intro bsr_wfI) (auto simp: bsr_word_step_def Let_def split: if_splits)

lemma bsr_word_step_bits:
  "bsr_word_step r len left b = (k, off, r2) \<Longrightarrow> bsr_bits r2 = bsr_bits r"
  by (auto simp: bsr_word_step_def Let_def split: if_splits)

lemma bsr_word_step_stream:
  assumes "bsr_word_step r1 (n - (8 - bsr_off r)) (bsr_left r - 1) (drop 1 (bsr_bytes r)) = (k, off, r2)"
    and wf: "bsr_wf r" and "bsr_left r \<noteq> 0" "8 - bsr_off r \<le> n"
  shows "bsr_stream r2 = drop n (bsr_stream r)"
proof (cases "bsr_left r - 1 \<le> (n - (8 - bsr_off r)) div 8")
  case True
  then have "bsr_bytes r2 = []" using assms(1) by (auto simp: bsr_word_step_def Let_def)
  then show ?thesis using True wf assms(3,4) by (rule_tac bsr_stream_done) auto
next
  case False
  let ?q = "(n - (8 - bsr_off r)) div 8"
  have "bsr_bytes r2 = drop (Suc ?q) (bsr_bytes r)" "bsr_off r2 = (n - (8 - bsr_off r)) mod 8"
    using False assms(1) by (auto simp: bsr_word_step_def Let_def)
  moreover have "8 * Suc ?q + (n - (8 - bsr_off r)) mod 8 = bsr_off r + n"
    using assms(4) bsr_wfD(1) [OF wf] by simp
  ultimately show ?thesis by (intro bsr_stream_move) auto
qed

lemma bsr_word_step_load:
  assumes step: "bsr_word_step r1 (n - (8 - bsr_off r)) (bsr_left r - 1) (drop 1 (bsr_bytes r))
      = (k, off, r2)"
    and wf: "bsr_wf r" and left: "bsr_left r \<noteq> 0" and n: "8 - bsr_off r \<le> n" "n \<le> 8 * tp"
    and j: "j < LENGTH('a)"
  shows "bit (bsr_load tp k off (drop 1 (bsr_bytes r)) :: 'a::len word) j \<longleftrightarrow>
         j < min n (length (bsr_stream r)) - (8 - bsr_off r) \<and>
         bsr_stream r ! (8 - bsr_off r + j)"
proof -
  let ?b = "drop 1 (bsr_bytes r)" and ?d = "(n - (8 - bsr_off r)) div 8"
  note off = bsr_wfD [OF wf] and len = length_bsr_stream [OF wf]
  have d: "?d < tp" using n off by (simp add: less_mult_imp_div_less)
  have "off < 8 \<and> (k < bsr_left r - 1 \<or> k = bsr_left r - 1 \<and> off = 0) \<and> k < tp \<and>
        8 * k + off = min n (length (bsr_stream r)) - (8 - bsr_off r)"
  proof (cases "bsr_left r - 1 \<le> ?d")
    case True
    then have "k = bsr_left r - 1" "off = 0" using step by (auto simp: bsr_word_step_def Let_def)
    moreover have "length (bsr_stream r) \<le> n" using True n left len by linarith
    ultimately show ?thesis using True d len left off(1) by (auto simp: diff_mult_distrib2)
  next
    case False
    then have "k = ?d" "off = (n - (8 - bsr_off r)) mod 8"
      using step by (auto simp: bsr_word_step_def Let_def)
    moreover have "n \<le> length (bsr_stream r)" using False n left len off(1) by linarith
    ultimately show ?thesis using False d by simp
  qed
  then have k: "off < 8" "k < bsr_left r - 1 \<or> k = bsr_left r - 1 \<and> off = 0" "k \<noteq> tp"
    and sum: "8 * k + off = min n (length (bsr_stream r)) - (8 - bsr_off r)"
    by auto
  have bits: "bytes_bits ?b ! j = bsr_stream r ! (8 - bsr_off r + j)"
    if "j < 8 * k + off"
    using that sum off left nth_bsr_stream [OF wf, of "8 - bsr_off r + j"]
    by (auto simp: drop_bytes_bits)
  show ?thesis
    using bit_bsr_load [where 'a = 'a, of ?b "bsr_left r - 1" off k tp j] k off j sum bits by auto
qed

lemma ur_bsr32_any_bits: "bsr_bits (snd (ur_bsr32_any r n)) = (bsr_bits r + min 32 n) mod 2 ^ 64"
  by (auto simp: ur_bsr32_any_def Let_def bsr_word_step_bits split: prod.splits)

lemma ur_bsr64_any_bits: "bsr_bits (snd (ur_bsr64_any r n)) = (bsr_bits r + min 64 n) mod 2 ^ 64"
  by (auto simp: ur_bsr64_any_def Let_def bsr_word_step_bits split: prod.splits)

lemma bsr_advance_off_wf: "bsr_wf r \<Longrightarrow> n < 8 - bsr_off r \<Longrightarrow> bsr_left r \<noteq> 0 \<Longrightarrow>
  bsr_wf (bsr_tick m r\<lparr>bsr_off := bsr_off r + n\<rparr>)"
  by (rule bsr_wfI) (auto simp: bsr_wfD)

lemma ur_bsr32_any_wf: "bsr_wf r \<Longrightarrow> bsr_wf (snd (ur_bsr32_any r n))"
  by (auto simp: ur_bsr32_any_def Let_def bsr_advance_off_wf bsr_wfD
      intro: bsr_word_step_wf split: prod.splits)

lemma ur_bsr64_any_wf: "bsr_wf r \<Longrightarrow> bsr_wf (snd (ur_bsr64_any r n))"
  by (auto simp: ur_bsr64_any_def Let_def bsr_advance_off_wf bsr_wfD
      intro: bsr_word_step_wf split: prod.splits)

lemma any_read_stream:
  assumes wf: "bsr_wf r" and left: "bsr_left r \<noteq> 0" and n: "n < 8 - bsr_off r"
  shows "bsr_stream (bsr_tick m r\<lparr>bsr_off := bsr_off r + n\<rparr>) = drop n (bsr_stream r)"
  by (rule bsr_stream_move [where k = 0]) simp_all

lemma ur_bsr32_any_stream:
  assumes wf: "bsr_wf r"
  shows "bsr_stream (snd (ur_bsr32_any r n)) = drop (min 32 n) (bsr_stream r)"
proof (cases "bsr_left r = 0")
  case True
  then show ?thesis using bsr_stream_Nil_iff [OF wf] by (simp add: ur_bsr32_any_def)
next
  case left: False
  show ?thesis
  proof (cases "n < 8 - bsr_off r")
    case True
    then have "min 32 n = n" by simp
    with True left show ?thesis using any_read_stream [OF wf left True]
      by (simp add: ur_bsr32_any_def Let_def)
  next
    case False
    then have *: "8 - bsr_off r \<le> min 32 n" by simp
    then show ?thesis using left bsr_word_step_stream [OF _ wf left *]
      by (auto simp: ur_bsr32_any_def Let_def split: prod.splits)
  qed
qed

lemma ur_bsr64_any_stream:
  assumes wf: "bsr_wf r"
  shows "bsr_stream (snd (ur_bsr64_any r n)) = drop (min 64 n) (bsr_stream r)"
proof (cases "bsr_left r = 0")
  case True
  then show ?thesis using bsr_stream_Nil_iff [OF wf] by (simp add: ur_bsr64_any_def)
next
  case left: False
  show ?thesis
  proof (cases "n < 8 - bsr_off r")
    case True
    then have "min 64 n = n" by simp
    with True left show ?thesis using any_read_stream [OF wf left True]
      by (simp add: ur_bsr64_any_def Let_def)
  next
    case False
    then have *: "8 - bsr_off r \<le> min 64 n" by simp
    then show ?thesis using left bsr_word_step_stream [OF _ wf left *]
      by (auto simp: ur_bsr64_any_def Let_def split: prod.splits)
  qed
qed

lemma bsr_word_step_value:
  assumes step: "bsr_word_step r1 (n - (8 - bsr_off r)) (bsr_left r - 1) (drop 1 (bsr_bytes r))
      = (k, off, r2)"
    and wf: "bsr_wf r" and left: "bsr_left r \<noteq> 0" and n: "8 - bsr_off r \<le> n" "n \<le> 8 * tp"
    and w: "n \<le> LENGTH('a)" "8 \<le> LENGTH('a)"
  shows "ucast (drop_bit (bsr_off r) (bsr_bytes r ! 0))
           XOR push_bit (8 - bsr_off r) (bsr_load tp k off (drop 1 (bsr_bytes r)))
         = (word_of_bits (take n (bsr_stream r)) :: 'a::len word)"
proof -
  let ?p = "min n (length (bsr_stream r))"
  have rest: "8 - bsr_off r \<le> length (bsr_stream r)"
    using left by (simp add: length_bsr_stream [OF wf])
  have "ucast (drop_bit (bsr_off r) (bsr_bytes r ! 0))
           XOR push_bit (8 - bsr_off r) (bsr_load tp k off (drop 1 (bsr_bytes r)))
        = (word_of_bits (take ?p (bsr_stream r)) :: 'a word)"
  proof (rule value_across_bytes [OF bit_first_byte [OF wf left w(2)]])
    show "bit (bsr_load tp k off (drop 1 (bsr_bytes r)) :: 'a word) j \<longleftrightarrow>
        j < ?p - (8 - bsr_off r) \<and> bsr_stream r ! (8 - bsr_off r + j)"
      if "j < LENGTH('a) - (8 - bsr_off r)" for j
      using that by (intro bsr_word_step_load [OF step wf left n]) simp
  qed (use n w rest in auto)
  then show ?thesis by (simp add: min_def split: if_splits)
qed

lemma ur_bsr32_any_value:
  assumes wf: "bsr_wf r"
  shows "fst (ur_bsr32_any r n) = word_of_bits (take (min 32 n) (bsr_stream r))"
proof (cases "bsr_left r = 0")
  case True
  then show ?thesis using bsr_stream_Nil_iff [OF wf] by (simp add: ur_bsr32_any_def)
next
  case left: False
  have first: "bit (ucast (drop_bit (bsr_off r) (bsr_bytes r ! 0)) :: u32) k \<longleftrightarrow>
      k < 8 - bsr_off r \<and> bsr_stream r ! k" for k
    by (rule bit_first_byte [OF wf left]) simp
  show ?thesis
  proof (cases "n < 8 - bsr_off r")
    case True
    moreover from True have "min 32 n = n" by simp
    moreover have "8 - bsr_off r \<le> length (bsr_stream r)"
      using left by (simp add: length_bsr_stream [OF wf])
    ultimately show ?thesis using left value_within_byte [OF first True]
      by (simp add: ur_bsr32_any_def Let_def)
  next
    case False
    then have "8 - bsr_off r \<le> min 32 n" by simp
    then show ?thesis
      using left bsr_word_step_value [where tp = 4 and 'a = 32, OF _ wf left]
      by (auto simp: ur_bsr32_any_def Let_def split: prod.splits)
  qed
qed

lemma ur_bsr64_any_value:
  assumes wf: "bsr_wf r"
  shows "fst (ur_bsr64_any r n) = word_of_bits (take (min 64 n) (bsr_stream r))"
proof (cases "bsr_left r = 0")
  case True
  then show ?thesis using bsr_stream_Nil_iff [OF wf] by (simp add: ur_bsr64_any_def)
next
  case left: False
  have first: "bit (ucast (drop_bit (bsr_off r) (bsr_bytes r ! 0)) :: u64) k \<longleftrightarrow>
      k < 8 - bsr_off r \<and> bsr_stream r ! k" for k
    by (rule bit_first_byte [OF wf left]) simp
  show ?thesis
  proof (cases "n < 8 - bsr_off r")
    case True
    moreover from True have "min 64 n = n" by simp
    moreover have "8 - bsr_off r \<le> length (bsr_stream r)"
      using left by (simp add: length_bsr_stream [OF wf])
    ultimately show ?thesis using left value_within_byte [OF first True]
      by (simp add: ur_bsr64_any_def Let_def)
  next
    case False
    then have "8 - bsr_off r \<le> min 64 n" by simp
    then show ?thesis
      using left bsr_word_step_value [where tp = 8 and 'a = 64, OF _ wf left]
      by (auto simp: ur_bsr64_any_def Let_def split: prod.splits)
  qed
qed

interpretation r8: any_reader ur_bsr8_any 8
  by unfold_locales
    (simp_all add: ur_bsr8_any_wf ur_bsr8_any_stream ur_bsr8_any_value ur_bsr8_any_bits)

interpretation r32: any_reader ur_bsr32_any 32
  by unfold_locales
    (simp_all add: ur_bsr32_any_wf ur_bsr32_any_stream ur_bsr32_any_value ur_bsr32_any_bits)

interpretation r64: any_reader ur_bsr64_any 64
  by unfold_locales
    (simp_all add: ur_bsr64_any_wf ur_bsr64_any_stream ur_bsr64_any_value ur_bsr64_any_bits)

section \<open>Single bits\<close>

lemma and_1_eq: "w AND 1 = of_bool (bit w 0)" for w :: "'a::len word"
  by (rule bit_word_eqI) (auto simp: bit_and_iff bit_1_iff bit_of_bool_iff)

lemma first_bit:
  assumes "bsr_wf r" "bsr_left r \<noteq> 0"
  shows "drop_bit (bsr_off r) (bsr_bytes r ! 0) AND 1 = of_bool (bsr_stream r ! 0)"
  using bit_first_byte [OF assms, where 'a = 8 and k = 0] bsr_wfD(1) [OF assms(1)]
  by (simp add: and_1_eq)

lemma bsr_step_bit_wf: "bsr_wf r \<Longrightarrow> bsr_left r \<noteq> 0 \<Longrightarrow> bsr_wf (bsr_step_bit r)"
  by (intro bsr_wfI) (auto simp: bsr_step_bit_def Let_def dest: bsr_wfD)

lemma bsr_step_bit_stream:
  assumes "bsr_wf r" "bsr_left r \<noteq> 0"
  shows "bsr_stream (bsr_step_bit r) = drop 1 (bsr_stream r)"
proof -
  note off = bsr_wfD [OF assms(1)]
  consider "bsr_off r \<noteq> 7" | "bsr_off r = 7" "bsr_left r = 1" | "bsr_off r = 7" "1 < bsr_left r"
    using assms(2) by linarith
  then show ?thesis
  proof cases
    case 1
    then show ?thesis by (intro bsr_stream_move [where k = 0]) (auto simp: bsr_step_bit_def)
  next
    case 2
    then show ?thesis using assms
      by (intro bsr_stream_done) (auto simp: bsr_step_bit_def Let_def)
  next
    case 3
    then show ?thesis by (intro bsr_stream_move [where k = 1]) (auto simp: bsr_step_bit_def Let_def)
  qed
qed

lemma bsr_step_bit_bits [simp]: "bsr_bits (bsr_step_bit r) = bsr_bits r"
  by (simp add: bsr_step_bit_def Let_def)

lemma ur_bsr_bit_spec:
  assumes "bsr_wf r"
  shows "fst (ur_bsr_bit r) =
           (case bsr_stream r of [] \<Rightarrow> Inl cue_gone | b # _ \<Rightarrow> Inr (of_bool b))"
    and "bsr_stream (snd (ur_bsr_bit r)) = drop 1 (bsr_stream r)"
    and "bsr_wf (snd (ur_bsr_bit r))"
proof -
  have empty: "bsr_left r = 0 \<longleftrightarrow> bsr_stream r = []" using bsr_stream_Nil_iff [OF assms] by simp
  show "fst (ur_bsr_bit r) =
           (case bsr_stream r of [] \<Rightarrow> Inl cue_gone | b # _ \<Rightarrow> Inr (of_bool b))"
    using empty first_bit [OF assms]
    by (auto simp: ur_bsr_bit_def Let_def split: list.splits)
  show "bsr_stream (snd (ur_bsr_bit r)) = drop 1 (bsr_stream r)"
    using empty bsr_step_bit_stream [OF assms] by (auto simp: ur_bsr_bit_def Let_def)
  show "bsr_wf (snd (ur_bsr_bit r))"
    using assms bsr_step_bit_wf [OF assms] by (auto simp: ur_bsr_bit_def Let_def)
qed

text \<open>The two bit readers differ only where the stream has ended.\<close>

lemma ur_bsr_bit_any_eq:
  assumes "bsr_left r \<noteq> 0"
  shows "ur_bsr_bit r = (Inr (fst (ur_bsr_bit_any r)), snd (ur_bsr_bit_any r))"
  using assms
  by (simp add: ur_bsr_bit_def ur_bsr_bit_any_def Let_def bsr_tick_def bsr_step_bit_def)

section \<open>Byte arrays\<close>

text \<open>
  The single-byte counter of \<open>bits_of_last\<close> is exact for reads that end less than 256
  bits past the start of the last byte.
\<close>

definition bsr_no_wrap :: "bsr \<Rightarrow> nat \<Rightarrow> bool" where
  "bsr_no_wrap r len \<longleftrightarrow> len < 8 * (bsr_left r - 1) + 256"

lemma bits_of_last_exact:
  "lst * 8 \<le> len \<Longrightarrow> len < 8 * lst + 256 \<Longrightarrow> bits_of_last len lst = len - lst * 8"
  by (simp add: bits_of_last_def nat_eq_iff)

lemma ceil_div: "n div 8 + of_bool (n mod 8 \<noteq> 0) = (n + 7) div (8 :: nat)"
  by (cases "n mod 8 = 0") (simp_all, presburger+)

lemma less_byte_iff:
  fixes n q j :: nat
  assumes "j < 8"
  shows "8 * q + j < n \<longleftrightarrow> q < n div 8 \<or> q = n div 8 \<and> j < n mod 8"
proof -
  obtain a c where n: "n = 8 * a + c" "c < 8" by (metis mod_less_divisor mult_div_mod_eq zero_less_numeral)
  then have "n div 8 = a" "n mod 8 = c" by auto
  then show ?thesis using n assms by auto
qed

lemma byte_low:
  assumes wf: "bsr_wf r" and q: "q < bsr_left r" "j < 8"
  shows "bit (drop_bit (bsr_off r) (bsr_bytes r ! q)) j \<longleftrightarrow>
         j < 8 - bsr_off r \<and> bsr_stream r ! (8 * q + j)"
proof (cases "bsr_off r + j < 8")
  case True
  then have "8 * q + j < length (bsr_stream r)"
    using q by (simp add: length_bsr_stream [OF wf])
  then have "bsr_stream r ! (8 * q + j) = bytes_bits (bsr_bytes r) ! (8 * q + (bsr_off r + j))"
    by (simp add: nth_bsr_stream [OF wf] ac_simps)
  also have "\<dots> = bit (bsr_bytes r ! q) (bsr_off r + j)"
    using True q bsr_wfD [OF wf] by (intro bit_byte [symmetric]) auto
  finally show ?thesis using True by (auto simp: bit_drop_bit_eq)
next
  case False
  then show ?thesis by (auto simp: bit_drop_bit_eq dest: bit_imp_le_length)
qed

lemma byte_high:
  assumes wf: "bsr_wf r" and q: "q + 1 < bsr_left r" "j < 8"
  shows "bit (push_bit (8 - bsr_off r) (bsr_bytes r ! (q + 1))) j \<longleftrightarrow>
         8 - bsr_off r \<le> j \<and> bsr_stream r ! (8 * q + j)"
proof (cases "8 - bsr_off r \<le> j")
  case True
  note off = bsr_wfD [OF wf]
  have "8 * q + j < length (bsr_stream r)"
    using q off by (simp add: length_bsr_stream [OF wf])
  then have "bsr_stream r ! (8 * q + j) = bytes_bits (bsr_bytes r) ! (bsr_off r + (8 * q + j))"
    by (simp add: nth_bsr_stream [OF wf])
  also have "bsr_off r + (8 * q + j) = 8 * (q + 1) + (j - (8 - bsr_off r))"
    using True off by simp
  also have "bytes_bits (bsr_bytes r) ! \<dots> = bit (bsr_bytes r ! (q + 1)) (j - (8 - bsr_off r))"
    using q off by (intro bit_byte [symmetric]) auto
  finally show ?thesis using True q by (auto simp: bit_push_bit_iff)
next
  case False
  then show ?thesis by (auto simp: bit_push_bit_iff)
qed

lemma byte_pair:
  assumes "bsr_wf r" "q + 1 < bsr_left r" "j < 8"
  shows "bit (drop_bit (bsr_off r) (bsr_bytes r ! q) XOR
              push_bit (8 - bsr_off r) (bsr_bytes r ! (q + 1))) j \<longleftrightarrow> bsr_stream r ! (8 * q + j)"
  using byte_low [of r q j] byte_high [of r q j] assms by (auto simp: bit_xor_iff)


text \<open>
  What \<open>ur_bsr_bytes_any\<close> leaves in byte \<open>q\<close> of a zero-initialized array: the bits of
  the stream that were asked for and exist.
\<close>

lemma bit_bytes_any_aligned:
  assumes wf: "bsr_wf r" and off: "bsr_off r = 0"
    and out: "out = replicate k 0" "len \<le> 8 * k" and q: "q < k" "j < 8"
  shows "bit (fst (ur_bsr_bytes_any r len out) ! q) j \<longleftrightarrow>
         8 * q + j < len \<and> 8 * q + j < length (bsr_stream r) \<and> bsr_stream r ! (8 * q + j)"
proof -
  let ?b = "bsr_bytes r" and ?left = "bsr_left r"
  have S: "length (bsr_stream r) = 8 * ?left" and lb: "length ?b = ?left"
    using off bsr_wfD [OF wf] by (simp_all add: length_bsr_stream [OF wf])
  have byte: "bit (?b ! q) j \<longleftrightarrow> bsr_stream r ! (8 * q + j)" if "q < ?left"
    using byte_low [OF wf that q(2)] q(2) off by simp
  have inb: "8 * q + j < 8 * ?left \<longleftrightarrow> q < ?left" using q(2) by linarith
  show ?thesis
  proof (cases "?left = 0")
    case True
    then show ?thesis using out q S by (simp add: ur_bsr_bytes_any_def)
  next
    case left: False
    show ?thesis
    proof (cases "?left < (len + 7) div 8")
      case True
      then have "8 * q + j < len" if "q < ?left" using that q(2) by linarith
      moreover have "?left \<le> k" using True out(2) by linarith
      ultimately show ?thesis
        using True left off out q lb S inb byte
        by (auto simp: ur_bsr_bytes_any_def Let_def ceil_div nth_memcpy_at)
    next
      case False
      then have le: "len div 8 \<le> ?left" "len div 8 \<le> k" using out(2) by linarith+
      note less_byte_iff [OF q(2), of q len]
      moreover have "q < ?left" if "q = len div 8" "len mod 8 \<noteq> 0"
        using False that ceil_div [of len] by simp
      ultimately show ?thesis
        using False left off out q lb S inb byte le
        by (auto simp: ur_bsr_bytes_any_def Let_def ceil_div nth_memcpy_at nth_list_update
            bit_and_mask)
    qed
  qed
qed

lemma bytes_any_cases:
  fixes off :: nat
  assumes "0 < left" "off < 8"
  obtains (last) "left \<le> len div 8 + of_bool (len mod 8 \<noteq> 0)" "len div 8 = left - 1" "0 < len mod 8" "len mod 8 < 8 - off"
      "len = 8 * (left - 1) + len mod 8"
    | (past) "left \<le> len div 8 + of_bool (len mod 8 \<noteq> 0)" "8 * (left - 1) + (8 - off) \<le> len"
    | (within) "len div 8 + of_bool (len mod 8 \<noteq> 0) < left"
proof -
  obtain a c where n: "len = 8 * a + c" "c < 8"
    by (metis mod_less_divisor mult_div_mod_eq zero_less_numeral)
  then have d: "len div 8 = a" "len mod 8 = c" by auto
  consider "a + of_bool (c \<noteq> 0) < left" | "left \<le> a + of_bool (c \<noteq> 0)" "a = left - 1" "c < 8 - off"
    | "left \<le> a + of_bool (c \<noteq> 0)" "a = left - 1" "8 - off \<le> c" | "left \<le> a"
    using assms(1) by (cases "c = 0") force+
  then show ?thesis
  proof cases
    case 1 then show ?thesis using d within by simp
  next
    case 2 then show ?thesis using d n assms(1) last by (cases "c = 0") simp_all
  next
    case 3 then show ?thesis using d n past by simp
  next
    case 4 then show ?thesis using d n assms past by simp
  qed
qed

lemma wrap_mod_8: "off < 8 \<Longrightarrow> c < 8 \<Longrightarrow> 8 - off < c \<Longrightarrow> (off + c) mod 8 = c - (8 - off)" for c :: nat
  using mod_nat_eqI [of "c - (8 - off)" 8 "off + c"] by simp

lemma carry_div_8: "8 * (n div 8 + (off + n mod 8) div 8) + (off + n mod 8) mod 8 = off + (n :: nat)"
  unfolding distrib_left add.assoc by (simp only: mult_div_mod_eq add.left_commute)

lemma bit_bytes_any_unaligned:
  assumes wf: "bsr_wf r" and off: "bsr_off r \<noteq> 0" and nw: "bsr_no_wrap r len"
    and out: "out = replicate k 0" "len \<le> 8 * k" and q: "q < k" "j < 8"
  shows "bit (fst (ur_bsr_bytes_any r len out) ! q) j \<longleftrightarrow>
         8 * q + j < len \<and> 8 * q + j < length (bsr_stream r) \<and> bsr_stream r ! (8 * q + j)"
proof -
  let ?b = "bsr_bytes r" and ?left = "bsr_left r" and ?rest = "8 - bsr_off r"
  let ?mx = "min (?left - 1) (len div 8)"
  let ?f = "\<lambda>i. drop_bit (bsr_off r) (?b ! i) XOR push_bit ?rest (?b ! (i + 1))"
  note o = bsr_wfD [OF wf]
  have left: "0 < ?left" using off o by auto
  have S: "length (bsr_stream r) = 8 * (?left - 1) + ?rest"
    using left o(1) by (simp add: length_bsr_stream [OF wf])
  note lt = less_byte_iff [OF q(2), of q len] less_byte_iff [OF q(2), of q "length (bsr_stream r)"]
  have Sdiv: "length (bsr_stream r) div 8 = ?left - 1" "length (bsr_stream r) mod 8 = ?rest"
    using S off by simp_all
  have loop: "store_loop 0 ?f ?mx out ! q = (if q < ?mx then ?f q else 0)"
    using out q by (subst nth_store_loop) auto
  have pair: "bit (?f q) j \<longleftrightarrow> bsr_stream r ! (8 * q + j)" if "q < ?mx"
    using that by (intro byte_pair [OF wf _ q(2)]) auto
  have low: "bit (drop_bit (bsr_off r) (drop ?mx ?b ! 0)) j \<longleftrightarrow>
      j < ?rest \<and> bsr_stream r ! (8 * ?mx + j)"
    using byte_low [OF wf _ q(2), of ?mx] left o by simp
  from left o(1) show ?thesis
  proof (cases rule: bytes_any_cases [of ?left "bsr_off r" len])
    case last
    have lst: "bits_of_last len (?left - 1) < ?rest"
    proof -
      have "(?left - 1) * 8 \<le> len" "len - (?left - 1) * 8 = len mod 8" using last(5) by linarith+
      then show ?thesis using nw last(4) by (simp add: bits_of_last_exact bsr_no_wrap_def)
    qed
    have val: "fst (ur_bsr_bytes_any r len out) = (store_loop 0 ?f ?mx out)
        [?mx := drop_bit (bsr_off r) (drop ?mx ?b ! 0) AND mask (len mod 8)]"
      using last(1,3) lst left off by (simp add: ur_bsr_bytes_any_def Let_def)
    have mx: "?mx = ?left - 1" using last(2) by simp
    have lo: "bit (drop_bit (bsr_off r) (drop (?left - 1) ?b ! 0) AND mask (len mod 8)) j \<longleftrightarrow>
        j < len mod 8 \<and> bsr_stream r ! (8 * (?left - 1) + j)"
      using low [unfolded mx] last(4) by (auto simp: bit_and_mask)
    have v: "fst (ur_bsr_bytes_any r len out) ! q =
        (if q = ?left - 1 then drop_bit (bsr_off r) (drop (?left - 1) ?b ! 0) AND mask (len mod 8)
         else store_loop 0 ?f (?left - 1) out ! q)"
      using out(1) q(1) unfolding val mx by (simp add: nth_list_update)
    have a: "8 * q + j < len \<longleftrightarrow> q < ?left - 1 \<or> q = ?left - 1 \<and> j < len mod 8"
      using lt(1) last(2) by simp
    have b: "8 * q + j < length (bsr_stream r) \<longleftrightarrow> q < ?left - 1 \<or> q = ?left - 1 \<and> j < ?rest"
      using lt(2) Sdiv by simp
    show ?thesis
      unfolding v a b using lo last(4) loop [unfolded mx] pair [unfolded mx] by auto
  next
    case past
    then have lst: "\<not> bits_of_last len (?left - 1) < ?rest" "?left - 1 \<le> len div 8"
      using nw left by (simp_all add: bits_of_last_exact bsr_no_wrap_def)
    have val: "fst (ur_bsr_bytes_any r len out) = (store_loop 0 ?f ?mx out)
        [?mx := drop_bit (bsr_off r) (drop ?mx ?b ! 0)]"
      using past(1) lst left off by (simp add: ur_bsr_bytes_any_def Let_def)
    have le: "length (bsr_stream r) \<le> len" using past(2) S left by linarith
    have mx: "?mx = ?left - 1" using lst(2) by simp
    have v: "fst (ur_bsr_bytes_any r len out) ! q =
        (if q = ?left - 1 then drop_bit (bsr_off r) (drop (?left - 1) ?b ! 0)
         else store_loop 0 ?f (?left - 1) out ! q)"
      using out(1) q(1) unfolding val mx by (simp add: nth_list_update)
    have b: "8 * q + j < length (bsr_stream r) \<longleftrightarrow> q < ?left - 1 \<or> q = ?left - 1 \<and> j < ?rest"
      using lt(2) Sdiv by simp
    have a: "8 * q + j < len" if "8 * q + j < length (bsr_stream r)" using that le by simp
    show ?thesis
      unfolding v using a b low [unfolded mx] loop [unfolded mx] pair [unfolded mx] by auto
  next
    case within
    have le: "len \<le> length (bsr_stream r)"
      using within [unfolded ceil_div] S o(1) by linarith
    from within have mx: "?mx = len div 8" "len div 8 < ?left - 1 \<or> len mod 8 = 0"
      using S by (auto split: if_splits)
    have le_len: "8 * q + j < length (bsr_stream r)" if "8 * q + j < len" using that le by simp
    have nxt: "bit (push_bit ?rest (drop ?mx ?b ! 1 AND mask ((bsr_off r + len mod 8) mod 8))) j
        \<longleftrightarrow> ?rest \<le> j \<and> bsr_stream r ! (8 * ?mx + j)"
      if "?rest < len mod 8" "j < len mod 8"
    proof -
      have "?mx + 1 < ?left" using mx that(1) by auto
      from byte_high [OF wf this q(2)] have hi:
        "bit (push_bit ?rest (drop ?mx ?b ! 1)) j \<longleftrightarrow> ?rest \<le> j \<and> bsr_stream r ! (8 * ?mx + j)"
        using o left by simp
      have m: "(bsr_off r + len mod 8) mod 8 = len mod 8 - ?rest"
        using that(1) o(1) by (intro wrap_mod_8) simp_all
      have "bit (push_bit ?rest (y AND mask (len mod 8 - ?rest))) j = bit (push_bit ?rest y) j"
        for y :: u8 using that by (auto simp: bit_simps)
      then show ?thesis unfolding m using hi by blast
    qed
    show ?thesis
    proof (cases "len mod 8 = 0")
      case True
      then have "fst (ur_bsr_bytes_any r len out) = store_loop 0 ?f ?mx out"
        using within left off mx by (simp add: ur_bsr_bytes_any_def Let_def)
      moreover have "8 * q + j < len \<longleftrightarrow> q < len div 8" using lt(1) True by simp
      ultimately show ?thesis using le_len loop [unfolded mx(1)] pair [unfolded mx(1)] mx(1) by auto
    next
      case False
      define v where "v = (if len mod 8 \<le> ?rest
          then drop_bit (bsr_off r) (drop ?mx ?b ! 0) AND mask (len mod 8)
          else (drop_bit (bsr_off r) (drop ?mx ?b ! 0) XOR
                push_bit ?rest (drop ?mx ?b ! 1 AND mask ((bsr_off r + len mod 8) mod 8)))
               AND mask (len mod 8))"
      have val: "fst (ur_bsr_bytes_any r len out) = (store_loop 0 ?f ?mx out)[?mx := v]"
        using False within left off by (simp add: ur_bsr_bytes_any_def Let_def v_def)
      have vj: "bit v j \<longleftrightarrow> j < len mod 8 \<and> bsr_stream r ! (8 * (len div 8) + j)"
        using low nxt unfolding v_def mx(1) by (auto simp: bit_and_mask bit_xor_iff)
      have vq: "fst (ur_bsr_bytes_any r len out) ! q =
          (if q = len div 8 then v else store_loop 0 ?f (len div 8) out ! q)"
        using out(1) q(1) unfolding val mx(1) by (simp add: nth_list_update)
      show ?thesis
        unfolding vq using lt(1) le_len vj loop [unfolded mx(1)] pair [unfolded mx(1)] by auto
    qed
  qed
qed

lemma length_ur_bsr_bytes_any:
  assumes wf: "bsr_wf r" and out: "len \<le> 8 * length out"
  shows "length (fst (ur_bsr_bytes_any r len out)) = length out"
proof -
  have "min (bsr_left r) (length (bsr_bytes r)) \<le> length out" if "bsr_left r < (len + 7) div 8"
    using that out bsr_wfD(2) [OF wf] by linarith
  moreover have "min (len div 8) (length (bsr_bytes r)) \<le> length out"
    using out by linarith
  ultimately show ?thesis
    by (simp add: ur_bsr_bytes_any_def Let_def ceil_div split: if_splits)
qed

lemma ur_bsr_bytes_any_value:
  assumes wf: "bsr_wf r" and nw: "bsr_off r = 0 \<or> bsr_no_wrap r len" and k: "len \<le> 8 * k"
  shows "bytes_bits (fst (ur_bsr_bytes_any r len (replicate k 0))) =
         pad_take len (bsr_stream r) @ replicate (8 * k - len) False"
proof (rule nth_equalityI)
  show len: "length (bytes_bits (fst (ur_bsr_bytes_any r len (replicate k 0)))) =
      length (pad_take len (bsr_stream r) @ replicate (8 * k - len) False)"
    using k by (simp add: length_ur_bsr_bytes_any [OF wf])
  fix i
  assume i: "i < length (bytes_bits (fst (ur_bsr_bytes_any r len (replicate k 0))))"
  then have q: "i div 8 < k" "i mod 8 < 8" "i = 8 * (i div 8) + i mod 8"
    using k by (auto simp: length_ur_bsr_bytes_any [OF wf])
  have "bit (fst (ur_bsr_bytes_any r len (replicate k 0)) ! (i div 8)) (i mod 8) \<longleftrightarrow>
      i < len \<and> i < length (bsr_stream r) \<and> bsr_stream r ! i"
    using bit_bytes_any_aligned [OF wf _ refl k q(1,2)]
      bit_bytes_any_unaligned [OF wf _ _ refl k q(1,2)] nw q(3)
    by (cases "bsr_off r = 0") auto
  then show "bytes_bits (fst (ur_bsr_bytes_any r len (replicate k 0))) ! i =
      (pad_take len (bsr_stream r) @ replicate (8 * k - len) False) ! i"
    using i k by (auto simp: nth_bytes_bits nth_append length_ur_bsr_bytes_any [OF wf])
qed

lemma ur_bsr_skip_any_stream:
  assumes wf: "bsr_wf r" and nw: "bsr_no_wrap r len"
  shows "bsr_wf (ur_bsr_skip_any r len)"
    and "bsr_stream (ur_bsr_skip_any r len) = drop len (bsr_stream r)"
proof -
  let ?r = "ur_bsr_skip_any r len"
  note o = bsr_wfD [OF wf]
  have "bsr_wf ?r \<and> bsr_stream ?r = drop len (bsr_stream r)"
  proof (cases "bsr_left r = 0")
    case True
    then show ?thesis using wf bsr_stream_Nil_iff [OF wf] by (simp add: ur_bsr_skip_any_def)
  next
    case left: False
    then have pos: "0 < bsr_left r" by simp
    from pos o(1) show ?thesis
    proof (cases rule: bytes_any_cases [of "bsr_left r" "bsr_off r" len])
      case last
      have lst: "bits_of_last len (bsr_left r - 1) < 8 - bsr_off r"
      proof -
        have "(bsr_left r - 1) * 8 \<le> len" "len - (bsr_left r - 1) * 8 = len mod 8"
          using last(5) by linarith+
        then show ?thesis using nw last(4) by (simp add: bits_of_last_exact bsr_no_wrap_def)
      qed
      have r: "?r = bsr_tick len r\<lparr>bsr_bytes := drop (bsr_left r - 1) (bsr_bytes r),
            bsr_off := bsr_off r + len mod 8, bsr_left := 1\<rparr>"
        using lst last(1,2) left by (simp add: ur_bsr_skip_any_def Let_def)
      have "bsr_stream ?r = drop len (bsr_stream r)"
        using last(5) pos by (intro bsr_stream_move [where k = "bsr_left r - 1"]) (auto simp: r)
      moreover have "bsr_wf ?r" using last(4) o left by (intro bsr_wfI) (auto simp: r)
      ultimately show ?thesis by blast
    next
      case past
      then have lst: "\<not> bits_of_last len (bsr_left r - 1) < 8 - bsr_off r"
        using nw left by (auto simp: bits_of_last_exact bsr_no_wrap_def)
      have r: "?r = bsr_tick len r\<lparr>bsr_bytes := [], bsr_off := 0, bsr_left := 0\<rparr>"
        using lst past(1) left by (simp add: ur_bsr_skip_any_def Let_def)
      have "bsr_stream ?r = drop len (bsr_stream r)"
        using past(2) o left by (intro bsr_stream_done) (auto simp: r wf)
      moreover have "bsr_wf ?r" by (intro bsr_wfI) (auto simp: r)
      ultimately show ?thesis by blast
    next
      case within
      let ?step = "of_bool ((bsr_off r + len mod 8) div 8 \<noteq> 0) :: nat"
      have step: "?step = (bsr_off r + len mod 8) div 8" using o(1) by auto
      have small: "len div 8 + ?step < bsr_left r"
      proof -
        have "(bsr_off r + len mod 8) div 8 \<le> of_bool (len mod 8 \<noteq> 0)"
        proof (cases "len mod 8 = 0")
          case True
          then show ?thesis using o(1) by simp
        next
          case False
          have "len mod 8 < 8" by simp
          then have "(bsr_off r + len mod 8) div 8 \<le> 1" using o(1) by linarith
          then show ?thesis using False by simp
        qed
        then show ?thesis using within unfolding step by linarith
      qed
      have k: "Suc (min (bsr_left r - 1) (len div 8)) - (1 - ?step) = len div 8 + ?step"
        using small by auto
      have r: "?r = bsr_tick len r\<lparr>bsr_bytes := drop (len div 8 + ?step) (bsr_bytes r),
            bsr_off := (bsr_off r + len mod 8) mod 8,
            bsr_left := bsr_left r - (len div 8 + ?step)\<rparr>"
        using within left k by (simp add: ur_bsr_skip_any_def Let_def)
      have "8 * (len div 8 + ?step) + bsr_off ?r = bsr_off r + len"
        using carry_div_8 [of len "bsr_off r"] unfolding step by (simp add: r)
      then have "bsr_stream ?r = drop len (bsr_stream r)"
        by (intro bsr_stream_move [where k = "len div 8 + ?step"]) (auto simp: r)
      moreover have "bsr_wf ?r" using small o by (intro bsr_wfI) (auto simp: r)
      ultimately show ?thesis by blast
    qed
  qed
  then show "bsr_wf ?r" "bsr_stream ?r = drop len (bsr_stream r)" by auto
qed

section \<open>Tags\<close>

lemma stream_Cons_first:
  assumes "bsr_wf r" "bsr_left r \<noteq> 0"
  shows "bsr_stream r = bsr_stream r ! 0 # drop 1 (bsr_stream r)"
  using assms bsr_stream_Nil_iff [OF assms(1)] by (cases "bsr_stream r") auto

lemma second_bit:
  assumes wf: "bsr_wf r" and left: "bsr_left r \<noteq> 0" and not_last: "bsr_off r \<noteq> 7 \<or> bsr_left r \<noteq> 1"
  shows "(if bsr_off r = 7 then bsr_bytes r ! 1 AND 1
          else drop_bit (bsr_off r + 1) (bsr_bytes r ! 0) AND 1) = of_bool (bsr_stream r ! 1)"
    and "1 < length (bsr_stream r)"
proof -
  note o = bsr_wfD [OF wf]
  show len: "1 < length (bsr_stream r)"
    using left o not_last by (auto simp: length_bsr_stream [OF wf])
  show "(if bsr_off r = 7 then bsr_bytes r ! 1 AND 1
          else drop_bit (bsr_off r + 1) (bsr_bytes r ! 0) AND 1) = of_bool (bsr_stream r ! 1)"
  proof (cases "bsr_off r = 7")
    case True
    then have "bit (bsr_bytes r ! 1) 0 = bsr_stream r ! 1"
      using bit_byte [of 1 "bsr_bytes r" 0] o left not_last nth_bsr_stream [OF wf len] by simp
    then show ?thesis using True by (simp add: and_1_eq)
  next
    case False
    then have "bit (bsr_bytes r ! 0) (Suc (bsr_off r)) = bsr_stream r ! 1"
      using bit_byte [of 0 "bsr_bytes r" "Suc (bsr_off r)"] o left nth_bsr_stream [OF wf len] by simp
    then show ?thesis using False by (simp add: and_1_eq bit_drop_bit_eq)
  qed
qed

text \<open>Consuming one or two bits, as the tail of \<open>ur_bsr_tag\<close> does.\<close>

lemma tag_finish:
  assumes wf: "bsr_wf r" and left: "bsr_left r \<noteq> 0" and n: "n \<le> length (bsr_stream r)" "n \<le> 2"
    and r': "r' = (if bsr_left r - (bsr_off r + n) div 8 = 0
                   then r\<lparr>bsr_bytes := [], bsr_left := 0, bsr_off := 0\<rparr>
                   else r\<lparr>bsr_bytes := drop ((bsr_off r + n) div 8) (bsr_bytes r),
                          bsr_left := bsr_left r - (bsr_off r + n) div 8,
                          bsr_off := (bsr_off r + n) mod 8\<rparr>)"
  shows "bsr_wf r'" "bsr_stream r' = drop n (bsr_stream r)"
proof -
  note o = bsr_wfD [OF wf]
  show "bsr_wf r'" using o unfolding r' by (intro bsr_wfI) auto
  show "bsr_stream r' = drop n (bsr_stream r)"
  proof (cases "bsr_left r - (bsr_off r + n) div 8 = 0")
    case True
    then have "8 * bsr_left r \<le> bsr_off r + n" by linarith
    then show ?thesis using True wf unfolding r' by (intro bsr_stream_done) auto
  next
    case False
    then show ?thesis unfolding r'
      by (intro bsr_stream_move [where k = "(bsr_off r + n) div 8"]) auto
  qed
qed

lemma ur_bsr_tag_spec:
  assumes wf: "bsr_wf r"
  shows "bsr_wf (snd (ur_bsr_tag r))"
    and "(fst (ur_bsr_tag r), bsr_stream (snd (ur_bsr_tag r))) =
         (case bsr_stream r of
            [] \<Rightarrow> (Inl cue_gone, [])
          | False # bs \<Rightarrow> (Inr jam_atom, bs)
          | [True] \<Rightarrow> (Inl cue_gone, [])
          | True # False # bs \<Rightarrow> (Inr jam_cell, bs)
          | True # True # bs \<Rightarrow> (Inr jam_back, bs))"
proof -
  note o = bsr_wfD [OF wf]
  let ?S = "bsr_stream r"
  have "bsr_wf (snd (ur_bsr_tag r)) \<and> (fst (ur_bsr_tag r), bsr_stream (snd (ur_bsr_tag r))) =
         (case ?S of
            [] \<Rightarrow> (Inl cue_gone, [])
          | False # bs \<Rightarrow> (Inr jam_atom, bs)
          | [True] \<Rightarrow> (Inl cue_gone, [])
          | True # False # bs \<Rightarrow> (Inr jam_cell, bs)
          | True # True # bs \<Rightarrow> (Inr jam_back, bs))"
  proof (cases "bsr_left r = 0")
    case True
    then show ?thesis using bsr_stream_Nil_iff [OF wf] wf by (simp add: ur_bsr_tag_def)
  next
    case left: False
    have ne: "?S = ?S ! 0 # drop 1 ?S" "1 \<le> length ?S"
      using stream_Cons_first [OF wf left] left o by (simp_all add: length_bsr_stream [OF wf])
    show ?thesis
    proof (cases "?S ! 0")
      case False
      note fin = tag_finish [OF wf left ne(2) _ refl]
      obtain bs where bs: "?S = False # bs" using ne(1) False by metis
      then show ?thesis
        using False left fin first_bit [OF wf left] by (simp add: ur_bsr_tag_def Let_def)
    next
      case one: True
      show ?thesis
      proof (cases "bsr_off r = 7 \<and> bsr_left r = 1")
        case True
        then have "length ?S = 1" by (simp add: length_bsr_stream [OF wf])
        then have "?S = [True]" using ne(1) one by (cases ?S) auto
        moreover have "bsr_wf (bsr_set_gone r 1)" "bsr_stream (bsr_set_gone r 1) = []"
          by (auto simp: bsr_set_gone_def bsr_stream_def intro: bsr_wfI)
        ultimately show ?thesis
          using True one left first_bit [OF wf left] by (simp add: ur_bsr_tag_def Let_def)
      next
        case False
        then have nl: "bsr_off r \<noteq> 7 \<or> bsr_left r \<noteq> 1" by blast
        have two: "1 < length ?S" by (rule second_bit [OF wf left nl])
        note b = second_bit(1) [OF wf left nl]
        note fin = tag_finish [OF wf left, of 2, OF _ _ refl]
        obtain c bs where bs: "?S = True # c # bs" using ne(1) one two
          by (cases ?S; cases "tl ?S") auto
        have "fst (ur_bsr_tag r) = Inr (if c then jam_back else jam_cell)"
          using False left b bs first_bit [OF wf left]
          by (auto simp: ur_bsr_tag_def Let_def)
        moreover have "bsr_wf (snd (ur_bsr_tag r))" "bsr_stream (snd (ur_bsr_tag r)) = bs"
          using False left fin two bs first_bit [OF wf left]
          by (auto simp: ur_bsr_tag_def Let_def)
        ultimately show ?thesis using bs by (cases c) simp_all
      qed
    qed
  qed
  then show "bsr_wf (snd (ur_bsr_tag r))"
    and "(fst (ur_bsr_tag r), bsr_stream (snd (ur_bsr_tag r))) =
         (case ?S of
            [] \<Rightarrow> (Inl cue_gone, [])
          | False # bs \<Rightarrow> (Inr jam_atom, bs)
          | [True] \<Rightarrow> (Inl cue_gone, [])
          | True # False # bs \<Rightarrow> (Inr jam_cell, bs)
          | True # True # bs \<Rightarrow> (Inr jam_back, bs))" by blast+
qed

section \<open>Run lengths\<close>

definition zeros_of :: "bool list \<Rightarrow> nat" where
  "zeros_of bs = length (takeWhile Not bs)"

lemma zeros_of_le: "zeros_of bs \<le> length bs"
  by (simp add: zeros_of_def length_takeWhile_le)

lemma nth_zeros: "i < zeros_of bs \<Longrightarrow> \<not> bs ! i"
  using nth_mem [of i "takeWhile Not bs"] takeWhile_nth [of i Not bs]
  by (auto simp: zeros_of_def dest: set_takeWhileD)

lemma nth_zeros_end: "zeros_of bs < length bs \<Longrightarrow> bs ! zeros_of bs"
  using nth_length_takeWhile [of Not bs] by (simp add: zeros_of_def)

lemma zeros_of_eqI: "n < length bs \<Longrightarrow> bs ! n \<Longrightarrow> (\<And>i. i < n \<Longrightarrow> \<not> bs ! i) \<Longrightarrow> zeros_of bs = n"
  using takeWhile_eq_take_P_nth [of n bs Not] by (simp add: zeros_of_def)

lemma zeros_of_replicate [simp]: "zeros_of (replicate n False @ True # bs) = n"
  by (intro zeros_of_eqI) (auto simp: nth_append)

lemma tz8_eqI: "bit b n \<Longrightarrow> (\<And>i. i < n \<Longrightarrow> \<not> bit b i) \<Longrightarrow> tz8 b = n"
  unfolding tz8_def zeros_of_def [symmetric]
  using bit_imp_le_length [of b n] by (intro zeros_of_eqI) auto

text \<open>The bytes the scan looks at, and the bits of the stream in them.\<close>

definition scan_byte :: "bsr \<Rightarrow> nat \<Rightarrow> u8" where
  "scan_byte r k = (if k = 0 then drop_bit (bsr_off r) (bsr_bytes r ! 0) else bsr_bytes r ! k)"

lemma bit_scan_byte:
  assumes wf: "bsr_wf r" and k: "k < bsr_left r" "j < 8" and pos: "i + bsr_off r = 8 * k + j" "k \<noteq> 0"
  shows "bit (scan_byte r k) j = bsr_stream r ! i"
proof -
  have "i < length (bsr_stream r)" using k pos by (simp add: length_bsr_stream [OF wf])
  then have "bsr_stream r ! i = bytes_bits (bsr_bytes r) ! (8 * k + j)"
    using pos(1) by (simp add: nth_bsr_stream [OF wf] add.commute)
  also have "\<dots> = bit (bsr_bytes r ! k) j"
    using k bsr_wfD [OF wf] by (intro bit_byte [symmetric]) auto
  finally show ?thesis using pos by (simp add: scan_byte_def)
qed

lemma scan_byte_zero:
  assumes wf: "bsr_wf r" and k: "8 * k + 8 \<le> bsr_off r + zeros_of (bsr_stream r)"
  shows "scan_byte r k = 0"
proof (rule bit_word_eqI)
  fix j assume "j < LENGTH(8)"
  then have j: "j < 8" by simp
  note z = zeros_of_le [of "bsr_stream r"] and o = bsr_wfD [OF wf]
  have kl: "k < bsr_left r" using z k o by (simp add: length_bsr_stream [OF wf])
  show "bit (scan_byte r k) j = bit (0 :: u8) j"
  proof (cases "k = 0")
    case True
    have "\<not> bsr_stream r ! j" if "j < 8 - bsr_off r" using that k True by (intro nth_zeros) simp
    then show ?thesis using byte_low [OF wf kl j] True by (auto simp: scan_byte_def)
  next
    case False
    then have "bsr_off r \<le> 8 * k + j" using o(1) by linarith
    then obtain i where i: "i + bsr_off r = 8 * k + j" by (metis le_add_diff_inverse2)
    then show ?thesis using bit_scan_byte [OF wf kl j i False] nth_zeros [of i "bsr_stream r"] k j
      by simp
  qed
qed

lemma scan_byte_hit:
  assumes wf: "bsr_wf r" and z: "zeros_of (bsr_stream r) = z" "z < length (bsr_stream r)"
    and k: "k = (bsr_off r + z) div 8"
  shows "k < bsr_left r" "scan_byte r k \<noteq> 0"
    "tz8 (scan_byte r k) + (if k \<noteq> 0 then k * 8 - bsr_off r else 0) = z"
proof -
  note o = bsr_wfD [OF wf] and one = nth_zeros_end [of "bsr_stream r"]
  show kl: "k < bsr_left r" using z(2) k by (simp add: length_bsr_stream [OF wf] less_mult_imp_div_less)
  define t where "t = (if k = 0 then z else (bsr_off r + z) mod 8)"
  have t8: "t < 8" using k by (auto simp: t_def)
  have sum: "t + (if k \<noteq> 0 then k * 8 - bsr_off r else 0) = z"
    using k o(1) mult_div_mod_eq [of 8 "bsr_off r + z"] by (auto simp: t_def)
  have "bit (scan_byte r k) t"
  proof (cases "k = 0")
    case True
    then have "bsr_off r + z < 8" using k by auto
    then show ?thesis using byte_low [OF wf kl t8] True one z by (simp add: scan_byte_def t_def)
  next
    case False
    then show ?thesis using bit_scan_byte [OF wf kl t8 _ False, of z] one z k by (simp add: t_def)
  qed
  moreover have "\<not> bit (scan_byte r k) i" if i: "i < t" for i
  proof (cases "k = 0")
    case True
    then show ?thesis using byte_low [OF wf kl, of i] i t8 z nth_zeros [of i "bsr_stream r"]
      by (auto simp: scan_byte_def t_def)
  next
    case False
    then have p: "z - (t - i) + bsr_off r = 8 * k + i" using sum i o(1) by auto
    have "z - (t - i) < z" using sum i by auto
    then have "\<not> bsr_stream r ! (z - (t - i))" using z by (intro nth_zeros) simp
    then show ?thesis using bit_scan_byte [OF wf kl _ p False] i t8 by simp
  qed
  ultimately have "tz8 (scan_byte r k) = t" by (rule tz8_eqI)
  then show "tz8 (scan_byte r k) + (if k \<noteq> 0 then k * 8 - bsr_off r else 0) = z" using sum by simp
  show "scan_byte r k \<noteq> 0" using \<open>bit (scan_byte r k) t\<close> by auto
qed

lemma bsr_log_scan_hit:
  assumes "skip \<le> k" "k \<le> 32" "k < bsr_left r" "scan_byte r k \<noteq> 0"
    "\<And>j. skip \<le> j \<Longrightarrow> j < k \<Longrightarrow> scan_byte r j = 0"
  shows "bsr_log_scan (bsr_bytes r) (bsr_left r) (scan_byte r skip) skip = Scan_hit (scan_byte r k) k"
  using assms
proof (induction "k - skip" arbitrary: skip)
  case 0
  then show ?case by (simp add: bsr_log_scan.simps)
next
  case (Suc n)
  have "scan_byte r skip = 0" "skip < 32" "Suc skip \<noteq> bsr_left r" using Suc.hyps(2) Suc.prems by auto
  moreover have "scan_byte r (Suc skip) = bsr_bytes r ! Suc skip" by (simp add: scan_byte_def)
  moreover have "bsr_log_scan (bsr_bytes r) (bsr_left r) (scan_byte r (Suc skip)) (Suc skip)
      = Scan_hit (scan_byte r k) k"
    using Suc.hyps(2) Suc.prems by (intro Suc.hyps(1)) auto
  ultimately show ?case by (subst bsr_log_scan.simps) simp
qed

lemma bsr_log_scan_gone:
  assumes "skip < bsr_left r" "bsr_left r \<le> 32" "\<And>j. j < bsr_left r \<Longrightarrow> scan_byte r j = 0"
  shows "bsr_log_scan (bsr_bytes r) (bsr_left r) (scan_byte r skip) skip = Scan_gone (bsr_left r)"
  using assms
proof (induction "bsr_left r - skip" arbitrary: skip)
  case 0
  then show ?case by simp
next
  case (Suc n)
  have byte: "scan_byte r skip = 0" "scan_byte r (Suc skip) = bsr_bytes r ! Suc skip"
    using Suc.prems by (simp_all add: scan_byte_def)
  show ?case
  proof (cases "Suc skip = bsr_left r")
    case True
    then show ?thesis using byte Suc.prems by (subst bsr_log_scan.simps) simp
  next
    case False
    then have "bsr_log_scan (bsr_bytes r) (bsr_left r) (scan_byte r (Suc skip)) (Suc skip)
        = Scan_gone (bsr_left r)" using Suc.hyps(2) Suc.prems by (intro Suc.hyps(1)) auto
    then show ?thesis using byte False Suc.prems by (subst bsr_log_scan.simps) simp
  qed
qed

lemma bsr_log_scan_meme:
  assumes "skip \<le> 32" "32 < bsr_left r" "\<And>j. j \<le> 32 \<Longrightarrow> scan_byte r j = 0"
  shows "bsr_log_scan (bsr_bytes r) (bsr_left r) (scan_byte r skip) skip = Scan_meme"
  using assms
proof (induction "32 - skip" arbitrary: skip)
  case 0
  then show ?case by (subst bsr_log_scan.simps) simp
next
  case (Suc n)
  have byte: "scan_byte r skip = 0" "scan_byte r (Suc skip) = bsr_bytes r ! Suc skip" "skip < 32"
    using Suc by (simp_all add: scan_byte_def)
  moreover have "bsr_log_scan (bsr_bytes r) (bsr_left r) (scan_byte r (Suc skip)) (Suc skip)
      = Scan_meme" using Suc by (intro Suc.hyps(1)) auto
  ultimately show ?case using Suc.prems by (subst bsr_log_scan.simps) simp
qed

lemma bsr_log_meme_stream:
  assumes "bsr_wf r" "32 < bsr_left r"
  shows "bsr_wf (bsr_log_meme r)" "bsr_stream (bsr_log_meme r) = drop 256 (bsr_stream r)"
proof -
  show "bsr_wf (bsr_log_meme r)" using assms bsr_wfD [OF assms(1)]
    by (intro bsr_wfI) (auto simp: bsr_log_meme_def)
  show "bsr_stream (bsr_log_meme r) = drop 256 (bsr_stream r)"
    by (intro bsr_stream_move [where k = 32]) (auto simp: bsr_log_meme_def)
qed

lemma ur_bsr_log_good:
  assumes wf: "bsr_wf r" and z: "zeros_of (bsr_stream r) = z" "z < length (bsr_stream r)" "z \<le> 255"
  shows "fst (ur_bsr_log r) = Inr z" "bsr_wf (snd (ur_bsr_log r))"
    "bsr_stream (snd (ur_bsr_log r)) = drop (z + 1) (bsr_stream r)"
proof -
  note o = bsr_wfD [OF wf] and len = length_bsr_stream [OF wf]
  define k where "k = (bsr_off r + z) div 8"
  note hit = scan_byte_hit [OF wf z(1,2) k_def]
  have left: "bsr_left r \<noteq> 0" using z(2) len by auto
  have scan: "bsr_log_scan (bsr_bytes r) (bsr_left r) (scan_byte r 0) 0 = Scan_hit (scan_byte r k) k"
  proof (rule bsr_log_scan_hit)
    show "k \<le> 32" using k_def z(3) o(1) by auto
    show "scan_byte r j = 0" if "j < k" for j
      using that z(1) by (intro scan_byte_zero [OF wf]) (auto simp: k_def)
  qed (use hit in auto)
  let ?n = "bsr_off r + 1 + z"
  have log: "ur_bsr_log r = (Inr z, (bsr_tick (1 + z) r)\<lparr>
      bsr_bytes := (if bsr_left r - ?n div 8 \<noteq> 0 then drop (?n div 8) (bsr_bytes r) else []),
      bsr_left := bsr_left r - ?n div 8, bsr_off := ?n mod 8\<rparr>)"
    using scan hit(3) z(3) left by (simp add: ur_bsr_log_def Let_def scan_byte_def)
  show "fst (ur_bsr_log r) = Inr z" by (simp add: log)
  have fits: "bsr_left r - ?n div 8 = 0 \<Longrightarrow> ?n = 8 * bsr_left r" using z(2) len by linarith
  show "bsr_wf (snd (ur_bsr_log r))"
    using o fits by (intro bsr_wfI) (auto simp: log)
  show "bsr_stream (snd (ur_bsr_log r)) = drop (z + 1) (bsr_stream r)"
  proof (cases "bsr_left r - ?n div 8 = 0")
    case True
    then show ?thesis using wf fits by (intro bsr_stream_done) (auto simp: log)
  next
    case False
    then show ?thesis by (intro bsr_stream_move [where k = "?n div 8"]) (auto simp: log)
  qed
qed

lemma ur_bsr_log_meme:
  assumes wf: "bsr_wf r" and z: "255 < zeros_of (bsr_stream r)" "32 < bsr_left r"
  shows "fst (ur_bsr_log r) = Inl cue_meme" "bsr_wf (snd (ur_bsr_log r))"
    "bsr_stream (snd (ur_bsr_log r)) = drop 256 (bsr_stream r)"
proof -
  note o = bsr_wfD [OF wf] and len = length_bsr_stream [OF wf]
  let ?z = "zeros_of (bsr_stream r)" and ?scan = "bsr_log_scan (bsr_bytes r) (bsr_left r) (scan_byte r 0) 0"
  have low: "scan_byte r j = 0" if "j < 32" for j
    using that z(1) by (intro scan_byte_zero [OF wf]) simp
  have "?scan = Scan_meme \<or> ?scan = Scan_hit (scan_byte r 32) 32 \<and>
      255 < tz8 (scan_byte r 32) + (32 * 8 - bsr_off r)"
  proof (cases "scan_byte r 32 = 0")
    case True
    then have "?scan = Scan_meme" using low z(2)
      by (intro bsr_log_scan_meme) (auto simp: order_le_less)
    then show ?thesis ..
  next
    case False
    have "\<not> 8 * 32 + 8 \<le> bsr_off r + ?z" using scan_byte_zero [OF wf] False by blast
    then have "(bsr_off r + ?z) div 8 = 32" "?z < length (bsr_stream r)"
      using z o(1) zeros_of_le [of "bsr_stream r"] by (auto simp: len)
    then have "tz8 (scan_byte r 32) + (32 * 8 - bsr_off r) = ?z"
      using scan_byte_hit(3) [OF wf refl, of 32] by simp
    moreover have "?scan = Scan_hit (scan_byte r 32) 32"
      using low False z(2) by (intro bsr_log_scan_hit) auto
    ultimately show ?thesis using z(1) by simp
  qed
  then have "ur_bsr_log r = (Inl cue_meme, bsr_log_meme r)"
    using z(2) by (auto simp: ur_bsr_log_def Let_def scan_byte_def)
  then show "fst (ur_bsr_log r) = Inl cue_meme" "bsr_wf (snd (ur_bsr_log r))"
    "bsr_stream (snd (ur_bsr_log r)) = drop 256 (bsr_stream r)"
    using bsr_log_meme_stream [OF wf z(2)] by simp_all
qed

lemma ur_bsr_log_gone:
  assumes wf: "bsr_wf r" and z: "zeros_of (bsr_stream r) = length (bsr_stream r)" "bsr_left r \<le> 32"
  shows "fst (ur_bsr_log r) = Inl cue_gone" "bsr_wf (snd (ur_bsr_log r))"
    "bsr_stream (snd (ur_bsr_log r)) = []"
proof -
  note o = bsr_wfD [OF wf] and len = length_bsr_stream [OF wf]
  have "fst (ur_bsr_log r) = Inl cue_gone \<and> bsr_wf (snd (ur_bsr_log r)) \<and>
    bsr_stream (snd (ur_bsr_log r)) = []"
  proof (cases "bsr_left r = 0")
    case True
    then show ?thesis using wf bsr_stream_Nil_iff [OF wf] by (simp add: ur_bsr_log_def)
  next
    case False
    have "scan_byte r j = 0" if "j < bsr_left r" for j
      using that z o(1) by (intro scan_byte_zero [OF wf]) (simp add: len)
    then have "bsr_log_scan (bsr_bytes r) (bsr_left r) (scan_byte r 0) 0 = Scan_gone (bsr_left r)"
      using False z(2) by (intro bsr_log_scan_gone) auto
    then have "ur_bsr_log r = (Inl cue_gone, bsr_set_gone r (bsr_left r * 8 - bsr_off r))"
      using False by (simp add: ur_bsr_log_def Let_def scan_byte_def)
    then show ?thesis by (auto simp: bsr_set_gone_def bsr_stream_def intro: bsr_wfI)
  qed
  then show "fst (ur_bsr_log r) = Inl cue_gone" "bsr_wf (snd (ur_bsr_log r))"
    "bsr_stream (snd (ur_bsr_log r)) = []" by blast+
qed

end
