(* ===== verification/BitWriter.thy ===== *)
theory BitWriter
  imports Prelude
begin

text \<open>
  The bitstream writer of \<open>pkg/ur/bitstream.c\<close>: a cursor at the end of a byte buffer
  that is reallocated, with fibonacci growth, when a write needs room.  Each public
  operation checks the size once and then runs an unchecked (\<open>unsafe\<close>) body.  The
  abstract state is the sequence of bits written (\<open>bsw_out\<close>); the invariant
  (\<open>bsw_wf\<close>) keeps the cursor inside the buffer and everything past it zero, and every
  operation is shown to append the bits of its argument.  The 64-bit cursor and sizes are
  natural numbers (the code does not check them for overflow), and an allocation succeeds
  (on failure the code aborts the process).
\<close>

section \<open>State\<close>

record bsw =
  bsw_prev :: nat
  bsw_size :: nat
  bsw_fill :: nat
  bsw_bits :: nat
  bsw_off :: nat
  bsw_bytes :: "u8 list"

definition bsw_zero :: bsw where
  "bsw_zero = \<lparr>bsw_prev = 0, bsw_size = 0, bsw_fill = 0, bsw_bits = 0, bsw_off = 0,
               bsw_bytes = []\<rparr>"

definition ur_bsw_init :: "bsw \<Rightarrow> nat \<Rightarrow> nat \<Rightarrow> bsw" where
  "ur_bsw_init w prev sz =
     w\<lparr>bsw_prev := prev, bsw_size := sz, bsw_bytes := replicate sz 0\<rparr>"

definition ur_bsw_grow :: "bsw \<Rightarrow> nat \<Rightarrow> bsw" where
  "ur_bsw_grow w step =
     (let sz = bsw_size w
      in w\<lparr>bsw_bytes := bsw_bytes w @ replicate step 0, bsw_prev := sz,
           bsw_size := sz + step\<rparr>)"

definition ur_bsw_sane :: "bsw \<Rightarrow> bool" where
  "ur_bsw_sane w \<longleftrightarrow> bsw_off w < 8 \<and> bsw_fill w * 8 + bsw_off w = bsw_bits w"

text \<open>The bits written, the bytes they take, and the buffer; the writer is cleared.\<close>

definition ur_bsw_done :: "bsw \<Rightarrow> (nat \<times> nat \<times> u8 list) \<times> bsw" where
  "ur_bsw_done w =
     ((bsw_bits w, bsw_fill w + of_bool (bsw_off w \<noteq> 0), bsw_bytes w), bsw_zero)"

text \<open>\<open>bytes[i] ^= x\<close>\<close>

definition xor_at :: "u8 list \<Rightarrow> nat \<Rightarrow> u8 \<Rightarrow> u8 list" where
  "xor_at bytes i x = bytes[i := (bytes ! i) XOR x]"

text \<open>\<open>ur_bloq_up3\<close>: bits to whole bytes, rounding up.\<close>

definition bloq_up3 :: "nat \<Rightarrow> nat" where
  "bloq_up3 a = (a + 7) div 8"

text \<open>The size check that the operations larger than a byte share.\<close>

definition bsw_ensure :: "bsw \<Rightarrow> nat \<Rightarrow> bsw" where
  "bsw_ensure w need =
     (if bsw_size w \<le> bsw_fill w + need then ur_bsw_grow w (max need (bsw_prev w)) else w)"

section \<open>Bits and values\<close>

definition bsw_bit_unsafe :: "bsw \<Rightarrow> u8 \<Rightarrow> bsw" where
  "bsw_bit_unsafe w b =
     (let fill = bsw_fill w; off = bsw_off w;
          w1 = w\<lparr>bsw_bytes := xor_at (bsw_bytes w) fill (push_bit off (b AND 1))\<rparr>;
          w2 = (if off = 7 then w1\<lparr>bsw_fill := 1 + fill, bsw_off := 0\<rparr>
                else w1\<lparr>bsw_off := 1 + off\<rparr>)
      in w2\<lparr>bsw_bits := bsw_bits w + 1\<rparr>)"

definition ur_bsw_bit :: "bsw \<Rightarrow> u8 \<Rightarrow> bsw" where
  "ur_bsw_bit w b =
     bsw_bit_unsafe
       (if bsw_off w = 7 \<and> 1 + bsw_fill w = bsw_size w then ur_bsw_grow w (bsw_prev w) else w) b"

definition bsw8_unsafe :: "bsw \<Rightarrow> nat \<Rightarrow> u8 \<Rightarrow> bsw" where
  "bsw8_unsafe w len byt =
     (let fill = bsw_fill w; off = bsw_off w; rest = 8 - off;
          w1 =
            (if len < rest
             then w\<lparr>bsw_bytes := xor_at (bsw_bytes w) fill (push_bit off (byt AND mask len)),
                    bsw_off := off + len\<rparr>
             else
               let l = byt AND mask rest; m = drop_bit rest byt;
                   b1 = xor_at (bsw_bytes w) fill (push_bit off l);
                   off' = len - rest
               in w\<lparr>bsw_bytes := b1[fill + 1 := m AND mask off'], bsw_fill := fill + 1,
                    bsw_off := off'\<rparr>)
      in w1\<lparr>bsw_bits := bsw_bits w + len\<rparr>)"

definition ur_bsw8 :: "bsw \<Rightarrow> nat \<Rightarrow> u8 \<Rightarrow> bsw" where
  "ur_bsw8 w len0 byt =
     (let len = min 8 len0
      in bsw8_unsafe
           (if bsw_size w \<le> bsw_fill w + of_bool ((bsw_off w + len) div 8 \<noteq> 0)
            then ur_bsw_grow w (bsw_prev w) else w) len byt)"

text \<open>
  The \<open>switch ( len >> 3 )\<close> of the 32- and 64-bit writers, and what follows it: case
  \<open>n\<close> stores the \<open>n\<close> low bytes of the value and shifts them out, and the bits that are
  left go to the low end of the next byte.  The top case returns with offset 0.
\<close>

definition bsw_word_store :: "nat \<Rightarrow> bsw \<Rightarrow> nat \<Rightarrow> nat \<Rightarrow> u8 list \<Rightarrow> 'a::len word \<Rightarrow> bsw" where
  "bsw_word_store top_case w len fill bytes val =
     (let n = len div 8;
          b1 = store_loop fill (\<lambda>i. ucast (drop_bit (8 * i) val) :: u8) n bytes;
          fill' = fill + n
      in if n = top_case then w\<lparr>bsw_bytes := b1, bsw_fill := fill', bsw_off := 0\<rparr>
         else
           let val' = drop_bit (8 * n) val; off = len mod 8;
               b2 = (if off \<noteq> 0 then b1[fill' := ucast (val' AND mask off)] else b1)
           in w\<lparr>bsw_bytes := b2, bsw_fill := fill', bsw_off := off\<rparr>)"

definition bsw32_unsafe :: "bsw \<Rightarrow> nat \<Rightarrow> u32 \<Rightarrow> bsw" where
  "bsw32_unsafe w len val =
     (let fill = bsw_fill w; off = bsw_off w; bytes = bsw_bytes w;
          w1 = w\<lparr>bsw_bits := bsw_bits w + len\<rparr>
      in if off \<noteq> 0
         then
           let rest = 8 - off
           in if len < rest
              then w1\<lparr>bsw_bytes := xor_at bytes fill (ucast (push_bit off (val AND mask len))),
                      bsw_off := off + len\<rparr>
              else bsw_word_store 4 w1 (len - rest) (fill + 1)
                     (xor_at bytes fill (ucast (push_bit off (val AND mask rest))))
                     (drop_bit rest val)
         else bsw_word_store 4 w1 len fill bytes val)"

definition ur_bsw32 :: "bsw \<Rightarrow> nat \<Rightarrow> u32 \<Rightarrow> bsw" where
  "ur_bsw32 w len0 val =
     (let len = min 32 len0 in bsw32_unsafe (bsw_ensure w (bloq_up3 (bsw_off w + len))) len val)"

definition bsw64_unsafe :: "bsw \<Rightarrow> nat \<Rightarrow> u64 \<Rightarrow> bsw" where
  "bsw64_unsafe w len val =
     (let fill = bsw_fill w; off = bsw_off w; bytes = bsw_bytes w;
          w1 = w\<lparr>bsw_bits := bsw_bits w + len\<rparr>
      in if off \<noteq> 0
         then
           let rest = 8 - off
           in if len < rest
              then w1\<lparr>bsw_bytes := xor_at bytes fill (ucast (push_bit off (val AND mask len))),
                      bsw_off := off + len\<rparr>
              else bsw_word_store 8 w1 (len - rest) (fill + 1)
                     (xor_at bytes fill (ucast (push_bit off (val AND mask rest))))
                     (drop_bit rest val)
         else bsw_word_store 8 w1 len fill bytes val)"

definition ur_bsw64 :: "bsw \<Rightarrow> nat \<Rightarrow> u64 \<Rightarrow> bsw" where
  "ur_bsw64 w len0 val =
     (let len = min 64 len0 in bsw64_unsafe (bsw_ensure w (bloq_up3 (bsw_off w + len))) len val)"

section \<open>Byte arrays and run lengths\<close>

definition bsw_bytes_unsafe :: "bsw \<Rightarrow> nat \<Rightarrow> u8 list \<Rightarrow> bsw" where
  "bsw_bytes_unsafe w len src =
     (let fill = bsw_fill w; off = bsw_off w; dst = bsw_bytes w;
          w1 =
            (if off = 0
             then
               let len_byt = len div 8; len_bit = len mod 8;
                   d1 = memcpy_at dst fill (take len_byt src);
                   w1 = w\<lparr>bsw_bytes := d1, bsw_fill := fill + len_byt\<rparr>
               in if len_bit \<noteq> 0
                  then w1\<lparr>bsw_bytes := d1[fill + len_byt := src ! len_byt AND mask len_bit],
                          bsw_off := len_bit\<rparr>
                  else w1
             else
               let rest = 8 - off
               in if len \<le> rest
                  then
                    let ful = off + len
                    in w\<lparr>bsw_bytes := xor_at dst fill (push_bit off (src ! 0 AND mask len)),
                         bsw_fill := (if ful div 8 \<noteq> 0 then fill + 1 else fill),
                         bsw_off := ful mod 8\<rparr>
                  else
                    let nel = len - rest; len_byt = nel div 8; len_bit = nel mod 8;
                        d1 = xor_at dst fill (push_bit off (src ! 0));
                        d2 = store_loop (fill + 1)
                               (\<lambda>i. drop_bit rest (src ! i) XOR push_bit off (src ! (i + 1)))
                               len_byt d1;
                        tal = drop_bit rest (src ! len_byt)
                              XOR (if len_bit \<le> off then 0 else push_bit off (src ! (len_byt + 1)))
                    in w\<lparr>bsw_bytes := d2[fill + 1 + len_byt := tal AND mask len_bit],
                         bsw_fill := fill + len_byt + 1, bsw_off := len_bit\<rparr>)
      in w1\<lparr>bsw_bits := bsw_bits w + len\<rparr>)"

definition ur_bsw_bytes :: "bsw \<Rightarrow> nat \<Rightarrow> u8 list \<Rightarrow> bsw" where
  "ur_bsw_bytes w len byt = bsw_bytes_unsafe (bsw_ensure w (bloq_up3 (len + bsw_off w))) len byt"

definition bsw_bex_unsafe :: "bsw \<Rightarrow> nat \<Rightarrow> bsw" where
  "bsw_bex_unsafe w n =
     (let bits = n + bsw_off w; fill = bsw_fill w + bits div 8; off = bits mod 8;
          w1 = w\<lparr>bsw_bytes := xor_at (bsw_bytes w) fill (push_bit off 1)\<rparr>;
          w2 = (if off = 7 then w1\<lparr>bsw_off := 0, bsw_fill := 1 + fill\<rparr>
                else w1\<lparr>bsw_off := 1 + off, bsw_fill := fill\<rparr>)
      in w2\<lparr>bsw_bits := bsw_bits w + (1 + n)\<rparr>)"

definition ur_bsw_bex :: "bsw \<Rightarrow> nat \<Rightarrow> bsw" where
  "ur_bsw_bex w n = bsw_bex_unsafe (bsw_ensure w (bloq_up3 (1 + n + bsw_off w))) n"

definition bsw_mat64_unsafe :: "bsw \<Rightarrow> nat \<Rightarrow> u64 \<Rightarrow> bsw" where
  "bsw_mat64_unsafe w len val =
     (if len = 0 then bsw_bit_unsafe w 1
      else
        let nel = met0 len;
            w1 = bsw_bex_unsafe w nel;
            w2 = bsw64_unsafe w1 (nel - 1) (of_nat len)
        in bsw64_unsafe w2 len val)"

definition MAT_LEN :: "nat \<Rightarrow> nat" where
  "MAT_LEN len = (if 0 = len then 1 else len + 2 * met0 len)"

definition ur_bsw_mat64 :: "bsw \<Rightarrow> nat \<Rightarrow> u64 \<Rightarrow> bsw" where
  "ur_bsw_mat64 w len0 val =
     (let len = min 64 len0
      in bsw_mat64_unsafe (bsw_ensure w (bloq_up3 (bsw_off w + MAT_LEN len))) len val)"

definition bsw_mat_bytes_unsafe :: "bsw \<Rightarrow> nat \<Rightarrow> u8 list \<Rightarrow> bsw" where
  "bsw_mat_bytes_unsafe w len byt =
     (if len = 0 then bsw_bit_unsafe w 1
      else
        let nel = met0 len;
            w1 = bsw_bex_unsafe w nel;
            w2 = bsw64_unsafe w1 (nel - 1) (of_nat len)
        in bsw_bytes_unsafe w2 len byt)"

definition ur_bsw_mat_bytes :: "bsw \<Rightarrow> nat \<Rightarrow> u8 list \<Rightarrow> bsw" where
  "ur_bsw_mat_bytes w len byt =
     bsw_mat_bytes_unsafe (bsw_ensure w (bloq_up3 (bsw_off w + MAT_LEN len))) len byt"

section \<open>Tagged items\<close>

definition bsw_back64 :: "bsw \<Rightarrow> nat \<Rightarrow> u64 \<Rightarrow> bsw" where
  "bsw_back64 w len val = bsw_mat64_unsafe (bsw8_unsafe w 2 3) len val"

definition ur_bsw_back64 :: "bsw \<Rightarrow> nat \<Rightarrow> u64 \<Rightarrow> bsw" where
  "ur_bsw_back64 w len0 val =
     (let len = min 64 len0
      in bsw_back64 (bsw_ensure w (bloq_up3 (2 + bsw_off w + MAT_LEN len))) len val)"

definition bsw_atom64 :: "bsw \<Rightarrow> nat \<Rightarrow> u64 \<Rightarrow> bsw" where
  "bsw_atom64 w len val = bsw_mat64_unsafe (bsw_bit_unsafe w 0) len val"

definition ur_bsw_atom64 :: "bsw \<Rightarrow> nat \<Rightarrow> u64 \<Rightarrow> bsw" where
  "ur_bsw_atom64 w len0 val =
     (let len = min 64 len0
      in bsw_atom64 (bsw_ensure w (bloq_up3 (1 + bsw_off w + MAT_LEN len))) len val)"

definition bsw_atom_bytes_unsafe :: "bsw \<Rightarrow> nat \<Rightarrow> u8 list \<Rightarrow> bsw" where
  "bsw_atom_bytes_unsafe w len byt = bsw_mat_bytes_unsafe (bsw_bit_unsafe w 0) len byt"

definition ur_bsw_atom_bytes :: "bsw \<Rightarrow> nat \<Rightarrow> u8 list \<Rightarrow> bsw" where
  "ur_bsw_atom_bytes w len byt =
     bsw_atom_bytes_unsafe (bsw_ensure w (bloq_up3 (1 + bsw_off w + MAT_LEN len))) len byt"

definition ur_bsw_cell :: "bsw \<Rightarrow> bsw" where
  "ur_bsw_cell w = bsw8_unsafe (bsw_ensure w (bloq_up3 (2 + bsw_off w))) 2 1"

section \<open>The buffer as a sequence of bits\<close>

text \<open>The buffer holds \<open>bs\<close> and zeros after it.\<close>

definition buf_is :: "u8 list \<Rightarrow> bool list \<Rightarrow> bool" where
  "buf_is bytes bs \<longleftrightarrow> length bs \<le> 8 * length bytes \<and>
     bytes_bits bytes = bs @ replicate (8 * length bytes - length bs) False"

lemma buf_isI:
  assumes "length bs \<le> 8 * length bytes"
    "\<And>q j. q < length bytes \<Longrightarrow> j < 8 \<Longrightarrow>
      bit (bytes ! q) j \<longleftrightarrow> 8 * q + j < length bs \<and> bs ! (8 * q + j)"
  shows "buf_is bytes bs"
  unfolding buf_is_def
proof (intro conjI nth_equalityI)
  fix i
  assume "i < length (bytes_bits bytes)"
  then have i: "i < 8 * length bytes" by simp
  have "bit (bytes ! (i div 8)) (i mod 8) \<longleftrightarrow> i < length bs \<and> bs ! i"
    using assms(2) [of "i div 8" "i mod 8"] i by simp
  then show "bytes_bits bytes ! i = (bs @ replicate (8 * length bytes - length bs) False) ! i"
    using i assms(1) by (simp add: nth_bytes_bits nth_append)
qed (use assms(1) in auto)

lemma buf_isD:
  assumes "buf_is bytes bs" "q < length bytes" "j < 8"
  shows "bit (bytes ! q) j \<longleftrightarrow> 8 * q + j < length bs \<and> bs ! (8 * q + j)"
  using assms bit_byte [of q bytes j] by (auto simp: buf_is_def nth_append)

lemma buf_is_length: "buf_is bytes bs \<Longrightarrow> length bs \<le> 8 * length bytes"
  by (simp add: buf_is_def)

lemma buf_is_take: "buf_is bytes bs \<Longrightarrow> take (length bs) (bytes_bits bytes) = bs"
  by (simp add: buf_is_def)

lemma buf_is_zeros: "buf_is bytes bs \<Longrightarrow> length bs + n \<le> 8 * length bytes \<Longrightarrow>
    buf_is bytes (bs @ replicate n False)"
  by (auto simp: buf_is_def replicate_add [symmetric])

lemma buf_is_grow: "buf_is bytes bs \<Longrightarrow> buf_is (bytes @ replicate n 0) bs"
  by (rule buf_isI) (auto simp: nth_append buf_is_length buf_isD dest: buf_is_length)

lemma buf_is_replicate: "buf_is (replicate n 0) []"
  by (rule buf_isI) auto

lemma bits_of_add: "bits_of (m + n) x = bits_of m x @ bits_of n (drop_bit m x)"
  by (rule nth_equalityI) (auto simp: nth_append bit_drop_bit_eq)

lemma bits_of_cong: "(\<And>i. i < n \<Longrightarrow> bit x i = bit y i) \<Longrightarrow> bits_of n x = bits_of n y"
  by (rule nth_equalityI) auto

text \<open>Bits added at the cursor, in one byte.\<close>

lemma buf_is_xor:
  assumes b: "buf_is bytes bs" and len: "length bs = 8 * fill + off" "off + len \<le> 8"
    and fill: "fill < length bytes"
  shows "buf_is (xor_at bytes fill (push_bit off (v AND mask len))) (bs @ bits_of len v)"
proof (rule buf_isI)
  show "length (bs @ bits_of len v) \<le> 8 * length (xor_at bytes fill (push_bit off (v AND mask len)))"
    using len fill by (simp add: xor_at_def)
  fix q j :: nat
  assume "q < length (xor_at bytes fill (push_bit off (v AND mask len)))" and j: "j < 8"
  then have q: "q < length bytes" by (simp add: xor_at_def)
  show "bit (xor_at bytes fill (push_bit off (v AND mask len)) ! q) j \<longleftrightarrow>
      8 * q + j < length (bs @ bits_of len v) \<and> (bs @ bits_of len v) ! (8 * q + j)"
  proof (cases "q = fill")
    case True
    then show ?thesis using buf_isD [OF b q j] len j q
      by (auto simp: xor_at_def bit_xor_iff bit_push_bit_iff bit_and_mask nth_append
          simp del: push_bit_and)
  next
    case False
    then have "8 * q + j < length bs \<longleftrightarrow> 8 * q + j < length bs + len"
      using len j by linarith
    then show ?thesis using False buf_isD [OF b q j] by (auto simp: xor_at_def nth_append)
  qed
qed

lemma buf_is_set:
  assumes b: "buf_is bytes bs" and len: "length bs = 8 * fill" "len \<le> 8"
    and fill: "fill < length bytes"
  shows "buf_is (bytes[fill := v AND mask len]) (bs @ bits_of len v)"
proof -
  have "bytes ! fill = 0"
    using buf_isD [OF b fill] len by (intro bit_word_eqI) auto
  then show ?thesis using buf_is_xor [OF b, of fill 0 len v] len fill by (simp add: xor_at_def)
qed

lemma mask_8_u8 [simp]: "v AND mask 8 = (v :: u8)"
  by (rule bit_word_eqI) (auto simp: bit_and_mask)

lemma buf_is_set_byte:
  assumes "buf_is bytes bs" "length bs = 8 * fill" "fill < length bytes"
  shows "buf_is (bytes[fill := v]) (bs @ bits_of 8 v)"
  using buf_is_set [OF assms(1,2) _ assms(3), of 8 v] by simp

text \<open>Whole bytes added by a loop.\<close>

lemma buf_is_store_loop:
  assumes "buf_is bytes bs" "length bs = 8 * fill" "fill + n \<le> length bytes"
  shows "buf_is (store_loop fill f n bytes) (bs @ bytes_bits (map f [0..<n]))"
  using assms(3)
proof (induction n)
  case 0
  then show ?case using assms by (simp add: store_loop_def)
next
  case (Suc n)
  then have "buf_is ((store_loop fill f n bytes)[fill + n := f n])
      ((bs @ bytes_bits (map f [0..<n])) @ bits_of 8 (f n))"
    using assms(2) by (intro buf_is_set_byte) auto
  then show ?case by (simp add: store_loop_def bytes_bits_append bytes_bits_Cons)
qed

lemma bits_of_bytes:
  "bytes_bits (map (\<lambda>i. ucast (drop_bit (8 * i) val) :: u8) [0..<n]) = bits_of (8 * n) (val :: 'a::len word)"
proof (induction n)
  case 0
  then show ?case by simp
next
  case (Suc n)
  have "bits_of 8 (ucast (drop_bit (8 * n) val) :: u8) = bits_of 8 (drop_bit (8 * n) val)"
    by (rule bits_of_cong) (simp add: bit_ucast_iff)
  with Suc show ?case using bits_of_add [of "8 * n" 8 val]
    by (simp add: bytes_bits_append bytes_bits_Cons add.commute)
qed

section \<open>The abstract writer\<close>

definition bsw_out :: "bsw \<Rightarrow> bool list" where
  "bsw_out w = take (bsw_bits w) (bytes_bits (bsw_bytes w))"

text \<open>
  \<open>bsw_room w n\<close>: the writer is well formed and \<open>n\<close> bits can be added without
  filling the buffer, as the unchecked bodies require.
\<close>

definition bsw_wf :: "bsw \<Rightarrow> bool" where
  "bsw_wf w \<longleftrightarrow> ur_bsw_sane w \<and> 0 < bsw_prev w \<and> bsw_size w = length (bsw_bytes w) \<and>
     bsw_fill w < bsw_size w \<and>
     buf_is (bsw_bytes w) (bsw_out w)"

definition bsw_room :: "bsw \<Rightarrow> nat \<Rightarrow> bool" where
  "bsw_room w n \<longleftrightarrow> bsw_wf w \<and> bsw_bits w + n < 8 * bsw_size w"

definition bsw_appends :: "bsw \<Rightarrow> bool list \<Rightarrow> bsw \<Rightarrow> bool" where
  "bsw_appends w bs w' \<longleftrightarrow> bsw_wf w' \<and> bsw_out w' = bsw_out w @ bs \<and> bsw_size w' = bsw_size w"

lemma bsw_wfD:
  assumes "bsw_wf w"
  shows "bsw_off w < 8" "bsw_bits w = 8 * bsw_fill w + bsw_off w" "0 < bsw_prev w"
    "length (bsw_bytes w) = bsw_size w" "bsw_fill w < bsw_size w"
    "buf_is (bsw_bytes w) (bsw_out w)" "length (bsw_out w) = bsw_bits w"
    "bsw_bits w < 8 * bsw_size w"
  using assms by (auto simp: bsw_wf_def ur_bsw_sane_def bsw_out_def)

lemma bsw_appendsI:
  assumes wf: "bsw_wf w"
    and w': "bsw_prev w' = bsw_prev w" "bsw_size w' = bsw_size w"
      "length (bsw_bytes w') = bsw_size w"
    and b: "buf_is (bsw_bytes w') (bsw_out w @ bs)" "bsw_bits w' = bsw_bits w + length bs"
      "bsw_off w' < 8" "8 * bsw_fill w' + bsw_off w' = bsw_bits w'"
      "bsw_bits w' < 8 * bsw_size w"
  shows "bsw_appends w bs w'"
proof -
  note o = bsw_wfD [OF wf]
  have len: "length (bsw_out w @ bs) = bsw_bits w'" using o b(2) by simp
  have "bsw_out w' = bsw_out w @ bs"
    using buf_is_take [OF b(1)] len by (simp add: bsw_out_def)
  moreover have "bsw_fill w' < bsw_size w'" using b w' by linarith
  ultimately show ?thesis
    using b w' o by (simp add: bsw_appends_def bsw_wf_def ur_bsw_sane_def mult.commute)
qed

lemma bsw_roomD: "bsw_room w n \<Longrightarrow> bsw_wf w" "bsw_room w n \<Longrightarrow> bsw_bits w + n < 8 * bsw_size w"
  by (simp_all add: bsw_room_def)

lemma bsw_appends_room:
  "bsw_appends w bs w' \<Longrightarrow> bsw_room w (length bs + n) \<Longrightarrow> bsw_room w' n"
  using bsw_wfD(7) [of w] bsw_wfD(7) [of w'] by (auto simp: bsw_appends_def bsw_room_def)

lemma bsw_appends_trans:
  "bsw_appends w bs w' \<Longrightarrow> bsw_appends w' cs w'' \<Longrightarrow> bsw_appends w (bs @ cs) w''"
  by (simp add: bsw_appends_def)

section \<open>The unchecked bodies append their bits\<close>

lemma bsw_bit_unsafe_appends:
  assumes "bsw_room w 1"
  shows "bsw_appends w [bit b 0] (bsw_bit_unsafe w b)"
proof -
  note wf = bsw_roomD [OF assms]
  note o = bsw_wfD [OF wf(1)]
  have bits: "bits_of 1 b = [bit b 0]" by (simp add: bits_of_def)
  have "buf_is (xor_at (bsw_bytes w) (bsw_fill w) (push_bit (bsw_off w) (b AND 1)))
      (bsw_out w @ [bit b 0])"
    using buf_is_xor [OF o(6), of "bsw_fill w" "bsw_off w" 1 b] o bits by simp
  then show ?thesis using wf o
    by (intro bsw_appendsI) (auto simp: bsw_bit_unsafe_def Let_def xor_at_def)
qed

lemma bsw8_unsafe_appends:
  assumes "bsw_room w len" "len \<le> 8"
  shows "bsw_appends w (bits_of len byt) (bsw8_unsafe w len byt)"
proof -
  note wf = bsw_roomD [OF assms(1)]
  note o = bsw_wfD [OF wf(1)]
  let ?rest = "8 - bsw_off w" and ?b = "bsw_bytes w"
  show ?thesis
  proof (cases "len < ?rest")
    case True
    have "buf_is (xor_at ?b (bsw_fill w) (push_bit (bsw_off w) (byt AND mask len)))
        (bsw_out w @ bits_of len byt)"
      using True o by (intro buf_is_xor) auto
    with True show ?thesis using wf o
      by (intro bsw_appendsI) (auto simp: bsw8_unsafe_def Let_def xor_at_def)
  next
    case False
    have split: "bits_of len byt = bits_of ?rest byt @ bits_of (len - ?rest) (drop_bit ?rest byt)"
      using bits_of_add [of ?rest "len - ?rest" byt] False by simp
    have "buf_is (xor_at ?b (bsw_fill w) (push_bit (bsw_off w) (byt AND mask ?rest)))
        (bsw_out w @ bits_of ?rest byt)"
      using o by (intro buf_is_xor) auto
    then have "buf_is ((xor_at ?b (bsw_fill w) (push_bit (bsw_off w) (byt AND mask ?rest)))
        [bsw_fill w + 1 := drop_bit ?rest byt AND mask (len - ?rest)])
        ((bsw_out w @ bits_of ?rest byt) @ bits_of (len - ?rest) (drop_bit ?rest byt))"
      using False assms(2) o wf(2) by (intro buf_is_set) (auto simp: xor_at_def)
    with False show ?thesis using wf o assms(2)
      by (intro bsw_appendsI) (auto simp: bsw8_unsafe_def Let_def xor_at_def split)
  qed
qed

text \<open>The first byte of a wider value.\<close>

lemma ucast_push_mask:
  fixes val :: "'a::len word"
  assumes "8 \<le> LENGTH('a)" "off + len \<le> 8"
  shows "(ucast (push_bit off (val AND mask len)) :: u8) = push_bit off (ucast val AND mask len)"
  using assms by (intro bit_word_eqI)
    (auto simp: bit_ucast_iff bit_push_bit_iff bit_and_mask bit_imp_le_length simp del: push_bit_and)

lemma bits_of_ucast: "n \<le> 8 \<Longrightarrow> bits_of n (ucast val :: u8) = bits_of n (val :: 'a::len word)"
  by (rule bits_of_cong) (simp add: bit_ucast_iff)

lemma buf_is_xor_ucast:
  fixes v :: "'a::len word"
  assumes "buf_is bytes bs" "length bs = 8 * fill + off" "off + len \<le> 8" "fill < length bytes"
    "8 \<le> LENGTH('a)"
  shows "buf_is (xor_at bytes fill (ucast (push_bit off (v AND mask len)))) (bs @ bits_of len v)"
proof -
  have "len \<le> 8" using assms(3) by simp
  then show ?thesis
    using buf_is_xor [OF assms(1-4), of "ucast v"]
    by (simp only: ucast_push_mask [OF assms(5,3)] bits_of_ucast)
qed

lemma split_8: "8 * (f + n div 8) + n mod 8 = 8 * f + (n :: nat)"
  by (simp only: distrib_left add.assoc mult_div_mod_eq)

lemma mod_8_top: "n \<le> 8 * k \<Longrightarrow> n div 8 = k \<Longrightarrow> n mod 8 = (0 :: nat)"
  using split_8 [of 0 n] by simp

lemma bsw_word_store_spec:
  fixes val :: "'a::len word"
  assumes b: "buf_is bytes bs" "length bs = 8 * fill" and room: "8 * fill + len < 8 * length bytes"
    and len: "len \<le> 8 * top_case" and w: "8 \<le> LENGTH('a)"
  shows "buf_is (bsw_bytes (bsw_word_store top_case w len fill bytes val)) (bs @ bits_of len val)"
    "bsw_fill (bsw_word_store top_case w len fill bytes val) = fill + len div 8"
    "bsw_off (bsw_word_store top_case w len fill bytes val) = len mod 8"
    "length (bsw_bytes (bsw_word_store top_case w len fill bytes val)) = length bytes"
    "bsw_prev (bsw_word_store top_case w len fill bytes val) = bsw_prev w"
    "bsw_size (bsw_word_store top_case w len fill bytes val) = bsw_size w"
    "bsw_bits (bsw_word_store top_case w len fill bytes val) = bsw_bits w"
proof -
  let ?n = "len div 8" and ?off = "len mod 8"
  let ?b = "store_loop fill (\<lambda>i. ucast (drop_bit (8 * i) val) :: u8) ?n bytes"
  have full: "buf_is ?b (bs @ bits_of (8 * ?n) val)"
    using buf_is_store_loop [OF b, of ?n "\<lambda>i. ucast (drop_bit (8 * i) val)"] room
    by (simp add: bits_of_bytes)
  have off: "?n = top_case \<Longrightarrow> ?off = 0"
    using len by (rule mod_8_top)
  have split: "bits_of len val = bits_of (8 * ?n) val @ bits_of ?off (drop_bit (8 * ?n) val)"
    using bits_of_add [of "8 * ?n" ?off val] by simp
  have u: "ucast (v AND mask ?off) = (ucast v AND mask ?off :: u8)" for v :: "'a word"
    using ucast_push_mask [OF w, of 0 ?off v] by simp
  have part: "buf_is (?b[fill + ?n := ucast (drop_bit (8 * ?n) val AND mask ?off)])
      ((bs @ bits_of (8 * ?n) val) @ bits_of ?off (ucast (drop_bit (8 * ?n) val) :: u8))"
    unfolding u using b(2) room by (intro buf_is_set [OF full]) auto
  show "buf_is (bsw_bytes (bsw_word_store top_case w len fill bytes val)) (bs @ bits_of len val)"
    using full part off by (auto simp: bsw_word_store_def Let_def split bits_of_ucast)
qed (use len in \<open>auto simp: bsw_word_store_def Let_def mod_8_top\<close>)

lemma bsw_word_appends:
  fixes val :: "'a::len word"
  assumes "bsw_room w len" "len \<le> 8 * top_case" "8 \<le> LENGTH('a)"
    and w': "w' = (let fill = bsw_fill w; off = bsw_off w; bytes = bsw_bytes w;
          w1 = w\<lparr>bsw_bits := bsw_bits w + len\<rparr>
      in if off \<noteq> 0
         then
           let rest = 8 - off
           in if len < rest
              then w1\<lparr>bsw_bytes := xor_at bytes fill (ucast (push_bit off (val AND mask len))),
                      bsw_off := off + len\<rparr>
              else bsw_word_store top_case w1 (len - rest) (fill + 1)
                     (xor_at bytes fill (ucast (push_bit off (val AND mask rest))))
                     (drop_bit rest val)
         else bsw_word_store top_case w1 len fill bytes val)"
  shows "bsw_appends w (bits_of len val) w'"
proof -
  note wf = bsw_roomD [OF assms(1)]
  note o = bsw_wfD [OF wf(1)]
  let ?rest = "8 - bsw_off w"
  consider (aligned) "bsw_off w = 0" | (small) "bsw_off w \<noteq> 0" "len < ?rest"
    | (large) "bsw_off w \<noteq> 0" "?rest \<le> len" by linarith
  then show ?thesis
  proof cases
    case aligned
    then have "length (bsw_out w) = 8 * bsw_fill w"
      "8 * bsw_fill w + len < 8 * length (bsw_bytes w)" using o wf(2) by auto
    note st = bsw_word_store_spec [OF o(6) this assms(2,3), of "w\<lparr>bsw_bits := bsw_bits w + len\<rparr>" val]
    have "w' = bsw_word_store top_case (w\<lparr>bsw_bits := bsw_bits w + len\<rparr>) len (bsw_fill w)
        (bsw_bytes w) val" using aligned by (simp add: w' Let_def)
    then show ?thesis using st aligned wf o by (intro bsw_appendsI) (auto simp: st)
  next
    case small
    have "buf_is (xor_at (bsw_bytes w) (bsw_fill w) (ucast (push_bit (bsw_off w) (val AND mask len))))
        (bsw_out w @ bits_of len val)"
      using small o assms(3) by (intro buf_is_xor_ucast) auto
    then show ?thesis using small wf o
      by (intro bsw_appendsI) (auto simp: w' Let_def xor_at_def)
  next
    case large
    let ?b = "xor_at (bsw_bytes w) (bsw_fill w) (ucast (push_bit (bsw_off w) (val AND mask ?rest)))"
    have b: "buf_is ?b (bsw_out w @ bits_of ?rest val)"
      using o assms(3) by (intro buf_is_xor_ucast) auto
    have "length (bsw_out w @ bits_of ?rest val) = 8 * (bsw_fill w + 1)"
      "8 * (bsw_fill w + 1) + (len - ?rest) < 8 * length ?b" "len - ?rest \<le> 8 * top_case"
      using large o wf(2) assms(2) by (auto simp: xor_at_def)
    note st = bsw_word_store_spec [OF b this assms(3), of "w\<lparr>bsw_bits := bsw_bits w + len\<rparr>"
        "drop_bit ?rest val"]
    have w'': "w' = bsw_word_store top_case (w\<lparr>bsw_bits := bsw_bits w + len\<rparr>) (len - ?rest)
        (bsw_fill w + 1) ?b (drop_bit ?rest val)" using large by (simp add: w' Let_def)
    have bits: "bits_of len val = bits_of ?rest val @ bits_of (len - ?rest) (drop_bit ?rest val)"
      using bits_of_add [of ?rest "len - ?rest" val] large by simp
    have pos: "8 * (bsw_fill w + 1 + (len - ?rest) div 8) + (len - ?rest) mod 8 = bsw_bits w + len"
      unfolding split_8 using large(2) o(1,2) by simp
    show ?thesis
    proof (rule bsw_appendsI [OF wf(1)])
      show "buf_is (bsw_bytes w') (bsw_out w @ bits_of len val)"
        using st(1) by (simp add: w'' bits)
      show "length (bsw_bytes w') = bsw_size w" using st(4) o(4) by (simp add: w'' xor_at_def)
      show "8 * bsw_fill w' + bsw_off w' = bsw_bits w'"
        using pos by (simp only: w'' st) simp
    qed (use wf st in \<open>simp_all only: w'' st\<close>, simp_all)
  qed
qed

lemma bsw32_unsafe_appends:
  "bsw_room w len \<Longrightarrow> len \<le> 32 \<Longrightarrow> bsw_appends w (bits_of len val) (bsw32_unsafe w len val)"
  by (rule bsw_word_appends [where top_case = 4]) (simp_all add: bsw32_unsafe_def)

lemma bsw64_unsafe_appends:
  "bsw_room w len \<Longrightarrow> len \<le> 64 \<Longrightarrow> bsw_appends w (bits_of len val) (bsw64_unsafe w len val)"
  by (rule bsw_word_appends [where top_case = 8]) (simp_all add: bsw64_unsafe_def)

text \<open>Byte arrays: the bits of the source, shifted to the cursor.\<close>

lemma memcpy_at_store_loop:
  assumes "i + length src \<le> length dst"
  shows "memcpy_at dst i src = store_loop i ((!) src) (length src) dst"
  using assms by (intro nth_equalityI) (auto simp: nth_memcpy_at nth_store_loop)

lemma take_bytes_bits_split:
  "len div 8 < length src \<or> len mod 8 = 0 \<Longrightarrow>
   take len (bytes_bits src) =
     bytes_bits (take (len div 8) src) @ bits_of (len mod 8) (src ! (len div 8))"
proof -
  assume a: "len div 8 < length src \<or> len mod 8 = 0"
  have "take (8 * (len div 8) + len mod 8) (bytes_bits src) =
      bytes_bits (take (len div 8) src) @ take (len mod 8) (drop (8 * (len div 8)) (bytes_bits src))"
    by (simp only: take_add take_bytes_bits)
  moreover have "take (len mod 8) (drop (8 * (len div 8)) (bytes_bits src)) =
      bits_of (len mod 8) (src ! (len div 8))"
    using a by (intro nth_equalityI) (auto simp: bit_byte simp flip: mult_div_mod_eq)
  ultimately show ?thesis by simp
qed

lemma bit_src_pair:
  assumes "rest + off = 8" "j < 8" "q < length src" "off \<le> j \<Longrightarrow> q + 1 < length src"
  shows "bit (drop_bit rest (src ! q) XOR push_bit off (src ! (q + 1))) j =
         bytes_bits src ! (rest + 8 * q + j)"
proof (cases "j < off")
  case True
  then have "bit (src ! q) (rest + j) = bytes_bits src ! (8 * q + (rest + j))"
    using assms by (intro bit_byte) auto
  then show ?thesis using True by (simp add: bit_xor_iff bit_drop_bit_eq bit_push_bit_iff add_ac)
next
  case False
  then have "bit (src ! (q + 1)) (j - off) = bytes_bits src ! (8 * (q + 1) + (j - off))"
    using assms by (intro bit_byte) auto
  moreover have "8 * (q + 1) + (j - off) = rest + 8 * q + j" using False assms by auto
  moreover have "\<not> bit (src ! q) (rest + j)" using False assms(1) bit_imp_le_length [of "src ! q"] by fastforce
  ultimately show ?thesis using False assms
    by (simp add: bit_xor_iff bit_drop_bit_eq bit_push_bit_iff)
qed

lemma src_loop_bits:
  assumes "rest + off = 8" "n < length src"
  shows "bytes_bits (map (\<lambda>i. drop_bit rest (src ! i) XOR push_bit off (src ! (i + 1))) [0..<n])
       = take (8 * n) (drop rest (bytes_bits src))"
proof (rule nth_equalityI)
  fix i
  assume "i < length (bytes_bits (map (\<lambda>i. drop_bit rest (src ! i) XOR push_bit off (src ! (i + 1))) [0..<n]))"
  then have i: "i < 8 * n" by simp
  then have q: "i div 8 < n" "i mod 8 < 8" by auto
  then have "bytes_bits (map (\<lambda>i. drop_bit rest (src ! i) XOR push_bit off (src ! (i + 1))) [0..<n]) ! i
      = bytes_bits src ! (rest + 8 * (i div 8) + i mod 8)"
    using i assms bit_src_pair [OF assms(1) q(2), of "i div 8" src] by (simp add: nth_bytes_bits)
  then show "bytes_bits (map (\<lambda>i. drop_bit rest (src ! i) XOR push_bit off (src ! (i + 1))) [0..<n]) ! i
      = take (8 * n) (drop rest (bytes_bits src)) ! i"
    using i assms by (simp add: add.assoc)
qed (use assms in auto)

lemma src_tail_bits:
  assumes "rest + off = 8" "b < 8" "rest + 8 * n + b \<le> 8 * length src" "0 < rest"
  shows "bits_of b (drop_bit rest (src ! n) XOR (if b \<le> off then 0 else push_bit off (src ! (n + 1))))
       = take b (drop (rest + 8 * n) (bytes_bits src))"
proof (rule nth_equalityI)
  fix j
  assume "j < length (bits_of b (drop_bit rest (src ! n) XOR (if b \<le> off then 0 else push_bit off (src ! (n + 1)))))"
  then have j: "j < b" by simp
  have "bit (drop_bit rest (src ! n) XOR (if b \<le> off then 0 else push_bit off (src ! (n + 1)))) j =
      bit (drop_bit rest (src ! n) XOR push_bit off (src ! (n + 1))) j"
    using j by (auto simp: bit_xor_iff bit_push_bit_iff)
  also have "\<dots> = bytes_bits src ! (rest + 8 * n + j)"
    using assms j by (intro bit_src_pair) auto
  finally show "bits_of b (drop_bit rest (src ! n) XOR (if b \<le> off then 0 else push_bit off (src ! (n + 1)))) ! j
       = take b (drop (rest + 8 * n) (bytes_bits src)) ! j"
    using j assms by simp
qed (use assms in auto)

lemma push_bit_mask_rest: "rest + off = 8 \<Longrightarrow> push_bit off (v AND mask rest) = push_bit off (v :: u8)"
  by (rule bit_word_eqI) (auto simp: bit_push_bit_iff bit_and_mask simp del: push_bit_and)

lemma carry_8: "n \<le> 8 \<Longrightarrow> 0 < n div 8 \<Longrightarrow> 8 + n mod 8 = (n :: nat)"
  by (cases "n = 8") auto

lemma bsw_bytes_unsafe_appends:
  assumes room: "bsw_room w len" and src: "len \<le> 8 * length src"
  shows "bsw_appends w (take len (bytes_bits src)) (bsw_bytes_unsafe w len src)"
proof -
  note wf = bsw_roomD [OF room]
  note o = bsw_wfD [OF wf(1)]
  let ?off = "bsw_off w" and ?rest = "8 - bsw_off w" and ?fill = "bsw_fill w"
    and ?dst = "bsw_bytes w" and ?S = "bytes_bits src"
  consider (aligned) "?off = 0" | (small) "?off \<noteq> 0" "len \<le> ?rest" | (large) "?off \<noteq> 0" "?rest < len"
    by linarith
  then show ?thesis
  proof cases
    case aligned
    let ?d1 = "memcpy_at ?dst ?fill (take (len div 8) src)"
    have fits: "len div 8 \<le> length src" "?fill + len div 8 < length ?dst"
      using src o wf(2) aligned by auto
    then have part: "len div 8 < length src \<or> len mod 8 = 0"
      using src mod_8_top [of len "length src"] by (auto simp: order_le_less)
    have "buf_is ?d1 (bsw_out w @ bytes_bits (take (len div 8) src))"
      using buf_is_store_loop [OF o(6), of ?fill "len div 8" "(!) (take (len div 8) src)"]
        o aligned fits map_nth [of "take (len div 8) src"]
      by (simp add: memcpy_at_store_loop min_absorb2)
    moreover have "buf_is (?d1[?fill + len div 8 := src ! (len div 8) AND mask (len mod 8)])
        ((bsw_out w @ bytes_bits (take (len div 8) src)) @ bits_of (len mod 8) (src ! (len div 8)))"
      using o aligned fits by (intro buf_is_set [OF calculation]) (auto simp: min_absorb2)
    ultimately show ?thesis using aligned wf o fits split_8 [of ?fill len]
      by (intro bsw_appendsI)
        (auto simp: bsw_bytes_unsafe_def Let_def take_bytes_bits_split [OF part] min_absorb2)
  next
    case small
    have "buf_is (xor_at ?dst ?fill (push_bit ?off (src ! 0 AND mask len)))
        (bsw_out w @ bits_of len (src ! 0))"
      using small o by (intro buf_is_xor) auto
    moreover have "0 < len \<Longrightarrow> src \<noteq> []" using src by auto
    then have "bits_of len (src ! 0) = take len ?S"
      using small src bit_byte [of 0 src] by (intro nth_equalityI) auto
    ultimately show ?thesis using small wf o src carry_8 [of "?off + len"]
      by (intro bsw_appendsI) (auto simp: bsw_bytes_unsafe_def Let_def xor_at_def)
  next
    case large
    let ?n = "(len - ?rest) div 8" and ?b = "(len - ?rest) mod 8"
    let ?f = "\<lambda>i. drop_bit ?rest (src ! i) XOR push_bit ?off (src ! (i + 1))"
    let ?tal = "drop_bit ?rest (src ! ?n) XOR (if ?b \<le> ?off then 0 else push_bit ?off (src ! (?n + 1)))"
    have len: "len = ?rest + 8 * ?n + ?b" using large(2) by simp
    have ro: "?rest + ?off = 8" "0 < ?rest" using o(1) by auto
    have fits: "?n < length src" "?fill + 1 + ?n < length ?dst"
      using src o wf(2) large(2) by (linarith, linarith)
    have head: "bits_of ?rest (src ! 0) = take ?rest ?S"
    proof -
      have "src \<noteq> []" using fits(1) by auto
      moreover from this have "min (8 * length src) ?rest = ?rest" by (cases src) auto
      ultimately show ?thesis using bit_byte [of 0 src] by (intro nth_equalityI) auto
    qed
    let ?d1 = "xor_at ?dst ?fill (push_bit ?off (src ! 0))"
    have d1: "buf_is ?d1 (bsw_out w @ take ?rest ?S)"
      using buf_is_xor [OF o(6), of ?fill ?off ?rest "src ! 0"] o ro head
      by (simp add: push_bit_mask_rest [OF ro(1)] del: push_bit_and)
    have d2: "buf_is (store_loop (?fill + 1) ?f ?n ?d1)
        ((bsw_out w @ take ?rest ?S) @ take (8 * ?n) (drop ?rest ?S))"
      using buf_is_store_loop [OF d1, of "?fill + 1" ?n ?f] o ro fits src_loop_bits [OF ro(1) fits(1)]
      by (simp add: xor_at_def)
    have d3: "buf_is ((store_loop (?fill + 1) ?f ?n ?d1)[?fill + 1 + ?n := ?tal AND mask ?b])
        (((bsw_out w @ take ?rest ?S) @ take (8 * ?n) (drop ?rest ?S)) @ bits_of ?b ?tal)"
      using o fits ro src len by (intro buf_is_set [OF d2]) (auto simp: xor_at_def)
    have tail: "bits_of ?b ?tal = take ?b (drop (?rest + 8 * ?n) ?S)"
      using ro len src by (intro src_tail_bits) auto
    have bits: "take len ?S = take ?rest ?S @ take (8 * ?n) (drop ?rest ?S) @ bits_of ?b ?tal"
      unfolding tail by (subst len) (simp only: take_add append_assoc)
    have w': "bsw_bytes_unsafe w len src = w\<lparr>
        bsw_bytes := (store_loop (?fill + 1) ?f ?n ?d1)[?fill + 1 + ?n := ?tal AND mask ?b],
        bsw_fill := ?fill + ?n + 1, bsw_off := ?b, bsw_bits := bsw_bits w + len\<rparr>"
      using large by (simp add: bsw_bytes_unsafe_def Let_def)
    have pos: "8 * (?fill + ?n + 1) + ?b = bsw_bits w + len"
      using split_8 [of "?fill + 1" "len - ?rest"] large(2) o(1,2) by simp
    show ?thesis
    proof (rule bsw_appendsI [OF wf(1)])
      show "buf_is (bsw_bytes (bsw_bytes_unsafe w len src)) (bsw_out w @ take len ?S)"
        using d3 unfolding w' bits by simp
      show "8 * bsw_fill (bsw_bytes_unsafe w len src) + bsw_off (bsw_bytes_unsafe w len src) =
          bsw_bits (bsw_bytes_unsafe w len src)" using pos unfolding w' by simp
    qed (use wf(2) o src in \<open>simp_all add: w' xor_at_def\<close>)
  qed
qed

section \<open>Run-length encoding\<close>

text \<open>
  The encoding of a value of \<open>len\<close> bits, as the jam format has it: a length prefix (the bit
  length of \<open>len\<close> in unary, then \<open>len\<close> without its top bit) and the bits.
\<close>

definition mat_bits :: "bool list \<Rightarrow> bool list" where
  "mat_bits bs =
     (let len = length bs; nel = met0 len
      in if len = 0 then [True]
         else replicate nel False @ [True] @ bits_of (nel - 1) len @ bs)"

lemma length_mat_bits: "length (mat_bits bs) = MAT_LEN (length bs)"
  by (auto simp: mat_bits_def MAT_LEN_def Let_def met0_pos)

lemma fill_less: "8 * q + off = p \<Longrightarrow> p < 8 * s \<Longrightarrow> q < s" for q off p s :: nat
  by linarith

lemma cursor_suc:
  fixes q off p :: nat
  assumes "8 * q + off = p" "off < 8"
  shows "8 * (if off = 7 then 1 + q else q) + (if off = 7 then 0 else 1 + off) = p + 1"
    "(if off = 7 then 0 else 1 + off) < 8"
  using assms by auto

lemma bsw_bex_unsafe_appends:
  assumes "bsw_room w (Suc n)"
  shows "bsw_appends w (replicate n False @ [True]) (bsw_bex_unsafe w n)"
proof -
  note wf = bsw_roomD [OF assms]
  note o = bsw_wfD [OF wf(1)]
  let ?q = "bsw_fill w + (n + bsw_off w) div 8" and ?off = "(n + bsw_off w) mod 8"
  have pos: "8 * ?q + ?off = bsw_bits w + n"
    using split_8 [of "bsw_fill w" "n + bsw_off w"] o(2) by simp
  have q: "?q < bsw_size w" by (rule fill_less [OF pos]) (use wf(2) in simp)
  have "buf_is (bsw_bytes w) (bsw_out w @ replicate n False)"
    using o wf(2) by (intro buf_is_zeros) auto
  then have "buf_is (xor_at (bsw_bytes w) ?q (push_bit ?off (1 AND mask 1)))
      ((bsw_out w @ replicate n False) @ bits_of 1 (1 :: u8))"
    using pos q o by (intro buf_is_xor) auto
  moreover have "bits_of 1 (1 :: u8) = [True]" by (simp add: bits_of_def)
  ultimately have b: "buf_is (xor_at (bsw_bytes w) ?q (push_bit ?off 1))
      (bsw_out w @ replicate n False @ [True])" by simp
  have w': "bsw_bex_unsafe w n = w\<lparr>bsw_bytes := xor_at (bsw_bytes w) ?q (push_bit ?off 1),
      bsw_fill := (if ?off = 7 then 1 + ?q else ?q), bsw_off := (if ?off = 7 then 0 else 1 + ?off),
      bsw_bits := bsw_bits w + (1 + n)\<rparr>"
    by (simp add: bsw_bex_unsafe_def Let_def)
  have lt: "?off < 8" by simp
  note cur = cursor_suc [OF pos lt]
  show ?thesis
  proof (rule bsw_appendsI [OF wf(1)])
    show "8 * bsw_fill (bsw_bex_unsafe w n) + bsw_off (bsw_bex_unsafe w n) =
        bsw_bits (bsw_bex_unsafe w n)"
      using cur(1) by (simp only: w') simp
    show "bsw_off (bsw_bex_unsafe w n) < 8" using cur(2) by (simp only: w') simp
  qed (use wf(2) o b in \<open>simp_all add: w' xor_at_def\<close>)
qed

lemma bits_of_of_nat_u64: "n \<le> 64 \<Longrightarrow> bits_of n (of_nat len :: u64) = bits_of n len"
  by (rule bits_of_cong) (simp add: bit_simps)

lemma run_length_appends:
  assumes "bsw_room w (2 * met0 len + m)" "0 < len" "len < 2 ^ 64"
  shows "bsw_appends w (replicate (met0 len) False @ [True] @ bits_of (met0 len - 1) len)
           (bsw64_unsafe (bsw_bex_unsafe w (met0 len)) (met0 len - 1) (of_nat len))"
    and "bsw_room (bsw64_unsafe (bsw_bex_unsafe w (met0 len)) (met0 len - 1) (of_nat len)) m"
proof -
  let ?nel = "met0 len"
  have nel: "0 < ?nel" "?nel \<le> 64" using assms(2,3) by (simp_all add: met0_pos met0_le_iff)
  have room: "bsw_room w (Suc ?nel + (?nel - 1 + m))"
    using assms(1) nel by (simp add: mult_2 add.assoc)
  then have "bsw_room w (Suc ?nel)" by (simp add: bsw_room_def)
  note bex = bsw_bex_unsafe_appends [OF this]
  have room1: "bsw_room (bsw_bex_unsafe w ?nel) (?nel - 1 + m)"
    using bsw_appends_room [OF bex] room by simp
  then have "bsw_room (bsw_bex_unsafe w ?nel) (?nel - 1)" by (simp add: bsw_room_def)
  then have w64: "bsw_appends (bsw_bex_unsafe w ?nel) (bits_of (?nel - 1) (of_nat len :: u64))
      (bsw64_unsafe (bsw_bex_unsafe w ?nel) (?nel - 1) (of_nat len))"
    using nel by (intro bsw64_unsafe_appends) auto
  show "bsw_appends w (replicate ?nel False @ [True] @ bits_of (?nel - 1) len)
      (bsw64_unsafe (bsw_bex_unsafe w ?nel) (?nel - 1) (of_nat len))"
    using bsw_appends_trans [OF bex w64] nel by (simp add: bits_of_of_nat_u64)
  show "bsw_room (bsw64_unsafe (bsw_bex_unsafe w ?nel) (?nel - 1) (of_nat len)) m"
    using bsw_appends_room [OF w64] room1 by simp
qed

lemma bsw_mat64_unsafe_appends:
  assumes "bsw_room w (MAT_LEN len)" "len \<le> 64"
  shows "bsw_appends w (mat_bits (bits_of len val)) (bsw_mat64_unsafe w len val)"
proof (cases "len = 0")
  case True
  then show ?thesis using assms(1) bsw_bit_unsafe_appends [of w 1]
    by (simp add: bsw_mat64_unsafe_def mat_bits_def MAT_LEN_def)
next
  case False
  then have "bsw_room w (2 * met0 len + len)" "0 < len" "len < 2 ^ 64"
    using assms by (auto simp: MAT_LEN_def add.commute)
  note run = run_length_appends [OF this]
  show ?thesis using bsw_appends_trans [OF run(1) bsw64_unsafe_appends [OF run(2) assms(2)]] False
    by (simp add: bsw_mat64_unsafe_def mat_bits_def Let_def)
qed

lemma bsw_mat_bytes_unsafe_appends:
  assumes "bsw_room w (MAT_LEN len)" "len \<le> 8 * length byt" "len < 2 ^ 64"
  shows "bsw_appends w (mat_bits (take len (bytes_bits byt))) (bsw_mat_bytes_unsafe w len byt)"
proof (cases "len = 0")
  case True
  then show ?thesis using assms(1) bsw_bit_unsafe_appends [of w 1]
    by (simp add: bsw_mat_bytes_unsafe_def mat_bits_def MAT_LEN_def)
next
  case False
  then have "bsw_room w (2 * met0 len + len)" "0 < len"
    using assms by (auto simp: MAT_LEN_def add.commute)
  note run = run_length_appends [OF this assms(3)]
  show ?thesis using bsw_appends_trans [OF run(1) bsw_bytes_unsafe_appends [OF run(2) assms(2)]]
      False assms(2)
    by (simp add: bsw_mat_bytes_unsafe_def mat_bits_def Let_def min_absorb2)
qed

section \<open>Growing, and the public operations\<close>

definition bsw_adds :: "bsw \<Rightarrow> bool list \<Rightarrow> bsw \<Rightarrow> bool" where
  "bsw_adds w bs w' \<longleftrightarrow> bsw_wf w' \<and> bsw_out w' = bsw_out w @ bs"

lemma bsw_appends_adds: "bsw_appends w1 bs w' \<Longrightarrow> bsw_out w1 = bsw_out w \<Longrightarrow> bsw_adds w bs w'"
  by (simp add: bsw_appends_def bsw_adds_def)

lemma ur_bsw_grow_wf:
  assumes "bsw_wf w"
  shows "bsw_wf (ur_bsw_grow w step)" "bsw_out (ur_bsw_grow w step) = bsw_out w"
    "bsw_size (ur_bsw_grow w step) = bsw_size w + step" "bsw_bits (ur_bsw_grow w step) = bsw_bits w"
    "bsw_off (ur_bsw_grow w step) = bsw_off w" "bsw_fill (ur_bsw_grow w step) = bsw_fill w"
proof -
  note o = bsw_wfD [OF assms]
  show out: "bsw_out (ur_bsw_grow w step) = bsw_out w"
    using o by (simp add: ur_bsw_grow_def bsw_out_def bytes_bits_append Let_def)
  have "buf_is (bsw_bytes (ur_bsw_grow w step)) (bsw_out w)"
    using buf_is_grow [OF o(6)] by (simp add: ur_bsw_grow_def Let_def)
  then show "bsw_wf (ur_bsw_grow w step)"
    using assms o out by (auto simp: bsw_wf_def ur_bsw_sane_def ur_bsw_grow_def Let_def)
qed (simp_all add: ur_bsw_grow_def Let_def)

lemma bsw_ensure_room:
  assumes "bsw_wf w" "bsw_off w + n \<le> 8 * need"
  shows "bsw_room (bsw_ensure w need) n" "bsw_out (bsw_ensure w need) = bsw_out w"
    "bsw_off (bsw_ensure w need) = bsw_off w"
  using assms ur_bsw_grow_wf [OF assms(1)] bsw_wfD [OF assms(1)]
  by (auto simp: bsw_ensure_def bsw_room_def)

lemma bloq_up3_le: "n \<le> 8 * bloq_up3 n"
  by (simp add: bloq_up3_def)

lemma bsw_ensure_adds:
  assumes "bsw_wf w" "bsw_off w + n \<le> m"
    and "\<And>w1. bsw_room w1 n \<Longrightarrow> bsw_appends w1 bs (f w1)"
  shows "bsw_adds w bs (f (bsw_ensure w (bloq_up3 m)))"
proof -
  have "bsw_off w + n \<le> 8 * bloq_up3 m" using assms(2) bloq_up3_le [of m] by simp
  note room = bsw_ensure_room [OF assms(1) this]
  show ?thesis by (rule bsw_appends_adds [OF assms(3) [OF room(1)] room(2)])
qed

lemma ur_bsw_init_wf:
  assumes "0 < prev" "0 < sz"
  shows "bsw_wf (ur_bsw_init bsw_zero prev sz)" "bsw_out (ur_bsw_init bsw_zero prev sz) = []"
  using assms buf_is_replicate
  by (simp_all add: bsw_wf_def ur_bsw_init_def bsw_zero_def ur_bsw_sane_def bsw_out_def)

lemma ur_bsw_bit_adds:
  assumes "bsw_wf w"
  shows "bsw_adds w [bit b 0] (ur_bsw_bit w b)"
proof -
  note o = bsw_wfD [OF assms] and g = ur_bsw_grow_wf [OF assms]
  let ?w = "if bsw_off w = 7 \<and> 1 + bsw_fill w = bsw_size w then ur_bsw_grow w (bsw_prev w) else w"
  have "bsw_bits w + 1 < 8 * bsw_size w" if "bsw_off w \<noteq> 7 \<or> 1 + bsw_fill w \<noteq> bsw_size w"
    using o(1,2,5) that by linarith
  moreover have "bsw_bits w + 1 < 8 * (bsw_size w + bsw_prev w)"
    using o(3,8) unfolding distrib_left by linarith
  ultimately have "bsw_room ?w 1" "bsw_out ?w = bsw_out w"
    using assms g by (auto simp: bsw_room_def)
  from bsw_appends_adds [OF bsw_bit_unsafe_appends [OF this(1)] this(2)]
  show ?thesis by (simp add: ur_bsw_bit_def)
qed

lemma ur_bsw8_adds:
  assumes "bsw_wf w"
  shows "bsw_adds w (bits_of (min 8 len) byt) (ur_bsw8 w len byt)"
proof -
  note o = bsw_wfD [OF assms] and g = ur_bsw_grow_wf [OF assms]
  let ?len = "min 8 len"
  let ?w = "if bsw_size w \<le> bsw_fill w + of_bool ((bsw_off w + ?len) div 8 \<noteq> 0)
            then ur_bsw_grow w (bsw_prev w) else w"
  have len: "?len \<le> 8" by simp
  have "bsw_bits w + ?len < 8 * bsw_size w"
    if "\<not> bsw_size w \<le> bsw_fill w + of_bool ((bsw_off w + ?len) div 8 \<noteq> 0)"
  proof (cases "bsw_off w + ?len < 8")
    case True
    then show ?thesis using o(2,5) by linarith
  next
    case False
    then have "(bsw_off w + ?len) div 8 \<noteq> 0" by linarith
    then have "bsw_fill w + 1 < bsw_size w" using that by simp
    then show ?thesis using o(1,2) len by linarith
  qed
  moreover have "bsw_bits w + ?len < 8 * (bsw_size w + bsw_prev w)"
    using o(3,8) len unfolding distrib_left by linarith
  ultimately have "bsw_room ?w ?len" "bsw_out ?w = bsw_out w"
    using assms g by auto (auto simp: bsw_room_def)
  from bsw_appends_adds [OF bsw8_unsafe_appends [OF this(1)] this(2)]
  show ?thesis by (simp add: ur_bsw8_def Let_def)
qed

lemma ur_bsw32_adds: "bsw_wf w \<Longrightarrow> bsw_adds w (bits_of (min 32 len) v) (ur_bsw32 w len v)"
  unfolding ur_bsw32_def Let_def
  by (rule bsw_ensure_adds [where n = "min 32 len"]) (auto intro: bsw32_unsafe_appends)

lemma ur_bsw64_adds: "bsw_wf w \<Longrightarrow> bsw_adds w (bits_of (min 64 len) v) (ur_bsw64 w len v)"
  unfolding ur_bsw64_def Let_def
  by (rule bsw_ensure_adds [where n = "min 64 len"]) (auto intro: bsw64_unsafe_appends)

lemma ur_bsw_bytes_adds:
  "bsw_wf w \<Longrightarrow> len \<le> 8 * length byt \<Longrightarrow>
   bsw_adds w (take len (bytes_bits byt)) (ur_bsw_bytes w len byt)"
  unfolding ur_bsw_bytes_def
  by (rule bsw_ensure_adds [where n = len]) (auto intro: bsw_bytes_unsafe_appends)

lemma ur_bsw_bex_adds: "bsw_wf w \<Longrightarrow> bsw_adds w (replicate n False @ [True]) (ur_bsw_bex w n)"
  unfolding ur_bsw_bex_def
  by (rule bsw_ensure_adds [where n = "Suc n"]) (auto intro: bsw_bex_unsafe_appends)

lemma ur_bsw_mat64_adds:
  "bsw_wf w \<Longrightarrow> bsw_adds w (mat_bits (bits_of (min 64 len) v)) (ur_bsw_mat64 w len v)"
  unfolding ur_bsw_mat64_def Let_def
  by (rule bsw_ensure_adds [where n = "MAT_LEN (min 64 len)"])
    (auto intro: bsw_mat64_unsafe_appends)

lemma ur_bsw_mat_bytes_adds:
  "bsw_wf w \<Longrightarrow> len \<le> 8 * length byt \<Longrightarrow> len < 2 ^ 64 \<Longrightarrow>
   bsw_adds w (mat_bits (take len (bytes_bits byt))) (ur_bsw_mat_bytes w len byt)"
  unfolding ur_bsw_mat_bytes_def
  by (rule bsw_ensure_adds [where n = "MAT_LEN len"]) (auto intro: bsw_mat_bytes_unsafe_appends)

text \<open>The tagged items of a jam buffer.\<close>

lemma bsw_room_mono: "bsw_room w n \<Longrightarrow> m \<le> n \<Longrightarrow> bsw_room w m"
  by (simp add: bsw_room_def)

lemma bsw_back64_appends:
  assumes "bsw_room w (2 + MAT_LEN len)" "len \<le> 64"
  shows "bsw_appends w (True # True # mat_bits (bits_of len v)) (bsw_back64 w len v)"
proof -
  have tag: "bits_of 2 (3 :: u8) = [True, True]" by (simp add: bits_of_def upt_rec)
  have t: "bsw_appends w [True, True] (bsw8_unsafe w 2 3)"
    using bsw8_unsafe_appends [of w 2 3] bsw_room_mono [OF assms(1)] tag by simp
  have "bsw_room (bsw8_unsafe w 2 3) (MAT_LEN len)"
    by (rule bsw_appends_room [OF t]) (use assms(1) in simp)
  from bsw_appends_trans [OF t bsw_mat64_unsafe_appends [OF this assms(2)]]
  show ?thesis by (simp add: bsw_back64_def)
qed

lemma bsw_atom64_appends:
  assumes "bsw_room w (1 + MAT_LEN len)" "len \<le> 64"
  shows "bsw_appends w (False # mat_bits (bits_of len v)) (bsw_atom64 w len v)"
proof -
  have t: "bsw_appends w [False] (bsw_bit_unsafe w 0)"
    using bsw_bit_unsafe_appends [of w 0] bsw_room_mono [OF assms(1)] by simp
  have "bsw_room (bsw_bit_unsafe w 0) (MAT_LEN len)"
    by (rule bsw_appends_room [OF t]) (use assms(1) in simp)
  from bsw_appends_trans [OF t bsw_mat64_unsafe_appends [OF this assms(2)]]
  show ?thesis by (simp add: bsw_atom64_def)
qed

lemma bsw_atom_bytes_appends:
  assumes "bsw_room w (1 + MAT_LEN len)" "len \<le> 8 * length byt" "len < 2 ^ 64"
  shows "bsw_appends w (False # mat_bits (take len (bytes_bits byt))) (bsw_atom_bytes_unsafe w len byt)"
proof -
  have t: "bsw_appends w [False] (bsw_bit_unsafe w 0)"
    using bsw_bit_unsafe_appends [of w 0] bsw_room_mono [OF assms(1)] by simp
  have "bsw_room (bsw_bit_unsafe w 0) (MAT_LEN len)"
    by (rule bsw_appends_room [OF t]) (use assms(1) in simp)
  from bsw_appends_trans [OF t bsw_mat_bytes_unsafe_appends [OF this assms(2,3)]]
  show ?thesis by (simp add: bsw_atom_bytes_unsafe_def)
qed

lemma ur_bsw_back64_adds:
  "bsw_wf w \<Longrightarrow> bsw_adds w (True # True # mat_bits (bits_of (min 64 len) v)) (ur_bsw_back64 w len v)"
  unfolding ur_bsw_back64_def Let_def
  by (rule bsw_ensure_adds [where n = "2 + MAT_LEN (min 64 len)"]) (auto intro: bsw_back64_appends)

lemma ur_bsw_atom64_adds:
  "bsw_wf w \<Longrightarrow> bsw_adds w (False # mat_bits (bits_of (min 64 len) v)) (ur_bsw_atom64 w len v)"
  unfolding ur_bsw_atom64_def Let_def
  by (rule bsw_ensure_adds [where n = "1 + MAT_LEN (min 64 len)"]) (auto intro: bsw_atom64_appends)

lemma ur_bsw_atom_bytes_adds:
  "bsw_wf w \<Longrightarrow> len \<le> 8 * length byt \<Longrightarrow> len < 2 ^ 64 \<Longrightarrow>
   bsw_adds w (False # mat_bits (take len (bytes_bits byt))) (ur_bsw_atom_bytes w len byt)"
  unfolding ur_bsw_atom_bytes_def
  by (rule bsw_ensure_adds [where n = "1 + MAT_LEN len"]) (auto intro: bsw_atom_bytes_appends)

lemma ur_bsw_cell_adds:
  assumes "bsw_wf w"
  shows "bsw_adds w [True, False] (ur_bsw_cell w)"
proof -
  have tag: "bits_of 2 (1 :: u8) = [True, False]" by (simp add: bits_of_def upt_rec bit_1_iff)
  show ?thesis unfolding ur_bsw_cell_def
    by (rule bsw_ensure_adds [OF assms, where n = 2])
      (use bsw8_unsafe_appends [where len = 2 and byt = 1] tag in auto)
qed

text \<open>What is handed over at the end: the number of bits, and bytes that hold them.\<close>

lemma ur_bsw_done_spec:
  assumes "bsw_wf w" "ur_bsw_done w = ((bits, len, byt), w')"
  shows "bits = length (bsw_out w)" "len = bloq_up3 bits" "len \<le> length byt"
    "bytes_bits (take len byt) = bsw_out w @ replicate (8 * len - bits) False" "w' = bsw_zero"
proof -
  note o = bsw_wfD [OF assms(1)]
  have eq: "bits = bsw_bits w" "byt = bsw_bytes w" "len = bsw_fill w + of_bool (bsw_off w \<noteq> 0)"
    "w' = bsw_zero" using assms(2) by (auto simp: ur_bsw_done_def)
  show "bits = length (bsw_out w)" "w' = bsw_zero" using eq o by auto
  show len: "len = bloq_up3 bits" using eq o by (auto simp: bloq_up3_def)
  show fits: "len \<le> length byt" using eq o by auto
  show "bytes_bits (take len byt) = bsw_out w @ replicate (8 * len - bits) False"
    using o(6,7) eq fits bloq_up3_le [of bits] len
    by (simp add: take_bytes_bits buf_is_def min_def)
qed

section \<open>The contract of an appending operation\<close>

text \<open>
  Every public operation adds the encoding of its argument and keeps the invariant; so
  does any sequence of them.
\<close>

locale appender =
  fixes add :: "bsw \<Rightarrow> 'a \<Rightarrow> bsw"
    and ok :: "'a \<Rightarrow> bool"
    and enc :: "'a \<Rightarrow> bool list"
  assumes add_adds: "bsw_wf w \<Longrightarrow> ok x \<Longrightarrow> bsw_adds w (enc x) (add w x)"
begin

lemma add_wf: "bsw_wf w \<Longrightarrow> ok x \<Longrightarrow> bsw_wf (add w x)"
  using add_adds [of w x] by (simp add: bsw_adds_def)

lemma add_out: "bsw_wf w \<Longrightarrow> ok x \<Longrightarrow> bsw_out (add w x) = bsw_out w @ enc x"
  using add_adds [of w x] by (simp add: bsw_adds_def)

lemma add_all:
  "bsw_wf w \<Longrightarrow> list_all ok xs \<Longrightarrow> bsw_adds w (concat (map enc xs)) (foldl add w xs)"
proof (induction xs arbitrary: w)
  case Nil
  then show ?case by (simp add: bsw_adds_def)
next
  case (Cons x xs)
  then have "bsw_adds (add w x) (concat (map enc xs)) (foldl add (add w x) xs)"
    by (intro Cons.IH) (auto intro: add_wf)
  then show ?case using Cons.prems by (simp add: bsw_adds_def add_out)
qed

end

locale bit_writer =
  appender "\<lambda>w (n, v). emit w n v" "\<lambda>_. True" "\<lambda>(n, v). bits_of (min cap n) v"
  for emit :: "bsw \<Rightarrow> nat \<Rightarrow> 'w::len word \<Rightarrow> bsw" and cap :: nat
begin

lemma write_wf: "bsw_wf w \<Longrightarrow> bsw_wf (emit w n v)"
  using add_wf [of w "(n, v)"] by simp

lemma write_out: "bsw_wf w \<Longrightarrow> bsw_out (emit w n v) = bsw_out w @ bits_of (min cap n) v"
  using add_out [of w "(n, v)"] by simp

text \<open>A value written in two parts, low bits first, is the value written at once.\<close>

lemma write_write:
  "bsw_wf w \<Longrightarrow> m + n \<le> cap \<Longrightarrow>
   bsw_out (emit (emit w m v) n (drop_bit m v)) = bsw_out (emit w (m + n) v)"
  using write_wf [of w m v] by (simp add: write_out bits_of_add)

end

interpretation w_bit: appender ur_bsw_bit "\<lambda>_. True" "\<lambda>b. [bit b 0]"
  by unfold_locales (rule ur_bsw_bit_adds)

interpretation w8: bit_writer ur_bsw8 8
  by unfold_locales (auto intro: ur_bsw8_adds)

interpretation w32: bit_writer ur_bsw32 32
  by unfold_locales (auto intro: ur_bsw32_adds)

interpretation w64: bit_writer ur_bsw64 64
  by unfold_locales (auto intro: ur_bsw64_adds)

interpretation w_bytes: appender "\<lambda>w (len, byt). ur_bsw_bytes w len byt"
  "\<lambda>(len, byt). len \<le> 8 * length byt" "\<lambda>(len, byt). take len (bytes_bits byt)"
  by unfold_locales (auto intro: ur_bsw_bytes_adds)

interpretation w_bex: appender ur_bsw_bex "\<lambda>_. True" "\<lambda>n. replicate n False @ [True]"
  by unfold_locales (rule ur_bsw_bex_adds)

interpretation w_mat64: appender "\<lambda>w (len, v). ur_bsw_mat64 w len v" "\<lambda>_. True"
  "\<lambda>(len, v). mat_bits (bits_of (min 64 len) v)"
  by unfold_locales (auto intro: ur_bsw_mat64_adds)

interpretation w_mat_bytes: appender "\<lambda>w (len, byt). ur_bsw_mat_bytes w len byt"
  "\<lambda>(len, byt). len \<le> 8 * length byt \<and> len < 2 ^ 64"
  "\<lambda>(len, byt). mat_bits (take len (bytes_bits byt))"
  by unfold_locales (auto intro: ur_bsw_mat_bytes_adds)

interpretation w_back64: appender "\<lambda>w (len, v). ur_bsw_back64 w len v" "\<lambda>_. True"
  "\<lambda>(len, v). True # True # mat_bits (bits_of (min 64 len) v)"
  by unfold_locales (auto intro: ur_bsw_back64_adds)

interpretation w_atom64: appender "\<lambda>w (len, v). ur_bsw_atom64 w len v" "\<lambda>_. True"
  "\<lambda>(len, v). False # mat_bits (bits_of (min 64 len) v)"
  by unfold_locales (auto intro: ur_bsw_atom64_adds)

interpretation w_atom_bytes: appender "\<lambda>w (len, byt). ur_bsw_atom_bytes w len byt"
  "\<lambda>(len, byt). len \<le> 8 * length byt \<and> len < 2 ^ 64"
  "\<lambda>(len, byt). False # mat_bits (take len (bytes_bits byt))"
  by unfold_locales (auto intro: ur_bsw_atom_bytes_adds)

interpretation w_cell: appender "\<lambda>w (_ :: unit). ur_bsw_cell w" "\<lambda>_. True" "\<lambda>_. [True, False]"
  by unfold_locales (rule ur_bsw_cell_adds)

end
