(* ===== verification/Bitstream.thy ===== *)
theory Bitstream
  imports BitReader BitWriter
begin

text \<open>
  The two ends of a bitstream together: what the writer of \<open>pkg/ur/bitstream.c\<close> puts
  into its buffer, the reader takes out again.  The run-length encoding of
  \<open>ur_bsw_mat64\<close> and \<open>ur_bsw_mat_bytes\<close> is what \<open>ur_bsr_rub_len\<close> decodes.
\<close>

section \<open>A finished buffer, opened\<close>

definition bsr_open :: "bsw \<Rightarrow> (cue_err + unit) \<times> bsr" where
  "bsr_open w =
     (case ur_bsw_done w of ((bits, len, byt), _) \<Rightarrow> ur_bsr_init bsr_zero len (take len byt))"

lemma bsr_open_spec:
  assumes "bsw_wf w" "bsw_bits w < 2 ^ 61"
  shows "\<exists>r k. bsr_open w = (Inr (), r) \<and> bsr_wf r \<and> k < 8 \<and>
           bsr_stream r = bsw_out w @ replicate k False"
proof -
  obtain bits len byt w' where d: "ur_bsw_done w = ((bits, len, byt), w')"
    by (metis prod_cases3 surj_pair)
  note s = ur_bsw_done_spec [OF assms(1) d]
  have bits: "bits = bsw_bits w" using d by (simp add: ur_bsw_done_def)
  have len: "len * 8 < 2 ^ 64" using s(2) assms(2) by (simp add: bits bloq_up3_def)
  let ?r = "bsr_zero\<lparr>bsr_left := len, bsr_bytes := take len byt\<rparr>"
  have "bsr_open w = (Inr (), ?r)" using d len by (simp add: bsr_open_def ur_bsr_init_def)
  moreover have "bsr_wf ?r" using s(3) by (intro bsr_wfI) (auto simp: bsr_zero_def)
  moreover have "8 * len - bits < 8" by (simp add: s(2) bloq_up3_def)
  moreover have "bsr_stream ?r = bsw_out w @ replicate (8 * len - bits) False"
    using s(4) by (simp add: bsr_stream_def bsr_zero_def)
  ultimately show ?thesis by blast
qed

section \<open>Sized values\<close>

locale bit_channel = wr: bit_writer emit cap + rd: any_reader read cap
  for emit :: "bsw \<Rightarrow> nat \<Rightarrow> 'w::len word \<Rightarrow> bsw" and cap :: nat
    and read :: "bsr \<Rightarrow> nat \<Rightarrow> 'w::len word \<times> bsr"
begin

lemma write_read:
  assumes "bsw_wf w" "bsr_wf r" "n \<le> cap"
    and "bsw_out w @ bsr_stream r = bsw_out (emit w n v) @ rest"
  shows "fst (read r n) = take_bit n v" "bsr_stream (snd (read r n)) = rest"
proof -
  have s: "bsr_stream r = bits_of n v @ rest"
    using assms wr.write_out [of w n v] by (simp add: min_absorb2)
  show "fst (read r n) = take_bit n v"
    using assms(2,3) s by (simp add: rd.read_value min_absorb2 word_of_bits_bits_of)
  show "bsr_stream (snd (read r n)) = rest"
    using assms(2,3) s by (simp add: rd.read_stream min_absorb2)
qed

end

interpretation c8: bit_channel ur_bsw8 8 ur_bsr8_any
  by unfold_locales

interpretation c32: bit_channel ur_bsw32 32 ur_bsr32_any
  by unfold_locales

interpretation c64: bit_channel ur_bsw64 64 ur_bsr64_any
  by unfold_locales

section \<open>Run lengths\<close>

lemma bit_met0_top: "0 < n \<Longrightarrow> bit n (met0 n - 1)" for n :: nat
proof (induction n rule: met0.induct)
  case (1 n)
  show ?case
  proof (cases "n div 2 = 0")
    case True
    then have "n = 1" using 1 by auto
    then show ?thesis by (simp add: met0_pos bit_0)
  next
    case False
    then have "bit (n div 2) (met0 (n div 2) - 1)" using 1 by auto
    moreover have "met0 n - 1 = Suc (met0 (n div 2) - 1)"
      using False 1(2) by (simp add: met0_pos)
    ultimately show ?thesis by (simp add: bit_Suc)
  qed
qed

lemma restore_top_bit:
  assumes "0 < n" "met0 n \<le> 64"
  shows "word_of_bits (bits_of (met0 n - 1) n) XOR push_bit (met0 n - 1) 1 = (of_nat n :: u64)"
proof (rule bit_word_eqI)
  fix i
  assume i: "i < LENGTH(64)"
  have "bit n i \<longleftrightarrow> i < met0 n - 1 \<and> bit n i \<or> i = met0 n - 1"
    using bit_met0_top [OF assms(1)] bit_less_met0 [of n i] by auto
  then show "bit (word_of_bits (bits_of (met0 n - 1) n) XOR push_bit (met0 n - 1) 1 :: u64) i
      = bit (of_nat n :: u64) i"
    using i assms by (auto simp: bit_simps bit_word_of_bits)
qed

lemma ur_bsr_rub_len_mat:
  assumes wf: "bsr_wf r" and s: "bsr_stream r = mat_bits bs @ rest" and len: "length bs < 2 ^ 63"
  shows "fst (ur_bsr_rub_len r) = Inr (of_nat (length bs))"
    "bsr_wf (snd (ur_bsr_rub_len r))" "bsr_stream (snd (ur_bsr_rub_len r)) = bs @ rest"
proof -
  let ?n = "length bs" and ?z = "met0 (length bs)"
  have "fst (ur_bsr_rub_len r) = Inr (of_nat ?n) \<and> bsr_wf (snd (ur_bsr_rub_len r)) \<and>
    bsr_stream (snd (ur_bsr_rub_len r)) = bs @ rest"
  proof (cases "?n = 0")
    case True
    then have s0: "bsr_stream r = replicate 0 False @ True # rest" using s by (simp add: mat_bits_def)
    then have "zeros_of (bsr_stream r) = 0" by (simp only: zeros_of_replicate)
    note log = ur_bsr_log_good [OF wf this]
    then show ?thesis using s0 True
      by (cases "ur_bsr_log r") (auto simp: ur_bsr_rub_len_def)
  next
    case False
    then have n: "0 < ?n" by simp
    have z: "?z \<le> 63" using len by (simp add: met0_le_iff)
    have sz: "bsr_stream r = replicate ?z False @ True # (bits_of (?z - 1) ?n @ bs @ rest)"
      using s False by (simp add: mat_bits_def Let_def)
    then have zo: "zeros_of (bsr_stream r) = ?z" by (simp only: zeros_of_replicate)
    obtain r1 where l: "ur_bsr_log r = (Inr ?z, r1)" and w1: "bsr_wf r1"
      and s1: "bsr_stream r1 = bits_of (?z - 1) ?n @ bs @ rest"
      using ur_bsr_log_good [OF wf zo] sz z by (cases "ur_bsr_log r") auto
    show ?thesis
    proof (cases "?z = 1")
      case True
      then have "?n < 2" using less_exp_met0 [of ?n] by simp
      then have "?n = 1" using n by linarith
      then show ?thesis using l w1 s1 True by (simp add: ur_bsr_rub_len_def)
    next
      case False
      have z1: "1 < ?z" using False n by (simp add: met0_pos)
      have "fst (ur_bsr64_any r1 (?z - 1)) = word_of_bits (bits_of (?z - 1) ?n)"
        "bsr_stream (snd (ur_bsr64_any r1 (?z - 1))) = bs @ rest"
        using z by (simp_all add: r64.read_value [OF w1] r64.read_stream [OF w1] s1)
      moreover have "bsr_wf (snd (ur_bsr64_any r1 (?z - 1)))" by (rule r64.read_wf [OF w1])
      ultimately show ?thesis using l z z1 restore_top_bit [OF n] n
        by (cases "ur_bsr64_any r1 (?z - 1)") (auto simp: ur_bsr_rub_len_def)
    qed
  qed
  then show "fst (ur_bsr_rub_len r) = Inr (of_nat (length bs))"
    "bsr_wf (snd (ur_bsr_rub_len r))" "bsr_stream (snd (ur_bsr_rub_len r)) = bs @ rest" by auto
qed

section \<open>Byte arrays leave the reader where a skip does\<close>

lemma ur_bsr_bytes_any_state:
  assumes wf: "bsr_wf r" and nw: "bsr_no_wrap r len"
  shows "snd (ur_bsr_bytes_any r len out) = ur_bsr_skip_any r len"
proof (cases "bsr_left r = 0")
  case True
  then show ?thesis by (simp add: ur_bsr_bytes_any_def ur_bsr_skip_any_def)
next
  case left: False
  note o = bsr_wfD [OF wf]
  have pos: "0 < bsr_left r" using left by simp
  from pos o(1) show ?thesis
  proof (cases rule: bytes_any_cases [of "bsr_left r" "bsr_off r" len])
    case last
    have "(bsr_left r - 1) * 8 \<le> len" "len - (bsr_left r - 1) * 8 = len mod 8"
      using last(5) by linarith+
    then have "bits_of_last len (bsr_left r - 1) = len mod 8"
      using bits_of_last_exact [of "bsr_left r - 1" len] nw by (simp add: bsr_no_wrap_def)
    then show ?thesis
      using last left by (cases "bsr_off r = 0")
        (simp_all add: ur_bsr_bytes_any_def ur_bsr_skip_any_def Let_def)
  next
    case past
    then have "bits_of_last len (bsr_left r - 1) = len - (bsr_left r - 1) * 8"
      using bits_of_last_exact [of "bsr_left r - 1" len] nw by (simp add: bsr_no_wrap_def)
    then have b: "\<not> bits_of_last len (bsr_left r - 1) < 8 - bsr_off r" using past(2) by linarith
    show ?thesis
    proof (cases "bsr_off r = 0")
      case True
      then have "bsr_left r < len div 8 + of_bool (len mod 8 \<noteq> 0) \<or>
          (bsr_left r = len div 8 \<and> len mod 8 = 0)"
        using past o(2) left by (cases "len mod 8 = 0") auto
      then show ?thesis using True past(1) b left
        by (auto simp: ur_bsr_bytes_any_def ur_bsr_skip_any_def Let_def)
    next
      case False
      then show ?thesis using past(1) b left
        by (simp add: ur_bsr_bytes_any_def ur_bsr_skip_any_def Let_def)
    qed
  next
    case within
    then have mx: "min (bsr_left r - 1) (len div 8) = len div 8" by auto
    show ?thesis
    proof (cases "bsr_off r = 0")
      case True
      then show ?thesis using within left mx
        by (simp add: ur_bsr_bytes_any_def ur_bsr_skip_any_def Let_def)
    next
      case False
      then show ?thesis using within left mx
        by (simp add: ur_bsr_bytes_any_def ur_bsr_skip_any_def Let_def)
    qed
  qed
qed


section \<open>Unary run lengths\<close>

lemma ur_bsr_log_spec:
  assumes wf: "bsr_wf r"
  shows "bsr_wf (snd (ur_bsr_log r)) \<and>
         (fst (ur_bsr_log r), bsr_stream (snd (ur_bsr_log r))) =
         (let z = zeros_of (bsr_stream r)
          in if z < length (bsr_stream r) \<and> z \<le> 255 then (Inr z, drop (z + 1) (bsr_stream r))
             else if bsr_left r \<le> 32 then (Inl cue_gone, [])
             else (Inl cue_meme, drop 256 (bsr_stream r)))"
proof -
  let ?z = "zeros_of (bsr_stream r)"
  note o = bsr_wfD [OF wf] and len = length_bsr_stream [OF wf] and zle = zeros_of_le [of "bsr_stream r"]
  consider (good) "?z < length (bsr_stream r)" "?z \<le> 255"
    | (gone) "\<not> (?z < length (bsr_stream r) \<and> ?z \<le> 255)" "bsr_left r \<le> 32"
    | (meme) "\<not> (?z < length (bsr_stream r) \<and> ?z \<le> 255)" "32 < bsr_left r" by linarith
  then show ?thesis
  proof cases
    case good
    then show ?thesis using ur_bsr_log_good [OF wf refl good] by (simp add: Let_def)
  next
    case gone
    then have "?z = length (bsr_stream r)" using zle len by linarith
    from ur_bsr_log_gone [OF wf this gone(2)] gone show ?thesis by (simp add: Let_def)
  next
    case meme
    then have "255 < ?z" using zle len o(1) by linarith
    from ur_bsr_log_meme [OF wf this meme(2)] meme show ?thesis by (simp add: Let_def)
  qed
qed

section \<open>Properties\<close>

text \<open>
  On a well-formed reader the reads of up to 8, 32 and 64 bits return the next bits of
  the stream, least significant first and continued with zeros past its end, drop exactly
  those bits, and keep the reader well formed.
\<close>

lemma sized_reads:
  assumes "bsr_wf r"
  shows "bits_of (min 8 n) (fst (ur_bsr8_any r n)) = pad_take (min 8 n) (bsr_stream r) \<and>
         bsr_stream (snd (ur_bsr8_any r n)) = drop (min 8 n) (bsr_stream r) \<and>
         bsr_wf (snd (ur_bsr8_any r n)) \<and>
         bits_of (min 32 n) (fst (ur_bsr32_any r n)) = pad_take (min 32 n) (bsr_stream r) \<and>
         bsr_stream (snd (ur_bsr32_any r n)) = drop (min 32 n) (bsr_stream r) \<and>
         bsr_wf (snd (ur_bsr32_any r n)) \<and>
         bits_of (min 64 n) (fst (ur_bsr64_any r n)) = pad_take (min 64 n) (bsr_stream r) \<and>
         bsr_stream (snd (ur_bsr64_any r n)) = drop (min 64 n) (bsr_stream r) \<and>
         bsr_wf (snd (ur_bsr64_any r n))"
proof -
  have w: "bits_of m (word_of_bits (take m bs) :: 'a::len word) = pad_take m bs"
    if "m \<le> LENGTH('a)" for m bs
    using that by (intro nth_equalityI) (auto simp: bit_word_of_bits)
  show ?thesis
    using assms by (simp add: r8.read_value r8.read_stream r8.read_wf r32.read_value
        r32.read_stream r32.read_wf r64.read_value r64.read_stream r64.read_wf w)
qed

lemma sized_reads_witness:
  "bits_of 8 (fst (ur_bsr8_any \<lparr>bsr_left = 2, bsr_bits = 0, bsr_off = 3, bsr_bytes = [0xa5, 0x3c]\<rparr> 8))
     = pad_take 8 (bsr_stream \<lparr>bsr_left = 2, bsr_bits = 0, bsr_off = 3, bsr_bytes = [0xa5, 0x3c]\<rparr>)"
  using sized_reads [of "\<lparr>bsr_left = 2, bsr_bits = 0, bsr_off = 3, bsr_bytes = [0xa5, 0x3c]\<rparr>" 8]
  by (simp add: bsr_wf_def ur_bsr_sane_def)

text \<open>
  The tag reader classifies the stream by its first one or two bits, reports
  \<open>ur_cue_gone\<close> when it ends first, and consumes exactly what it looked at.
\<close>

lemma tag_reads:
  assumes "bsr_wf r"
  shows "bsr_wf (snd (ur_bsr_tag r)) \<and>
         (fst (ur_bsr_tag r), bsr_stream (snd (ur_bsr_tag r))) =
         (case bsr_stream r of
            [] \<Rightarrow> (Inl cue_gone, [])
          | False # bs \<Rightarrow> (Inr jam_atom, bs)
          | [True] \<Rightarrow> (Inl cue_gone, [])
          | True # False # bs \<Rightarrow> (Inr jam_cell, bs)
          | True # True # bs \<Rightarrow> (Inr jam_back, bs))"
  using ur_bsr_tag_spec [OF assms] by blast

lemma tag_reads_witness:
  "bsr_wf (snd (ur_bsr_tag \<lparr>bsr_left = 1, bsr_bits = 0, bsr_off = 7, bsr_bytes = [0x80]\<rparr>))"
  using tag_reads [of "\<lparr>bsr_left = 1, bsr_bits = 0, bsr_off = 7, bsr_bytes = [0x80]\<rparr>"]
  by (simp add: bsr_wf_def ur_bsr_sane_def)

text \<open>
  The run-length scan counts the zeros before the next one bit, up to 255, and consumes
  them and the one; with no one bit in the last 32 bytes the stream is gone, and more zeros
  are refused after skipping 256 bits.
\<close>

lemma log_reads:
  assumes wf: "bsr_wf r"
  shows "bsr_wf (snd (ur_bsr_log r)) \<and>
         (fst (ur_bsr_log r), bsr_stream (snd (ur_bsr_log r))) =
         (let z = zeros_of (bsr_stream r)
          in if z < length (bsr_stream r) \<and> z \<le> 255 then (Inr z, drop (z + 1) (bsr_stream r))
             else if bsr_left r \<le> 32 then (Inl cue_gone, [])
             else (Inl cue_meme, drop 256 (bsr_stream r)))"
  by (rule ur_bsr_log_spec [OF wf])

lemma log_reads_witness:
  "bsr_wf (snd (ur_bsr_log \<lparr>bsr_left = 2, bsr_bits = 0, bsr_off = 1, bsr_bytes = [0, 0x10]\<rparr>))"
  using log_reads [of "\<lparr>bsr_left = 2, bsr_bits = 0, bsr_off = 1, bsr_bytes = [0, 0x10]\<rparr>"]
  by (simp add: bsr_wf_def ur_bsr_sane_def)

text \<open>
  Reading a byte array of \<open>len\<close> bits into a zeroed buffer stores the next \<open>len\<close> bits
  of the stream (zeros past its end) and zeros after them, and leaves the reader where
  skipping \<open>len\<close> bits leaves it, as long as the read ends less than 256 bits past the
  start of the last byte of the buffer.
\<close>

lemma bytes_reads:
  assumes wf: "bsr_wf r" and nw: "bsr_no_wrap r len" and k: "len \<le> 8 * k"
  shows "bytes_bits (fst (ur_bsr_bytes_any r len (replicate k 0))) =
           pad_take len (bsr_stream r) @ replicate (8 * k - len) False \<and>
         snd (ur_bsr_bytes_any r len (replicate k 0)) = ur_bsr_skip_any r len \<and>
         bsr_wf (ur_bsr_skip_any r len) \<and>
         bsr_stream (ur_bsr_skip_any r len) = drop len (bsr_stream r)"
  using ur_bsr_bytes_any_value [OF wf _ k] ur_bsr_bytes_any_state [OF wf nw]
    ur_bsr_skip_any_stream [OF wf nw] nw by blast

lemma bytes_reads_witness:
  "bsr_stream (ur_bsr_skip_any \<lparr>bsr_left = 2, bsr_bits = 0, bsr_off = 1, bsr_bytes = [0xff, 0x10]\<rparr> 13)
     = drop 13 (bsr_stream \<lparr>bsr_left = 2, bsr_bits = 0, bsr_off = 1, bsr_bytes = [0xff, 0x10]\<rparr>)"
  using bytes_reads [of "\<lparr>bsr_left = 2, bsr_bits = 0, bsr_off = 1, bsr_bytes = [0xff, 0x10]\<rparr>" 13 2]
  by (simp add: bsr_wf_def ur_bsr_sane_def bsr_no_wrap_def)

text \<open>
  C32: a skip of at least as many bits as are left should exhaust the stream, but the single-byte
  counter of \<open>ur_bsr_skip_any\<close> wraps: a skip to the start of the last byte and a multiple of 256 bits
  further does not, although fewer bits than that are left.
\<close>

theorem skip_any_wraps:
  assumes wf: "bsr_wf r" and left: "bsr_left r \<noteq> 0" and m: "0 < m"
  shows "bsr_stream (ur_bsr_skip_any r (8 * (bsr_left r - 1) + 256 * m)) =
           drop (8 * (bsr_left r - 1)) (bsr_stream r) \<and>
         bsr_stream (ur_bsr_skip_any r (8 * (bsr_left r - 1) + 256 * m)) \<noteq> [] \<and>
         length (bsr_stream r) < 8 * (bsr_left r - 1) + 256 * m"
proof -
  note o = bsr_wfD [OF wf]
  let ?len = "8 * (bsr_left r - 1) + 256 * m"
  have "bits_of_last ?len (bsr_left r - 1) = 0"
    by (simp add: bits_of_last_def)
  moreover have "bsr_left r \<le> ?len div 8 + of_bool (?len mod 8 \<noteq> 0)" "?len mod 8 = 0"
    "min (bsr_left r - 1) (?len div 8) = bsr_left r - 1"
    using left m by auto
  ultimately have r: "ur_bsr_skip_any r ?len = (bsr_tick ?len r)\<lparr>
      bsr_bytes := drop (bsr_left r - 1) (bsr_bytes r), bsr_off := bsr_off r, bsr_left := 1\<rparr>"
    using left o(1) by (simp add: ur_bsr_skip_any_def Let_def)
  then have s: "bsr_stream (ur_bsr_skip_any r ?len) = drop (8 * (bsr_left r - 1)) (bsr_stream r)"
    by (intro bsr_stream_move [where k = "bsr_left r - 1"]) auto
  moreover have "drop (8 * (bsr_left r - 1)) (bsr_stream r) \<noteq> []"
    using left o(1) by (simp add: length_bsr_stream [OF wf])
  moreover have "length (bsr_stream r) < ?len"
    using left m by (simp add: length_bsr_stream [OF wf])
  ultimately show ?thesis by simp
qed

lemma skip_any_wraps_witness:
  "bsr_stream (ur_bsr_skip_any \<lparr>bsr_left = 1, bsr_bits = 0, bsr_off = 0, bsr_bytes = [0xff]\<rparr> 256)
     = bsr_stream \<lparr>bsr_left = 1, bsr_bits = 0, bsr_off = 0, bsr_bytes = [0xff]\<rparr>"
  using skip_any_wraps [of "\<lparr>bsr_left = 1, bsr_bits = 0, bsr_off = 0, bsr_bytes = [0xff]\<rparr>" 1]
  by (simp add: bsr_wf_def ur_bsr_sane_def)

text \<open>
  The overflow check of \<open>ur_bsr_init\<close>, \<open>(len << 3) < len\<close>, is not enough: there is a
  64-bit length whose count of bits overflows 64 bits and is accepted.
\<close>

lemma init_check_incomplete:
  "\<exists>len < 2 ^ 64. 2 ^ 64 \<le> len * 8 \<and> fst (ur_bsr_init r len bytes) = Inr ()"
  by (rule exI [of _ "0x2800000000000000"]) (simp add: ur_bsr_init_def)


text \<open>
  C30: every write of the bitstream writer (a bit, the low bits of a byte or a word, bytes, a
  power of two, run-length encoded values, and the backreferences, atoms and cells of a jam buffer)
  keeps its invariant (cursor inside the buffer, everything past it zero, also across a
  reallocation) and appends exactly the encoding of its argument to the bits written before. The
  bytes that are passed hold as many bits as are written of them.
\<close>

theorem writes_append:
  assumes "bsw_wf w"
  shows "bsw_adds w [bit b 0] (ur_bsw_bit w b) \<and>
         bsw_adds w (bits_of (min 8 n) v8) (ur_bsw8 w n v8) \<and>
         bsw_adds w (bits_of (min 32 n) v32) (ur_bsw32 w n v32) \<and>
         bsw_adds w (bits_of (min 64 n) v64) (ur_bsw64 w n v64) \<and>
         bsw_adds w (replicate n False @ [True]) (ur_bsw_bex w n) \<and>
         bsw_adds w (mat_bits (bits_of (min 64 n) v64)) (ur_bsw_mat64 w n v64) \<and>
         bsw_adds w ([True, True] @ mat_bits (bits_of (min 64 n) v64)) (ur_bsw_back64 w n v64) \<and>
         bsw_adds w ([False] @ mat_bits (bits_of (min 64 n) v64)) (ur_bsw_atom64 w n v64) \<and>
         bsw_adds w [True, False] (ur_bsw_cell w) \<and>
         (n \<le> 8 * length byt \<longrightarrow>
           bsw_adds w (take n (bytes_bits byt)) (ur_bsw_bytes w n byt) \<and>
           (n < 2 ^ 64 \<longrightarrow>
             bsw_adds w (mat_bits (take n (bytes_bits byt))) (ur_bsw_mat_bytes w n byt) \<and>
             bsw_adds w ([False] @ mat_bits (take n (bytes_bits byt))) (ur_bsw_atom_bytes w n byt)))"
  using assms
  by (simp add: ur_bsw_bit_adds ur_bsw8_adds ur_bsw32_adds ur_bsw64_adds ur_bsw_bytes_adds
      ur_bsw_bex_adds ur_bsw_mat64_adds ur_bsw_mat_bytes_adds ur_bsw_back64_adds ur_bsw_atom64_adds
      ur_bsw_atom_bytes_adds ur_bsw_cell_adds)

lemma writes_append_witness:
  "bsw_adds (ur_bsw_init bsw_zero 1 1) (take 11 (bytes_bits [0xab, 0xcd]))
     (ur_bsw_bytes (ur_bsw_init bsw_zero 1 1) 11 [0xab, 0xcd]) \<and>
   bsw_adds (ur_bsw_init bsw_zero 1 1) ([False] @ mat_bits (take 11 (bytes_bits [0xab, 0xcd])))
     (ur_bsw_atom_bytes (ur_bsw_init bsw_zero 1 1) 11 [0xab, 0xcd])"
  using writes_append [of "ur_bsw_init bsw_zero 1 1" 0 11 0 0 0 "[0xab, 0xcd]"] ur_bsw_init_wf [of 1 1]
  by simp

text \<open>
  What one end of the bitstream writes, the other reads: a value of at most 64 bits
  written at the reader's position comes back, cut to its length, and the reader is left
  behind it.
\<close>

lemma value_roundtrip:
  assumes "bsw_wf w" "bsr_wf r" "n \<le> 64"
    and "bsw_out w @ bsr_stream r = bsw_out (ur_bsw64 w n v) @ rest"
  shows "fst (ur_bsr64_any r n) = take_bit n v \<and> bsr_stream (snd (ur_bsr64_any r n)) = rest"
  using c64.write_read [OF assms] by blast

lemma value_roundtrip_witness:
  "fst (ur_bsr64_any \<lparr>bsr_left = 1, bsr_bits = 0, bsr_off = 0, bsr_bytes = [0x2d]\<rparr> 5) = 13"
proof -
  let ?r = "\<lparr>bsr_left = 1, bsr_bits = 0, bsr_off = 0, bsr_bytes = [0x2d]\<rparr>"
  have "bsr_stream ?r = bits_of 5 (13 :: u64) @ [True, False, False]"
    by (simp add: bsr_stream_def bytes_bits_def bits_of_def upt_rec)
  moreover have "bsw_out (ur_bsw64 (ur_bsw_init bsw_zero 1 1) 5 13) = bits_of 5 (13 :: u64)"
    using w64.write_out [of "ur_bsw_init bsw_zero 1 1" 5 13] ur_bsw_init_wf [of 1 1] by simp
  ultimately show ?thesis
    using value_roundtrip [of "ur_bsw_init bsw_zero 1 1" ?r 5 13 "[True, False, False]"]
      ur_bsw_init_wf [of 1 1]
    by (simp add: bsr_wf_def ur_bsr_sane_def take_bit_eq_mod)
qed

text \<open>
  C31: the length decoder inverts the run-length encoding: on the bits that
  \<open>ur_bsw_mat_bytes\<close> wrote it returns the number of bits and leaves the reader at the value,
  and the array reader then returns the bits themselves.
\<close>

theorem run_length_roundtrip:
  assumes w: "bsw_wf w" and r: "bsr_wf r" and len: "len \<le> 8 * length byt" "len < 2 ^ 63"
    and s: "bsw_out w @ bsr_stream r = bsw_out (ur_bsw_mat_bytes w len byt) @ rest"
  shows "\<exists>r1. ur_bsr_rub_len r = (Inr (of_nat len), r1) \<and> bsr_wf r1 \<and>
           bsr_stream r1 = take len (bytes_bits byt) @ rest \<and>
           (bsr_no_wrap r1 len \<longrightarrow>
             bytes_bits (fst (ur_bsr_bytes_any r1 len (replicate (bloq_up3 len) 0))) =
             take len (bytes_bits byt) @ replicate (8 * bloq_up3 len - len) False)"
proof -
  have "bsr_stream r = mat_bits (take len (bytes_bits byt)) @ rest"
    using s ur_bsw_mat_bytes_adds [OF w len(1)] len(2) by (simp add: bsw_adds_def)
  moreover have n: "length (take len (bytes_bits byt)) = len" using len by simp
  ultimately obtain r1 where r1: "ur_bsr_rub_len r = (Inr (of_nat len), r1)" "bsr_wf r1"
      "bsr_stream r1 = take len (bytes_bits byt) @ rest"
    using ur_bsr_rub_len_mat [OF r, of "take len (bytes_bits byt)" rest] len(2)
    by (cases "ur_bsr_rub_len r") auto
  have "pad_take len (bsr_stream r1) = take len (bytes_bits byt)"
    using n r1(3) by (simp add: pad_take_eq_take)
  then show ?thesis
    using r1 ur_bsr_bytes_any_value [OF r1(2) _ bloq_up3_le, of len] by auto
qed

lemma run_length_roundtrip_witness:
  "\<exists>r1. ur_bsr_rub_len \<lparr>bsr_left = 1, bsr_bits = 0, bsr_off = 0, bsr_bytes = [0x06]\<rparr> =
     (Inr 1, r1) \<and> bsr_stream r1 = [True, False, False, False, False, False]"
proof -
  let ?r = "\<lparr>bsr_left = 1, bsr_bits = 0, bsr_off = 0, bsr_bytes = [0x06]\<rparr>"
  have one: "take 1 (bytes_bits [1]) = [True]" by (simp add: bytes_bits_def bits_of_def upt_rec)
  have "bsr_stream ?r = mat_bits [True] @ replicate 5 False"
    by (simp add: bsr_stream_def bytes_bits_def bits_of_def upt_rec mat_bits_def met0_pos
        numeral_eq_Suc)
  moreover have "bsw_out (ur_bsw_mat_bytes (ur_bsw_init bsw_zero 1 1) 1 [1]) = mat_bits [True]"
    using ur_bsw_mat_bytes_adds [of "ur_bsw_init bsw_zero 1 1" 1 "[1]"] ur_bsw_init_wf [of 1 1] one
    by (simp add: bsw_adds_def)
  moreover have "bsr_wf ?r" by (simp add: bsr_wf_def ur_bsr_sane_def)
  ultimately obtain r1 where "ur_bsr_rub_len ?r = (Inr (of_nat 1), r1)"
      "bsr_stream r1 = take 1 (bytes_bits [1]) @ replicate 5 False"
    using run_length_roundtrip [of "ur_bsw_init bsw_zero 1 1" ?r 1 "[1]" "replicate 5 False"]
      ur_bsw_init_wf [of 1 1] by auto
  then show ?thesis unfolding one by (auto simp: replicate_add [of 2 3, simplified] numeral_eq_Suc)
qed

text \<open>
  A finished buffer opens as a reader on the bits written, followed by less than a
  byte of zeros.
\<close>

lemma done_opens:
  assumes "bsw_wf w" "bsw_bits w < 2 ^ 61"
  shows "\<exists>r k. bsr_open w = (Inr (), r) \<and> bsr_wf r \<and> k < 8 \<and>
           bsr_stream r = bsw_out w @ replicate k False"
  by (rule bsr_open_spec [OF assms])

lemma done_opens_witness:
  "\<exists>r k. bsr_open (ur_bsw_init bsw_zero 1 1) = (Inr (), r) \<and> k < 8 \<and> bsr_stream r = replicate k False"
  using done_opens [of "ur_bsw_init bsw_zero 1 1"] ur_bsw_init_wf [of 1 1]
  by (auto simp: ur_bsw_init_def bsw_zero_def)

end
