(* ===== verification/HashDict.thy ===== *)
theory HashDict
  imports Prelude "HOL-Library.Monad_Syntax" "HOL-Library.AList"
begin

text \<open>
  The dictionaries of \<open>pkg/ur/hashcons.c\<close>: noun references distributed by their mug
  hash over buckets of at most \<open>ur_pail_max\<close> entries, rehashed with fibonacci growth
  once a bucket is full.  \<open>ur_dict32_t\<close>, \<open>ur_dict64_t\<close> and \<open>ur_dict_t\<close> are the same
  code at three types of values (none for the set); here they are one definition with a
  type parameter and three instances.  The mug of a reference is looked up in the root, so
  the operations take it as a function; it fails where the code asserts.

  In results, \<open>None\<close> is an aborted process or a loop that never ends.
\<close>

section \<open>State\<close>

type_synonym nref = u64
type_synonym mug = u32

definition ur_pail_max :: nat where
  "ur_pail_max = 10"

text \<open>
  A bucket is the list of its \<open>fills[i]\<close> first entries, each a reference with its
  value.  A dictionary that has not been allocated has no buckets and size 0.
\<close>

record 'v dict =
  dict_prev :: nat
  dict_size :: nat
  dict_buckets :: "(nref \<times> 'v) list list"

definition dict_null :: "'v dict" where
  "dict_null = \<lparr>dict_prev = 0, dict_size = 0, dict_buckets = []\<rparr>"

type_synonym dict32 = "u32 dict"
type_synonym dict64 = "u64 dict"
type_synonym dict_set = "unit dict"

section \<open>Growing\<close>

datatype 'a rehash = Rehashed 'a | Overflow

text \<open>
  The loop over the old entries, in order; it gives up when it meets a full bucket.
\<close>

primrec dict_rehash ::
  "(nref \<Rightarrow> mug option) \<Rightarrow> nat \<Rightarrow> (nref \<times> 'v) list \<Rightarrow> (nref \<times> 'v) list list \<Rightarrow>
   (nref \<times> 'v) list list rehash option" where
  "dict_rehash mugf nxt [] bs = Some (Rehashed bs)"
| "dict_rehash mugf nxt (e # es) bs =
     do { mug \<leftarrow> mugf (fst e);
          let idx = unat mug mod nxt in
          if length (bs ! idx) = ur_pail_max then Some Overflow
          else dict_rehash mugf nxt es (bs[idx := bs ! idx @ [e]]) }"

partial_function (option) dict_grow ::
  "(nref \<Rightarrow> mug option) \<Rightarrow> 'v dict \<Rightarrow> nat \<Rightarrow> nat \<Rightarrow> 'v dict option" where
  "dict_grow mugf d prev sz =
     do { res \<leftarrow> dict_rehash mugf (prev + sz) (concat (dict_buckets d)) (replicate (prev + sz) []);
          case res of
            Overflow \<Rightarrow> dict_grow mugf d sz (prev + sz)
          | Rehashed bs \<Rightarrow>
              Some \<lparr>dict_prev = sz, dict_size = prev + sz, dict_buckets = bs\<rparr> }"

declare dict_grow.simps [code]

section \<open>Lookup and update\<close>

definition dict_get :: "(nref \<Rightarrow> mug option) \<Rightarrow> 'v dict \<Rightarrow> nref \<Rightarrow> 'v option option" where
  "dict_get mugf d ref =
     do { mug \<leftarrow> mugf ref;
          Some (map_of (dict_buckets d ! (unat mug mod dict_size d)) ref) }"

partial_function (option) dict_put ::
  "(nref \<Rightarrow> mug option) \<Rightarrow> 'v dict \<Rightarrow> nref \<Rightarrow> 'v \<Rightarrow> 'v dict option" where
  "dict_put mugf d ref val =
     do { mug \<leftarrow> mugf ref;
          let idx = unat mug mod dict_size d; bucket = dict_buckets d ! idx in
          if map_of bucket ref \<noteq> None then
            Some (d\<lparr>dict_buckets := (dict_buckets d)[idx := AList.update ref val bucket]\<rparr>)
          else if length bucket = ur_pail_max then
            do { d' \<leftarrow> dict_grow mugf d (dict_prev d) (dict_size d);
                 dict_put mugf d' ref val }
          else
            Some (d\<lparr>dict_buckets := (dict_buckets d)[idx := bucket @ [(ref, val)]]\<rparr>) }"

declare dict_put.simps [code]

definition dict_wipe :: "'v dict \<Rightarrow> 'v dict" where
  "dict_wipe d = d\<lparr>dict_buckets := map (\<lambda>_. []) (dict_buckets d)\<rparr>"

definition ur_dict_free :: "'v dict \<Rightarrow> 'v dict" where
  "ur_dict_free d = d\<lparr>dict_buckets := []\<rparr>"

section \<open>The three instances\<close>

definition ur_dict32_grow :: "(nref \<Rightarrow> mug option) \<Rightarrow> dict32 \<Rightarrow> nat \<Rightarrow> nat \<Rightarrow> dict32 option" where
  "ur_dict32_grow = dict_grow"
definition ur_dict32_get :: "(nref \<Rightarrow> mug option) \<Rightarrow> dict32 \<Rightarrow> nref \<Rightarrow> u32 option option" where
  "ur_dict32_get = dict_get"
definition ur_dict32_put :: "(nref \<Rightarrow> mug option) \<Rightarrow> dict32 \<Rightarrow> nref \<Rightarrow> u32 \<Rightarrow> dict32 option" where
  "ur_dict32_put = dict_put"
definition ur_dict32_wipe :: "dict32 \<Rightarrow> dict32" where
  "ur_dict32_wipe = dict_wipe"

definition ur_dict64_grow :: "(nref \<Rightarrow> mug option) \<Rightarrow> dict64 \<Rightarrow> nat \<Rightarrow> nat \<Rightarrow> dict64 option" where
  "ur_dict64_grow = dict_grow"
definition ur_dict64_get :: "(nref \<Rightarrow> mug option) \<Rightarrow> dict64 \<Rightarrow> nref \<Rightarrow> u64 option option" where
  "ur_dict64_get = dict_get"
definition ur_dict64_put :: "(nref \<Rightarrow> mug option) \<Rightarrow> dict64 \<Rightarrow> nref \<Rightarrow> u64 \<Rightarrow> dict64 option" where
  "ur_dict64_put = dict_put"
definition ur_dict64_wipe :: "dict64 \<Rightarrow> dict64" where
  "ur_dict64_wipe = dict_wipe"

definition ur_dict_grow :: "(nref \<Rightarrow> mug option) \<Rightarrow> dict_set \<Rightarrow> nat \<Rightarrow> nat \<Rightarrow> dict_set option" where
  "ur_dict_grow = dict_grow"
definition ur_dict_get :: "(nref \<Rightarrow> mug option) \<Rightarrow> dict_set \<Rightarrow> nref \<Rightarrow> bool option" where
  "ur_dict_get mugf d ref = do { v \<leftarrow> dict_get mugf d ref; Some (v \<noteq> None) }"
definition ur_dict_put :: "(nref \<Rightarrow> mug option) \<Rightarrow> dict_set \<Rightarrow> nref \<Rightarrow> dict_set option" where
  "ur_dict_put mugf d ref = dict_put mugf d ref ()"
definition ur_dict_wipe :: "dict_set \<Rightarrow> dict_set" where
  "ur_dict_wipe = dict_wipe"

section \<open>The abstract map\<close>

definition dict_map :: "'v dict \<Rightarrow> nref \<Rightarrow> 'v option" where
  "dict_map d = map_of (concat (dict_buckets d))"

definition in_bucket :: "(nref \<Rightarrow> mug option) \<Rightarrow> nat \<Rightarrow> nat \<Rightarrow> nref \<Rightarrow> bool" where
  "in_bucket mugf sz i k \<longleftrightarrow> (\<exists>m. mugf k = Some m \<and> unat m mod sz = i)"

definition dict_wf :: "(nref \<Rightarrow> mug option) \<Rightarrow> 'v dict \<Rightarrow> bool" where
  "dict_wf mugf d \<longleftrightarrow> 0 < dict_prev d \<and> 0 < dict_size d \<and> length (dict_buckets d) = dict_size d \<and>
     (\<forall>i < dict_size d. length (dict_buckets d ! i) \<le> ur_pail_max \<and>
        distinct (map fst (dict_buckets d ! i)) \<and>
        (\<forall>e \<in> set (dict_buckets d ! i). in_bucket mugf (dict_size d) i (fst e)))"

lemma dict_wfD:
  assumes "dict_wf mugf d"
  shows "0 < dict_prev d" "0 < dict_size d" "length (dict_buckets d) = dict_size d"
    "\<And>i. i < dict_size d \<Longrightarrow> length (dict_buckets d ! i) \<le> ur_pail_max"
    "\<And>i. i < dict_size d \<Longrightarrow> distinct (map fst (dict_buckets d ! i))"
    "\<And>i e. i < dict_size d \<Longrightarrow> e \<in> set (dict_buckets d ! i) \<Longrightarrow> in_bucket mugf (dict_size d) i (fst e)"
  using assms by (auto simp: dict_wf_def)

lemma in_bucket_unique: "in_bucket mugf sz i k \<Longrightarrow> in_bucket mugf sz j k \<Longrightarrow> i = j"
  by (auto simp: in_bucket_def)

lemma map_of_concat_at:
  assumes "j < length bs" "\<And>i. i < length bs \<Longrightarrow> i \<noteq> j \<Longrightarrow> k \<notin> fst ` set (bs ! i)"
  shows "map_of (concat bs) k = map_of (bs ! j) k"
  using assms
proof (induction bs arbitrary: j)
  case Nil
  then show ?case by simp
next
  case (Cons b bs)
  show ?case
  proof (cases j)
    case 0
    have "k \<notin> fst ` set c" if "c \<in> set bs" for c
      using that Cons.prems(2) 0 by (metis Suc_less_eq in_set_conv_nth length_Cons nat.distinct(1) nth_Cons_Suc)
    then have "map_of (concat bs) k = None" by (force simp: map_of_eq_None_iff)
    then show ?thesis using 0 by (simp add: map_add_def split: option.splits)
  next
    case (Suc j')
    have "map_of b k = None" using Cons.prems(2) [of 0] Suc by (simp add: map_of_eq_None_iff)
    moreover have "map_of (concat bs) k = map_of (bs ! j') k"
    proof (rule Cons.IH)
      show "j' < length bs" using Cons.prems(1) Suc by simp
      show "k \<notin> fst ` set (bs ! i)" if "i < length bs" "i \<noteq> j'" for i
        using Cons.prems(2) [of "Suc i"] that Suc by simp
    qed
    ultimately show ?thesis using Suc by (simp add: map_add_def split: option.splits)
  qed
qed

lemma dict_map_bucket:
  assumes wf: "dict_wf mugf d" and "mugf k = Some m"
  shows "dict_map d k = map_of (dict_buckets d ! (unat m mod dict_size d)) k"
  unfolding dict_map_def
proof (rule map_of_concat_at)
  note o = dict_wfD [OF wf]
  show "unat m mod dict_size d < length (dict_buckets d)" using o(2,3) by simp
  fix i
  assume "i < length (dict_buckets d)" "i \<noteq> unat m mod dict_size d"
  then show "k \<notin> fst ` set (dict_buckets d ! i)"
    using o(3) o(6) [of i] assms(2) by (fastforce simp: in_bucket_def)
qed

lemma dict_map_dom: "dom (dict_map d) = fst ` set (concat (dict_buckets d))"
  by (simp add: dict_map_def dom_map_of_conv_image_fst)

lemma dict_map_mugged:
  assumes "dict_wf mugf d" "dict_map d k = Some v"
  shows "mugf k \<noteq> None"
proof -
  have "(k, v) \<in> set (concat (dict_buckets d))"
    using assms(2) by (auto simp: dict_map_def dest: map_of_SomeD)
  then obtain i where "i < dict_size d" "(k, v) \<in> set (dict_buckets d ! i)"
    using dict_wfD(3) [OF assms(1)] by (auto simp: in_set_conv_nth) metis
  then show ?thesis using dict_wfD(6) [OF assms(1)] by (fastforce simp: in_bucket_def)
qed

text \<open>A dictionary stays good, with the same contents, when more references get a mug.\<close>

lemma dict_wf_mono:
  assumes "dict_wf mugf d" "mugf \<subseteq>\<^sub>m mugf'"
  shows "dict_wf mugf' d"
proof -
  have "in_bucket mugf' sz i k" if "in_bucket mugf sz i k" for sz i k
    using that assms(2) by (auto simp: in_bucket_def map_le_def dom_def)
  then show ?thesis using assms(1) by (auto simp: dict_wf_def)
qed

lemma dict_get_spec:
  "dict_wf mugf d \<Longrightarrow> mugf k = Some m \<Longrightarrow> dict_get mugf d k = Some (dict_map d k)"
  by (simp add: dict_get_def dict_map_bucket)

section \<open>Rehashing\<close>

definition bucket_of :: "(nref \<Rightarrow> mug option) \<Rightarrow> nat \<Rightarrow> (nref \<times> 'v) list \<Rightarrow> nat \<Rightarrow> (nref \<times> 'v) list" where
  "bucket_of mugf sz es i = filter (\<lambda>e. in_bucket mugf sz i (fst e)) es"

lemma dict_rehash_spec:
  assumes "0 < nxt" "\<And>e. e \<in> set es \<Longrightarrow> mugf (fst e) \<noteq> None"
    "\<And>i. i < nxt \<Longrightarrow> length (bucket_of mugf nxt pre i) \<le> ur_pail_max"
  shows "dict_rehash mugf nxt es (map (bucket_of mugf nxt pre) [0..<nxt]) =
     Some (if \<exists>i < nxt. ur_pail_max < length (bucket_of mugf nxt (pre @ es) i) then Overflow
           else Rehashed (map (bucket_of mugf nxt (pre @ es)) [0..<nxt]))"
  using assms(2,3)
proof (induction es arbitrary: pre)
  case Nil
  then have "\<not> (\<exists>i < nxt. ur_pail_max < length (bucket_of mugf nxt (pre @ []) i))"
    by (metis append_Nil2 leD)
  then show ?case by simp
next
  case (Cons e es)
  obtain m where m: "mugf (fst e) = Some m" using Cons.prems(1) [of e] by auto
  define j where "j = unat m mod nxt"
  have j: "j < nxt" using assms(1) by (simp add: j_def)
  have here: "in_bucket mugf nxt i (fst e) \<longleftrightarrow> i = j" for i
    using m by (auto simp: in_bucket_def j_def)
  show ?case
  proof (cases "length (bucket_of mugf nxt pre j) = ur_pail_max")
    case True
    then have "ur_pail_max < length (bucket_of mugf nxt (pre @ e # es) j)"
      using here by (simp add: bucket_of_def)
    then have "\<exists>i < nxt. ur_pail_max < length (bucket_of mugf nxt (pre @ e # es) i)" using j by blast
    then show ?thesis using True m j by (simp add: j_def [symmetric])
  next
    case False
    have step: "(map (bucket_of mugf nxt pre) [0..<nxt])[j := bucket_of mugf nxt pre j @ [e]]
        = map (bucket_of mugf nxt (pre @ [e])) [0..<nxt]"
      using j by (intro nth_equalityI) (auto simp: nth_list_update bucket_of_def here)
    have "length (bucket_of mugf nxt (pre @ [e]) i) \<le> ur_pail_max" if "i < nxt" for i
      using Cons.prems(2) [OF that] False by (auto simp: bucket_of_def here)
    from Cons.IH [OF _ this] Cons.prems(1)
    show ?thesis using False m j step by (simp add: j_def [symmetric])
  qed
qed

lemma replicate_bucket_of: "replicate nxt [] = map (bucket_of mugf nxt []) [0..<nxt]"
  by (rule nth_equalityI) (simp_all add: bucket_of_def)

definition dict_entries_ok :: "(nref \<Rightarrow> mug option) \<Rightarrow> (nref \<times> 'v) list \<Rightarrow> bool" where
  "dict_entries_ok mugf es \<longleftrightarrow> distinct (map fst es) \<and> (\<forall>e \<in> set es. mugf (fst e) \<noteq> None)"

lemma distinct_keys_concat:
  assumes "\<And>i. i < length bs \<Longrightarrow> distinct (map fst (bs ! i))"
    "\<And>i j. i < length bs \<Longrightarrow> j < length bs \<Longrightarrow> i \<noteq> j \<Longrightarrow> fst ` set (bs ! i) \<inter> fst ` set (bs ! j) = {}"
  shows "distinct (map fst (concat bs))"
  using assms
proof (induction bs)
  case Nil
  then show ?case by simp
next
  case (Cons b bs)
  have "distinct (map fst (concat bs))"
  proof (rule Cons.IH)
    show "distinct (map fst (bs ! i))" if "i < length bs" for i
      using Cons.prems(1) [of "Suc i"] that by simp
    show "fst ` set (bs ! i) \<inter> fst ` set (bs ! j) = {}"
      if "i < length bs" "j < length bs" "i \<noteq> j" for i j
      using Cons.prems(2) [of "Suc i" "Suc j"] that by simp
  qed
  moreover have "fst ` set b \<inter> fst ` set c = {}" if c: "c \<in> set bs" for c
  proof -
    obtain i where i: "i < length bs" "bs ! i = c" using c unfolding in_set_conv_nth by blast
    show ?thesis using Cons.prems(2) [of 0 "Suc i"] i by simp
  qed
  then have "fst ` set b \<inter> fst ` set (concat bs) = {}"
    unfolding set_concat image_UN by blast
  moreover have "distinct (map fst b)" using Cons.prems(1) [of 0] by simp
  ultimately show ?case by (simp only: concat.simps map_append distinct_append set_map)
qed

lemma dict_wf_entries:
  assumes "dict_wf mugf d"
  shows "dict_entries_ok mugf (concat (dict_buckets d))"
proof -
  note o = dict_wfD [OF assms]
  have "distinct (map fst (concat (dict_buckets d)))"
  proof (rule distinct_keys_concat)
    show "distinct (map fst (dict_buckets d ! i))" if "i < length (dict_buckets d)" for i
      using that o by simp
    show "fst ` set (dict_buckets d ! i) \<inter> fst ` set (dict_buckets d ! j) = {}"
      if "i < length (dict_buckets d)" "j < length (dict_buckets d)" "i \<noteq> j" for i j
      using that o(3) o(6) [of i] o(6) [of j] in_bucket_unique [of mugf "dict_size d" i _ j] by fastforce
  qed
  moreover have "mugf (fst e) \<noteq> None" if e: "e \<in> set (concat (dict_buckets d))" for e
  proof -
    obtain i where "i < dict_size d" "e \<in> set (dict_buckets d ! i)"
      using e o(3) by (auto simp: in_set_conv_nth) metis
    then show ?thesis using o(6) [of i e] by (auto simp: in_bucket_def)
  qed
  ultimately show ?thesis by (simp add: dict_entries_ok_def)
qed

lemma rehashed_wf:
  assumes es: "dict_entries_ok mugf es" and sz: "0 < p" "0 < sz"
    and fit: "\<And>i. i < sz \<Longrightarrow> length (bucket_of mugf sz es i) \<le> ur_pail_max"
    and d: "d = \<lparr>dict_prev = p, dict_size = sz, dict_buckets = map (bucket_of mugf sz es) [0..<sz]\<rparr>"
  shows "dict_wf mugf d" "dict_map d = map_of es"
proof -
  show wf: "dict_wf mugf d"
    using es fit sz by (auto simp: dict_wf_def d bucket_of_def dict_entries_ok_def distinct_map_filter)
  show "dict_map d = map_of es"
  proof
    fix k
    show "dict_map d k = map_of es k"
    proof (cases "mugf k")
      case None
      then have "map_of es k = None" using es by (force simp: dict_entries_ok_def map_of_eq_None_iff)
      then show ?thesis using dict_map_mugged [OF wf, of k] None by (cases "dict_map d k") auto
    next
      case (Some m)
      let ?i = "unat m mod sz"
      have "dict_map d k = map_of (filter (\<lambda>e. in_bucket mugf sz ?i (fst e)) es) k"
        using dict_map_bucket [OF wf Some] sz by (simp add: d bucket_of_def)
      also have "\<dots> = map_of es k"
        using Some by (induction es) (auto simp: in_bucket_def)
      finally show ?thesis .
    qed
  qed
qed

lemma dict_rehash_all:
  assumes "dict_entries_ok mugf es" "0 < nxt"
  shows "dict_rehash mugf nxt es (replicate nxt []) =
     Some (if \<exists>i < nxt. ur_pail_max < length (bucket_of mugf nxt es i) then Overflow
           else Rehashed (map (bucket_of mugf nxt es) [0..<nxt]))"
  using dict_rehash_spec [of nxt es mugf "[]"] assms
  by (simp add: replicate_bucket_of [of _ mugf] dict_entries_ok_def) (simp add: bucket_of_def)

lemma dict_grow_overflow:
  assumes "dict_entries_ok mugf (concat (dict_buckets d))" "0 < p + s"
    and "\<exists>i < p + s. ur_pail_max < length (bucket_of mugf (p + s) (concat (dict_buckets d)) i)"
  shows "dict_grow mugf d p s = dict_grow mugf d s (p + s)"
  by (subst dict_grow.simps) (simp only: dict_rehash_all [OF assms(1,2)] assms(3) if_True
      Option.bind.simps rehash.case)

lemma dict_grow_fits:
  assumes "dict_entries_ok mugf (concat (dict_buckets d))" "0 < p + s"
    and "\<not> (\<exists>i < p + s. ur_pail_max < length (bucket_of mugf (p + s) (concat (dict_buckets d)) i))"
  shows "dict_grow mugf d p s = Some \<lparr>dict_prev = s, dict_size = p + s,
        dict_buckets = map (bucket_of mugf (p + s) (concat (dict_buckets d))) [0..<p + s]\<rparr>"
  by (subst dict_grow.simps) (simp only: dict_rehash_all [OF assms(1,2)] assms(3) if_False
      Option.bind.simps rehash.case)

lemma dict_grow_spec:
  assumes "dict_grow mugf d p s = Some d'" "dict_entries_ok mugf (concat (dict_buckets d))" "0 < s"
  shows "dict_wf mugf d' \<and> dict_map d' = dict_map d \<and> p + s \<le> dict_size d'"
  using assms
proof (induction rule: dict_grow.raw_induct [rotated 1, consumes 1, case_names step])
  case (step grow mugf d p s d')
  let ?es = "concat (dict_buckets d)"
  have pos: "0 < p + s" using step.prems by simp
  show ?case
  proof (cases "\<exists>i < p + s. ur_pail_max < length (bucket_of mugf (p + s) ?es i)")
    case True
    have "grow mugf d s (p + s) = Some d'"
      using step.hyps(1)
      by (simp only: dict_rehash_all [OF step.prems(1) pos] True if_True Option.bind.simps rehash.case)
    from step.IH [OF this step.prems(1) pos] show ?thesis by auto
  next
    case False
    have "Some \<lparr>dict_prev = s, dict_size = p + s,
        dict_buckets = map (bucket_of mugf (p + s) ?es) [0..<p + s]\<rparr> = Some d'"
      using step.hyps(1)
      by (simp only: dict_rehash_all [OF step.prems(1) pos] False if_False Option.bind.simps rehash.case)
    then have d': "d' = \<lparr>dict_prev = s, dict_size = p + s,
        dict_buckets = map (bucket_of mugf (p + s) ?es) [0..<p + s]\<rparr>" by simp
    have fit: "length (bucket_of mugf (p + s) ?es i) \<le> ur_pail_max" if "i < p + s" for i
      using False that by (meson not_le)
    show ?thesis
      using rehashed_wf [OF step.prems(1) step.prems(2) pos fit d'] by (simp add: d' dict_map_def)
  qed
qed

section \<open>Growing ends, unless a mug is shared too often\<close>

text \<open>
  At most \<open>ur_pail_max\<close> of the keys share a mug.  Then a table larger than every mug
  has room for all of them.
\<close>

definition mug_spread :: "(nref \<Rightarrow> mug option) \<Rightarrow> nref set \<Rightarrow> bool" where
  "mug_spread mugf K \<longleftrightarrow> (\<forall>m. card {k \<in> K. mugf k = Some m} \<le> ur_pail_max)"

lemma mug_spread_mono: "mug_spread mugf K \<Longrightarrow> J \<subseteq> K \<Longrightarrow> mug_spread mugf J"
proof -
  assume s: "mug_spread mugf K" and "J \<subseteq> K"
  then have "card {k \<in> J. mugf k = Some m} \<le> card {k \<in> K. mugf k = Some m}" for m
    by (intro card_mono) auto
  then show "mug_spread mugf J" using s by (auto simp: mug_spread_def intro: order_trans)
qed

lemma large_table_bucket:
  fixes es :: "(nref \<times> 'v) list"
  assumes es: "distinct (map fst es)" and "2 ^ 32 \<le> sz" and spread: "mug_spread mugf (fst ` set es)"
  shows "length (bucket_of mugf sz es i) \<le> ur_pail_max"
proof -
  let ?b = "bucket_of mugf sz es i"
  have mod: "unat m mod sz = unat m" for m :: mug
    using assms(2) unsigned_less [of m, where 'a = nat] by simp
  obtain m where m: "fst ` set ?b \<subseteq> {k \<in> fst ` set es. mugf k = Some m}"
  proof (cases "?b")
    case Nil
    then show ?thesis using that by simp
  next
    case (Cons e b)
    then have "e \<in> set ?b" by simp
    then have "in_bucket mugf sz i (fst e)" by (simp add: bucket_of_def)
    then obtain m :: mug where m: "unat m = i" unfolding in_bucket_def mod by blast
    have "mugf k = Some m" if "in_bucket mugf sz i k" for k
    proof -
      obtain n where n: "mugf k = Some n" "unat n = i" using \<open>in_bucket mugf sz i k\<close>
        unfolding in_bucket_def mod by blast
      then have "n = m" using m unfolding word_unat_eq_iff by simp
      then show ?thesis using n by simp
    qed
    then show ?thesis using that [of m] by (auto simp: bucket_of_def)
  qed
  have "distinct (map fst ?b)" using es by (simp add: bucket_of_def distinct_map_filter)
  then have "length ?b = card (fst ` set ?b)" using distinct_card [of "map fst ?b"] by simp
  also have "\<dots> \<le> card {k \<in> fst ` set es. mugf k = Some m}"
    by (rule card_mono [OF _ m]) simp
  also have "\<dots> \<le> ur_pail_max" using spread by (simp add: mug_spread_def)
  finally show ?thesis .
qed

lemma dict_grow_total:
  assumes es: "dict_entries_ok mugf (concat (dict_buckets d))"
    and spread: "mug_spread mugf (dom (dict_map d))" and "0 < p" "0 < s"
  shows "\<exists>d'. dict_grow mugf d p s = Some d'"
  using assms(3,4)
proof (induction "2 ^ 32 - s" arbitrary: p s rule: less_induct)
  case less
  have pos: "0 < p + s" using less.prems by simp
  show ?case
  proof (cases "\<exists>i < p + s. ur_pail_max < length (bucket_of mugf (p + s) (concat (dict_buckets d)) i)")
    case True
    then obtain i where i: "ur_pail_max < length (bucket_of mugf (p + s) (concat (dict_buckets d)) i)" by blast
    have "p + s < 2 ^ 32"
    proof (rule ccontr)
      assume "\<not> p + s < 2 ^ 32"
      then have "length (bucket_of mugf (p + s) (concat (dict_buckets d)) i) \<le> ur_pail_max"
        using es spread by (intro large_table_bucket) (auto simp: dict_entries_ok_def dict_map_dom)
      then show False using i by simp
    qed
    then have "\<exists>d'. dict_grow mugf d s (p + s) = Some d'"
      using less.prems by (intro less.hyps) auto
    then show ?thesis using dict_grow_overflow [OF es pos True] by simp
  next
    case False
    then show ?thesis using dict_grow_fits [OF es pos False] by blast
  qed
qed

section \<open>Lookup and update of the abstract map\<close>

lemma dict_map_unmugged: "dict_wf mugf d \<Longrightarrow> mugf k = None \<Longrightarrow> dict_map d k = None"
  using dict_map_mugged [of mugf d k] by (cases "dict_map d k") auto

lemma length_AList_update:
  "length (AList.update k v al) = (if k \<in> fst ` set al then length al else Suc (length al))"
  by (induction al) auto

lemma dict_map_update_bucket:
  assumes wf: "dict_wf mugf d" and m: "mugf k = Some m" and i: "i = unat m mod dict_size d"
    and b: "map_of b = (map_of (dict_buckets d ! i))(k \<mapsto> v)" "distinct (map fst b)"
      "length b \<le> ur_pail_max" "fst ` set b = insert k (fst ` set (dict_buckets d ! i))"
    and d': "d' = d\<lparr>dict_buckets := (dict_buckets d)[i := b]\<rparr>"
  shows "dict_wf mugf d'" "dict_map d' = (dict_map d)(k \<mapsto> v)"
proof -
  note o = dict_wfD [OF wf]
  have il: "i < dict_size d" using o(2) i by simp
  have k: "in_bucket mugf (dict_size d) i k" using m i by (simp add: in_bucket_def)
  have keys: "in_bucket mugf (dict_size d) i (fst e)" if "e \<in> set b" for e
  proof -
    have "fst e \<in> insert k (fst ` set (dict_buckets d ! i))" using that b(4) by blast
    then show ?thesis using k o(6) [OF il] by auto
  qed
  show wf': "dict_wf mugf d'"
    using o b il keys by (auto simp: dict_wf_def d' nth_list_update)
  show "dict_map d' = (dict_map d)(k \<mapsto> v)"
  proof
    fix j
    show "dict_map d' j = ((dict_map d)(k \<mapsto> v)) j"
    proof (cases "mugf j")
      case None
      then have "dict_map d j = None" "dict_map d' j = None" "j \<noteq> k"
        using dict_map_unmugged [OF wf None] dict_map_unmugged [OF wf' None] None m by auto
      then show ?thesis by simp
    next
      case (Some n)
      have "j \<noteq> k" if "unat n mod dict_size d \<noteq> i" using that Some m i by auto
      then show ?thesis
        using dict_map_bucket [OF wf Some] dict_map_bucket [OF wf' Some] il o(3) b(1)
        by (auto simp: d' nth_list_update)
    qed
  qed
qed

lemma dict_put_cases:
  assumes wf: "dict_wf mugf d" and m: "mugf k = Some m"
  obtains (stored) d' where "dict_put mugf d k v = Some d'" "dict_wf mugf d'"
      "dict_map d' = (dict_map d)(k \<mapsto> v)"
      "map_of (dict_buckets d ! (unat m mod dict_size d)) k \<noteq> None \<or>
       length (dict_buckets d ! (unat m mod dict_size d)) \<noteq> ur_pail_max"
    | (full) "dict_put mugf d k v =
        do { d' \<leftarrow> dict_grow mugf d (dict_prev d) (dict_size d); dict_put mugf d' k v }"
      "length (dict_buckets d ! (unat m mod dict_size d)) = ur_pail_max" "dict_map d k = None"
proof -
  note o = dict_wfD [OF wf]
  let ?i = "unat m mod dict_size d"
  let ?b = "dict_buckets d ! ?i"
  have il: "?i < dict_size d" using o(2) by simp
  consider (found) "map_of ?b k \<noteq> None" | (room) "map_of ?b k = None" "length ?b \<noteq> ur_pail_max"
    | (none) "map_of ?b k = None" "length ?b = ur_pail_max" by blast
  then show ?thesis
  proof cases
    case found
    let ?d = "d\<lparr>dict_buckets := (dict_buckets d)[?i := AList.update k v ?b]\<rparr>"
    have k: "k \<in> fst ` set ?b" using found by (auto simp: map_of_eq_None_iff)
    have "length (AList.update k v ?b) = length ?b"
      using k by (simp add: length_AList_update)
    then have "dict_wf mugf ?d" "dict_map ?d = (dict_map d)(k \<mapsto> v)"
      using dict_map_update_bucket [OF wf m refl, of "AList.update k v ?b" v ?d] o(4,5) [OF il] k
      by (auto simp: update_conv' distinct_update dom_update)
    moreover have "dict_put mugf d k v = Some ?d"
      using found m by (subst dict_put.simps) (simp add: Let_def)
    ultimately show ?thesis using stored found by blast
  next
    case room
    let ?d = "d\<lparr>dict_buckets := (dict_buckets d)[?i := ?b @ [(k, v)]]\<rparr>"
    have "k \<notin> fst ` set ?b" using room by (simp add: map_of_eq_None_iff)
    moreover have "map_of (?b @ [(k, v)]) = (map_of ?b)(k \<mapsto> v)"
      using room(1) by (auto simp: map_add_def split: option.splits)
    ultimately have "dict_wf mugf ?d" "dict_map ?d = (dict_map d)(k \<mapsto> v)"
      using dict_map_update_bucket [OF wf m refl, of "?b @ [(k, v)]" v ?d] o(4,5) [OF il] room by auto
    moreover have "dict_put mugf d k v = Some ?d"
      using room m by (subst dict_put.simps) (simp add: Let_def)
    ultimately show ?thesis using stored room by blast
  next
    case none
    have "dict_put mugf d k v =
        do { d' \<leftarrow> dict_grow mugf d (dict_prev d) (dict_size d); dict_put mugf d' k v }"
      using none m by (subst dict_put.simps) (simp add: Let_def)
    moreover have "dict_map d k = None" using dict_map_bucket [OF wf m] none by simp
    ultimately show ?thesis using full none by blast
  qed
qed

theorem dict_put_spec:
  assumes "dict_put mugf d k v = Some d'" "dict_wf mugf d"
  shows "dict_wf mugf d' \<and> dict_map d' = (dict_map d)(k \<mapsto> v)"
  using assms
proof (induction rule: dict_put.raw_induct [rotated 1, consumes 1, case_names step])
  case (step put mugf d k v d')
  obtain m where m: "mugf k = Some m" using step.hyps by (cases "mugf k") auto
  from step.prems m show ?case
  proof (cases rule: dict_put_cases [where v = v])
    case (stored d1)
    have "d1 = d'"
      using step.hyps stored(1,4) m
      by (subst (asm) dict_put.simps) (auto simp: Let_def split: if_splits)
    then show ?thesis using stored by simp
  next
    case full
    let ?b = "dict_buckets d ! (unat m mod dict_size d)"
    have "map_of ?b k = None" using full(3) dict_map_bucket [OF step.prems m] by simp
    then obtain d1 where g: "dict_grow mugf d (dict_prev d) (dict_size d) = Some d1"
      and p: "put mugf d1 k v = Some d'"
      using step.hyps m full(2)
      by (cases "dict_grow mugf d (dict_prev d) (dict_size d)") (auto simp: Let_def)
    have "dict_wf mugf d1 \<and> dict_map d1 = dict_map d"
      using dict_grow_spec [OF g dict_wf_entries] step.prems dict_wfD(2) [OF step.prems] by blast
    then show ?thesis using step.IH [OF p] by simp
  qed
qed

text \<open>An update ends when the keys, with the new one, do not crowd a mug.\<close>

lemma full_bucket_small:
  assumes wf: "dict_wf mugf d" and m: "mugf k = Some m"
    and spread: "mug_spread mugf (insert k (dom (dict_map d)))"
    and new: "dict_map d k = None" and full: "length (dict_buckets d ! (unat m mod dict_size d)) = ur_pail_max"
  shows "dict_size d < 2 ^ 32"
proof (rule ccontr)
  assume "\<not> dict_size d < 2 ^ 32"
  then have sz: "2 ^ 32 \<le> dict_size d" by simp
  have mod: "unat n mod dict_size d = unat n" for n :: mug
    using sz unsigned_less [of n, where 'a = nat] by simp
  note o = dict_wfD [OF wf]
  let ?i = "unat m mod dict_size d"
  let ?b = "dict_buckets d ! ?i"
  have il: "?i < dict_size d" using o(2) by simp
  have sub: "insert k (fst ` set ?b) \<subseteq> {j \<in> insert k (dom (dict_map d)). mugf j = Some m}"
  proof
    fix j
    assume j: "j \<in> insert k (fst ` set ?b)"
    show "j \<in> {j \<in> insert k (dom (dict_map d)). mugf j = Some m}"
    proof (cases "j = k")
      case False
      then obtain e where e: "e \<in> set ?b" "j = fst e" using j by auto
      then have "in_bucket mugf (dict_size d) ?i j" using o(6) [OF il] by simp
      then obtain n where n: "mugf j = Some n" "unat n = unat m" unfolding in_bucket_def mod by blast
      then have "n = m" unfolding word_unat_eq_iff by simp
      moreover have "?b \<in> set (dict_buckets d)" using il o(3) by simp
      then have "j \<in> dom (dict_map d)" unfolding dict_map_dom set_concat using e by blast
      ultimately show ?thesis using n by simp
    qed (use m in simp)
  qed
  have "k \<notin> fst ` set ?b"
    using new dict_map_bucket [OF wf m] by (simp add: map_of_eq_None_iff)
  then have "card (insert k (fst ` set ?b)) = Suc ur_pail_max"
    using distinct_card [OF o(5) [OF il]] full by simp
  moreover have "card (insert k (fst ` set ?b)) \<le> card {j \<in> insert k (dom (dict_map d)). mugf j = Some m}"
    by (rule card_mono [OF _ sub]) simp
  moreover have "card {j \<in> insert k (dom (dict_map d)). mugf j = Some m} \<le> ur_pail_max"
    using spread unfolding mug_spread_def by blast
  ultimately show False by linarith
qed

theorem dict_put_total:
  assumes "dict_wf mugf d" "mugf k \<noteq> None" "mug_spread mugf (insert k (dom (dict_map d)))"
  shows "\<exists>d'. dict_put mugf d k v = Some d'"
  using assms
proof (induction "2 ^ 32 - dict_size d" arbitrary: d rule: less_induct)
  case less
  obtain m where m: "mugf k = Some m" using less.prems by auto
  from less.prems(1) m show ?case
  proof (cases rule: dict_put_cases [where v = v])
    case stored
    then show ?thesis by blast
  next
    case full
    note o = dict_wfD [OF less.prems(1)]
    have small: "dict_size d < 2 ^ 32" using full_bucket_small [OF less.prems(1) m less.prems(3) full(3,2)] .
    have "mug_spread mugf (dom (dict_map d))" using mug_spread_mono [OF less.prems(3)] by blast
    then obtain d1 where g: "dict_grow mugf d (dict_prev d) (dict_size d) = Some d1"
      using dict_grow_total [OF dict_wf_entries [OF less.prems(1)]] o(1,2) by blast
    then have d1: "dict_wf mugf d1" "dict_map d1 = dict_map d" "dict_prev d + dict_size d \<le> dict_size d1"
      using dict_grow_spec [OF g dict_wf_entries [OF less.prems(1)] o(2)] by auto
    have "\<exists>d'. dict_put mugf d1 k v = Some d'"
      using d1 less.prems o(1) small by (intro less.hyps) auto
    then show ?thesis using full(1) g by simp
  qed
qed

text \<open>
  With more keys on one mug than a bucket holds there is no room at any size: the loops
  of the code never end.
\<close>

lemma dict_grow_crowded:
  assumes "dict_grow mugf d p s = Some d'" "dict_entries_ok mugf (concat (dict_buckets d))" "0 < s"
    "\<forall>n > 0. \<exists>i < n. ur_pail_max < length (bucket_of mugf n (concat (dict_buckets d)) i)"
  shows False
  using assms
proof (induction rule: dict_grow.raw_induct [rotated 1, consumes 1, case_names step])
  case (step grow mugf d p s d')
  have pos: "0 < p + s" using step.prems by simp
  then have over: "\<exists>i < p + s. ur_pail_max < length (bucket_of mugf (p + s) (concat (dict_buckets d)) i)"
    by (rule step.prems(3) [THEN spec, THEN mp])
  have g: "grow mugf d s (p + s) = Some d'"
    using step.hyps(1)
    by (simp only: dict_rehash_all [OF step.prems(1) pos] over if_True Option.bind.simps rehash.case)
  show ?case by (rule step.IH [OF g step.prems(1) pos step.prems(3)])
qed

theorem dict_grow_diverges:
  assumes es: "dict_entries_ok mugf (concat (dict_buckets d))" and s: "0 < s"
    and crowd: "ur_pail_max < card {k \<in> dom (dict_map d). mugf k = Some m}"
  shows "dict_grow mugf d p s = None"
proof -
  have over: "\<exists>i < n. ur_pail_max < length (bucket_of mugf n (concat (dict_buckets d)) i)" if "0 < n" for n
  proof (intro exI conjI)
    let ?i = "unat m mod n"
    let ?b = "bucket_of mugf n (concat (dict_buckets d)) ?i"
    show "?i < n" using that by simp
    have "{k \<in> dom (dict_map d). mugf k = Some m} \<subseteq> fst ` set ?b"
      unfolding dict_map_dom bucket_of_def in_bucket_def by auto
    then have "card {k \<in> dom (dict_map d). mugf k = Some m} \<le> card (fst ` set ?b)"
      by (intro card_mono) auto
    also have "\<dots> \<le> length ?b" using card_length [of "map fst ?b"] by simp
    finally show "ur_pail_max < length ?b" using crowd by simp
  qed
  then have "dict_grow mugf d p s = Some d' \<Longrightarrow> False" for d'
    using dict_grow_crowded [OF _ es s] by blast
  then show ?thesis by (cases "dict_grow mugf d p s") auto
qed

lemma dict_wipe_spec:
  assumes "dict_wf mugf d"
  shows "dict_wf mugf (dict_wipe d)" "dict_map (dict_wipe d) = Map.empty"
proof -
  show "dict_wf mugf (dict_wipe d)" using assms by (auto simp: dict_wf_def dict_wipe_def)
  have "concat (map (\<lambda>_. []) bs) = []" for bs :: "'c list" by (induction bs) auto
  then show "dict_map (dict_wipe d) = Map.empty" by (simp add: dict_map_def dict_wipe_def)
qed

lemma dict_new:
  assumes "0 < p" "0 < s"
  shows "\<exists>d :: 'v dict. dict_grow mugf dict_null p s = Some d \<and> dict_wf mugf d \<and> dict_map d = Map.empty"
proof -
  have es: "dict_entries_ok mugf (concat (dict_buckets (dict_null :: 'v dict)))"
    by (simp add: dict_entries_ok_def dict_null_def)
  have "\<not> (\<exists>i < p + s. ur_pail_max < length (bucket_of mugf (p + s) (concat (dict_buckets (dict_null :: 'v dict))) i))"
    by (simp add: bucket_of_def dict_null_def)
  from dict_grow_fits [OF es _ this] assms obtain d :: "'v dict" where g: "dict_grow mugf dict_null p s = Some d"
    by auto
  then have "dict_wf mugf d" "dict_map d = dict_map dict_null"
    using dict_grow_spec [OF g es] assms by auto
  moreover have "dict_map (dict_null :: 'v dict) = Map.empty"
    by (simp add: dict_map_def dict_null_def)
  ultimately show ?thesis using g by metis
qed

section \<open>The contract of a dictionary\<close>

text \<open>
  What the serializers rely on: over an abstract map, a lookup returns the binding of the
  key, and an update that returns has added one; it returns while the keys leave room.
\<close>

locale dictionary =
  fixes wf :: "'d \<Rightarrow> bool"
    and mapping :: "'d \<Rightarrow> 'k \<Rightarrow> 'v option"
    and keyed :: "'k \<Rightarrow> bool"
    and room :: "'k set \<Rightarrow> bool"
    and lookup :: "'d \<Rightarrow> 'k \<Rightarrow> 'v option option"
    and store :: "'d \<Rightarrow> 'k \<Rightarrow> 'v \<Rightarrow> 'd option"
  assumes lookup_law: "wf d \<Longrightarrow> keyed k \<Longrightarrow> lookup d k = Some (mapping d k)"
    and store_law: "wf d \<Longrightarrow> store d k v = Some d' \<Longrightarrow> wf d' \<and> mapping d' = (mapping d)(k \<mapsto> v)"
    and store_total: "wf d \<Longrightarrow> keyed k \<Longrightarrow> room (insert k (dom (mapping d))) \<Longrightarrow> store d k v \<noteq> None"
    and room_mono: "room K \<Longrightarrow> J \<subseteq> K \<Longrightarrow> room J"
begin

lemma lookup_store:
  assumes "wf d" "store d k v = Some d'" "keyed j"
  shows "lookup d' j = (if j = k then Some (Some v) else lookup d j)"
  using assms store_law [OF assms(1,2)] by (simp add: lookup_law)

text \<open>A sequence of updates builds the map of the bindings, the last one winning.\<close>

primrec store_all :: "'d \<Rightarrow> ('k \<times> 'v) list \<Rightarrow> 'd option" where
  "store_all d [] = Some d"
| "store_all d (b # bs) = do { d' \<leftarrow> store d (fst b) (snd b); store_all d' bs }"

lemma store_all_law:
  "wf d \<Longrightarrow> store_all d bs = Some d' \<Longrightarrow> wf d' \<and> mapping d' = mapping d ++ map_of (rev bs)"
proof (induction bs arbitrary: d)
  case Nil
  then show ?case by simp
next
  case (Cons b bs)
  then obtain d1 where d1: "store d (fst b) (snd b) = Some d1" "store_all d1 bs = Some d'"
    by (auto split: Option.bind_splits)
  have s: "wf d1" "mapping d1 = mapping d ++ map_of [b]"
    using store_law [OF Cons.prems(1) d1(1)] by (cases b; simp)+
  have "wf d'" "mapping d' = mapping d1 ++ map_of (rev bs)" using Cons.IH [OF s(1) d1(2)] by auto
  then show ?case unfolding s(2) by (simp del: map_of.simps)
qed

lemma store_all_total:
  "wf d \<Longrightarrow> \<forall>b \<in> set bs. keyed (fst b) \<Longrightarrow> room (dom (mapping d) \<union> fst ` set bs) \<Longrightarrow>
   store_all d bs \<noteq> None"
proof (induction bs arbitrary: d)
  case Nil
  then show ?case by simp
next
  case (Cons b bs)
  have "room (insert (fst b) (dom (mapping d)))"
    by (rule room_mono [OF Cons.prems(3)]) auto
  then obtain d1 where d1: "store d (fst b) (snd b) = Some d1"
    using store_total [OF Cons.prems(1)] Cons.prems(2) by fastforce
  have s: "wf d1" "dom (mapping d1) = insert (fst b) (dom (mapping d))"
    using store_law [OF Cons.prems(1) d1] by auto
  have "room (dom (mapping d1) \<union> fst ` set bs)"
    unfolding s(2) by (rule room_mono [OF Cons.prems(3)]) auto
  then have "store_all d1 bs \<noteq> None" using Cons.prems(2) by (intro Cons.IH [OF s(1)]) auto
  then show ?case using d1 by simp
qed

end

interpretation dct: dictionary "dict_wf mugf" dict_map "\<lambda>k. mugf k \<noteq> None" "mug_spread mugf"
  "dict_get mugf" "dict_put mugf"
  for mugf :: "nref \<Rightarrow> mug option"
proof unfold_locales
  show "dict_wf mugf d \<Longrightarrow> mugf k \<noteq> None \<Longrightarrow> dict_get mugf d k = Some (dict_map d k)"
    for d :: "'a dict" and k using dict_get_spec [of mugf d k] by (cases "mugf k") auto
  show "dict_wf mugf d \<Longrightarrow> dict_put mugf d k v = Some d' \<Longrightarrow>
      dict_wf mugf d' \<and> dict_map d' = (dict_map d)(k \<mapsto> v)" for d d' :: "'a dict" and k v
    by (rule dict_put_spec)
  show "dict_wf mugf d \<Longrightarrow> mugf k \<noteq> None \<Longrightarrow> mug_spread mugf (insert k (dom (dict_map d))) \<Longrightarrow>
      dict_put mugf d k v \<noteq> None" for d :: "'a dict" and k v
    using dict_put_total [of mugf d k v] by (cases "dict_put mugf d k v") auto
  show "mug_spread mugf K \<Longrightarrow> J \<subseteq> K \<Longrightarrow> mug_spread mugf J" for J K
    by (rule mug_spread_mono)
qed

lemmas ur_dict32_defs = ur_dict32_grow_def ur_dict32_get_def ur_dict32_put_def ur_dict32_wipe_def
lemmas ur_dict64_defs = ur_dict64_grow_def ur_dict64_get_def ur_dict64_put_def ur_dict64_wipe_def
lemmas ur_dict_defs = ur_dict_grow_def ur_dict_get_def ur_dict_put_def ur_dict_wipe_def

section \<open>Properties of the 64-bit dictionary\<close>

lemma dict_bucket_bound:
  assumes wf: "dict_wf mugf d"
  shows "card {k \<in> dom (dict_map d). mugf k = Some m} \<le> ur_pail_max"
proof -
  let ?i = "unat m mod dict_size d"
  let ?b = "dict_buckets d ! ?i"
  have i: "?i < dict_size d" using dict_wfD(2) [OF wf] by simp
  have "{k \<in> dom (dict_map d). mugf k = Some m} \<subseteq> fst ` set ?b"
    using dict_map_bucket [OF wf, of _ m] by (auto simp: dom_map_of_conv_image_fst [symmetric])
  then have "card {k \<in> dom (dict_map d). mugf k = Some m} \<le> card (fst ` set ?b)"
    by (intro card_mono) auto
  also have "\<dots> \<le> length ?b" by (metis card_length length_map set_map)
  also have "\<dots> \<le> ur_pail_max" by (rule dict_wfD(4) [OF wf i])
  finally show ?thesis .
qed

lemma dict64_put_crowded:
  assumes wf: "dict_wf mugf d" and k: "dict_map d k = None" "mugf k = Some m"
    and full: "ur_pail_max \<le> card {x \<in> dom (dict_map d). mugf x = Some m}"
  shows "ur_dict64_put mugf d k v = None"
proof (rule ccontr)
  assume "ur_dict64_put mugf d k v \<noteq> None"
  then obtain d' where "dict_put mugf d k v = Some d'" by (auto simp: ur_dict64_put_def)
  from dict_put_spec [OF this wf] have d': "dict_wf mugf d'" "dict_map d' = (dict_map d)(k \<mapsto> v)" by simp_all
  let ?S = "{x \<in> dom (dict_map d). mugf x = Some m}"
  have "{x \<in> dom (dict_map d'). mugf x = Some m} = insert k ?S" using k d'(2) by auto
  moreover have "card (insert k ?S) = Suc (card ?S)"
    using k(1) by (intro card_insert_disjoint) (simp add: dict_map_dom, simp add: domIff)
  ultimately show False using dict_bucket_bound [OF d'(1), of m] full by simp
qed

lemma mug_spread_finite:
  assumes "finite S" "card S \<le> ur_pail_max"
  shows "mug_spread mugf S"
  unfolding mug_spread_def
proof
  show "card {k \<in> S. mugf k = Some m} \<le> ur_pail_max" for m
    using card_mono [OF assms(1), of "{k \<in> S. mugf k = Some m}"] assms(2) by auto
qed

text \<open>
  C25: An update is seen by every later lookup: after \<open>ur_dict64_put\<close>, the key has the new
  value, and every other key has the value it had, also when the put had to grow the table and to
  move all its entries; the table keeps its invariant.
\<close>
theorem dict_put_get:
  assumes "dict_wf mugf d" "ur_dict64_put mugf d k v = Some d'" "mugf x \<noteq> None"
  shows "ur_dict64_get mugf d' x = (if x = k then Some (Some v) else ur_dict64_get mugf d x) \<and> dict_wf mugf d'"
proof -
  have put: "dict_put mugf d k v = Some d'" using assms(2) by (simp add: ur_dict64_put_def)
  show ?thesis
    using dct.lookup_store [OF assms(1) put assms(3)] dct.store_law [OF assms(1) put]
    by (simp add: ur_dict64_get_def)
qed

lemma dict_put_get_witness:
  "\<exists>d d'. ur_dict64_grow (\<lambda>_. Some 7) dict_null 1 2 = Some d \<and> ur_dict64_put (\<lambda>_. Some 7) d 5 9 = Some d' \<and>
     ur_dict64_get (\<lambda>_. Some 7) d' 5 = Some (Some 9)"
proof -
  let ?m = "\<lambda>_ :: nref. Some (7 :: mug)"
  obtain d :: dict64 where d: "ur_dict64_grow ?m dict_null 1 2 = Some d" "dict_wf ?m d" "dict_map d = Map.empty"
    using dict_new [of 1 2 ?m] by (auto simp: ur_dict64_grow_def)
  have "mug_spread ?m {5}" by (rule mug_spread_finite) (simp_all add: ur_pail_max_def)
  then obtain d' where "ur_dict64_put ?m d 5 9 = Some d'"
    using dict_put_total [OF d(2), of 5 9] d(3) by (auto simp: ur_dict64_put_def)
  from dict_put_get [OF d(2) this, of 5] this d(1) show ?thesis by auto
qed

text \<open>
  C26: An update returns when no more than ten keys, the new one included, share a mug: the
  table then grows at most until it is larger than every mug, where keys of different mugs cannot
  share a bucket any more.
\<close>
theorem dict_put_returns:
  assumes "dict_wf mugf d" "mugf k \<noteq> None" "mug_spread mugf (insert k (dom (dict_map d)))"
  shows "ur_dict64_put mugf d k v \<noteq> None"
  using dct.store_total [OF assms] by (simp add: ur_dict64_put_def)

lemma dict_put_returns_witness:
  "\<exists>d. ur_dict64_grow (\<lambda>_. Some 7) dict_null 1 2 = Some d \<and> ur_dict64_put (\<lambda>_. Some 7) d 5 9 \<noteq> None"
proof -
  let ?m = "\<lambda>_ :: nref. Some (7 :: mug)"
  obtain d :: dict64 where d: "ur_dict64_grow ?m dict_null 1 2 = Some d" "dict_wf ?m d" "dict_map d = Map.empty"
    using dict_new [of 1 2 ?m] by (auto simp: ur_dict64_grow_def)
  have one: "mug_spread ?m {5}" by (rule mug_spread_finite) (simp_all add: ur_pail_max_def)
  have "mug_spread ?m (insert 5 (dom (dict_map d)))" using d(3) one by simp
  from dict_put_returns [OF d(2) _ this] d(1) show ?thesis by auto
qed

text \<open>
  C27: An eleventh key of the same mug never gets in: \<open>ur_dict64_put\<close> does not return. The
  bucket of the mug is full, and each of the tables the code grows in turn has one that is full
  again, whatever its size.
\<close>
theorem dict_put_diverges:
  assumes "dict_wf mugf d" "dict_map d k = None" "mugf k = Some m"
    "ur_pail_max \<le> card {x \<in> dom (dict_map d). mugf x = Some m}"
  shows "ur_dict64_put mugf d k v = None"
  by (rule dict64_put_crowded [OF assms])

lemma dict_put_diverges_witness:
  "ur_dict64_put (\<lambda>_. Some 0) \<lparr>dict_prev = 1, dict_size = 1, dict_buckets = [map (\<lambda>i. (of_nat i, 0)) [0..<10]]\<rparr> 10 0 = None"
proof -
  let ?m = "\<lambda>_ :: nref. Some (0 :: mug)"
  let ?d = "\<lparr>dict_prev = 1, dict_size = 1, dict_buckets = [map (\<lambda>i. (of_nat i, 0)) [0..<10]]\<rparr> :: dict64"
  have keys: "[0..<10] = [0, 1, 2, 3, 4, 5, 6, 7, 8, 9 :: nat]" by (simp add: upt_rec)
  have "dict_wf ?m ?d" by (simp add: dict_wf_def in_bucket_def keys ur_pail_max_def)
  moreover have dom: "dom (dict_map ?d) = {0, 1, 2, 3, 4, 5, 6, 7, 8, 9}"
    unfolding dict_map_dom by (simp add: keys)
  moreover have "10 \<notin> dom (dict_map ?d)" unfolding dom by simp
  then have "dict_map ?d 10 = None" by (simp only: domIff not_not)
  moreover have "{x \<in> dom (dict_map ?d). ?m x = Some 0} = {0, 1, 2, 3, 4, 5, 6, 7, 8, 9}" unfolding dom by auto
  then have "ur_pail_max \<le> card {x \<in> dom (dict_map ?d). ?m x = Some 0}" by (simp only:) (simp add: ur_pail_max_def)
  ultimately show ?thesis by (intro dict_put_diverges [where m = 0]) simp_all
qed

end
