(* ===== verification/Hashcons.thy ===== *)
theory Hashcons
  imports HashDict "HOL-Library.Sublist"
begin

text \<open>
  The noun store of \<open>pkg/ur/hashcons.c\<close>: atoms that do not fit 62 bits and cells live in
  arrays of the root, each under a 64-bit reference whose top two bits are its type; the
  mug hashes are stored, and dictionaries on them make every atom and every cell unique.

  A result \<open>None\<close> is an aborted process (a failed assertion), a loop that never ends, or
  undefined behaviour (a read outside an array).  Allocation succeeds.
\<close>

section \<open>References\<close>

text \<open>\<open>ur_tag\<close>: the types are the values 0, 1 and 2 of the top two bits.\<close>

definition ur_direct :: nat where "ur_direct = 0"
definition ur_iatom :: nat where "ur_iatom = 1"
definition ur_icell :: nat where "ur_icell = 2"

definition ur_nref_tag :: "nref \<Rightarrow> nat" where
  "ur_nref_tag ref = unat (drop_bit 62 ref)"

definition ur_nref_idx :: "nref \<Rightarrow> nat" where
  "ur_nref_idx ref = unat (ref AND mask 62)"

definition ur_deep :: "nref \<Rightarrow> bool" where
  "ur_deep ref \<longleftrightarrow> ur_icell = ur_nref_tag ref"

section \<open>Mugs\<close>

text \<open>The 32-bit MurmurHash3, little-endian.\<close>

definition rotl32 :: "u32 \<Rightarrow> nat \<Rightarrow> u32" where
  "rotl32 x r = push_bit r x OR drop_bit (32 - r) x"

definition fmix32 :: "u32 \<Rightarrow> u32" where
  "fmix32 h0 =
     (let h1 = h0 XOR drop_bit 16 h0; h2 = h1 * 0x85ebca6b; h3 = h2 XOR drop_bit 13 h2;
          h4 = h3 * 0xc2b2ae35
      in h4 XOR drop_bit 16 h4)"

definition MurmurHash3_x86_32 :: "u8 list \<Rightarrow> nat \<Rightarrow> u32 \<Rightarrow> u32" where
  "MurmurHash3_x86_32 data len seed =
     (let nblocks = len div 4; c1 = 0xcc9e2d51; c2 = 0x1b873593;
          h1 = fold (\<lambda>i h. let k = rotl32 (le_load 4 (drop (4 * i) data) * c1) 15 * c2
                           in rotl32 (h XOR k) 13 * 5 + 0xe6546b64) [0..<nblocks] seed;
          tail = drop (4 * nblocks) data;
          h2 = (if len mod 4 = 0 then h1
                else
                  let k3 = (if len mod 4 = 3 then push_bit 16 (ucast (tail ! 2)) else 0);
                      k2 = (if 2 \<le> len mod 4 then k3 XOR push_bit 8 (ucast (tail ! 1)) else k3);
                      k1 = k2 XOR ucast (tail ! 0)
                  in h1 XOR rotl32 (k1 * c1) 15 * c2)
      in fmix32 (h2 XOR of_nat len))"

text \<open>The loop over seeds: at most eight hashes, until one folds to a non-zero mug.\<close>

primrec mug_loop :: "nat \<Rightarrow> (u32 \<Rightarrow> u32) \<Rightarrow> u32 \<Rightarrow> mug \<Rightarrow> mug" where
  "mug_loop 0 hash seed dflt = dflt"
| "mug_loop (Suc n) hash seed dflt =
     (let raw = hash seed; mug = drop_bit 31 raw XOR (raw AND mask 31)
      in if mug = 0 then mug_loop n hash (seed + 1) dflt else mug)"

definition ur_mug_bytes :: "u8 list \<Rightarrow> nat \<Rightarrow> mug" where
  "ur_mug_bytes byt len = mug_loop 8 (MurmurHash3_x86_32 byt len) 0xcafebabe 0x7fff"

definition met3 :: "nat \<Rightarrow> nat" where
  "met3 n = (met0 n + 7) div 8"

text \<open>The bytes of a 64-bit value, as the initializers \<open>ur_mask_8(x >> 8 * i)\<close> have them.\<close>

definition bytes64 :: "u64 \<Rightarrow> u8 list" where
  "bytes64 x = map (\<lambda>i. ucast (drop_bit (8 * i) x)) [0..<8]"

definition bytes32 :: "u32 \<Rightarrow> u8 list" where
  "bytes32 x = map (\<lambda>i. ucast (drop_bit (8 * i) x)) [0..<4]"

definition ur_mug32 :: "u32 \<Rightarrow> mug" where
  "ur_mug32 x = ur_mug_bytes (bytes32 x) (met3 (unat x))"

definition ur_mug64 :: "u64 \<Rightarrow> mug" where
  "ur_mug64 x = ur_mug_bytes (bytes64 x) (met3 (unat x))"

definition ur_mug_both :: "mug \<Rightarrow> mug \<Rightarrow> mug" where
  "ur_mug_both hed tal =
     (let len = 4 + (met0 (unat tal) + 7) div 8; byt = bytes32 hed @ bytes32 tal
      in mug_loop 8 (MurmurHash3_x86_32 byt len) 0xdeadbeef 0xfffe)"

section \<open>The root\<close>

text \<open>
  An array of the root is the list of the entries stored in it so far (\<open>fill\<close> of them);
  \<open>size\<close> is its capacity.
\<close>

record ur_cells =
  ce_dict :: dict_set
  ce_prev :: nat
  ce_size :: nat
  ce_mugs :: "mug list"
  ce_heads :: "nref list"
  ce_tails :: "nref list"

record ur_atoms =
  at_dict :: dict_set
  at_prev :: nat
  at_size :: nat
  at_mugs :: "mug list"
  at_bytes :: "u8 list list"
  at_lens :: "nat list"

record ur_root =
  cells :: ur_cells
  atoms :: ur_atoms

definition at_fill :: "ur_atoms \<Rightarrow> nat" where
  "at_fill a = length (at_bytes a)"

definition ce_fill :: "ur_cells \<Rightarrow> nat" where
  "ce_fill c = length (ce_heads c)"

text \<open>\<open>xs[i]\<close>\<close>

definition at_index :: "'a list \<Rightarrow> nat \<Rightarrow> 'a option" where
  "at_index xs i = (if i < length xs then Some (xs ! i) else None)"

definition ur_nref_mug :: "ur_root \<Rightarrow> nref \<Rightarrow> mug option" where
  "ur_nref_mug r ref =
     (let tag = ur_nref_tag ref
      in if tag = ur_direct then Some (ur_mug64 ref)
         else if tag = ur_iatom then at_index (at_mugs (atoms r)) (ur_nref_idx ref)
         else if tag = ur_icell then at_index (ce_mugs (cells r)) (ur_nref_idx ref)
         else None)"

definition ur_head :: "ur_root \<Rightarrow> nref \<Rightarrow> nref option" where
  "ur_head r ref =
     (if ur_deep ref then at_index (ce_heads (cells r)) (ur_nref_idx ref) else None)"

definition ur_tail :: "ur_root \<Rightarrow> nref \<Rightarrow> nref option" where
  "ur_tail r ref =
     (if ur_deep ref then at_index (ce_tails (cells r)) (ur_nref_idx ref) else None)"

definition ur_atoms_grow :: "ur_atoms \<Rightarrow> ur_atoms" where
  "ur_atoms_grow a = a\<lparr>at_prev := at_size a, at_size := at_prev a + at_size a\<rparr>"

definition ur_cells_grow :: "ur_cells \<Rightarrow> ur_cells" where
  "ur_cells_grow c = c\<lparr>ce_prev := ce_size c, ce_size := ce_prev c + ce_size c\<rparr>"

section \<open>Atoms: bytes and measures\<close>

definition ur_bytes :: "ur_root \<Rightarrow> nref \<Rightarrow> (u8 list \<times> nat) option" where
  "ur_bytes r ref =
     (if ur_deep ref then None
      else if ur_nref_tag ref = ur_direct then Some (bytes64 ref, met3 (unat ref))
      else if ur_nref_tag ref = ur_iatom then
        do { len \<leftarrow> at_index (at_lens (atoms r)) (ur_nref_idx ref);
             byt \<leftarrow> at_index (at_bytes (atoms r)) (ur_nref_idx ref);
             Some (byt, len) }
      else None)"

text \<open>\<open>byt[len - 1]\<close> is outside the array when there are no bytes.\<close>

definition ur_met0_bytes_unsafe :: "nat \<Rightarrow> u8 list \<Rightarrow> nat option" where
  "ur_met0_bytes_unsafe len byt =
     (if len = 0 then None
      else do { b \<leftarrow> at_index byt (len - 1); Some ((len - 1) * 8 + met0 (unat b)) })"

definition ur_met :: "ur_root \<Rightarrow> nat \<Rightarrow> nref \<Rightarrow> nat option" where
  "ur_met r bloq ref =
     (if ur_deep ref then None
      else do {
        m_bit \<leftarrow> (if ur_nref_tag ref = ur_direct then Some (met0 (unat ref))
                  else do {
                    len \<leftarrow> at_index (at_lens (atoms r)) (ur_nref_idx ref);
                    byt \<leftarrow> at_index (at_bytes (atoms r)) (ur_nref_idx ref);
                    ur_met0_bytes_unsafe len byt });
        Some (if bloq = 0 then m_bit
              else if bloq = 1 then (m_bit + 1) div 2
              else if bloq = 2 then (m_bit + 3) div 4
              else if bloq = 3 then (m_bit + 7) div 8
              else ((m_bit + 7) div 8 + (2 ^ (bloq - 3) - 1)) div 2 ^ (bloq - 3)) })"

section \<open>Making atoms and cells\<close>

text \<open>\<open>fill | ((uint64_t)tag << 62)\<close>\<close>

definition nref_of :: "nat \<Rightarrow> nat \<Rightarrow> nref" where
  "nref_of tag idx = of_nat idx OR push_bit 62 (of_nat tag)"

definition coin_unsafe :: "ur_atoms \<Rightarrow> mug \<Rightarrow> nat \<Rightarrow> u8 list \<Rightarrow> (nref \<times> ur_atoms) option" where
  "coin_unsafe a mug len byt =
     (let fill = at_fill a
      in if met0 fill \<le> 62 then
           Some (nref_of ur_iatom fill,
                 a\<lparr>at_bytes := at_bytes a @ [byt], at_lens := at_lens a @ [len],
                   at_mugs := at_mugs a @ [mug]\<rparr>)
         else None)"

definition cons_unsafe :: "ur_cells \<Rightarrow> mug \<Rightarrow> nref \<Rightarrow> nref \<Rightarrow> (nref \<times> ur_cells) option" where
  "cons_unsafe c mug hed tal =
     (let fill = ce_fill c
      in if met0 fill \<le> 62 then
           Some (nref_of ur_icell fill,
                 c\<lparr>ce_mugs := ce_mugs c @ [mug], ce_heads := ce_heads c @ [hed],
                   ce_tails := ce_tails c @ [tal]\<rparr>)
         else None)"

text \<open>The search of a bucket: the first reference with the same bytes.\<close>

primrec find_atom :: "ur_root \<Rightarrow> nat \<Rightarrow> u8 list \<Rightarrow> nref list \<Rightarrow> nref option option" where
  "find_atom r len byt [] = Some None"
| "find_atom r len byt (tom # toms) =
     do { (t_byt, t_len) \<leftarrow> ur_bytes r tom;
          if t_len = len \<and> take len t_byt = take len byt then Some (Some tom)
          else find_atom r len byt toms }"

text \<open>The first reference with the same head and tail.\<close>

primrec find_cell :: "ur_root \<Rightarrow> nref \<Rightarrow> nref \<Rightarrow> nref list \<Rightarrow> nref option option" where
  "find_cell r hed tal [] = Some None"
| "find_cell r hed tal (cel # cels) =
     do { h \<leftarrow> ur_head r cel;
          t \<leftarrow> ur_tail r cel;
          if hed = h \<and> tal = t then Some (Some cel) else find_cell r hed tal cels }"

text \<open>Adding a reference at the end of bucket \<open>idx\<close>.\<close>

definition dict_push :: "dict_set \<Rightarrow> nat \<Rightarrow> nref \<Rightarrow> dict_set" where
  "dict_push d idx ref =
     d\<lparr>dict_buckets := (dict_buckets d)[idx := dict_buckets d ! idx @ [(ref, ())]]\<rparr>"

partial_function (option) ur_coin_bytes_unsafe ::
  "ur_root \<Rightarrow> nat \<Rightarrow> u8 list \<Rightarrow> (nref \<times> ur_root) option" where
  "ur_coin_bytes_unsafe r len byt =
     (let a = atoms r; d = at_dict a; mug = ur_mug_bytes byt len;
          idx = unat mug mod dict_size d; bucket = map fst (dict_buckets d ! idx)
      in do {
        found \<leftarrow> find_atom r len byt bucket;
        case found of
          Some tom \<Rightarrow> Some (tom, r)
        | None \<Rightarrow>
            if length bucket = ur_pail_max then
              do { d' \<leftarrow> ur_dict_grow (ur_nref_mug r) d (dict_prev d) (dict_size d);
                   ur_coin_bytes_unsafe (r\<lparr>atoms := a\<lparr>at_dict := d'\<rparr>\<rparr>) len byt }
            else
              let a1 = (if at_fill a = at_size a then ur_atoms_grow a else a)
              in do { (tom, a2) \<leftarrow> coin_unsafe a1 mug len byt;
                      Some (tom, r\<lparr>atoms := a2\<lparr>at_dict := dict_push d idx tom\<rparr>\<rparr>) } })"

declare ur_coin_bytes_unsafe.simps [code]

definition strip_zeros :: "nat \<Rightarrow> u8 list \<Rightarrow> nat" where
  "strip_zeros len byt = length (dropWhile (\<lambda>b. b = 0) (rev (take len byt)))"

text \<open>
  The direct atom is assembled in \<open>int\<close>: \<open>byt[i] << (8 * i)\<close> is undefined from the fifth
  byte on, and for a fourth byte with its top bit set.
\<close>

primrec coin_direct :: "nat \<Rightarrow> u8 list \<Rightarrow> u64 option" where
  "coin_direct 0 byt = Some 0"
| "coin_direct (Suc i) byt =
     do { direct \<leftarrow> coin_direct i byt;
          b \<leftarrow> at_index byt i;
          if i \<le> 2 \<or> i = 3 \<and> b < 0x80 then Some (direct OR push_bit (8 * i) (ucast b)) else None }"

definition ur_coin_bytes :: "ur_root \<Rightarrow> nat \<Rightarrow> u8 list \<Rightarrow> (nref \<times> ur_root) option" where
  "ur_coin_bytes r len0 byt =
     (let len = strip_zeros len0 byt
      in do {
        met \<leftarrow> ur_met0_bytes_unsafe len byt;
        if met \<le> 62 then do { direct \<leftarrow> coin_direct len byt; Some (direct, r) }
        else ur_coin_bytes_unsafe r len (take len byt) })"

definition ur_coin64 :: "ur_root \<Rightarrow> u64 \<Rightarrow> (nref \<times> ur_root) option" where
  "ur_coin64 r n =
     (if ur_nref_tag n = ur_direct then Some (n, r)
      else if met3 (unat n) = 8 then ur_coin_bytes_unsafe r 8 (bytes64 n)
      else None)"

partial_function (option) ur_cons ::
  "ur_root \<Rightarrow> nref \<Rightarrow> nref \<Rightarrow> (nref \<times> ur_root) option" where
  "ur_cons r hed tal =
     do { hmug \<leftarrow> ur_nref_mug r hed;
          tmug \<leftarrow> ur_nref_mug r tal;
          let c = cells r; d = ce_dict c; mug = ur_mug_both hmug tmug;
              idx = unat mug mod dict_size d; bucket = map fst (dict_buckets d ! idx)
          in do {
            found \<leftarrow> find_cell r hed tal bucket;
            case found of
              Some cel \<Rightarrow> Some (cel, r)
            | None \<Rightarrow>
                if length bucket = ur_pail_max then
                  do { d' \<leftarrow> ur_dict_grow (ur_nref_mug r) d (dict_prev d) (dict_size d);
                       ur_cons (r\<lparr>cells := c\<lparr>ce_dict := d'\<rparr>\<rparr>) hed tal }
                else
                  let c1 = (if ce_fill c = ce_size c then ur_cells_grow c else c)
                  in do { (cel, c2) \<leftarrow> cons_unsafe c1 mug hed tal;
                          Some (cel, r\<lparr>cells := c2\<lparr>ce_dict := dict_push d idx cel\<rparr>\<rparr>) } } }"

declare ur_cons.simps [code]

section \<open>The empty root\<close>

definition root_zero :: ur_root where
  "root_zero =
     \<lparr>cells = \<lparr>ce_dict = dict_null, ce_prev = 0, ce_size = 0, ce_mugs = [], ce_heads = [],
               ce_tails = []\<rparr>,
      atoms = \<lparr>at_dict = dict_null, at_prev = 0, at_size = 0, at_mugs = [], at_bytes = [],
               at_lens = []\<rparr>\<rparr>"

definition ur_fib10 :: nat where "ur_fib10 = 55"
definition ur_fib11 :: nat where "ur_fib11 = 89"
definition ur_fib12 :: nat where "ur_fib12 = 144"

definition ur_root_init :: "ur_root option" where
  "ur_root_init =
     (let r = root_zero;
          a = ur_atoms_grow ((atoms r)\<lparr>at_prev := ur_fib11, at_size := ur_fib12\<rparr>);
          c = ur_cells_grow ((cells r)\<lparr>ce_prev := ur_fib11, ce_size := ur_fib12\<rparr>)
      in do {
        ad \<leftarrow> ur_dict_grow (ur_nref_mug r) (at_dict a) ur_fib11 ur_fib12;
        cd \<leftarrow> ur_dict_grow (ur_nref_mug r) (ce_dict c) ur_fib11 ur_fib12;
        Some \<lparr>cells = c\<lparr>ce_dict := cd\<rparr>, atoms = a\<lparr>at_dict := ad\<rparr>\<rparr> })"

section \<open>Encoding of references\<close>

lemma nref_of_bit:
  assumes "t < 4" "i < 2 ^ 62"
  shows "bit (nref_of t i) n \<longleftrightarrow> n < 64 \<and> (if n < 62 then bit i n else bit t (n - 62))"
proof -
  have i: "\<not> bit i n" if "62 \<le> n" for n
    using assms(2) that less_exp_met0 [of i] bit_less_met0 [of i n] met0_le_iff [of i 62] by auto
  have t: "\<not> bit t n" if "2 \<le> n" for n
    using assms(1) that bit_less_met0 [of t n] met0_le_iff [of t 2] by auto
  show ?thesis
    using i t by (auto simp: nref_of_def bit_simps)
qed

lemma nref_of_inverse:
  assumes "t < 4" "i < 2 ^ 62"
  shows "ur_nref_tag (nref_of t i) = t" "ur_nref_idx (nref_of t i) = i"
proof -
  show "ur_nref_tag (nref_of t i) = t"
  proof (rule bit_eqI)
    fix n
    have "\<not> bit t n" if "2 \<le> n"
      using assms(1) that bit_less_met0 [of t n] met0_le_iff [of t 2] by auto
    then show "bit (ur_nref_tag (nref_of t i)) n = bit t n"
      by (cases "n < 2") (auto simp: ur_nref_tag_def bit_unsigned_iff bit_drop_bit_eq nref_of_bit [OF assms])
  qed
  show "ur_nref_idx (nref_of t i) = i"
  proof (rule bit_eqI)
    fix n
    have "\<not> bit i n" if "62 \<le> n"
      using assms(2) that bit_less_met0 [of i n] met0_le_iff [of i 62] by auto
    then show "bit (ur_nref_idx (nref_of t i)) n = bit i n"
      by (cases "n < 62") (auto simp: ur_nref_idx_def bit_unsigned_iff bit_and_mask nref_of_bit [OF assms])
  qed
qed

lemma less_exp_bitI: "(\<And>k. bit n k \<Longrightarrow> k < m) \<Longrightarrow> n < 2 ^ m" for n :: nat
proof -
  assume "\<And>k. bit n k \<Longrightarrow> k < m"
  then have "take_bit m n = n" by (intro bit_eqI) (auto simp: bit_take_bit_iff)
  then show ?thesis by (metis take_bit_nat_less_exp)
qed

lemma ur_nref_tag_div: "ur_nref_tag ref = unat ref div 2 ^ 62"
  unfolding ur_nref_tag_def unat_drop_bit_eq by (rule drop_bit_eq_div)

lemma ur_nref_tag_less: "ur_nref_tag ref < 4"
proof -
  have "met0 (ur_nref_tag ref) \<le> 2"
  proof (rule ccontr)
    assume "\<not> met0 (ur_nref_tag ref) \<le> 2"
    then have "\<not> ur_nref_tag ref < 2 ^ 2" by (simp only: met0_le_iff not_False_eq_True)
    moreover have "unat ref < 2 ^ 64" using unsigned_less [of ref, where 'a = nat] by simp
    ultimately show False unfolding ur_nref_tag_div by simp
  qed
  then show ?thesis by (simp add: met0_le_iff)
qed

lemma ur_nref_idx_less: "ur_nref_idx ref < 2 ^ 62"
proof -
  have "bit (ur_nref_idx ref) k \<Longrightarrow> k < 62" for k
    by (simp add: ur_nref_idx_def bit_unsigned_iff bit_and_mask)
  then show ?thesis by (rule less_exp_bitI)
qed

lemma nref_of_tag_idx: "nref_of (ur_nref_tag ref) (ur_nref_idx ref) = ref"
proof (rule bit_word_eqI)
  fix n
  assume "n < LENGTH(64)"
  then show "bit (nref_of (ur_nref_tag ref) (ur_nref_idx ref)) n = bit ref n"
    unfolding nref_of_bit [OF ur_nref_tag_less ur_nref_idx_less]
    by (auto simp: ur_nref_tag_def ur_nref_idx_def bit_unsigned_iff bit_and_mask bit_drop_bit_eq)
qed

lemma nref_eqI: "ur_nref_tag a = ur_nref_tag b \<Longrightarrow> ur_nref_idx a = ur_nref_idx b \<Longrightarrow> a = b"
  by (metis nref_of_tag_idx)

lemma direct_value: "ur_nref_tag ref = ur_direct \<longleftrightarrow> unat ref < 2 ^ 62"
  unfolding ur_nref_tag_div ur_direct_def by (simp add: div_eq_0_iff)

lemmas tag_defs = ur_direct_def ur_iatom_def ur_icell_def

section \<open>Mugs\<close>

text \<open>A mug is a non-zero number of 31 bits.\<close>

lemma mug_loop_range:
  assumes "dflt \<noteq> 0" "unat dflt < 2 ^ 31"
  shows "mug_loop n hash seed dflt \<noteq> 0 \<and> unat (mug_loop n hash seed dflt) < 2 ^ 31"
proof (induction n arbitrary: seed)
  case 0
  then show ?case using assms by simp
next
  case (Suc n)
  let ?mug = "drop_bit 31 (hash seed) XOR (hash seed AND mask 31)"
  have "bit ?mug k \<Longrightarrow> k < 31" for k
    using bit_imp_le_length [of "hash seed" "31 + k"] by (auto simp: bit_simps)
  then have "unat ?mug < 2 ^ 31"
    by (intro less_exp_bitI) (simp add: bit_unsigned_iff)
  then show ?case using Suc by (simp add: Let_def)
qed

lemma le_load_cong: "(\<And>i. i < n \<Longrightarrow> a ! i = b ! i) \<Longrightarrow> le_load n a = le_load n b"
  by (induction n) auto

lemma fold_cong_upt: "(\<And>i x. i < n \<Longrightarrow> f i x = g i x) \<Longrightarrow> fold f [0..<n] x = fold g [0..<n] x"
  by (rule List.fold_cong) auto

lemma MurmurHash3_take:
  assumes "len \<le> length byt"
  shows "MurmurHash3_x86_32 (take len byt) len seed = MurmurHash3_x86_32 byt len seed"
proof -
  have block: "le_load 4 (drop (4 * i) (take len byt)) = (le_load 4 (drop (4 * i) byt) :: u32)"
    if "i < len div 4" for i
    using that assms by (intro le_load_cong) simp
  have tail: "drop (4 * (len div 4)) (take len byt) ! k = drop (4 * (len div 4)) byt ! k"
    if "k < len mod 4" for k
  proof -
    have "4 * (len div 4) + k < len" using that mult_div_mod_eq [of 4 len] by linarith
    then show ?thesis using assms by simp
  qed
  show ?thesis
    unfolding MurmurHash3_x86_32_def Let_def
    by (simp add: tail block cong: fold_cong_upt if_cong)
qed

lemma ur_mug_bytes_take:
  assumes "len \<le> length byt"
  shows "ur_mug_bytes (take len byt) len = ur_mug_bytes byt len"
proof -
  have "MurmurHash3_x86_32 (take len byt) len = MurmurHash3_x86_32 byt len"
    using MurmurHash3_take [OF assms] by blast
  then show ?thesis by (simp add: ur_mug_bytes_def)
qed

section \<open>The invariant of a root\<close>

text \<open>
  The bytes of an atom, and what a well-formed root is: every entry is in its dictionary
  under its mug, the children of a cell are older than it, and no two entries are equal.
\<close>

definition at_content :: "ur_atoms \<Rightarrow> nat \<Rightarrow> u8 list" where
  "at_content a i = take (at_lens a ! i) (at_bytes a ! i)"

definition ref_below :: "ur_root \<Rightarrow> nat \<Rightarrow> nref \<Rightarrow> bool" where
  "ref_below r n ref \<longleftrightarrow>
     ur_nref_tag ref = ur_direct \<or>
     ur_nref_tag ref = ur_iatom \<and> ur_nref_idx ref < at_fill (atoms r) \<or>
     ur_nref_tag ref = ur_icell \<and> ur_nref_idx ref < n"

definition root_ref :: "ur_root \<Rightarrow> nref \<Rightarrow> bool" where
  "root_ref r ref \<longleftrightarrow> ref_below r (ce_fill (cells r)) ref"

definition atoms_wf :: "ur_root \<Rightarrow> bool" where
  "atoms_wf r \<longleftrightarrow> (let a = atoms r in
     length (at_mugs a) = at_fill a \<and> length (at_lens a) = at_fill a \<and> at_fill a \<le> 2 ^ 62 \<and>
     dict_wf (ur_nref_mug r) (at_dict a) \<and>
     dom (dict_map (at_dict a)) = nref_of ur_iatom ` {..<at_fill a} \<and>
     (\<forall>i < at_fill a. at_lens a ! i \<le> length (at_bytes a ! i) \<and>
        at_mugs a ! i = ur_mug_bytes (at_bytes a ! i) (at_lens a ! i)) \<and>
     inj_on (at_content a) {..<at_fill a})"

definition cells_wf :: "ur_root \<Rightarrow> bool" where
  "cells_wf r \<longleftrightarrow> (let c = cells r in
     length (ce_mugs c) = ce_fill c \<and> length (ce_tails c) = ce_fill c \<and> ce_fill c \<le> 2 ^ 62 \<and>
     dict_wf (ur_nref_mug r) (ce_dict c) \<and>
     dom (dict_map (ce_dict c)) = nref_of ur_icell ` {..<ce_fill c} \<and>
     (\<forall>i < ce_fill c. ref_below r i (ce_heads c ! i) \<and> ref_below r i (ce_tails c ! i) \<and>
        (\<exists>hm tm. ur_nref_mug r (ce_heads c ! i) = Some hm \<and>
                 ur_nref_mug r (ce_tails c ! i) = Some tm \<and> ce_mugs c ! i = ur_mug_both hm tm)) \<and>
     inj_on (\<lambda>i. (ce_heads c ! i, ce_tails c ! i)) {..<ce_fill c})"

definition root_wf :: "ur_root \<Rightarrow> bool" where
  "root_wf r \<longleftrightarrow> atoms_wf r \<and> cells_wf r"

lemma atoms_wfD:
  assumes "atoms_wf r"
  shows "length (at_mugs (atoms r)) = at_fill (atoms r)" "length (at_lens (atoms r)) = at_fill (atoms r)"
    "at_fill (atoms r) \<le> 2 ^ 62" "dict_wf (ur_nref_mug r) (at_dict (atoms r))"
    "dom (dict_map (at_dict (atoms r))) = nref_of ur_iatom ` {..<at_fill (atoms r)}"
    "\<And>i. i < at_fill (atoms r) \<Longrightarrow> at_lens (atoms r) ! i \<le> length (at_bytes (atoms r) ! i)"
    "\<And>i. i < at_fill (atoms r) \<Longrightarrow>
      at_mugs (atoms r) ! i = ur_mug_bytes (at_bytes (atoms r) ! i) (at_lens (atoms r) ! i)"
    "inj_on (at_content (atoms r)) {..<at_fill (atoms r)}"
  using assms by (simp_all add: atoms_wf_def Let_def)

lemma cells_wfD:
  assumes "cells_wf r"
  shows "length (ce_mugs (cells r)) = ce_fill (cells r)" "length (ce_tails (cells r)) = ce_fill (cells r)"
    "ce_fill (cells r) \<le> 2 ^ 62" "dict_wf (ur_nref_mug r) (ce_dict (cells r))"
    "dom (dict_map (ce_dict (cells r))) = nref_of ur_icell ` {..<ce_fill (cells r)}"
    "\<And>i. i < ce_fill (cells r) \<Longrightarrow> ref_below r i (ce_heads (cells r) ! i)"
    "\<And>i. i < ce_fill (cells r) \<Longrightarrow> ref_below r i (ce_tails (cells r) ! i)"
    "\<And>i. i < ce_fill (cells r) \<Longrightarrow> \<exists>hm tm. ur_nref_mug r (ce_heads (cells r) ! i) = Some hm \<and>
       ur_nref_mug r (ce_tails (cells r) ! i) = Some tm \<and> ce_mugs (cells r) ! i = ur_mug_both hm tm"
    "inj_on (\<lambda>i. (ce_heads (cells r) ! i, ce_tails (cells r) ! i)) {..<ce_fill (cells r)}"
  using assms by (simp_all add: cells_wf_def Let_def)

section \<open>A root only grows\<close>

definition root_ext :: "ur_root \<Rightarrow> ur_root \<Rightarrow> bool" where
  "root_ext r r' \<longleftrightarrow>
     prefix (at_bytes (atoms r)) (at_bytes (atoms r')) \<and>
     prefix (at_lens (atoms r)) (at_lens (atoms r')) \<and>
     prefix (at_mugs (atoms r)) (at_mugs (atoms r')) \<and>
     prefix (ce_heads (cells r)) (ce_heads (cells r')) \<and>
     prefix (ce_tails (cells r)) (ce_tails (cells r')) \<and>
     prefix (ce_mugs (cells r)) (ce_mugs (cells r'))"

lemma root_ext_refl [simp]: "root_ext r r"
  by (simp add: root_ext_def)

lemma root_ext_trans: "root_ext a b \<Longrightarrow> root_ext b c \<Longrightarrow> root_ext a c"
  by (auto simp: root_ext_def intro: prefix_order.trans)

lemma at_index_prefix: "prefix xs ys \<Longrightarrow> at_index xs i = Some x \<Longrightarrow> at_index ys i = Some x"
  by (auto simp: at_index_def prefix_def nth_append split: if_splits)

lemma at_index_Some: "i < length xs \<Longrightarrow> at_index xs i = Some (xs ! i)"
  by (simp add: at_index_def)

lemma root_ext_fill:
  assumes "root_ext r r'"
  shows "at_fill (atoms r) \<le> at_fill (atoms r')" "ce_fill (cells r) \<le> ce_fill (cells r')"
  using assms by (auto simp: root_ext_def at_fill_def ce_fill_def dest: prefix_length_le)

lemma root_ext_mug: "root_ext r r' \<Longrightarrow> ur_nref_mug r \<subseteq>\<^sub>m ur_nref_mug r'"
  unfolding map_le_def dom_def
  by (auto simp: ur_nref_mug_def Let_def root_ext_def dest: at_index_prefix)

lemma root_ext_mugD: "root_ext r r' \<Longrightarrow> ur_nref_mug r k = Some m \<Longrightarrow> ur_nref_mug r' k = Some m"
  using root_ext_mug [of r r'] by (auto simp: map_le_def dom_def)

lemma ref_below_ext: "root_ext r r' \<Longrightarrow> ref_below r n ref \<Longrightarrow> ref_below r' n ref"
  using root_ext_fill(1) [of r r'] by (auto simp: ref_below_def)

lemma ref_below_mono: "ref_below r n ref \<Longrightarrow> n \<le> m \<Longrightarrow> ref_below r m ref"
  by (auto simp: ref_below_def)

lemma root_ref_ext: "root_ext r r' \<Longrightarrow> root_ref r ref \<Longrightarrow> root_ref r' ref"
  unfolding root_ref_def
  by (meson ref_below_ext ref_below_mono root_ext_fill(2))

lemma root_ref_mug:
  assumes "root_wf r" "root_ref r ref"
  shows "ur_nref_mug r ref \<noteq> None"
  using assms atoms_wfD(1) [of r] cells_wfD(1) [of r]
  by (auto simp: root_wf_def root_ref_def ref_below_def ur_nref_mug_def Let_def at_index_def tag_defs)

section \<open>Dictionaries of the root\<close>

lemma dict_push_spec:
  assumes wf: "dict_wf mugf d" and m: "mugf ref = Some m" and new: "ref \<notin> dom (dict_map d)"
    and room: "length (dict_buckets d ! (unat m mod dict_size d)) \<noteq> ur_pail_max"
  shows "dict_wf mugf (dict_push d (unat m mod dict_size d) ref)"
    "dict_map (dict_push d (unat m mod dict_size d) ref) = (dict_map d)(ref \<mapsto> ())"
proof -
  note o = dict_wfD [OF wf]
  let ?i = "unat m mod dict_size d"
  let ?b = "dict_buckets d ! ?i"
  have il: "?i < dict_size d" using o(2) by simp
  have none: "map_of ?b ref = None" using new dict_map_bucket [OF wf m] by auto
  then have notin: "ref \<notin> fst ` set ?b" by (simp add: map_of_eq_None_iff)
  have "map_of (?b @ [(ref, ())]) = (map_of ?b)(ref \<mapsto> ())"
    using none by (auto simp: map_add_def split: option.splits)
  moreover have "length ?b < ur_pail_max" using o(4) [OF il] room by simp
  ultimately show "dict_wf mugf (dict_push d ?i ref)"
    "dict_map (dict_push d ?i ref) = (dict_map d)(ref \<mapsto> ())"
    using dict_map_update_bucket [OF wf m refl, of "?b @ [(ref, ())]" "()" "dict_push d ?i ref"]
      o(5) [OF il] notin by (auto simp: dict_push_def)
qed

lemma bucket_keys:
  assumes "dict_wf mugf d" "i < dict_size d" "k \<in> set (map fst (dict_buckets d ! i))"
  shows "k \<in> dom (dict_map d)"
proof -
  have "dict_buckets d ! i \<in> set (dict_buckets d)" using assms(2) dict_wfD(3) [OF assms(1)] by simp
  then show ?thesis unfolding dict_map_dom set_concat using assms(3) by auto
qed

lemma key_in_bucket:
  assumes "dict_wf mugf d" "k \<in> dom (dict_map d)" "mugf k = Some m"
  shows "k \<in> set (map fst (dict_buckets d ! (unat m mod dict_size d)))"
  using assms(2) unfolding domIff dict_map_bucket [OF assms(1,3)] by (simp add: map_of_eq_None_iff)

section \<open>Atoms are stored once\<close>

lemma cells_wf_ext:
  assumes wf: "cells_wf r" and ext: "root_ext r r'" and same: "cells r' = cells r"
  shows "cells_wf r'"
proof -
  note o = cells_wfD [OF wf]
  have "dict_wf (ur_nref_mug r') (ce_dict (cells r))"
    by (rule dict_wf_mono [OF o(4) root_ext_mug [OF ext]])
  moreover have "ref_below r' i (ce_heads (cells r) ! i)" "ref_below r' i (ce_tails (cells r) ! i)"
    if "i < ce_fill (cells r)" for i
    using ref_below_ext [OF ext] o(6,7) that by blast+
  moreover have "\<exists>hm tm. ur_nref_mug r' (ce_heads (cells r) ! i) = Some hm \<and>
      ur_nref_mug r' (ce_tails (cells r) ! i) = Some tm \<and> ce_mugs (cells r) ! i = ur_mug_both hm tm"
    if "i < ce_fill (cells r)" for i
    using o(8) [OF that] root_ext_mugD [OF ext] by blast
  ultimately show ?thesis using o by (simp add: cells_wf_def Let_def same)
qed

lemma atoms_wf_ext:
  assumes wf: "atoms_wf r" and ext: "root_ext r r'" and same: "atoms r' = atoms r"
  shows "atoms_wf r'"
proof -
  note o = atoms_wfD [OF wf]
  have "dict_wf (ur_nref_mug r') (at_dict (atoms r))"
    by (rule dict_wf_mono [OF o(4) root_ext_mug [OF ext]])
  then show ?thesis using o by (simp add: atoms_wf_def Let_def same)
qed

lemma iatom_lookup:
  assumes "atoms_wf r" "i < at_fill (atoms r)"
  shows "ur_nref_tag (nref_of ur_iatom i) = ur_iatom" "ur_nref_idx (nref_of ur_iatom i) = i"
    "ur_bytes r (nref_of ur_iatom i) = Some (at_bytes (atoms r) ! i, at_lens (atoms r) ! i)"
    "ur_nref_mug r (nref_of ur_iatom i) = Some (at_mugs (atoms r) ! i)"
proof -
  have "i < 2 ^ 62" using assms(2) atoms_wfD(3) [OF assms(1)] by simp
  then show t: "ur_nref_tag (nref_of ur_iatom i) = ur_iatom" "ur_nref_idx (nref_of ur_iatom i) = i"
    using nref_of_inverse [of ur_iatom i] by (simp_all add: tag_defs)
  show "ur_bytes r (nref_of ur_iatom i) = Some (at_bytes (atoms r) ! i, at_lens (atoms r) ! i)"
    "ur_nref_mug r (nref_of ur_iatom i) = Some (at_mugs (atoms r) ! i)"
    using t assms atoms_wfD(1,2) [OF assms(1)]
    by (auto simp: ur_bytes_def ur_deep_def tag_defs at_index_def at_fill_def ur_nref_mug_def Let_def)
qed

lemma find_atom_spec:
  assumes wf: "atoms_wf r" and len: "len \<le> length byt"
    and refs: "set refs \<subseteq> nref_of ur_iatom ` {..<at_fill (atoms r)}"
  shows "find_atom r len byt refs =
    Some (find (\<lambda>t. at_content (atoms r) (ur_nref_idx t) = take len byt) refs)"
  using refs
proof (induction refs)
  case Nil
  then show ?case by simp
next
  case (Cons t ts)
  then obtain i where i: "t = nref_of ur_iatom i" "i < at_fill (atoms r)" by auto
  note l = iatom_lookup [OF wf i(2)] and o = atoms_wfD(6) [OF wf i(2)]
  have "at_lens (atoms r) ! i = len \<and> take len (at_bytes (atoms r) ! i) = take len byt \<longleftrightarrow>
      at_content (atoms r) i = take len byt"
  proof
    assume eq: "at_content (atoms r) i = take len byt"
    then have "length (at_content (atoms r) i) = length (take len byt)" by (rule arg_cong)
    then have l: "at_lens (atoms r) ! i = len" unfolding at_content_def using o len by simp
    then show "at_lens (atoms r) ! i = len \<and> take len (at_bytes (atoms r) ! i) = take len byt"
      using eq l by (simp add: at_content_def)
  qed (auto simp: at_content_def)
  then show ?case using Cons i l by simp
qed

lemma content_mug:
  assumes wf: "atoms_wf r" and i: "i < at_fill (atoms r)" and len: "len \<le> length byt"
    and eq: "at_content (atoms r) i = take len byt"
  shows "ur_nref_mug r (nref_of ur_iatom i) = Some (ur_mug_bytes byt len)"
proof -
  note o = atoms_wfD(6,7) [OF wf i]
  have l: "at_lens (atoms r) ! i = len"
    using arg_cong [OF eq, of length] o(1) len by (simp add: at_content_def)
  have "at_mugs (atoms r) ! i = ur_mug_bytes (at_content (atoms r) i) len"
    using o l by (simp add: at_content_def ur_mug_bytes_take)
  also have "\<dots> = ur_mug_bytes byt len" using eq len by (simp add: ur_mug_bytes_take)
  finally show ?thesis using iatom_lookup(4) [OF wf i] by simp
qed

definition coin_post :: "ur_root \<Rightarrow> nat \<Rightarrow> u8 list \<Rightarrow> nref \<Rightarrow> ur_root \<Rightarrow> bool" where
  "coin_post r len byt ref r' \<longleftrightarrow>
     root_wf r' \<and> root_ext r r' \<and>
     ce_heads (cells r') = ce_heads (cells r) \<and> ce_tails (cells r') = ce_tails (cells r) \<and>
     (\<exists>i < at_fill (atoms r'). ref = nref_of ur_iatom i \<and> at_content (atoms r') i = take len byt) \<and>
     (\<forall>j < at_fill (atoms r'). j < at_fill (atoms r) \<or> at_content (atoms r') j = take len byt)"

lemma regrow_atoms:
  assumes wf: "root_wf r" and g: "ur_dict_grow (ur_nref_mug r) (at_dict (atoms r)) p s = Some d'" and "0 < s"
  shows "root_wf (r\<lparr>atoms := (atoms r)\<lparr>at_dict := d'\<rparr>\<rparr>)"
    "root_ext r (r\<lparr>atoms := (atoms r)\<lparr>at_dict := d'\<rparr>\<rparr>)"
    "ur_nref_mug (r\<lparr>atoms := (atoms r)\<lparr>at_dict := d'\<rparr>\<rparr>) = ur_nref_mug r"
proof -
  let ?r = "r\<lparr>atoms := (atoms r)\<lparr>at_dict := d'\<rparr>\<rparr>"
  show mug: "ur_nref_mug ?r = ur_nref_mug r"
    by (rule ext) (simp add: ur_nref_mug_def Let_def cong: if_cong)
  show extd: "root_ext r ?r" by (simp add: root_ext_def)
  have a: "atoms_wf r" "cells_wf r" using wf by (simp_all add: root_wf_def)
  note o = atoms_wfD [OF a(1)]
  have "dict_wf (ur_nref_mug r) d' \<and> dict_map d' = dict_map (at_dict (atoms r))"
    using dict_grow_spec [OF _ dict_wf_entries [OF o(4)] \<open>0 < s\<close>] g by (simp add: ur_dict_grow_def)
  moreover have "at_content ((atoms r)\<lparr>at_dict := d'\<rparr>) = at_content (atoms r)"
    by (rule ext) (simp add: at_content_def)
  ultimately have "atoms_wf ?r"
    using o mug by (simp add: atoms_wf_def Let_def at_fill_def)
  moreover have "cells_wf ?r" by (rule cells_wf_ext [OF a(2) extd]) simp
  ultimately show "root_wf ?r" by (simp add: root_wf_def)
qed

lemma coin_new:
  assumes wf: "root_wf r" and len: "len \<le> length byt" and fill: "at_fill (atoms r) < 2 ^ 62"
    and new: "\<forall>i < at_fill (atoms r). at_content (atoms r) i \<noteq> take len byt"
    and room: "length (dict_buckets (at_dict (atoms r)) !
        (unat (ur_mug_bytes byt len) mod dict_size (at_dict (atoms r)))) \<noteq> ur_pail_max"
    and r': "r' = r\<lparr>atoms := (atoms r)\<lparr>at_prev := p, at_size := s,
        at_bytes := at_bytes (atoms r) @ [byt], at_lens := at_lens (atoms r) @ [len],
        at_mugs := at_mugs (atoms r) @ [ur_mug_bytes byt len],
        at_dict := dict_push (at_dict (atoms r))
          (unat (ur_mug_bytes byt len) mod dict_size (at_dict (atoms r)))
          (nref_of ur_iatom (at_fill (atoms r)))\<rparr>\<rparr>"
  shows "coin_post r len byt (nref_of ur_iatom (at_fill (atoms r))) r'"
proof -
  let ?n = "at_fill (atoms r)" and ?m = "ur_mug_bytes byt len"
  let ?ref = "nref_of ur_iatom ?n"
  have a: "atoms_wf r" "cells_wf r" using wf by (simp_all add: root_wf_def)
  note o = atoms_wfD [OF a(1)]
  have tag: "ur_nref_tag ?ref = ur_iatom" "ur_nref_idx ?ref = ?n"
    using nref_of_inverse [of ur_iatom ?n] fill by (simp_all add: tag_defs)
  have n': "at_fill (atoms r') = Suc ?n" by (simp add: r' at_fill_def)
  have ext: "root_ext r r'" by (simp add: root_ext_def r')
  have mug: "ur_nref_mug r' ?ref = Some ?m"
    using tag o(1) by (simp add: ur_nref_mug_def Let_def tag_defs at_index_def r' nth_append)
  have fresh: "?ref \<notin> dom (dict_map (at_dict (atoms r)))"
  proof
    assume "?ref \<in> dom (dict_map (at_dict (atoms r)))"
    then obtain i where "i < ?n" "?ref = nref_of ur_iatom i" unfolding o(5) by auto
    then show False using iatom_lookup(2) [OF a(1), of i] tag(2) by simp
  qed
  note push = dict_push_spec [OF dict_wf_mono [OF o(4) root_ext_mug [OF ext]] mug fresh room]
  have content: "at_content (atoms r') i = (if i = ?n then take len byt else at_content (atoms r) i)"
    if "i < Suc ?n" for i
    using that o(2) by (auto simp: at_content_def r' nth_append at_fill_def)
  have "inj_on (at_content (atoms r')) {..<Suc ?n}"
  proof (rule inj_onI)
    fix i j
    assume "i \<in> {..<Suc ?n}" "j \<in> {..<Suc ?n}" "at_content (atoms r') i = at_content (atoms r') j"
    then show "i = j" using content [of i] content [of j] new inj_onD [OF o(8), of i j]
      by (cases "i = ?n"; cases "j = ?n") (auto simp: less_Suc_eq dest: sym)
  qed
  moreover have "dom (dict_map (at_dict (atoms r'))) = nref_of ur_iatom ` {..<Suc ?n}"
    using push(2) o(5) by (simp add: r' lessThan_Suc)
  moreover have "dict_wf (ur_nref_mug r') (at_dict (atoms r'))" using push(1) by (simp add: r')
  moreover have "at_lens (atoms r') ! i \<le> length (at_bytes (atoms r') ! i) \<and>
      at_mugs (atoms r') ! i = ur_mug_bytes (at_bytes (atoms r') ! i) (at_lens (atoms r') ! i)"
    if "i < Suc ?n" for i
    using that o(1,2) o(6,7) [of i] len
    by (cases "i = ?n") (auto simp: r' nth_append at_fill_def)
  ultimately have "atoms_wf r'"
    using n' o(1-3) fill by (simp add: atoms_wf_def Let_def) (simp add: r')
  moreover have "cells_wf r'" by (rule cells_wf_ext [OF a(2) ext]) (simp add: r')
  ultimately show ?thesis
    using ext content n' by (auto simp: coin_post_def root_wf_def r')
qed

lemma coin_bytes_absent:
  assumes wf: "atoms_wf r" and len: "len \<le> length byt"
    and none: "find (\<lambda>t. at_content (atoms r) (ur_nref_idx t) = take len byt)
        (map fst (dict_buckets (at_dict (atoms r)) !
           (unat (ur_mug_bytes byt len) mod dict_size (at_dict (atoms r))))) = None"
    and i: "i < at_fill (atoms r)"
  shows "at_content (atoms r) i \<noteq> take len byt"
proof
  assume eq: "at_content (atoms r) i = take len byt"
  note o = atoms_wfD [OF wf]
  have "nref_of ur_iatom i \<in> dom (dict_map (at_dict (atoms r)))" using o(5) i by simp
  then have "nref_of ur_iatom i \<in> set (map fst (dict_buckets (at_dict (atoms r)) !
      (unat (ur_mug_bytes byt len) mod dict_size (at_dict (atoms r)))))"
    by (rule key_in_bucket [OF o(4) _ content_mug [OF wf i len eq]])
  then show False using none eq iatom_lookup(2) [OF wf i] by (auto simp: find_None_iff)
qed

lemma atom_bucket_refs:
  assumes "atoms_wf r"
  shows "set (map fst (dict_buckets (at_dict (atoms r)) ! (m mod dict_size (at_dict (atoms r)))))
    \<subseteq> nref_of ur_iatom ` {..<at_fill (atoms r)}"
proof
  note o = atoms_wfD [OF assms]
  fix k
  assume k: "k \<in> set (map fst (dict_buckets (at_dict (atoms r)) ! (m mod dict_size (at_dict (atoms r)))))"
  have "k \<in> dom (dict_map (at_dict (atoms r)))"
    by (rule bucket_keys [OF o(4) _ k]) (use dict_wfD(2) [OF o(4)] in simp)
  then show "k \<in> nref_of ur_iatom ` {..<at_fill (atoms r)}" by (simp only: o(5))
qed

text \<open>What one turn of the loop does: an entry found, a full bucket, or a new entry.\<close>

lemma coin_bytes_cases:
  assumes wf: "root_wf r" and len: "len \<le> length byt"
  obtains (found) i where "i < at_fill (atoms r)" "at_content (atoms r) i = take len byt"
      "ur_coin_bytes_unsafe r len byt = Some (nref_of ur_iatom i, r)"
      "find_atom r len byt (map fst (dict_buckets (at_dict (atoms r)) !
        (unat (ur_mug_bytes byt len) mod dict_size (at_dict (atoms r))))) = Some (Some (nref_of ur_iatom i))"
  | (full) "length (dict_buckets (at_dict (atoms r)) !
        (unat (ur_mug_bytes byt len) mod dict_size (at_dict (atoms r)))) = ur_pail_max"
      "\<forall>i < at_fill (atoms r). at_content (atoms r) i \<noteq> take len byt"
      "ur_coin_bytes_unsafe r len byt =
        do { d' \<leftarrow> ur_dict_grow (ur_nref_mug r) (at_dict (atoms r)) (dict_prev (at_dict (atoms r)))
               (dict_size (at_dict (atoms r)));
             ur_coin_bytes_unsafe (r\<lparr>atoms := (atoms r)\<lparr>at_dict := d'\<rparr>\<rparr>) len byt }"
      "find_atom r len byt (map fst (dict_buckets (at_dict (atoms r)) !
        (unat (ur_mug_bytes byt len) mod dict_size (at_dict (atoms r))))) = Some None"
  | (new) r' where "coin_post r len byt (nref_of ur_iatom (at_fill (atoms r))) r'"
      "at_fill (atoms r) < 2 ^ 62"
      "ur_coin_bytes_unsafe r len byt = Some (nref_of ur_iatom (at_fill (atoms r)), r')"
      "find_atom r len byt (map fst (dict_buckets (at_dict (atoms r)) !
        (unat (ur_mug_bytes byt len) mod dict_size (at_dict (atoms r))))) = Some None"
      "length (dict_buckets (at_dict (atoms r)) !
        (unat (ur_mug_bytes byt len) mod dict_size (at_dict (atoms r)))) \<noteq> ur_pail_max"
  | (overflow) "at_fill (atoms r) = 2 ^ 62" "ur_coin_bytes_unsafe r len byt = None"
      "find_atom r len byt (map fst (dict_buckets (at_dict (atoms r)) !
        (unat (ur_mug_bytes byt len) mod dict_size (at_dict (atoms r))))) = Some None"
      "length (dict_buckets (at_dict (atoms r)) !
        (unat (ur_mug_bytes byt len) mod dict_size (at_dict (atoms r)))) \<noteq> ur_pail_max"
proof -
  have a: "atoms_wf r" using wf by (simp add: root_wf_def)
  let ?d = "at_dict (atoms r)" and ?m = "ur_mug_bytes byt len"
  let ?b = "map fst (dict_buckets ?d ! (unat ?m mod dict_size ?d))"
  let ?p = "\<lambda>t. at_content (atoms r) (ur_nref_idx t) = take len byt"
  note find = find_atom_spec [OF a len atom_bucket_refs [OF a]]
  show ?thesis
  proof (cases "find ?p ?b")
    case (Some t)
    then have "t \<in> set ?b" "?p t" by (auto simp: find_Some_iff)
    then obtain i where i: "i < at_fill (atoms r)" "t = nref_of ur_iatom i"
      using atom_bucket_refs [OF a] by auto
    then show ?thesis
      using found [of i] Some find \<open>?p t\<close> iatom_lookup(2) [OF a, of i]
      by (simp add: ur_coin_bytes_unsafe.simps Let_def)
  next
    case None
    note absent = coin_bytes_absent [OF a len None]
    show ?thesis
    proof (cases "length ?b = ur_pail_max")
      case True
      moreover have "ur_coin_bytes_unsafe r len byt =
        do { d' \<leftarrow> ur_dict_grow (ur_nref_mug r) ?d (dict_prev ?d) (dict_size ?d);
             ur_coin_bytes_unsafe (r\<lparr>atoms := (atoms r)\<lparr>at_dict := d'\<rparr>\<rparr>) len byt }"
        using True find None by (subst ur_coin_bytes_unsafe.simps) (simp add: Let_def)
      ultimately show ?thesis using full absent find None by simp
    next
      case room: False
      show ?thesis
      proof (cases "at_fill (atoms r) < 2 ^ 62")
        case True
        let ?a = "if at_fill (atoms r) = at_size (atoms r) then ur_atoms_grow (atoms r) else atoms r"
        let ?r' = "r\<lparr>atoms := (atoms r)\<lparr>at_prev := at_prev ?a, at_size := at_size ?a,
          at_bytes := at_bytes (atoms r) @ [byt], at_lens := at_lens (atoms r) @ [len],
          at_mugs := at_mugs (atoms r) @ [?m],
          at_dict := dict_push ?d (unat ?m mod dict_size ?d) (nref_of ur_iatom (at_fill (atoms r)))\<rparr>\<rparr>"
        have "coin_post r len byt (nref_of ur_iatom (at_fill (atoms r))) ?r'"
          by (rule coin_new [OF wf len True _ _ refl]) (use absent room in simp_all)
        moreover have "ur_coin_bytes_unsafe r len byt = Some (nref_of ur_iatom (at_fill (atoms r)), ?r')"
          using find None room True
          by (simp add: ur_coin_bytes_unsafe.simps Let_def coin_unsafe_def met0_le_iff
              ur_atoms_grow_def at_fill_def)
        ultimately show ?thesis using new True find None room by simp
      next
        case False
        then have f: "at_fill (atoms r) = 2 ^ 62" using atoms_wfD(3) [OF a] by simp
        have "ur_coin_bytes_unsafe r len byt = None"
          using find None room False
          by (simp add: ur_coin_bytes_unsafe.simps Let_def coin_unsafe_def met0_le_iff
              ur_atoms_grow_def at_fill_def)
        then show ?thesis using overflow f find None room by simp
      qed
    qed
  qed
qed

lemma coin_post_found:
  assumes "root_wf r" "i < at_fill (atoms r)" "at_content (atoms r) i = take len byt"
  shows "coin_post r len byt (nref_of ur_iatom i) r"
  using assms by (auto simp: coin_post_def)

lemma coin_post_regrow:
  assumes post: "coin_post r1 len byt ref r'" and ext: "root_ext r r1"
    and same: "cells r1 = cells r" "at_bytes (atoms r1) = at_bytes (atoms r)"
  shows "coin_post r len byt ref r'"
  using post root_ext_trans [OF ext] by (auto simp: coin_post_def same at_fill_def)

lemma coin_bytes_spec:
  assumes "ur_coin_bytes_unsafe r len byt = Some (ref, r')" "root_wf r" "len \<le> length byt"
  shows "coin_post r len byt ref r'"
proof -
  have "root_wf r \<Longrightarrow> len \<le> length byt \<Longrightarrow> coin_post r len byt (fst res) (snd res)"
    if "ur_coin_bytes_unsafe r len byt = Some res" for res
    using that
  proof (induction rule: ur_coin_bytes_unsafe.raw_induct [rotated 1, consumes 1, case_names step])
    case (step coin r len byt res)
    have wf: "atoms_wf r" using step.prems by (simp add: root_wf_def)
    from step.prems show ?case
    proof (cases rule: coin_bytes_cases)
      case (found i)
      then have "Some (nref_of ur_iatom i, r) = Some res" using step.hyps by (simp add: Let_def)
      then show ?thesis using coin_post_found [OF step.prems(1) found(1,2)] by auto
    next
      case full
      then obtain d' where g: "ur_dict_grow (ur_nref_mug r) (at_dict (atoms r))
          (dict_prev (at_dict (atoms r))) (dict_size (at_dict (atoms r))) = Some d'"
        and c: "coin (r\<lparr>atoms := (atoms r)\<lparr>at_dict := d'\<rparr>\<rparr>) len byt = Some res"
        using step.hyps by (auto simp: Let_def bind_eq_Some_conv)
      have "0 < dict_size (at_dict (atoms r))" using dict_wfD(2) [OF atoms_wfD(4) [OF wf]] .
      note re = regrow_atoms [OF step.prems(1) g this]
      show ?thesis by (rule coin_post_regrow [OF step.IH [OF c re(1) step.prems(2)] re(2)]) simp_all
    next
      case (new r1)
      have "ur_coin_bytes_unsafe r len byt = Some res"
        using step.hyps new(4,5) by (subst ur_coin_bytes_unsafe.simps) (simp add: Let_def)
      then show ?thesis using new by auto
    next
      case overflow
      have "ur_coin_bytes_unsafe r len byt = Some res"
        using step.hyps overflow(3,4) by (subst ur_coin_bytes_unsafe.simps) (simp add: Let_def)
      then show ?thesis using overflow by simp
    qed
  qed
  then show ?thesis using assms by fastforce
qed

text \<open>
  The loop ends when no mug is shared by more than a bucket's worth of entries.
\<close>

lemma shared_bucket_small:
  assumes wf: "dict_wf mugf d"
    and full: "length (dict_buckets d ! (unat m mod dict_size d)) = ur_pail_max"
    and few: "card {k \<in> dom (dict_map d). mugf k = Some m} < ur_pail_max"
  shows "dict_size d < 2 ^ 32"
proof (rule ccontr)
  assume "\<not> dict_size d < 2 ^ 32"
  then have mod: "unat m mod dict_size d = unat m" for m :: mug
    using unsigned_less [of m, where 'a = nat] by simp
  note o = dict_wfD [OF wf]
  let ?i = "unat m mod dict_size d"
  have i: "?i < dict_size d" using o(2) by simp
  have "mugf (fst e) = Some m" if "e \<in> set (dict_buckets d ! ?i)" for e
    using o(6) [OF i that] unfolding in_bucket_def mod by (auto dest: word_unat_eq_iff [THEN iffD2])
  moreover have "fst e \<in> dom (dict_map d)" if "e \<in> set (dict_buckets d ! ?i)" for e
    by (rule bucket_keys [OF wf i]) (use that in simp)
  ultimately have sub: "set (map fst (dict_buckets d ! ?i)) \<subseteq> {k \<in> dom (dict_map d). mugf k = Some m}"
    unfolding set_map by blast
  have "card (set (map fst (dict_buckets d ! ?i))) = ur_pail_max"
    using distinct_card [OF o(5) [OF i]] full by simp
  moreover have "finite {k \<in> dom (dict_map d). mugf k = Some m}"
    by (simp add: dict_map_dom)
  ultimately show False using card_mono [OF _ sub] few by simp
qed

definition atoms_spread :: "ur_root \<Rightarrow> bool" where
  "atoms_spread r \<longleftrightarrow> mug_spread (ur_nref_mug r) (dom (dict_map (at_dict (atoms r))))"

definition atoms_share :: "ur_root \<Rightarrow> mug \<Rightarrow> nat" where
  "atoms_share r m = card {k \<in> dom (dict_map (at_dict (atoms r))). ur_nref_mug r k = Some m}"

lemma coin_bytes_total:
  assumes "root_wf r" "len \<le> length byt" "at_fill (atoms r) < 2 ^ 62" "atoms_spread r"
    "(\<exists>i < at_fill (atoms r). at_content (atoms r) i = take len byt) \<or>
     atoms_share r (ur_mug_bytes byt len) < ur_pail_max"
  shows "\<exists>ref r'. ur_coin_bytes_unsafe r len byt = Some (ref, r')"
  using assms
proof (induction "2 ^ 32 - dict_size (at_dict (atoms r))" arbitrary: r rule: less_induct)
  case less
  have wf: "atoms_wf r" using less.prems by (simp add: root_wf_def)
  note o = atoms_wfD [OF wf]
  from less.prems(1,2) show ?case
  proof (cases rule: coin_bytes_cases)
    case full
    let ?d = "at_dict (atoms r)"
    have share: "atoms_share r (ur_mug_bytes byt len) < ur_pail_max" using less.prems(5) full(2) by blast
    have small: "dict_size ?d < 2 ^ 32"
      by (rule shared_bucket_small [OF o(4) full(1)]) (use share in \<open>simp add: atoms_share_def\<close>)
    have pos: "0 < dict_prev ?d" "0 < dict_size ?d" using dict_wfD(1,2) [OF o(4)] by simp_all
    obtain d' where g: "ur_dict_grow (ur_nref_mug r) ?d (dict_prev ?d) (dict_size ?d) = Some d'"
      using dict_grow_total [OF dict_wf_entries [OF o(4)] _ pos] less.prems(4)
      unfolding ur_dict_grow_def atoms_spread_def by blast
    note re = regrow_atoms [OF less.prems(1) g pos(2)]
    have d': "dict_map d' = dict_map ?d" "dict_prev ?d + dict_size ?d \<le> dict_size d'"
      using dict_grow_spec [OF _ dict_wf_entries [OF o(4)] pos(2)] g by (simp_all add: ur_dict_grow_def)
    have "\<exists>ref r'. ur_coin_bytes_unsafe (r\<lparr>atoms := (atoms r)\<lparr>at_dict := d'\<rparr>\<rparr>) len byt = Some (ref, r')"
    proof (rule less.hyps)
      show "2 ^ 32 - dict_size (at_dict (atoms (r\<lparr>atoms := (atoms r)\<lparr>at_dict := d'\<rparr>\<rparr>)))
          < 2 ^ 32 - dict_size ?d" using d'(2) pos small by simp
    qed (use re less.prems share d' in \<open>auto simp: atoms_spread_def atoms_share_def at_fill_def\<close>)
    then show ?thesis using full(3) g by simp
  qed (use less.prems(3) in auto)
qed

section \<open>Cells are stored once\<close>

lemma icell_lookup:
  assumes "cells_wf r" "i < ce_fill (cells r)"
  shows "ur_nref_tag (nref_of ur_icell i) = ur_icell" "ur_nref_idx (nref_of ur_icell i) = i"
    "ur_deep (nref_of ur_icell i)"
    "ur_head r (nref_of ur_icell i) = Some (ce_heads (cells r) ! i)"
    "ur_tail r (nref_of ur_icell i) = Some (ce_tails (cells r) ! i)"
    "ur_nref_mug r (nref_of ur_icell i) = Some (ce_mugs (cells r) ! i)"
proof -
  have "i < 2 ^ 62" using assms(2) cells_wfD(3) [OF assms(1)] by simp
  then show t: "ur_nref_tag (nref_of ur_icell i) = ur_icell" "ur_nref_idx (nref_of ur_icell i) = i"
    using nref_of_inverse [of ur_icell i] by (simp_all add: tag_defs)
  then show "ur_deep (nref_of ur_icell i)" by (simp add: ur_deep_def)
  then show "ur_head r (nref_of ur_icell i) = Some (ce_heads (cells r) ! i)"
    "ur_tail r (nref_of ur_icell i) = Some (ce_tails (cells r) ! i)"
    "ur_nref_mug r (nref_of ur_icell i) = Some (ce_mugs (cells r) ! i)"
    using t assms cells_wfD(1,2) [OF assms(1)]
    by (simp_all add: ur_head_def ur_tail_def tag_defs at_index_def ce_fill_def ur_nref_mug_def Let_def)
qed

lemma find_cell_spec:
  assumes wf: "cells_wf r" and refs: "set refs \<subseteq> nref_of ur_icell ` {..<ce_fill (cells r)}"
  shows "find_cell r hed tal refs =
    Some (find (\<lambda>t. ce_heads (cells r) ! ur_nref_idx t = hed \<and> ce_tails (cells r) ! ur_nref_idx t = tal) refs)"
  using refs
proof (induction refs)
  case (Cons t ts)
  then obtain i where "t = nref_of ur_icell i" "i < ce_fill (cells r)" by auto
  then show ?case using Cons icell_lookup [OF wf, of i] by auto
qed simp

definition cons_post :: "ur_root \<Rightarrow> nref \<Rightarrow> nref \<Rightarrow> nref \<Rightarrow> ur_root \<Rightarrow> bool" where
  "cons_post r hed tal ref r' \<longleftrightarrow>
     root_wf r' \<and> root_ext r r' \<and> atoms r' = atoms r \<and>
     (\<exists>i < ce_fill (cells r'). ref = nref_of ur_icell i \<and>
        ce_heads (cells r') ! i = hed \<and> ce_tails (cells r') ! i = tal) \<and>
     (\<forall>j < ce_fill (cells r'). j < ce_fill (cells r) \<or>
        ce_heads (cells r') ! j = hed \<and> ce_tails (cells r') ! j = tal)"

lemma regrow_cells:
  assumes wf: "root_wf r" and g: "ur_dict_grow (ur_nref_mug r) (ce_dict (cells r)) p s = Some d'" and "0 < s"
  shows "root_wf (r\<lparr>cells := (cells r)\<lparr>ce_dict := d'\<rparr>\<rparr>)"
    "root_ext r (r\<lparr>cells := (cells r)\<lparr>ce_dict := d'\<rparr>\<rparr>)"
    "ur_nref_mug (r\<lparr>cells := (cells r)\<lparr>ce_dict := d'\<rparr>\<rparr>) = ur_nref_mug r"
proof -
  let ?r = "r\<lparr>cells := (cells r)\<lparr>ce_dict := d'\<rparr>\<rparr>"
  show mug: "ur_nref_mug ?r = ur_nref_mug r"
    by (rule ext) (simp add: ur_nref_mug_def Let_def cong: if_cong)
  show extd: "root_ext r ?r" by (simp add: root_ext_def)
  have a: "atoms_wf r" "cells_wf r" using wf by (simp_all add: root_wf_def)
  note o = cells_wfD [OF a(2)]
  have below: "ref_below ?r i x \<longleftrightarrow> ref_below r i x" for i x by (simp add: ref_below_def)
  have "dict_wf (ur_nref_mug r) d' \<and> dict_map d' = dict_map (ce_dict (cells r))"
    using dict_grow_spec [OF _ dict_wf_entries [OF o(4)] \<open>0 < s\<close>] g by (simp add: ur_dict_grow_def)
  then have "cells_wf ?r"
    using o mug by (simp add: cells_wf_def Let_def ce_fill_def below)
  moreover have "atoms_wf ?r" by (rule atoms_wf_ext [OF a(1) extd]) simp
  ultimately show "root_wf ?r" by (simp add: root_wf_def)
qed

lemma cons_new:
  assumes wf: "root_wf r" and h: "root_ref r hed" "ur_nref_mug r hed = Some hm"
    and t: "root_ref r tal" "ur_nref_mug r tal = Some tm" and fill: "ce_fill (cells r) < 2 ^ 62"
    and new: "\<forall>i < ce_fill (cells r). \<not> (ce_heads (cells r) ! i = hed \<and> ce_tails (cells r) ! i = tal)"
    and room: "length (dict_buckets (ce_dict (cells r)) !
        (unat (ur_mug_both hm tm) mod dict_size (ce_dict (cells r)))) \<noteq> ur_pail_max"
    and r': "r' = r\<lparr>cells := (cells r)\<lparr>ce_prev := p, ce_size := s,
        ce_mugs := ce_mugs (cells r) @ [ur_mug_both hm tm], ce_heads := ce_heads (cells r) @ [hed],
        ce_tails := ce_tails (cells r) @ [tal],
        ce_dict := dict_push (ce_dict (cells r))
          (unat (ur_mug_both hm tm) mod dict_size (ce_dict (cells r)))
          (nref_of ur_icell (ce_fill (cells r)))\<rparr>\<rparr>"
  shows "cons_post r hed tal (nref_of ur_icell (ce_fill (cells r))) r'"
proof -
  let ?n = "ce_fill (cells r)" and ?m = "ur_mug_both hm tm"
  let ?ref = "nref_of ur_icell ?n"
  have a: "atoms_wf r" "cells_wf r" using wf by (simp_all add: root_wf_def)
  note o = cells_wfD [OF a(2)]
  have tag: "ur_nref_tag ?ref = ur_icell" "ur_nref_idx ?ref = ?n"
    using nref_of_inverse [of ur_icell ?n] fill by (simp_all add: tag_defs)
  have n': "ce_fill (cells r') = Suc ?n" by (simp add: r' ce_fill_def)
  have extd: "root_ext r r'" by (simp add: root_ext_def r')
  note mugD = root_ext_mugD [OF extd]
  have mug: "ur_nref_mug r' ?ref = Some ?m"
    using tag o(1) by (simp add: ur_nref_mug_def Let_def tag_defs at_index_def r' nth_append)
  have fresh: "?ref \<notin> dom (dict_map (ce_dict (cells r)))"
  proof
    assume "?ref \<in> dom (dict_map (ce_dict (cells r)))"
    then obtain i where "i < ?n" "?ref = nref_of ur_icell i" unfolding o(5) by auto
    then show False using icell_lookup(2) [OF a(2), of i] tag(2) by simp
  qed
  note push = dict_push_spec [OF dict_wf_mono [OF o(4) root_ext_mug [OF extd]] mug fresh room]
  have entry: "ce_heads (cells r') ! i = (if i = ?n then hed else ce_heads (cells r) ! i)"
    "ce_tails (cells r') ! i = (if i = ?n then tal else ce_tails (cells r) ! i)"
    "ce_mugs (cells r') ! i = (if i = ?n then ?m else ce_mugs (cells r) ! i)"
    if "i < Suc ?n" for i
    using that o(1,2) by (auto simp: r' nth_append ce_fill_def)
  have inj: "inj_on (\<lambda>i. (ce_heads (cells r') ! i, ce_tails (cells r') ! i)) {..<Suc ?n}"
  proof (rule inj_onI)
    fix i j
    assume "i \<in> {..<Suc ?n}" "j \<in> {..<Suc ?n}"
      "(ce_heads (cells r') ! i, ce_tails (cells r') ! i) = (ce_heads (cells r') ! j, ce_tails (cells r') ! j)"
    then show "i = j" using entry(1,2) [of i] entry(1,2) [of j] new inj_onD [OF o(9), of i j]
      by (cases "i = ?n"; cases "j = ?n") (auto simp: less_Suc_eq dest: sym)
  qed
  have child: "ref_below r' i (ce_heads (cells r') ! i) \<and> ref_below r' i (ce_tails (cells r') ! i) \<and>
      (\<exists>hm tm. ur_nref_mug r' (ce_heads (cells r') ! i) = Some hm \<and>
        ur_nref_mug r' (ce_tails (cells r') ! i) = Some tm \<and> ce_mugs (cells r') ! i = ur_mug_both hm tm)"
    if i: "i < Suc ?n" for i
  proof (cases "i = ?n")
    case True
    then show ?thesis
      using entry [OF i] ref_below_ext [OF extd] mugD [OF h(2)] mugD [OF t(2)] h(1) t(1)
      by (auto simp: root_ref_def)
  next
    case False
    then have j: "i < ?n" using i by simp
    then show ?thesis
      using entry [OF i] False ref_below_ext [OF extd o(6) [OF j]] ref_below_ext [OF extd o(7) [OF j]]
        o(8) [OF j] mugD by auto
  qed
  have "dom (dict_map (ce_dict (cells r'))) = nref_of ur_icell ` {..<Suc ?n}"
    using push(2) o(5) by (simp add: r' lessThan_Suc)
  moreover have "dict_wf (ur_nref_mug r') (ce_dict (cells r'))" using push(1) by (simp add: r')
  moreover have "length (ce_mugs (cells r')) = Suc ?n" "length (ce_tails (cells r')) = Suc ?n"
    using o(1,2) by (simp_all add: r')
  ultimately have "cells_wf r'"
    using n' fill inj child by (simp add: cells_wf_def Let_def)
  moreover have "atoms_wf r'" by (rule atoms_wf_ext [OF a(1) extd]) (simp add: r')
  ultimately show ?thesis
    using extd entry n' by (auto simp: cons_post_def root_wf_def r' less_Suc_eq)
qed

abbreviation cell_bucket :: "ur_root \<Rightarrow> mug \<Rightarrow> (nref \<times> unit) list" where
  "cell_bucket r m \<equiv> dict_buckets (ce_dict (cells r)) ! (unat m mod dict_size (ce_dict (cells r)))"

lemma cons_absent:
  assumes wf: "cells_wf r" and m: "ur_nref_mug r hed = Some hm" "ur_nref_mug r tal = Some tm"
    and none: "find (\<lambda>t. ce_heads (cells r) ! ur_nref_idx t = hed \<and> ce_tails (cells r) ! ur_nref_idx t = tal)
        (map fst (cell_bucket r (ur_mug_both hm tm))) = None"
    and i: "i < ce_fill (cells r)"
  shows "\<not> (ce_heads (cells r) ! i = hed \<and> ce_tails (cells r) ! i = tal)"
proof
  assume eq: "ce_heads (cells r) ! i = hed \<and> ce_tails (cells r) ! i = tal"
  note o = cells_wfD [OF wf]
  have "ce_mugs (cells r) ! i = ur_mug_both hm tm" using o(8) [OF i] eq m by auto
  then have mug: "ur_nref_mug r (nref_of ur_icell i) = Some (ur_mug_both hm tm)"
    using icell_lookup(6) [OF wf i] by simp
  have "nref_of ur_icell i \<in> dom (dict_map (ce_dict (cells r)))" using o(5) i by simp
  then have "nref_of ur_icell i \<in> set (map fst (cell_bucket r (ur_mug_both hm tm)))"
    by (rule key_in_bucket [OF o(4) _ mug])
  then show False using none eq icell_lookup(2) [OF wf i] by (auto simp: find_None_iff)
qed

lemma cell_bucket_refs:
  assumes "cells_wf r"
  shows "set (map fst (cell_bucket r m)) \<subseteq> nref_of ur_icell ` {..<ce_fill (cells r)}"
proof
  note o = cells_wfD [OF assms]
  fix k
  assume k: "k \<in> set (map fst (cell_bucket r m))"
  have "k \<in> dom (dict_map (ce_dict (cells r)))"
    by (rule bucket_keys [OF o(4) _ k]) (use dict_wfD(2) [OF o(4)] in simp)
  then show "k \<in> nref_of ur_icell ` {..<ce_fill (cells r)}" by (simp only: o(5))
qed

lemma cons_cases:
  assumes wf: "root_wf r" and h: "root_ref r hed" "ur_nref_mug r hed = Some hm"
    and t: "root_ref r tal" "ur_nref_mug r tal = Some tm"
  obtains (found) i where "i < ce_fill (cells r)" "ce_heads (cells r) ! i = hed"
      "ce_tails (cells r) ! i = tal" "ur_cons r hed tal = Some (nref_of ur_icell i, r)"
      "find_cell r hed tal (map fst (cell_bucket r (ur_mug_both hm tm))) = Some (Some (nref_of ur_icell i))"
  | (full) "length (cell_bucket r (ur_mug_both hm tm)) = ur_pail_max"
      "\<forall>i < ce_fill (cells r). \<not> (ce_heads (cells r) ! i = hed \<and> ce_tails (cells r) ! i = tal)"
      "ur_cons r hed tal =
        do { d' \<leftarrow> ur_dict_grow (ur_nref_mug r) (ce_dict (cells r)) (dict_prev (ce_dict (cells r)))
               (dict_size (ce_dict (cells r)));
             ur_cons (r\<lparr>cells := (cells r)\<lparr>ce_dict := d'\<rparr>\<rparr>) hed tal }"
      "find_cell r hed tal (map fst (cell_bucket r (ur_mug_both hm tm))) = Some None"
  | (new) r' where "cons_post r hed tal (nref_of ur_icell (ce_fill (cells r))) r'"
      "ce_fill (cells r) < 2 ^ 62"
      "ur_cons r hed tal = Some (nref_of ur_icell (ce_fill (cells r)), r')"
      "find_cell r hed tal (map fst (cell_bucket r (ur_mug_both hm tm))) = Some None"
      "length (cell_bucket r (ur_mug_both hm tm)) \<noteq> ur_pail_max"
  | (overflow) "ce_fill (cells r) = 2 ^ 62" "ur_cons r hed tal = None"
      "find_cell r hed tal (map fst (cell_bucket r (ur_mug_both hm tm))) = Some None"
      "length (cell_bucket r (ur_mug_both hm tm)) \<noteq> ur_pail_max"
proof -
  have c: "cells_wf r" using wf by (simp add: root_wf_def)
  let ?d = "ce_dict (cells r)" and ?m = "ur_mug_both hm tm"
  let ?b = "map fst (cell_bucket r ?m)"
  let ?p = "\<lambda>t. ce_heads (cells r) ! ur_nref_idx t = hed \<and> ce_tails (cells r) ! ur_nref_idx t = tal"
  note find = find_cell_spec [OF c cell_bucket_refs [OF c], where hed = hed and tal = tal]
  show ?thesis
  proof (cases "find ?p ?b")
    case (Some k)
    then have "k \<in> set ?b" and p: "?p k" by (auto simp: find_Some_iff)
    then obtain i where i: "i < ce_fill (cells r)" "k = nref_of ur_icell i"
      using cell_bucket_refs [OF c] by auto
    show ?thesis
    proof (rule found [OF i(1)])
      show "ur_cons r hed tal = Some (nref_of ur_icell i, r)"
        using Some find i h(2) t(2) by (subst ur_cons.simps) (simp add: Let_def)
    qed (use Some find i p icell_lookup(2) [OF c i(1)] in simp_all)
  next
    case None
    note absent = cons_absent [OF c h(2) t(2) None]
    have fc: "find_cell r hed tal ?b = Some None" using find None by simp
    show ?thesis
    proof (cases "length ?b = ur_pail_max")
      case True
      moreover have "ur_cons r hed tal =
        do { d' \<leftarrow> ur_dict_grow (ur_nref_mug r) ?d (dict_prev ?d) (dict_size ?d);
             ur_cons (r\<lparr>cells := (cells r)\<lparr>ce_dict := d'\<rparr>\<rparr>) hed tal }"
        using True fc h(2) t(2) by (subst ur_cons.simps) (simp add: Let_def)
      ultimately show ?thesis using full absent fc by simp
    next
      case room: False
      show ?thesis
      proof (cases "ce_fill (cells r) < 2 ^ 62")
        case True
        let ?c = "if ce_fill (cells r) = ce_size (cells r) then ur_cells_grow (cells r) else cells r"
        let ?r' = "r\<lparr>cells := (cells r)\<lparr>ce_prev := ce_prev ?c, ce_size := ce_size ?c,
          ce_mugs := ce_mugs (cells r) @ [?m], ce_heads := ce_heads (cells r) @ [hed],
          ce_tails := ce_tails (cells r) @ [tal],
          ce_dict := dict_push ?d (unat ?m mod dict_size ?d) (nref_of ur_icell (ce_fill (cells r)))\<rparr>\<rparr>"
        have "cons_post r hed tal (nref_of ur_icell (ce_fill (cells r))) ?r'"
          by (rule cons_new [OF wf h t True _ _ refl]) (use absent room in simp_all)
        moreover have "ur_cons r hed tal = Some (nref_of ur_icell (ce_fill (cells r)), ?r')"
          using fc room True h(2) t(2)
          by (subst ur_cons.simps) (simp add: Let_def cons_unsafe_def met0_le_iff ur_cells_grow_def ce_fill_def)
        ultimately show ?thesis using new True fc room by simp
      next
        case False
        then have f: "ce_fill (cells r) = 2 ^ 62" using cells_wfD(3) [OF c] by simp
        have "ur_cons r hed tal = None"
          using fc room False h(2) t(2)
          by (subst ur_cons.simps) (simp add: Let_def cons_unsafe_def met0_le_iff ur_cells_grow_def ce_fill_def)
        then show ?thesis using overflow f fc room by simp
      qed
    qed
  qed
qed

lemma cons_post_found:
  assumes "root_wf r" "i < ce_fill (cells r)" "ce_heads (cells r) ! i = hed" "ce_tails (cells r) ! i = tal"
  shows "cons_post r hed tal (nref_of ur_icell i) r"
  using assms by (auto simp: cons_post_def)

lemma cons_post_regrow:
  assumes post: "cons_post r1 hed tal ref r'" and ext: "root_ext r r1"
    and same: "atoms r1 = atoms r" "ce_heads (cells r1) = ce_heads (cells r)"
  shows "cons_post r hed tal ref r'"
  using post root_ext_trans [OF ext] by (auto simp: cons_post_def same ce_fill_def)

lemma cons_spec:
  assumes "ur_cons r hed tal = Some (ref, r')" "root_wf r" "root_ref r hed" "root_ref r tal"
  shows "cons_post r hed tal ref r'"
proof -
  have "root_wf r \<Longrightarrow> root_ref r hed \<Longrightarrow> root_ref r tal \<Longrightarrow> cons_post r hed tal (fst res) (snd res)"
    if "ur_cons r hed tal = Some res" for res
    using that
  proof (induction rule: ur_cons.raw_induct [rotated 1, consumes 1, case_names step])
    case (step cons r hed tal res)
    have c: "cells_wf r" using step.prems by (simp add: root_wf_def)
    obtain hm tm where m: "ur_nref_mug r hed = Some hm" "ur_nref_mug r tal = Some tm"
      using root_ref_mug step.prems by blast
    from step.prems(1,2) m(1) step.prems(3) m(2) show ?case
    proof (cases rule: cons_cases)
      case (found i)
      then have "Some (nref_of ur_icell i, r) = Some res" using step.hyps m by (simp add: Let_def)
      then show ?thesis using cons_post_found [OF step.prems(1) found(1-3)] by auto
    next
      case full
      then obtain d' where g: "ur_dict_grow (ur_nref_mug r) (ce_dict (cells r))
          (dict_prev (ce_dict (cells r))) (dict_size (ce_dict (cells r))) = Some d'"
        and res: "cons (r\<lparr>cells := (cells r)\<lparr>ce_dict := d'\<rparr>\<rparr>) hed tal = Some res"
        using step.hyps m by (auto simp: Let_def bind_eq_Some_conv)
      have "0 < dict_size (ce_dict (cells r))" using dict_wfD(2) [OF cells_wfD(4) [OF c]] .
      note re = regrow_cells [OF step.prems(1) g this]
      show ?thesis
        by (rule cons_post_regrow [OF step.IH [OF res re(1)] re(2)])
          (use root_ref_ext [OF re(2)] step.prems in simp_all)
    next
      case (new r1)
      have "ur_cons r hed tal = Some res"
        using step.hyps new(4,5) m by (subst ur_cons.simps) (simp add: Let_def)
      then show ?thesis using new by auto
    next
      case overflow
      have "ur_cons r hed tal = Some res"
        using step.hyps overflow(3,4) m by (subst ur_cons.simps) (simp add: Let_def)
      then show ?thesis using overflow by simp
    qed
  qed
  then show ?thesis using assms by fastforce
qed

definition cells_spread :: "ur_root \<Rightarrow> bool" where
  "cells_spread r \<longleftrightarrow> mug_spread (ur_nref_mug r) (dom (dict_map (ce_dict (cells r))))"

definition cells_share :: "ur_root \<Rightarrow> mug \<Rightarrow> nat" where
  "cells_share r m = card {k \<in> dom (dict_map (ce_dict (cells r))). ur_nref_mug r k = Some m}"

lemma cons_total:
  assumes "root_wf r" "root_ref r hed" "root_ref r tal" "ur_nref_mug r hed = Some hm"
    "ur_nref_mug r tal = Some tm" "ce_fill (cells r) < 2 ^ 62" "cells_spread r"
    "(\<exists>i < ce_fill (cells r). ce_heads (cells r) ! i = hed \<and> ce_tails (cells r) ! i = tal) \<or>
     cells_share r (ur_mug_both hm tm) < ur_pail_max"
  shows "\<exists>ref r'. ur_cons r hed tal = Some (ref, r')"
  using assms
proof (induction "2 ^ 32 - dict_size (ce_dict (cells r))" arbitrary: r rule: less_induct)
  case less
  have c: "cells_wf r" using less.prems by (simp add: root_wf_def)
  note o = cells_wfD [OF c]
  from less.prems(1,2,4,3,5) show ?case
  proof (cases rule: cons_cases)
    case full
    let ?d = "ce_dict (cells r)"
    have share: "cells_share r (ur_mug_both hm tm) < ur_pail_max" using less.prems(8) full(2) by blast
    have small: "dict_size ?d < 2 ^ 32"
      by (rule shared_bucket_small [OF o(4) full(1)]) (use share in \<open>simp add: cells_share_def\<close>)
    have pos: "0 < dict_prev ?d" "0 < dict_size ?d" using dict_wfD(1,2) [OF o(4)] by simp_all
    obtain d' where g: "ur_dict_grow (ur_nref_mug r) ?d (dict_prev ?d) (dict_size ?d) = Some d'"
      using dict_grow_total [OF dict_wf_entries [OF o(4)] _ pos] less.prems(7)
      unfolding ur_dict_grow_def cells_spread_def by blast
    let ?r = "r\<lparr>cells := (cells r)\<lparr>ce_dict := d'\<rparr>\<rparr>"
    note re = regrow_cells [OF less.prems(1) g pos(2)]
    have d': "dict_map d' = dict_map ?d" "dict_prev ?d + dict_size ?d \<le> dict_size d'"
      using dict_grow_spec [OF _ dict_wf_entries [OF o(4)] pos(2)] g by (simp_all add: ur_dict_grow_def)
    have "\<exists>ref r'. ur_cons ?r hed tal = Some (ref, r')"
    proof (rule less.hyps)
      show "2 ^ 32 - dict_size (ce_dict (cells ?r)) < 2 ^ 32 - dict_size ?d"
        using d'(2) pos small by simp
      show "root_ref ?r hed" "root_ref ?r tal" using root_ref_ext [OF re(2)] less.prems by blast+
      show "(\<exists>i < ce_fill (cells ?r). ce_heads (cells ?r) ! i = hed \<and> ce_tails (cells ?r) ! i = tal) \<or>
          cells_share ?r (ur_mug_both hm tm) < ur_pail_max"
        using share re(3) d'(1) by (simp add: cells_share_def)
    qed (use re less.prems d' in \<open>simp_all add: cells_spread_def ce_fill_def\<close>)
    then show ?thesis using full(3) g by simp
  qed (use less.prems(6) in auto)
qed

end
