(* ===== verification/Nouns.thy ===== *)
theory Nouns
  imports Hashcons
begin

text \<open>
  The nouns a root of \<open>pkg/ur/hashcons.c\<close> stores: what a reference stands for, that
  equal nouns have equal references, and what making and measuring a noun does in these terms.
\<close>

section \<open>Values of bytes\<close>

definition bits_nat :: "bool list \<Rightarrow> nat" where
  "bits_nat bs = horner_sum of_bool 2 bs"

definition bytes_nat :: "u8 list \<Rightarrow> nat" where
  "bytes_nat byt = bits_nat (bytes_bits byt)"

lemma bit_bits_nat: "bit (bits_nat bs) n \<longleftrightarrow> n < length bs \<and> bs ! n"
  by (simp add: bits_nat_def bit_horner_sum_bit_iff)

lemma bits_nat_append_False: "bits_nat (bs @ replicate n False) = bits_nat bs"
  by (rule bit_eqI) (auto simp: bit_bits_nat nth_append)

lemma bit_bytes_nat: "bit (bytes_nat byt) n \<longleftrightarrow> n < 8 * length byt \<and> bytes_bits byt ! n"
  by (simp add: bytes_nat_def bit_bits_nat)

lemma bits_nat_less: "bits_nat bs < 2 ^ length bs"
  by (rule less_exp_bitI) (simp add: bit_bits_nat)

lemma bits_nat_inject: "length xs = length ys \<Longrightarrow> bits_nat xs = bits_nat ys \<Longrightarrow> xs = ys"
proof (rule nth_equalityI)
  fix i
  assume "length xs = length ys" "bits_nat xs = bits_nat ys" "i < length xs"
  then show "xs ! i = ys ! i" using bit_bits_nat [of xs i] bit_bits_nat [of ys i] by simp
qed simp

lemma bytes_nat_snoc: "bytes_nat (byt @ [b]) = bytes_nat byt + 256 ^ length byt * unat b"
proof -
  have "bytes_nat (byt @ [b]) = bytes_nat byt + 2 ^ (8 * length byt) * bits_nat (bits_of 8 b)"
    by (simp add: bytes_nat_def bits_nat_def bytes_bits_append bytes_bits_Cons horner_sum_append)
  moreover have "bits_nat (bits_of 8 b) = unat b"
    by (rule bit_eqI) (use bit_imp_le_length [of b] in \<open>auto simp: bit_bits_nat bit_unsigned_iff\<close>)
  ultimately show ?thesis by (simp add: power_mult)
qed

lemma bytes_nat_Nil [simp]: "bytes_nat [] = 0"
  by (simp add: bytes_nat_def bits_nat_def)

lemma bytes_nat_less: "bytes_nat byt < 256 ^ length byt"
  using bits_nat_less [of "bytes_bits byt"] by (simp add: bytes_nat_def power_mult)

text \<open>The bit length of a number whose last byte is not zero.\<close>

lemma met0_mult_add:
  assumes "0 < b" "a < 2 ^ k"
  shows "met0 (a + 2 ^ k * b) = k + met0 b"
proof -
  have "a + 2 ^ k * b < 2 ^ (k + met0 b)"
  proof -
    have "b + 1 \<le> 2 ^ met0 b" using less_exp_met0 [of b] by simp
    then have "2 ^ k * (b + 1) \<le> 2 ^ k * 2 ^ met0 b" by (rule mult_le_mono2)
    moreover have "2 ^ k * (b + 1) = 2 ^ k * b + 2 ^ k" by simp
    ultimately show ?thesis using assms(2) unfolding power_add by linarith
  qed
  moreover have "\<not> a + 2 ^ k * b < 2 ^ (k + met0 b - 1)"
  proof -
    have "2 ^ (met0 b - 1) \<le> b" using exp_le_of_met0 [of b "met0 b - 1"] assms(1) met0_pos by simp
    then have "2 ^ k * 2 ^ (met0 b - 1) \<le> 2 ^ k * b" by (rule mult_le_mono2)
    moreover have "(2::nat) ^ (k + met0 b - 1) = 2 ^ k * 2 ^ (met0 b - 1)"
      using met0_pos [OF assms(1)] by (simp add: power_add)
    ultimately show ?thesis by linarith
  qed
  ultimately show ?thesis unfolding met0_le_iff [symmetric] by simp
qed

lemma met0_bytes_nat:
  assumes "byt \<noteq> []" "last byt \<noteq> 0"
  shows "met0 (bytes_nat byt) = 8 * (length byt - 1) + met0 (unat (last byt))"
proof -
  obtain bs b where b: "byt = bs @ [b]" using assms(1) by (metis append_butlast_last_id)
  have "0 < unat b" using assms(2) b by (simp add: unat_gt_0)
  then have "met0 (bytes_nat bs + 2 ^ (8 * length bs) * unat b) = 8 * length bs + met0 (unat b)"
    using bytes_nat_less [of bs] by (intro met0_mult_add) (simp_all add: power_mult)
  then show ?thesis by (simp add: b bytes_nat_snoc power_mult)
qed

lemma met0_byte_bounds: "b \<noteq> 0 \<Longrightarrow> 1 \<le> met0 (unat b) \<and> met0 (unat b) \<le> 8" for b :: u8
  using unsigned_less [of b, where 'a = nat] met0_pos [of "unat b"]
  by (auto simp: met0_le_iff unat_gt_0)

lemma bytes_nat_inject:
  assumes "xs = [] \<or> last xs \<noteq> 0" "ys = [] \<or> last ys \<noteq> 0" "bytes_nat xs = bytes_nat ys"
  shows "xs = ys"
proof -
  have len: "length bs = (met0 (bytes_nat bs) + 7) div 8" if "bs = [] \<or> last bs \<noteq> 0" for bs
  proof (cases "bs = []")
    case False
    then have m: "met0 (bytes_nat bs) = 8 * (length bs - 1) + met0 (unat (last bs))"
      and b: "1 \<le> met0 (unat (last bs))" "met0 (unat (last bs)) \<le> 8" and l: "0 < length bs"
      using that met0_bytes_nat met0_byte_bounds [of "last bs"] by auto
    obtain k where k: "length bs = Suc k" using l by (cases "length bs") auto
    show ?thesis using m b k by simp
  qed simp
  have "length xs = length ys" using len [OF assms(1)] len [OF assms(2)] assms(3) by simp
  then have "bytes_bits xs = bytes_bits ys"
    using assms(3) by (intro bits_nat_inject) (simp_all add: bytes_nat_def)
  then show ?thesis by (rule bytes_bits_inject)
qed

section \<open>What a reference stands for\<close>

datatype noun = Atom nat | Cell noun noun

inductive rep :: "ur_root \<Rightarrow> nref \<Rightarrow> noun \<Rightarrow> bool" for r where
  rep_direct: "ur_nref_tag ref = ur_direct \<Longrightarrow> rep r ref (Atom (unat ref))"
| rep_iatom: "ur_nref_tag ref = ur_iatom \<Longrightarrow> ur_nref_idx ref < at_fill (atoms r) \<Longrightarrow>
    rep r ref (Atom (bytes_nat (at_content (atoms r) (ur_nref_idx ref))))"
| rep_icell: "ur_nref_tag ref = ur_icell \<Longrightarrow> ur_nref_idx ref < ce_fill (cells r) \<Longrightarrow>
    rep r (ce_heads (cells r) ! ur_nref_idx ref) h \<Longrightarrow>
    rep r (ce_tails (cells r) ! ur_nref_idx ref) t \<Longrightarrow> rep r ref (Cell h t)"

inductive_simps rep_Atom_iff: "rep r ref (Atom a)"
inductive_cases rep_CellE: "rep r ref (Cell h t)"

lemma rep_root_ref: "rep r ref n \<Longrightarrow> root_ref r ref"
  by (induction rule: rep.induct) (auto simp: root_ref_def ref_below_def)

lemma rep_total:
  assumes "root_wf r" "ref_below r k ref" "k \<le> ce_fill (cells r)"
  shows "\<exists>n. rep r ref n"
  using assms(2,3)
proof (induction k arbitrary: ref rule: less_induct)
  case (less k)
  have c: "cells_wf r" using assms(1) by (simp add: root_wf_def)
  from less.prems(1) consider "ur_nref_tag ref = ur_direct"
    | "ur_nref_tag ref = ur_iatom" "ur_nref_idx ref < at_fill (atoms r)"
    | "ur_nref_tag ref = ur_icell" "ur_nref_idx ref < k"
    unfolding ref_below_def by blast
  then show ?case
  proof cases
    case 3
    then have i: "ur_nref_idx ref < ce_fill (cells r)" using less.prems(2) by simp
    obtain h t where "rep r (ce_heads (cells r) ! ur_nref_idx ref) h" "rep r (ce_tails (cells r) ! ur_nref_idx ref) t"
      using less.IH [OF 3(2)] cells_wfD(6,7) [OF c i] i by (meson less_imp_le)
    then show ?thesis using rep_icell [OF 3(1) i] by blast
  qed (auto intro: rep_direct rep_iatom)
qed

lemma root_ref_rep: "root_wf r \<Longrightarrow> root_ref r ref \<Longrightarrow> \<exists>n. rep r ref n"
  unfolding root_ref_def by (rule rep_total) auto

lemma rep_det: "rep r ref n \<Longrightarrow> rep r ref m \<Longrightarrow> n = m"
proof (induction arbitrary: m rule: rep.induct)
  case (rep_icell ref h t)
  from rep_icell.prems show ?case
  proof cases
    case (rep_icell h' t')
    then show ?thesis using rep_icell.IH by simp
  qed (use rep_icell.hyps in \<open>simp_all add: tag_defs\<close>)
next
  case (rep_direct ref)
  from rep_direct(2) show ?case by cases (use rep_direct(1) in \<open>simp_all add: tag_defs\<close>)
next
  case (rep_iatom ref)
  from rep_iatom(3) show ?case by cases (use rep_iatom(1) in \<open>simp_all add: tag_defs\<close>)
qed

lemma at_content_ext:
  assumes "root_ext r r'" "atoms_wf r" "i < at_fill (atoms r)"
  shows "at_content (atoms r') i = at_content (atoms r) i"
  using assms atoms_wfD(2) [OF assms(2)]
  by (auto simp: at_content_def root_ext_def prefix_def nth_append at_fill_def)

lemma rep_ext:
  assumes "rep r ref n" "root_ext r r'" "root_wf r"
  shows "rep r' ref n"
  using assms(1)
proof (induction rule: rep.induct)
  case (rep_direct ref)
  then show ?case by (rule rep.rep_direct)
next
  case (rep_iatom ref)
  have "at_content (atoms r') (ur_nref_idx ref) = at_content (atoms r) (ur_nref_idx ref)"
    using rep_iatom assms by (intro at_content_ext) (auto simp: root_wf_def)
  then show ?case
    using rep.rep_iatom [OF rep_iatom(1), of r'] root_ext_fill(1) [OF assms(2)] rep_iatom(2) by simp
next
  case (rep_icell ref h t)
  have "ce_heads (cells r') ! ur_nref_idx ref = ce_heads (cells r) ! ur_nref_idx ref"
    "ce_tails (cells r') ! ur_nref_idx ref = ce_tails (cells r) ! ur_nref_idx ref"
    using rep_icell(2) assms(2,3) cells_wfD(2) [of r]
    by (auto simp: root_ext_def prefix_def nth_append ce_fill_def root_wf_def)
  then show ?case
    using rep_icell root_ext_fill(2) [OF assms(2)] by (intro rep.rep_icell) auto
qed

section \<open>Canonical atoms\<close>

text \<open>
  A stored atom is canonical when it has no leading zero byte and does not fit a direct
  reference; then equal nouns have equal references.
\<close>

definition atom_canon :: "u8 list \<Rightarrow> bool" where
  "atom_canon byt \<longleftrightarrow> byt \<noteq> [] \<and> last byt \<noteq> 0 \<and> 2 ^ 62 \<le> bytes_nat byt"

definition root_canon :: "ur_root \<Rightarrow> bool" where
  "root_canon r \<longleftrightarrow> (\<forall>i < at_fill (atoms r). atom_canon (at_content (atoms r) i))"

lemma rep_unique:
  assumes wf: "root_wf r" and canon: "root_canon r"
  shows "rep r a n \<Longrightarrow> rep r b n \<Longrightarrow> a = b"
proof (induction n arbitrary: a b)
  case (Atom x)
  note o = atoms_wfD(8) [of r]
  have big: "2 ^ 62 \<le> bytes_nat (at_content (atoms r) i)" if "i < at_fill (atoms r)" for i
    using canon that by (simp add: root_canon_def atom_canon_def)
  have split: "x = unat c \<and> ur_nref_tag c = ur_direct \<or>
      ur_nref_tag c = ur_iatom \<and> ur_nref_idx c < at_fill (atoms r) \<and>
      x = bytes_nat (at_content (atoms r) (ur_nref_idx c)) \<and> 2 ^ 62 \<le> x" if "rep r c (Atom x)" for c
    using that big [of "ur_nref_idx c"] by (auto simp only: rep_Atom_iff)
  consider "x = unat a" "ur_nref_tag a = ur_direct" "x = unat b"
    | "x = unat a" "ur_nref_tag a = ur_direct" "2 ^ 62 \<le> x"
    | "x = unat b" "ur_nref_tag b = ur_direct" "2 ^ 62 \<le> x"
    | "ur_nref_tag a = ur_iatom" "ur_nref_idx a < at_fill (atoms r)"
      "x = bytes_nat (at_content (atoms r) (ur_nref_idx a))"
      "ur_nref_tag b = ur_iatom" "ur_nref_idx b < at_fill (atoms r)"
      "x = bytes_nat (at_content (atoms r) (ur_nref_idx b))"
    using split [OF Atom.prems(1)] split [OF Atom.prems(2)] by (elim disjE conjE)
  then show ?case
  proof cases
    case 1
    then show ?thesis unfolding word_unat_eq_iff by simp
  next
    case 2
    then show ?thesis using direct_value [of a] by simp
  next
    case 3
    then show ?thesis using direct_value [of b] by simp
  next
    case 4
    then have "at_content (atoms r) (ur_nref_idx a) = at_content (atoms r) (ur_nref_idx b)"
      using canon by (intro bytes_nat_inject) (auto simp: root_canon_def atom_canon_def)
    then have "ur_nref_idx a = ur_nref_idx b"
      using wf 4 inj_onD [OF o] by (auto simp: root_wf_def)
    then show ?thesis using 4 by (intro nref_eqI) simp_all
  qed
next
  case (Cell h t)
  from Cell.prems obtain "ur_nref_tag a = ur_icell" "ur_nref_idx a < ce_fill (cells r)"
      "rep r (ce_heads (cells r) ! ur_nref_idx a) h" "rep r (ce_tails (cells r) ! ur_nref_idx a) t"
      "ur_nref_tag b = ur_icell" "ur_nref_idx b < ce_fill (cells r)"
      "rep r (ce_heads (cells r) ! ur_nref_idx b) h" "rep r (ce_tails (cells r) ! ur_nref_idx b) t"
    by (elim rep_CellE) blast
  moreover from this have "ce_heads (cells r) ! ur_nref_idx a = ce_heads (cells r) ! ur_nref_idx b"
    "ce_tails (cells r) ! ur_nref_idx a = ce_tails (cells r) ! ur_nref_idx b"
    using Cell.IH by blast+
  ultimately show ?case
    using wf inj_onD [OF cells_wfD(9) [of r], of "ur_nref_idx a" "ur_nref_idx b"]
    by (intro nref_eqI) (auto simp: root_wf_def)
qed

section \<open>Making nouns\<close>

lemma coin_post_rep:
  assumes "coin_post r len byt ref r'"
  shows "rep r' ref (Atom (bytes_nat (take len byt)))"
proof -
  obtain i where i: "i < at_fill (atoms r')" "ref = nref_of ur_iatom i"
      "at_content (atoms r') i = take len byt" and wf: "atoms_wf r'"
    using assms by (auto simp: coin_post_def root_wf_def)
  note l = iatom_lookup(1,2) [OF wf i(1)]
  show ?thesis using rep_iatom [of ref r'] i l by simp
qed

lemma coin_post_canon:
  assumes "coin_post r len byt ref r'" "root_wf r" "root_canon r" "atom_canon (take len byt)"
  shows "root_canon r'"
  unfolding root_canon_def
proof (intro allI impI)
  fix i
  assume i: "i < at_fill (atoms r')"
  have ext: "root_ext r r'" using assms(1) by (simp add: coin_post_def)
  show "atom_canon (at_content (atoms r') i)"
  proof (cases "i < at_fill (atoms r)")
    case True
    then show ?thesis
      using assms(2,3) at_content_ext [OF ext _ True] by (simp add: root_canon_def root_wf_def)
  next
    case False
    then have "at_content (atoms r') i = take len byt" using assms(1) i by (auto simp: coin_post_def)
    then show ?thesis using assms(4) by simp
  qed
qed

lemma cons_post_rep:
  assumes post: "cons_post r hed tal ref r'" and "root_wf r" "rep r hed h" "rep r tal t"
  shows "rep r' ref (Cell h t)"
proof -
  have ext: "root_ext r r'" and wf: "cells_wf r'" using post by (auto simp: cons_post_def root_wf_def)
  obtain i where i: "i < ce_fill (cells r')" "ref = nref_of ur_icell i"
      "ce_heads (cells r') ! i = hed" "ce_tails (cells r') ! i = tal"
    using post by (auto simp: cons_post_def)
  note l = icell_lookup(1,2) [OF wf i(1)]
  have "rep r' hed h" "rep r' tal t" using rep_ext [OF _ ext] assms by blast+
  then show ?thesis using rep_icell [of ref r' h t] i l by simp
qed

lemma cons_post_canon: "cons_post r hed tal ref r' \<Longrightarrow> root_canon r \<Longrightarrow> root_canon r'"
  by (simp add: cons_post_def root_canon_def)

lemma length_bytes64 [simp]: "length (bytes64 x) = 8"
  by (simp add: bytes64_def)

lemma bytes_nat_bytes64: "bytes_nat (bytes64 x) = unat x"
proof (rule bit_eqI)
  fix n
  show "bit (bytes_nat (bytes64 x)) n = bit (unat x) n"
  proof (cases "n < 64")
    case True
    then have "n div 8 < 8" by simp
    then have "bit (bytes64 x ! (n div 8)) (n mod 8) = bit x n"
      by (simp add: bytes64_def bit_simps)
    then show ?thesis using True by (simp add: bit_bytes_nat nth_bytes_bits bit_unsigned_iff)
  next
    case False
    then show ?thesis using bit_imp_le_length [of x n] by (auto simp: bit_bytes_nat bit_unsigned_iff)
  qed
qed

lemma bytes64_canon:
  assumes "ur_nref_tag n \<noteq> ur_direct"
  shows "atom_canon (bytes64 n)"
proof -
  have big: "2 ^ 62 \<le> unat n" using assms direct_value [of n] by simp
  have "last (bytes64 n) \<noteq> 0"
  proof
    assume z: "last (bytes64 n) = 0"
    have "bytes64 n = butlast (bytes64 n) @ [last (bytes64 n)]"
      by (metis append_butlast_last_id length_bytes64 list.size(3) zero_neq_numeral)
    then have "bytes_nat (bytes64 n) = bytes_nat (butlast (bytes64 n))"
      unfolding z using bytes_nat_snoc [of "butlast (bytes64 n)" 0] by simp
    also have "\<dots> < 256 ^ 7" using bytes_nat_less [of "butlast (bytes64 n)"] by simp
    finally show False using big by (simp add: bytes_nat_bytes64)
  qed
  moreover have "bytes64 n \<noteq> []" by (metis length_bytes64 list.size(3) zero_neq_numeral)
  ultimately show ?thesis using big by (simp add: atom_canon_def bytes_nat_bytes64)
qed

lemma coin64_post:
  assumes "ur_coin64 r n = Some (ref, r')" "root_wf r"
  shows "ref = n \<and> r' = r \<and> ur_nref_tag n = ur_direct \<or>
    ur_nref_tag n \<noteq> ur_direct \<and> coin_post r 8 (bytes64 n) ref r'"
  using assms coin_bytes_spec [of r 8 "bytes64 n" ref r']
  by (auto simp: ur_coin64_def split: if_splits)

section \<open>Measuring atoms\<close>

lemma ceil_div_power:
  fixes m :: nat
  shows "((m + 7) div 8 + (2 ^ k - 1)) div 2 ^ k = (m + (2 ^ (k + 3) - 1)) div 2 ^ (k + 3)"
proof -
  have "((m + 7) div 8 + (2 ^ k - 1)) = (m + 7 + 8 * (2 ^ k - 1)) div 8" by simp
  also have "m + 7 + 8 * (2 ^ k - 1) = m + (2 ^ (k + 3) - 1)"
    using one_le_power [of "2::nat" k] by (simp add: power_add algebra_simps)
  finally show ?thesis by (simp add: div_mult2_eq [symmetric] power_add mult.commute)
qed

lemma ur_met_bits:
  assumes "rep r ref (Atom a)" "root_wf r" "root_canon r"
  shows "\<exists>m. ur_met r bloq ref = Some m \<and> m = (met0 a + (2 ^ bloq - 1)) div 2 ^ bloq"
proof -
  have deep: "\<not> ur_deep ref" using assms(1) unfolding rep_Atom_iff by (auto simp: ur_deep_def tag_defs)
  have bits: "(if ur_nref_tag ref = ur_direct then Some (met0 (unat ref))
      else do { len \<leftarrow> at_index (at_lens (atoms r)) (ur_nref_idx ref);
                byt \<leftarrow> at_index (at_bytes (atoms r)) (ur_nref_idx ref);
                ur_met0_bytes_unsafe len byt }) = Some (met0 a)"
  proof (cases "ur_nref_tag ref = ur_direct")
    case True
    then show ?thesis using assms(1) unfolding rep_Atom_iff by (auto simp: tag_defs)
  next
    case False
    let ?i = "ur_nref_idx ref"
    have i: "?i < at_fill (atoms r)" and a: "a = bytes_nat (at_content (atoms r) ?i)"
      using False assms(1) unfolding rep_Atom_iff by auto
    have wf: "atoms_wf r" using assms(2) by (simp add: root_wf_def)
    have len: "at_lens (atoms r) ! ?i \<le> length (at_bytes (atoms r) ! ?i)" by (rule atoms_wfD(6) [OF wf i])
    have c: "at_content (atoms r) ?i \<noteq> []" "last (at_content (atoms r) ?i) \<noteq> 0"
      using assms(3) i by (simp_all add: root_canon_def atom_canon_def)
    then have pos: "0 < at_lens (atoms r) ! ?i" and "last (at_content (atoms r) ?i) =
        at_bytes (atoms r) ! ?i ! (at_lens (atoms r) ! ?i - 1)"
      using len by (auto simp: at_content_def last_conv_nth)
    then show ?thesis
      using False i len a met0_bytes_nat [OF c] atoms_wfD(2) [OF wf]
      by (simp add: at_index_def at_fill_def ur_met0_bytes_unsafe_def at_content_def)
  qed
  consider "bloq = 0" | "bloq = 1" | "bloq = 2" | k where "bloq = k + 3" "3 \<le> bloq"
    by (metis One_nat_def add.commute le_Suc_ex less_2_cases_iff not_less_eq_eq numeral_2_eq_2 numeral_3_eq_3 le_less_linear less_Suc_eq)
  then show ?thesis
  proof cases
    case (4 k)
    then show ?thesis using bits deep ceil_div_power [of "met0 a" k]
      by (cases k) (simp_all add: ur_met_def)
  qed (use bits deep in \<open>simp_all add: ur_met_def\<close>)
qed

section \<open>Atoms from bytes\<close>

lemma strip_zeros_le: "strip_zeros len byt \<le> len" "strip_zeros len byt \<le> length byt"
  using length_dropWhile_le [of "\<lambda>b. b = 0" "rev (take len byt)"] by (simp_all add: strip_zeros_def)

lemma strip_zeros_rev:
  "take (strip_zeros len byt) byt = rev (dropWhile (\<lambda>b. b = 0) (rev (take len byt)))"
proof -
  define D where "D = dropWhile (\<lambda>b. b = 0) (rev (take len byt))"
  define T where "T = takeWhile (\<lambda>b. b = 0) (rev (take len byt))"
  have "rev (take len byt) = T @ D" by (simp add: D_def T_def)
  then have e: "take len byt = rev D @ rev T" by (metis rev_append rev_rev_ident)
  have n: "strip_zeros len byt = length D" by (simp add: strip_zeros_def D_def)
  have "take (length D) (take len byt) = rev D" using arg_cong [OF e, of "take (length D)"] by simp
  moreover have "length D \<le> len" using strip_zeros_le(1) [of len byt] n by simp
  ultimately show ?thesis by (simp add: n D_def [symmetric] min_absorb1)
qed

lemma take_strip_zeros:
  "\<exists>n. take len byt = take (strip_zeros len byt) byt @ replicate n 0"
proof -
  let ?r = "rev (take len byt)" and ?z = "\<lambda>b :: u8. b = 0"
  have "?r = takeWhile ?z ?r @ dropWhile ?z ?r" by simp
  moreover have "takeWhile ?z ?r = replicate (length (takeWhile ?z ?r)) 0"
    by (rule replicate_eqI) (auto dest: set_takeWhileD)
  ultimately have "?r = replicate (length (takeWhile ?z ?r)) 0 @ dropWhile ?z ?r" by simp
  then have "rev ?r = rev (dropWhile ?z ?r) @ replicate (length (takeWhile ?z ?r)) 0"
    by (metis rev_append rev_replicate)
  then show ?thesis unfolding strip_zeros_rev by auto
qed

lemma strip_zeros_last:
  assumes "strip_zeros len byt \<noteq> 0"
  shows "take (strip_zeros len byt) byt \<noteq> []" "last (take (strip_zeros len byt) byt) \<noteq> 0"
proof -
  have ne: "dropWhile (\<lambda>b. b = 0) (rev (take len byt)) \<noteq> []" using assms by (simp add: strip_zeros_def)
  show "take (strip_zeros len byt) byt \<noteq> []" "last (take (strip_zeros len byt) byt) \<noteq> 0"
    using ne hd_dropWhile [OF ne] unfolding strip_zeros_rev by (simp_all add: last_rev)
qed

lemma bytes_nat_zeros: "bytes_nat (byt @ replicate n 0) = bytes_nat byt"
proof (induction n)
  case (Suc n)
  then show ?case using bytes_nat_snoc [of "byt @ replicate n 0" 0]
    by (simp add: replicate_append_same [symmetric])
qed simp

lemma bytes_nat_strip: "bytes_nat (take (strip_zeros len byt) byt) = bytes_nat (take len byt)"
  using take_strip_zeros [of len byt] bytes_nat_zeros by metis

lemma met0_strip:
  assumes "strip_zeros len byt \<noteq> 0"
  shows "ur_met0_bytes_unsafe (strip_zeros len byt) byt = Some (met0 (bytes_nat (take len byt)))"
proof -
  let ?n = "strip_zeros len byt"
  note l = strip_zeros_last [OF assms]
  have n: "?n \<le> length byt" by (rule strip_zeros_le)
  then have "last (take ?n byt) = byt ! (?n - 1)" using assms by (subst last_conv_nth) (auto simp: l(1))
  then show ?thesis
    using met0_bytes_nat [OF l] n assms bytes_nat_strip [of len byt]
    by (simp add: ur_met0_bytes_unsafe_def at_index_def mult.commute min_absorb2)
qed

lemma coin_direct_value:
  assumes "coin_direct len byt = Some d" "len \<le> length byt"
  shows "len \<le> 4 \<and> unat d = bytes_nat (take len byt)"
  using assms
proof (induction len arbitrary: d)
  case (Suc i)
  then obtain d0 where d0: "coin_direct i byt = Some d0" and i: "i \<le> 2 \<or> i = 3"
    and d: "d = d0 OR push_bit (8 * i) (ucast (byt ! i))"
    by (auto simp: at_index_def bind_eq_Some_conv split: if_splits)
  note IH = Suc.IH [OF d0]
  have b: "bit (unat d0) n \<longleftrightarrow> n < 8 * i \<and> bytes_bits byt ! n" for n
    using IH Suc.prems(2) by (auto simp: bit_bytes_nat take_bytes_bits)
  have "unat d = bytes_nat (take (Suc i) byt)"
  proof (rule bit_eqI)
    fix n
    have dn: "bit (unat d) n \<longleftrightarrow> bit (unat d0) n \<or> 8 * i \<le> n \<and> n < 64 \<and> bit (byt ! i) (n - 8 * i)"
      by (auto simp: d bit_unsigned_iff bit_or_iff bit_push_bit_iff bit_ucast_iff)
    have rhs: "bit (bytes_nat (take (Suc i) byt)) n \<longleftrightarrow> n < 8 * Suc i \<and> bytes_bits byt ! n"
      using Suc.prems(2) by (auto simp: bit_bytes_nat take_bytes_bits)
    consider "n < 8 * i" | "8 * i \<le> n" "n < 8 * i + 8" | "8 * i + 8 \<le> n" by linarith
    then show "bit (unat d) n = bit (bytes_nat (take (Suc i) byt)) n"
    proof cases
      case 2
      then have "bit (byt ! i) (n - 8 * i) = bytes_bits byt ! n"
        using bit_byte [of i byt "n - 8 * i"] Suc.prems(2) by simp
      then show ?thesis using 2 i b [of n] unfolding dn rhs by auto
    next
      case 3
      then have "\<not> bit (byt ! i) (n - 8 * i)" using bit_imp_le_length [of "byt ! i" "n - 8 * i"] by auto
      then show ?thesis using 3 b [of n] unfolding dn rhs by auto
    qed (use b [of n] in \<open>simp add: dn rhs\<close>)
  qed
  then show ?case using i by auto
qed simp

lemma coin_bytes_post:
  assumes "ur_coin_bytes r len byt = Some (ref, r')" "root_wf r" "root_canon r"
  shows "rep r' ref (Atom (bytes_nat (take len byt))) \<and> root_wf r' \<and> root_canon r' \<and> root_ext r r'"
proof -
  let ?n = "strip_zeros len byt"
  have n: "?n \<noteq> 0"
  proof
    assume "?n = 0"
    then show False using assms(1) by (simp add: ur_coin_bytes_def Let_def ur_met0_bytes_unsafe_def)
  qed
  have le: "?n \<le> length byt" by (rule strip_zeros_le)
  note met = met0_strip [OF n]
  show ?thesis
  proof (cases "met0 (bytes_nat (take len byt)) \<le> 62")
    case True
    then have "coin_direct ?n byt = Some ref" "r' = r"
      using assms(1) met by (auto simp: ur_coin_bytes_def Let_def bind_eq_Some_conv)
    then have v: "unat ref = bytes_nat (take len byt)"
      using coin_direct_value [OF _ le] bytes_nat_strip by simp
    then have "ur_nref_tag ref = ur_direct" using True by (simp add: direct_value met0_le_iff)
    then show ?thesis using rep_direct [of ref r] v assms \<open>r' = r\<close> by simp
  next
    case False
    then have c: "ur_coin_bytes_unsafe r ?n (take ?n byt) = Some (ref, r')"
      using assms(1) met by (auto simp: ur_coin_bytes_def Let_def)
    have post: "coin_post r ?n (take ?n byt) ref r'"
      by (rule coin_bytes_spec [OF c assms(2)]) (use le in simp)
    have "atom_canon (take ?n byt)"
      using False strip_zeros_last [OF n] bytes_nat_strip [of len byt] by (auto simp: atom_canon_def met0_le_iff)
    then have "root_canon r'" using coin_post_canon [OF post assms(2,3)] by simp
    moreover have "rep r' ref (Atom (bytes_nat (take len byt)))"
      using coin_post_rep [OF post] bytes_nat_strip [of len byt] by simp
    ultimately show ?thesis using post by (simp add: coin_post_def)
  qed
qed

section \<open>The roots a program can reach\<close>

lemma root_init_spec:
  "\<exists>r. ur_root_init = Some r \<and> root_wf r \<and> at_fill (atoms r) = 0 \<and> ce_fill (cells r) = 0"
proof -
  have g: "ur_dict_grow mugf dict_null p s = dict_grow mugf dict_null p s" for mugf p s
    by (simp add: ur_dict_grow_def)
  obtain ad :: dict_set where ad: "dict_grow (ur_nref_mug root_zero) dict_null ur_fib11 ur_fib12 = Some ad"
    and w: "dict_wf (ur_nref_mug root_zero) ad" "dict_map ad = Map.empty"
    using dict_new [of ur_fib11 ur_fib12 "ur_nref_mug root_zero"] by (auto simp: ur_fib11_def ur_fib12_def)
  let ?a = "ur_atoms_grow ((atoms root_zero)\<lparr>at_prev := ur_fib11, at_size := ur_fib12\<rparr>)"
  let ?c = "ur_cells_grow ((cells root_zero)\<lparr>ce_prev := ur_fib11, ce_size := ur_fib12\<rparr>)"
  let ?r = "\<lparr>cells = ?c\<lparr>ce_dict := ad\<rparr>, atoms = ?a\<lparr>at_dict := ad\<rparr>\<rparr>"
  have r: "ur_root_init = Some ?r"
    using ad by (simp add: ur_root_init_def Let_def g root_zero_def ur_atoms_grow_def ur_cells_grow_def)
  have mug: "ur_nref_mug ?r = ur_nref_mug root_zero"
    by (rule ext) (simp add: ur_nref_mug_def Let_def root_zero_def ur_atoms_grow_def ur_cells_grow_def cong: if_cong)
  have "root_wf ?r"
    unfolding root_wf_def atoms_wf_def cells_wf_def Let_def mug
    using w by (simp add: root_zero_def ur_atoms_grow_def ur_cells_grow_def at_fill_def ce_fill_def)
  moreover have "at_fill (atoms ?r) = 0" "ce_fill (cells ?r) = 0"
    by (simp_all add: root_zero_def ur_atoms_grow_def ur_cells_grow_def at_fill_def ce_fill_def)
  ultimately show ?thesis using r by blast
qed

text \<open>
  The roots that are built of nouns alone, by \<open>ur_coin64\<close>, \<open>ur_coin_bytes\<close> and \<open>ur_cons\<close>. What the
  bytes of a buffer build (\<open>ur_cue\<close>), and \<open>ur_coin_bytes_unsafe\<close>, which leaves it to its caller to strip the bytes,
  is with the serializer.
\<close>

inductive ur_reachable :: "ur_root \<Rightarrow> bool" where
  init: "ur_root_init = Some r \<Longrightarrow> ur_reachable r"
| coin64: "ur_reachable r \<Longrightarrow> ur_coin64 r n = Some (ref, r') \<Longrightarrow> ur_reachable r'"
| coin_bytes: "ur_reachable r \<Longrightarrow> ur_coin_bytes r len byt = Some (ref, r') \<Longrightarrow> ur_reachable r'"
| cons: "ur_reachable r \<Longrightarrow> root_ref r hed \<Longrightarrow> root_ref r tal \<Longrightarrow>
    ur_cons r hed tal = Some (ref, r') \<Longrightarrow> ur_reachable r'"

lemma reachable_wf: "ur_reachable r \<Longrightarrow> root_wf r \<and> root_canon r"
proof (induction rule: ur_reachable.induct)
  case (init r)
  obtain s where "ur_root_init = Some s" "root_wf s" "at_fill (atoms s) = 0"
    using root_init_spec by blast
  moreover have "s = r" using calculation(1) init(1) by (metis option.inject)
  ultimately have "root_wf r" "at_fill (atoms r) = 0" by blast+
  then show ?case unfolding root_canon_def by (metis less_nat_zero_code)
next
  case (coin64 r n ref r')
  then have "root_wf r' \<and> root_canon r'"
    using coin64_post [of r n ref r'] bytes64_canon [of n] coin_post_canon [of r 8 "bytes64 n" ref r']
    by (auto simp: coin_post_def)
  then show ?case .
next
  case (coin_bytes r len byt ref r')
  then show ?case using coin_bytes_post by blast
next
  case (cons r hed tal ref r')
  then have post: "cons_post r hed tal ref r'" using cons_spec by blast
  have "root_canon r'" using cons_post_canon [OF post] cons.IH by blast
  then show ?case using post by (simp add: cons_post_def)
qed

lemma init_cons:
  assumes "ur_root_init = Some r" "root_ref r a" "root_ref r b"
  shows "\<exists>c r'. ur_cons r a b = Some (c, r')"
proof -
  have wf: "root_wf r" using reachable_wf [OF ur_reachable.init [OF assms(1)]] by simp
  obtain s where "ur_root_init = Some s" "ce_fill (cells s) = 0" using root_init_spec by blast
  then have fill: "ce_fill (cells r) = 0" using assms(1) by (metis option.inject)
  then have dom: "dict_map (ce_dict (cells r)) = Map.empty"
    using cells_wfD(5) [of r] wf by (simp add: root_wf_def)
  obtain hm tm where m: "ur_nref_mug r a = Some hm" "ur_nref_mug r b = Some tm"
    using root_ref_mug [OF wf] assms(2,3) by blast
  show ?thesis
    by (rule cons_total [OF wf assms(2,3) m])
      (simp_all add: fill dom cells_spread_def mug_spread_def cells_share_def ur_pail_max_def)
qed

text \<open>Small atoms from bytes.\<close>

lemma strip_zeros_value: "strip_zeros len byt = 0 \<longleftrightarrow> bytes_nat (take len byt) = 0"
proof
  assume "bytes_nat (take len byt) = 0"
  then show "strip_zeros len byt = 0"
    using strip_zeros_last [of len byt] met0_bytes_nat [of "take (strip_zeros len byt) byt"]
      bytes_nat_strip [of len byt] met0_byte_bounds by fastforce
qed (use bytes_nat_strip [of len byt] in simp)

lemma take_Suc_value:
  "i < length byt \<Longrightarrow> bytes_nat (take (Suc i) byt) = bytes_nat (take i byt) + 256 ^ i * unat (byt ! i)"
  using bytes_nat_snoc [of "take i byt" "byt ! i"] by (simp add: take_Suc_conv_app_nth)

lemma coin_direct_defined:
  assumes "len \<le> length byt"
  shows "coin_direct len byt \<noteq> None \<longleftrightarrow> len \<le> 3 \<or> len = 4 \<and> byt ! 3 < 0x80"
  using assms
proof (induction len)
  case (Suc i)
  then show ?case by (auto simp: at_index_def bind_eq_None_conv split: if_splits)
qed simp

lemma coin_direct_range:
  assumes "len \<le> length byt" "len \<noteq> 0" "byt ! (len - 1) \<noteq> 0"
  shows "coin_direct len byt \<noteq> None \<longleftrightarrow> bytes_nat (take len byt) < 2 ^ 31"
proof -
  obtain i where i: "len = Suc i" "i < length byt" using assms by (cases len) auto
  let ?v = "bytes_nat (take len byt)" and ?b = "unat (byt ! i)"
  have v: "?v = bytes_nat (take i byt) + 256 ^ i * ?b" using take_Suc_value [OF i(2)] i(1) by simp
  have lo: "bytes_nat (take i byt) < 256 ^ i" using bytes_nat_less [of "take i byt"] i(2) by simp
  have b: "1 \<le> ?b" "?b \<le> 255" using assms(3) i unsigned_less [of "byt ! i", where 'a = nat]
    by (auto simp: unat_gt_0 Suc_le_eq)
  have b80: "byt ! 3 < 0x80 \<longleftrightarrow> unat (byt ! 3) < 128" by (simp add: word_less_nat_alt)
  consider "i \<le> 2" | "i = 3" | "4 \<le> i" by linarith
  then show ?thesis
  proof cases
    case 1
    have "?v < 256 ^ Suc i" using bytes_nat_less [of "take len byt"] assms(1) i(1) by simp
    also have "\<dots> \<le> 256 ^ 3" using 1 by (intro power_increasing) simp_all
    finally show ?thesis using 1 i(1) coin_direct_defined [OF assms(1)] by simp
  next
    case 2
    then show ?thesis using v lo i(1) coin_direct_defined [OF assms(1)] b80 by simp linarith
  next
    case 3
    have "(256 :: nat) ^ 4 \<le> 256 ^ i" using 3 by (intro power_increasing) simp_all
    also have "\<dots> \<le> 256 ^ i * ?b" using b by simp
    finally have "2 ^ 31 \<le> ?v" unfolding v by simp
    then show ?thesis using 3 i(1) coin_direct_defined [OF assms(1)] by simp
  qed
qed

lemma coin_bytes_direct:
  assumes "len \<le> length byt" "bytes_nat (take len byt) < 2 ^ 62"
  shows "ur_coin_bytes r len byt =
    (if bytes_nat (take len byt) \<in> {1..<2 ^ 31} then Some (of_nat (bytes_nat (take len byt)), r) else None)"
proof (cases "bytes_nat (take len byt) = 0")
  case True
  then have "strip_zeros len byt = 0" by (simp add: strip_zeros_value)
  then show ?thesis using True by (simp add: ur_coin_bytes_def Let_def ur_met0_bytes_unsafe_def)
next
  case False
  let ?n = "strip_zeros len byt" and ?v = "bytes_nat (take len byt)"
  have n: "?n \<noteq> 0" using False by (simp add: strip_zeros_value)
  have le: "?n \<le> length byt" by (rule strip_zeros_le)
  have v: "bytes_nat (take ?n byt) = ?v" by (rule bytes_nat_strip)
  have "byt ! (?n - 1) \<noteq> 0"
    using strip_zeros_last [OF n] le n by (simp add: last_conv_nth)
  then have d: "coin_direct ?n byt \<noteq> None \<longleftrightarrow> ?v < 2 ^ 31"
    using coin_direct_range [OF le n] v by simp
  have r: "ur_coin_bytes r len byt = do { direct \<leftarrow> coin_direct ?n byt; Some (direct, r) }"
    using met0_strip [OF n] assms(2) by (simp add: ur_coin_bytes_def Let_def met0_le_iff)
  show ?thesis
  proof (cases "coin_direct ?n byt")
    case None
    then show ?thesis using r d by simp
  next
    case (Some x)
    then have "unat x = ?v" using coin_direct_value [OF Some le] v by simp
    then have "x = of_nat ?v" by (metis of_nat_unat ucast_id)
    then show ?thesis using r d Some False by simp
  qed
qed

section \<open>Properties\<close>

text \<open>
  Hash consing: in every root that these constructors build, a reference stands for exactly one
  noun and equal nouns have equal references, so comparing references compares nouns.
\<close>
lemma refs_are_nouns:
  assumes "ur_reachable r" "root_ref r a" "root_ref r b"
  shows "\<exists>n m. rep r a n \<and> rep r b m \<and> (a = b \<longleftrightarrow> n = m)"
proof -
  note wf = reachable_wf [OF assms(1)]
  obtain n m where "rep r a n" "rep r b m" using root_ref_rep wf assms(2,3) by blast
  then show ?thesis using rep_unique [of r] rep_det [of r] wf by blast
qed

lemma refs_are_nouns_witness:
  "\<exists>r n m. ur_root_init = Some r \<and> rep r 3 n \<and> rep r 4 m \<and> (3 = (4 :: nref) \<longleftrightarrow> n = m)"
proof -
  obtain r where r: "ur_root_init = Some r" using root_init_spec by blast
  have "root_ref r 3" "root_ref r 4" by (simp_all add: root_ref_def ref_below_def direct_value)
  from refs_are_nouns [OF ur_reachable.init [OF r] this] r show ?thesis by blast
qed

text \<open>
  Consing two references gives a reference to the cell of their nouns, with these two
  as its head and tail; the root keeps its invariant, every older reference keeps its noun, and
  no other reference stands for the new cell.
\<close>
lemma cons_makes_cell:
  assumes "ur_reachable r" "rep r a h" "rep r b t" "ur_cons r a b = Some (c, r')"
  shows "rep r' c (Cell h t) \<and> ur_head r' c = Some a \<and> ur_tail r' c = Some b \<and> ur_reachable r' \<and>
         (\<forall>x n. rep r x n \<longrightarrow> rep r' x n) \<and> (\<forall>x. rep r' x (Cell h t) \<longrightarrow> x = c)"
proof -
  note wf = reachable_wf [OF assms(1)]
  have refs: "root_ref r a" "root_ref r b" using rep_root_ref assms(2,3) by blast+
  have post: "cons_post r a b c r'" by (rule cons_spec [OF assms(4)]) (use wf refs in simp_all)
  have reach: "ur_reachable r'" by (rule ur_reachable.cons [OF assms(1) refs assms(4)])
  note wf' = reachable_wf [OF reach]
  have ext: "root_ext r r'" using post by (simp add: cons_post_def)
  have rep: "rep r' c (Cell h t)" by (rule cons_post_rep [OF post]) (use wf assms in simp_all)
  obtain i where "i < ce_fill (cells r')" "c = nref_of ur_icell i"
      "ce_heads (cells r') ! i = a" "ce_tails (cells r') ! i = b" and "cells_wf r'"
    using post by (auto simp: cons_post_def root_wf_def)
  then have "ur_head r' c = Some a" "ur_tail r' c = Some b" using icell_lookup(4,5) by auto
  then show ?thesis using rep reach rep_ext [OF _ ext] rep_unique [of r' _ "Cell h t"] wf wf' by blast
qed

lemma cons_makes_cell_witness:
  "\<exists>r c r'. ur_root_init = Some r \<and> ur_cons r 3 4 = Some (c, r') \<and> rep r' c (Cell (Atom 3) (Atom 4))"
proof -
  obtain r where r: "ur_root_init = Some r" using root_init_spec by blast
  have reps: "rep r 3 (Atom 3)" "rep r 4 (Atom 4)"
    using rep_direct [of 3 r] rep_direct [of 4 r] by (simp_all add: direct_value)
  obtain c r' where "ur_cons r 3 4 = Some (c, r')"
    using init_cons [OF r rep_root_ref [OF reps(1)] rep_root_ref [OF reps(2)]] by blast
  with cons_makes_cell [OF ur_reachable.init [OF r] reps] r show ?thesis by blast
qed

text \<open>
  Making an atom from 64 bits gives a reference to that number: the number itself
  when it fits 62 bits, and a stored atom otherwise; no other reference stands for it, and every
  older reference keeps its noun.
\<close>
lemma coin64_makes_atom:
  assumes "ur_reachable r" "ur_coin64 r n = Some (ref, r')"
  shows "rep r' ref (Atom (unat n)) \<and> (unat n < 2 ^ 62 \<longrightarrow> ref = n \<and> r' = r) \<and> ur_reachable r' \<and>
         (\<forall>x m. rep r x m \<longrightarrow> rep r' x m) \<and> (\<forall>x. rep r' x (Atom (unat n)) \<longrightarrow> x = ref)"
proof -
  note wf = reachable_wf [OF assms(1)]
  have reach: "ur_reachable r'" by (rule ur_reachable.coin64 [OF assms])
  note wf' = reachable_wf [OF reach]
  consider (direct) "ref = n" "r' = r" "ur_nref_tag n = ur_direct"
    | (indirect) "ur_nref_tag n \<noteq> ur_direct" "coin_post r 8 (bytes64 n) ref r'"
    using coin64_post [OF assms(2)] wf by blast
  then have "rep r' ref (Atom (unat n)) \<and> (unat n < 2 ^ 62 \<longrightarrow> ref = n \<and> r' = r) \<and> root_ext r r'"
  proof cases
    case direct
    then show ?thesis using rep_direct [of n r] by simp
  next
    case indirect
    then show ?thesis
      using coin_post_rep [OF indirect(2)] by (simp add: bytes_nat_bytes64 direct_value coin_post_def)
  qed
  then show ?thesis using reach rep_ext wf rep_unique [of r' _ "Atom (unat n)"] wf' by blast
qed

lemma coin64_makes_atom_witness:
  "\<exists>r. ur_root_init = Some r \<and> ur_coin64 r 5 = Some (5, r) \<and> rep r 5 (Atom 5)"
proof -
  obtain r where r: "ur_root_init = Some r" using root_init_spec by blast
  have c: "ur_coin64 r 5 = Some (5, r)" by (simp add: ur_coin64_def direct_value)
  from coin64_makes_atom [OF ur_reachable.init [OF r] c] r c show ?thesis by (intro exI [of _ r]) simp
qed

text \<open>
  C39: An atom made from bytes stands for their little-endian value, trailing zero bytes
  dropped.  Below 62 bits, where the code assembles a direct reference, it does so only for
  the values from 1 to 2 ^ 31 - 1: the shift of an \<open>int\<close> is undefined beyond these, and for
  the value 0 the byte before the buffer is read.
\<close>
theorem coin_bytes_makes_atom:
  assumes "ur_reachable r" "len \<le> length byt"
  shows "(\<forall>ref r'. ur_coin_bytes r len byt = Some (ref, r') \<longrightarrow>
            rep r' ref (Atom (bytes_nat (take len byt))) \<and> ur_reachable r' \<and>
            (\<forall>x m. rep r x m \<longrightarrow> rep r' x m)) \<and>
         (bytes_nat (take len byt) < 2 ^ 62 \<longrightarrow>
            ur_coin_bytes r len byt =
              (if bytes_nat (take len byt) \<in> {1..<2 ^ 31}
               then Some (of_nat (bytes_nat (take len byt)), r) else None))"
proof (intro conjI allI impI)
  note wf = reachable_wf [OF assms(1)]
  fix ref r'
  assume c: "ur_coin_bytes r len byt = Some (ref, r')"
  note post = coin_bytes_post [OF c]
  show "rep r' ref (Atom (bytes_nat (take len byt)))" using post wf by blast
  show "ur_reachable r'" by (rule ur_reachable.coin_bytes [OF assms(1) c])
  show "rep r' x m" if "rep r x m" for x m using rep_ext [OF that] post wf by blast
qed (rule coin_bytes_direct [OF assms(2)])

lemma coin_bytes_makes_atom_witness:
  "\<exists>r. ur_root_init = Some r \<and> ur_coin_bytes r 2 [7, 0] = Some (7, r) \<and>
       ur_coin_bytes r 2 [0, 0] = None \<and> ur_coin_bytes r 4 [0, 0, 0, 0x80] = None \<and>
       ur_coin_bytes r 5 [0, 0, 0, 0, 1] = None"
proof -
  obtain r where r: "ur_root_init = Some r" using root_init_spec by blast
  note c = coin_bytes_makes_atom [OF ur_reachable.init [OF r], THEN conjunct2, rule_format]
  have v: "bytes_nat [7, 0] = 7" "bytes_nat [0, 0] = 0" "bytes_nat [0, 0, 0, 0x80] = 2 ^ 31"
    "bytes_nat [0, 0, 0, 0, 1] = 2 ^ 32"
    by (simp_all add: bytes_nat_def bits_nat_def bytes_bits_Cons bits_of_def upt_rec bit_simps)
  show ?thesis using c [of 2 "[7, 0]"] c [of 2 "[0, 0]"] c [of 4 "[0, 0, 0, 0x80]"]
      c [of 5 "[0, 0, 0, 0, 1]"] v r by (intro exI [of _ r]) simp
qed

text \<open>
  C40: Interning ends: in a root in which no mug is shared by more than \<open>ur_pail_max\<close> entries,
  making a cell or a large atom returns, when the new entry does not exceed that bound either
  and there is an index left for it.
\<close>
theorem interning_terminates:
  assumes "ur_reachable r"
  shows "(root_ref r a \<and> root_ref r b \<and> ur_nref_mug r a = Some hm \<and> ur_nref_mug r b = Some tm \<and>
          ce_fill (cells r) < 2 ^ 62 \<and> cells_spread r \<and>
          cells_share r (ur_mug_both hm tm) < ur_pail_max \<longrightarrow> ur_cons r a b \<noteq> None) \<and>
         (at_fill (atoms r) < 2 ^ 62 \<and> atoms_spread r \<and>
          atoms_share r (ur_mug_bytes (bytes64 n) 8) < ur_pail_max \<longrightarrow> ur_coin64 r n \<noteq> None)"
proof (intro conjI impI)
  note wf = reachable_wf [OF assms]
  assume "root_ref r a \<and> root_ref r b \<and> ur_nref_mug r a = Some hm \<and> ur_nref_mug r b = Some tm \<and>
      ce_fill (cells r) < 2 ^ 62 \<and> cells_spread r \<and> cells_share r (ur_mug_both hm tm) < ur_pail_max"
  then show "ur_cons r a b \<noteq> None" using cons_total [of r a b hm tm] wf by auto
next
  note wf = reachable_wf [OF assms]
  assume a: "at_fill (atoms r) < 2 ^ 62 \<and> atoms_spread r \<and>
      atoms_share r (ur_mug_bytes (bytes64 n) 8) < ur_pail_max"
  have "met3 (unat n) = 8" if "ur_nref_tag n \<noteq> ur_direct"
  proof -
    have "\<not> met0 (unat n) \<le> 62" using that by (simp add: direct_value met0_le_iff)
    moreover have "met0 (unat n) \<le> 64" using unsigned_less [of n, where 'a = nat] by (simp add: met0_le_iff)
    ultimately have "met0 (unat n) = 63 \<or> met0 (unat n) = 64" by linarith
    then show ?thesis by (auto simp: met3_def)
  qed
  then show "ur_coin64 r n \<noteq> None"
    using a wf coin_bytes_total [of r 8 "bytes64 n"] by (auto simp: ur_coin64_def)
qed

lemma interning_terminates_witness:
  "\<exists>r. ur_root_init = Some r \<and> ur_coin64 r (2 ^ 63) \<noteq> None"
proof -
  obtain r where r: "ur_root_init = Some r" "root_wf r" "at_fill (atoms r) = 0" using root_init_spec by blast
  then have dom: "dict_map (at_dict (atoms r)) = Map.empty" using atoms_wfD(5) [of r] by (simp add: root_wf_def)
  have "at_fill (atoms r) < 2 ^ 62 \<and> atoms_spread r \<and>
      atoms_share r (ur_mug_bytes (bytes64 (2 ^ 63)) 8) < ur_pail_max"
    using r(3) dom by (simp add: atoms_spread_def mug_spread_def atoms_share_def ur_pail_max_def)
  with interning_terminates [OF ur_reachable.init [OF r(1)], THEN conjunct2] r(1) show ?thesis by blast
qed

text \<open>
  The measure of an atom at block size 2 ^ bloq is its bit length, rounded up to whole
  blocks.
\<close>
lemma met_rounds_up:
  assumes "ur_reachable r" "rep r ref (Atom a)"
  shows "ur_met r bloq ref = Some ((met0 a + (2 ^ bloq - 1)) div 2 ^ bloq)"
  using ur_met_bits [OF assms(2)] reachable_wf [OF assms(1)] by blast

lemma met_rounds_up_witness: "\<exists>r. ur_root_init = Some r \<and> ur_met r 3 300 = Some 2"
proof -
  obtain r where r: "ur_root_init = Some r" using root_init_spec by blast
  have "rep r 300 (Atom 300)" using rep_direct [of 300 r] by (simp add: direct_value)
  from met_rounds_up [OF ur_reachable.init [OF r] this, of 3] r
  show ?thesis by (intro exI [of _ r]) (simp add: met0.simps)
qed

text \<open>A mug is a non-zero number of 31 bits, of bytes, numbers and cells alike.\<close>
lemma mug_range:
  "\<forall>m \<in> {ur_mug_bytes byt len, ur_mug32 x, ur_mug64 y, ur_mug_both a b}. m \<noteq> 0 \<and> unat m < 2 ^ 31"
proof -
  have bytes: "ur_mug_bytes byt len \<noteq> 0 \<and> unat (ur_mug_bytes byt len) < 2 ^ 31" for byt len
    unfolding ur_mug_bytes_def by (rule mug_loop_range) simp_all
  have "ur_mug_both a b \<noteq> 0 \<and> unat (ur_mug_both a b) < 2 ^ 31"
    unfolding ur_mug_both_def Let_def by (rule mug_loop_range) simp_all
  then show ?thesis
    using bytes [of byt len] bytes [of "bytes32 x" "met3 (unat x)"] bytes [of "bytes64 y" "met3 (unat y)"]
    by (simp add: ur_mug32_def ur_mug64_def)
qed

lemma mug_range_witness: "ur_mug32 0 \<noteq> 0"
  using mug_range [of "[]" 0 0 0 0 0] by simp

end
