(* ===== verification/Walk.thy ===== *)
theory Walk
  imports Nouns
begin

text \<open>
  The depth-first traversal of \<open>pkg/ur/hashcons.c\<close> (\<open>ur_walk_fore\<close>): an explicit stack of
  references in an array with fibonacci growth, and two callbacks, one for atoms and one for
  cells; a cell callback that answers false skips the cell's children.

  A result \<open>None\<close> is a failed assertion, a write outside the stack or a callback that fails.
\<close>

section \<open>The walk\<close>

text \<open>
  The stack array has \<open>walk_size\<close> entries.  Its contents below the cursor \<open>fill\<close> are a
  list, top first; the reference under the cursor is the current one.
\<close>

record walk =
  walk_prev :: nat
  walk_size :: nat

definition ur_walk_fore_init_with :: "nat \<Rightarrow> nat \<Rightarrow> walk" where
  "ur_walk_fore_init_with s_prev s_size = \<lparr>walk_prev = s_prev, walk_size = s_size\<rparr>"

definition ur_walk_fore_init :: walk where
  "ur_walk_fore_init = ur_walk_fore_init_with ur_fib10 ur_fib11"

text \<open>
  Writing the tail at \<open>fill\<close>, growing the stack when that fills it (the sum is 32 bits wide),
  and writing the head above it.
\<close>

definition walk_room :: "walk \<Rightarrow> nat \<Rightarrow> walk option" where
  "walk_room w fill =
     (let w1 = (if walk_size w = fill + 1
                then \<lparr>walk_prev = walk_size w, walk_size = (walk_prev w + walk_size w) mod 2 ^ 32\<rparr>
                else w)
      in if fill < walk_size w \<and> fill + 1 < walk_size w1 then Some w1 else None)"

partial_function (option) walk_loop ::
  "ur_root \<Rightarrow> (ur_root \<Rightarrow> nref \<Rightarrow> 'v \<Rightarrow> 'v option) \<Rightarrow> (ur_root \<Rightarrow> nref \<Rightarrow> 'v \<Rightarrow> (bool \<times> 'v) option) \<Rightarrow>
   walk \<Rightarrow> nref list \<Rightarrow> nref \<Rightarrow> 'v \<Rightarrow> (walk \<times> 'v) option" where
  "walk_loop r atom cell w stk ref v =
     do { (pop, v1) \<leftarrow> (if \<not> ur_deep ref then do { v1 \<leftarrow> atom r ref v; Some (True, v1) }
                        else do { (go, v1) \<leftarrow> cell r ref v; Some (\<not> go, v1) });
          if pop then
            (if tl stk = [] then Some (w, v1) else walk_loop r atom cell w (tl stk) (hd stk) v1)
          else
            do { tal \<leftarrow> ur_tail r ref;
                 w1 \<leftarrow> walk_room w (length stk);
                 hed \<leftarrow> ur_head r ref;
                 walk_loop r atom cell w1 (tal # stk) hed v1 } }"

declare walk_loop.simps [code]

definition ur_walk_fore_with ::
  "ur_root \<Rightarrow> walk \<Rightarrow> nref \<Rightarrow> 'v \<Rightarrow> (ur_root \<Rightarrow> nref \<Rightarrow> 'v \<Rightarrow> 'v option) \<Rightarrow>
   (ur_root \<Rightarrow> nref \<Rightarrow> 'v \<Rightarrow> (bool \<times> 'v) option) \<Rightarrow> (walk \<times> 'v) option" where
  "ur_walk_fore_with r w ref v atom cell =
     (if 0 < walk_size w then walk_loop r atom cell w [ref] ref v else None)"

definition ur_walk_fore ::
  "ur_root \<Rightarrow> nref \<Rightarrow> 'v \<Rightarrow> (ur_root \<Rightarrow> nref \<Rightarrow> 'v \<Rightarrow> 'v option) \<Rightarrow>
   (ur_root \<Rightarrow> nref \<Rightarrow> 'v \<Rightarrow> (bool \<times> 'v) option) \<Rightarrow> 'v option" where
  "ur_walk_fore r ref v atom cell =
     do { (_, v1) \<leftarrow> ur_walk_fore_with r ur_walk_fore_init ref v atom cell; Some v1 }"

section \<open>The walk is the recursion over the noun\<close>

text \<open>What a walk does, by recursion on the noun that the reference stands for.\<close>

primrec visit ::
  "ur_root \<Rightarrow> (ur_root \<Rightarrow> nref \<Rightarrow> 'v \<Rightarrow> 'v option) \<Rightarrow> (ur_root \<Rightarrow> nref \<Rightarrow> 'v \<Rightarrow> (bool \<times> 'v) option) \<Rightarrow>
   noun \<Rightarrow> nref \<Rightarrow> 'v \<Rightarrow> 'v option" where
  "visit r atom cell (Atom a) ref v = atom r ref v"
| "visit r atom cell (Cell h t) ref v =
     do { (go, v1) \<leftarrow> cell r ref v;
          if go then
            do { hed \<leftarrow> ur_head r ref;
                 tal \<leftarrow> ur_tail r ref;
                 v2 \<leftarrow> visit r atom cell h hed v1;
                 visit r atom cell t tal v2 }
          else Some v1 }"

primrec noun_depth :: "noun \<Rightarrow> nat" where
  "noun_depth (Atom a) = 0"
| "noun_depth (Cell h t) = Suc (max (noun_depth h) (noun_depth t))"

definition walk_wf :: "walk \<Rightarrow> nat \<Rightarrow> bool" where
  "walk_wf w fill \<longleftrightarrow> 0 < walk_prev w \<and> walk_prev w \<le> walk_size w \<and> fill < walk_size w"

lemma walk_wf_less: "walk_wf w n \<Longrightarrow> m \<le> n \<Longrightarrow> walk_wf w m"
  by (auto simp: walk_wf_def)

lemma walk_room_wf:
  assumes "walk_wf w fill" "fill + 1 < 2 ^ 31"
  shows "\<exists>w1. walk_room w fill = Some w1 \<and> walk_wf w1 (fill + 1)"
proof (cases "walk_size w = fill + 1")
  case True
  have "walk_prev w + walk_size w < 2 ^ 32" using assms True by (simp add: walk_wf_def)
  then have "(walk_prev w + walk_size w) mod 2 ^ 32 = walk_prev w + walk_size w" by (rule mod_less)
  then show ?thesis using True assms(1) by (simp add: walk_room_def walk_wf_def Let_def)
next
  case False
  then show ?thesis using assms(1) by (simp add: walk_room_def walk_wf_def Let_def)
qed

lemma rep_Cell_lookup:
  assumes "rep r ref (Cell h t)" "root_wf r"
  obtains a b where "ur_deep ref" "ur_head r ref = Some a" "ur_tail r ref = Some b" "rep r a h" "rep r b t"
proof -
  let ?i = "ur_nref_idx ref"
  have "ur_nref_tag ref = ur_icell" "?i < ce_fill (cells r)" "rep r (ce_heads (cells r) ! ?i) h"
    "rep r (ce_tails (cells r) ! ?i) t"
    using rep_CellE [OF assms(1)] by blast+
  moreover have "length (ce_tails (cells r)) = ce_fill (cells r)"
    using assms(2) cells_wfD(2) [of r] by (simp add: root_wf_def)
  ultimately show ?thesis
    using that [of "ce_heads (cells r) ! ?i" "ce_tails (cells r) ! ?i"]
    by (simp add: ur_deep_def ur_head_def ur_tail_def at_index_def ce_fill_def)
qed

lemma rep_Atom_shallow: "rep r ref (Atom a) \<Longrightarrow> \<not> ur_deep ref"
  by (auto simp: rep_Atom_iff ur_deep_def tag_defs)

text \<open>The walk at a stack \<open>x # stk\<close> after the current noun: the end, or on to the entry below.\<close>

definition walk_pop ::
  "ur_root \<Rightarrow> (ur_root \<Rightarrow> nref \<Rightarrow> 'v \<Rightarrow> 'v option) \<Rightarrow> (ur_root \<Rightarrow> nref \<Rightarrow> 'v \<Rightarrow> (bool \<times> 'v) option) \<Rightarrow>
   walk \<Rightarrow> nref list \<Rightarrow> 'v \<Rightarrow> (walk \<times> 'v) option" where
  "walk_pop r atom cell w stk v =
     (if tl stk = [] then Some (w, v) else walk_loop r atom cell w (tl stk) (hd stk) v)"

lemma walk_loop_visit:
  assumes wf: "root_wf r"
  shows "rep r ref n \<Longrightarrow> walk_wf w (length stk) \<Longrightarrow> stk \<noteq> [] \<Longrightarrow> length stk + noun_depth n < 2 ^ 31 \<Longrightarrow>
    \<exists>w1. walk_wf w1 (length stk) \<and>
      walk_loop r atom cell w stk ref v =
        (case visit r atom cell n ref v of None \<Rightarrow> None | Some v1 \<Rightarrow> walk_pop r atom cell w1 stk v1)"
proof (induction n arbitrary: ref w stk v)
  case (Atom a)
  then show ?case
    by (intro exI [of _ w])
      (auto simp: walk_loop.simps [of r atom cell w stk ref v] rep_Atom_shallow walk_pop_def
        split: option.splits)
next
  case (Cell h t)
  obtain a b where d: "ur_deep ref" and a: "ur_head r ref = Some a" and b: "ur_tail r ref = Some b"
    and rep: "rep r a h" "rep r b t"
    using rep_Cell_lookup [OF Cell.prems(1) wf] .
  obtain w1 where w1: "walk_room w (length stk) = Some w1" "walk_wf w1 (length stk + 1)"
    using walk_room_wf [OF Cell.prems(2)] Cell.prems(4) by auto
  have depth: "Suc (length stk) + noun_depth h < 2 ^ 31" "length stk + noun_depth t < 2 ^ 31"
    using Cell.prems(4) max.cobounded1 [of "noun_depth h" "noun_depth t"]
      max.cobounded2 [of "noun_depth t" "noun_depth h"] by simp_all
  note loop = walk_loop.simps [of r atom cell w stk ref v]
  show ?case
  proof (cases "cell r ref v")
    case None
    then show ?thesis using d Cell.prems(2) by (intro exI [of _ w]) (simp add: loop)
  next
    case (Some res)
    obtain go v1 where res: "res = (go, v1)" by fastforce
    show ?thesis
    proof (cases go)
      case False
      then show ?thesis using d Cell.prems(2) Some res
        by (intro exI [of _ w]) (simp add: loop walk_pop_def)
    next
      case True
      have step: "walk_loop r atom cell w stk ref v = walk_loop r atom cell w1 (b # stk) a v1"
        using d a b w1(1) Some res True by (simp add: loop)
      obtain w2 where w2: "walk_wf w2 (length (b # stk))" and hed: "walk_loop r atom cell w1 (b # stk) a v1 =
          (case visit r atom cell h a v1 of None \<Rightarrow> None | Some v2 \<Rightarrow> walk_pop r atom cell w2 (b # stk) v2)"
        using Cell.IH(1) [OF rep(1), of w1 "b # stk" v1] w1(2) depth(1) by auto
      show ?thesis
      proof (cases "visit r atom cell h a v1")
        case None
        then show ?thesis
          using d a b step hed Some res True Cell.prems(2) by (intro exI [of _ w]) simp
      next
        case v2: (Some v2)
        have "walk_wf w2 (length stk)" by (rule walk_wf_less [OF w2]) simp
        from Cell.IH(2) [OF rep(2) this Cell.prems(3) depth(2), of v2]
        obtain w3 where "walk_wf w3 (length stk)" "walk_loop r atom cell w2 stk b v2 =
            (case visit r atom cell t b v2 of None \<Rightarrow> None | Some v3 \<Rightarrow> walk_pop r atom cell w3 stk v3)"
          by auto
        then show ?thesis
          using a b step hed Some res True Cell.prems(3) v2
          by (intro exI [of _ w3]) (simp add: walk_pop_def)
      qed
    qed
  qed
qed

text \<open>A noun is no deeper than the number of cells of its root.\<close>

lemma noun_depth_le:
  assumes "root_wf r" "rep r ref n" "ref_below r k ref" "k \<le> ce_fill (cells r)"
  shows "noun_depth n \<le> k"
  using assms(2-4)
proof (induction arbitrary: k rule: rep.induct)
  case (rep_icell ref h t)
  have c: "cells_wf r" using assms(1) by (simp add: root_wf_def)
  have i: "ur_nref_idx ref < k" using rep_icell by (auto simp: ref_below_def tag_defs)
  have "noun_depth h \<le> ur_nref_idx ref" "noun_depth t \<le> ur_nref_idx ref"
    using rep_icell.IH cells_wfD(6,7) [OF c rep_icell.hyps(2)] rep_icell.hyps(2) by simp_all
  then show ?case using i by simp
qed simp_all

lemma walk_fore_visit:
  assumes "root_wf r" "rep r ref n" "walk_wf w 1" "ce_fill (cells r) < 2 ^ 31 - 1"
  shows "\<exists>w1. walk_wf w1 1 \<and> ur_walk_fore_with r w ref v atom cell =
      (case visit r atom cell n ref v of None \<Rightarrow> None | Some v1 \<Rightarrow> Some (w1, v1))"
proof -
  have "noun_depth n \<le> ce_fill (cells r)"
    using noun_depth_le [OF assms(1,2)] rep_root_ref [OF assms(2)] by (simp add: root_ref_def)
  then obtain w1 where w1: "walk_wf w1 1" "walk_loop r atom cell w [ref] ref v =
      (case visit r atom cell n ref v of None \<Rightarrow> None | Some v1 \<Rightarrow> walk_pop r atom cell w1 [ref] v1)"
    using walk_loop_visit [OF assms(1,2), of w "[ref]" atom cell v] assms(3,4) by auto
  have "0 < walk_size w" using assms(3) by (simp add: walk_wf_def)
  then show ?thesis using w1 by (intro exI [of _ w1]) (simp add: ur_walk_fore_with_def walk_pop_def split: option.split)
qed

text \<open>
  C24: A walk visits a noun depth first, heads before tails, and skips the children of a cell
  whose callback says so: it gives what the recursion over the noun gives, for every pair of
  callbacks, and returns whenever they do.  The explicit stack never overflows when the root has
  fewer than 2 ^ 31 - 1 cells.
\<close>
theorem walk_is_recursion:
  assumes "ur_reachable r" "rep r ref n" "ce_fill (cells r) < 2 ^ 31 - 1"
  shows "ur_walk_fore r ref v atom cell = visit r atom cell n ref v"
proof -
  have "walk_wf ur_walk_fore_init 1"
    by (simp add: walk_wf_def ur_walk_fore_init_def ur_walk_fore_init_with_def ur_fib10_def ur_fib11_def)
  with walk_fore_visit [OF _ assms(2) this assms(3), of v atom cell] reachable_wf [OF assms(1)]
  show ?thesis by (cases "visit r atom cell n ref v") (auto simp: ur_walk_fore_def)
qed

lemma walk_is_recursion_witness:
  "\<exists>r. ur_root_init = Some r \<and> ur_walk_fore r 7 [] (\<lambda>_ a v. Some (a # v)) (\<lambda>_ _ v. Some (True, v)) = Some [7]"
proof -
  obtain r where r: "ur_root_init = Some r" "ce_fill (cells r) = 0" using root_init_spec by blast
  have "rep r 7 (Atom 7)" using rep_direct [of 7 r] by (simp add: direct_value)
  from walk_is_recursion [OF ur_reachable.init [OF r(1)] this] r
  show ?thesis by (intro exI [of _ r]) simp
qed

end
