(* ===== verification/Serial.thy ===== *)
theory Serial
  imports Walk Bitstream
begin

text \<open>
  The serialization of nouns of \<open>pkg/ur/serial.c\<close>: \<open>jam\<close> writes a noun as a bit stream with
  backreferences, \<open>cue\<close> reads one, and \<open>cue_test\<close> checks one without building it.

  The root is passed along where the code changes it.  A result \<open>None\<close> is an aborted process, a
  loop that never ends, or a read or write outside an array.  Allocation succeeds.
\<close>

section \<open>Jam\<close>

definition bsw_atom :: "ur_root \<Rightarrow> nref \<Rightarrow> bsw \<Rightarrow> nat \<Rightarrow> bsw option" where
  "bsw_atom r ref w len =
     (if ur_nref_tag ref = ur_direct then Some (ur_bsw_atom64 w len ref)
      else if ur_nref_tag ref = ur_iatom then
        do { byt \<leftarrow> at_index (at_bytes (atoms r)) (ur_nref_idx ref);
             Some (ur_bsw_atom_bytes w len byt) }
      else None)"

record jam =
  jam_walk :: walk
  jam_dict :: dict64
  jam_bsw :: bsw

definition jam_atom_cb :: "ur_root \<Rightarrow> nref \<Rightarrow> jam \<Rightarrow> jam option" where
  "jam_atom_cb r ref j =
     do { len \<leftarrow> ur_met r 0 ref;
          found \<leftarrow> ur_dict64_get (ur_nref_mug r) (jam_dict j) ref;
          case found of
            None \<Rightarrow>
              do { d \<leftarrow> ur_dict64_put (ur_nref_mug r) (jam_dict j) ref (of_nat (bsw_bits (jam_bsw j)));
                   w \<leftarrow> bsw_atom r ref (jam_bsw j) len;
                   Some (j\<lparr>jam_dict := d, jam_bsw := w\<rparr>) }
          | Some bak \<Rightarrow>
              let len_bak = met0 (unat bak)
              in if len \<le> len_bak
                 then do { w \<leftarrow> bsw_atom r ref (jam_bsw j) len; Some (j\<lparr>jam_bsw := w\<rparr>) }
                 else Some (j\<lparr>jam_bsw := ur_bsw_back64 (jam_bsw j) len_bak bak\<rparr>) }"

definition jam_cell_cb :: "ur_root \<Rightarrow> nref \<Rightarrow> jam \<Rightarrow> (bool \<times> jam) option" where
  "jam_cell_cb r ref j =
     do { found \<leftarrow> ur_dict64_get (ur_nref_mug r) (jam_dict j) ref;
          case found of
            None \<Rightarrow>
              do { d \<leftarrow> ur_dict64_put (ur_nref_mug r) (jam_dict j) ref (of_nat (bsw_bits (jam_bsw j)));
                   Some (True, j\<lparr>jam_dict := d, jam_bsw := ur_bsw_cell (jam_bsw j)\<rparr>) }
          | Some bak \<Rightarrow>
              Some (False, j\<lparr>jam_bsw := ur_bsw_back64 (jam_bsw j) (met0 (unat bak)) bak\<rparr>) }"

text \<open>The bits, the length and the bytes written, and the handle.\<close>

definition jam_run :: "ur_root \<Rightarrow> jam \<Rightarrow> nref \<Rightarrow> ((nat \<times> nat \<times> u8 list) \<times> jam) option" where
  "jam_run r j ref =
     (let j0 = j\<lparr>jam_bsw := ur_bsw_init (jam_bsw j) ur_fib11 ur_fib12\<rparr>
      in do { (w, j1) \<leftarrow> ur_walk_fore_with r (jam_walk j) ref j0 jam_atom_cb jam_cell_cb;
              let (out, bsw) = ur_bsw_done (jam_bsw j1)
              in Some (out, j1\<lparr>jam_walk := w, jam_bsw := bsw\<rparr>) })"

definition ur_jam_init_with :: "ur_root \<Rightarrow> nat \<Rightarrow> nat \<Rightarrow> nat \<Rightarrow> nat \<Rightarrow> jam option" where
  "ur_jam_init_with r d_prev d_size s_prev s_size =
     do { d \<leftarrow> ur_dict64_grow (ur_nref_mug r) dict_null d_prev d_size;
          Some \<lparr>jam_walk = ur_walk_fore_init_with s_prev s_size, jam_dict = d, jam_bsw = bsw_zero\<rparr> }"

definition ur_jam_init :: "ur_root \<Rightarrow> jam option" where
  "ur_jam_init r = ur_jam_init_with r ur_fib11 ur_fib12 ur_fib10 ur_fib11"

definition ur_jam_with :: "ur_root \<Rightarrow> jam \<Rightarrow> nref \<Rightarrow> ((nat \<times> nat \<times> u8 list) \<times> jam) option" where
  "ur_jam_with r j ref =
     do { (out, j1) \<leftarrow> jam_run r j ref;
          Some (out, j1\<lparr>jam_dict := ur_dict64_wipe (jam_dict j1)\<rparr>) }"

definition ur_jam :: "ur_root \<Rightarrow> nref \<Rightarrow> (nat \<times> nat \<times> u8 list) option" where
  "ur_jam r ref =
     do { j \<leftarrow> ur_jam_init r;
          (out, _) \<leftarrow> jam_run r j ref;
          Some out }"

section \<open>Cue\<close>

definition CUE_HEAD :: u64 where
  "CUE_HEAD = 0xffffffffffffffff"

record cue_frame =
  frame_ref :: nref
  frame_bits :: u64

text \<open>The stack: its frames, top first, and the capacity of its array.\<close>

record 'f cue_stack =
  cs_prev :: nat
  cs_size :: nat
  cs_frames :: "'f list"

text \<open>Growing a full stack (the sum is 32 bits wide) and writing the frame at \<open>fill\<close>.\<close>

definition cue_push :: "'f \<Rightarrow> 'f cue_stack \<Rightarrow> 'f cue_stack option" where
  "cue_push f s =
     (let fill = length (cs_frames s);
          s1 = (if fill = cs_size s
                then s\<lparr>cs_prev := cs_size s, cs_size := (cs_prev s + cs_size s) mod 2 ^ 32\<rparr>
                else s)
      in if fill < cs_size s1 then Some (s1\<lparr>cs_frames := f # cs_frames s\<rparr>) else None)"

record cue_state =
  cue_root :: ur_root
  cue_bsr :: bsr
  cue_stk :: "cue_frame cue_stack"
  cue_dict :: dict64

abbreviation cue_mug :: "cue_state \<Rightarrow> nref \<Rightarrow> mug option" where
  "cue_mug c \<equiv> ur_nref_mug (cue_root c)"

text \<open>The bytes of an atom that has no direct reference, trailing zeroes stripped.\<close>

definition cue_big_atom :: "cue_state \<Rightarrow> nat \<Rightarrow> (nref \<times> cue_state) option" where
  "cue_big_atom c len =
     (let len_byt = len div 8 + of_bool (len mod 8 \<noteq> 0);
          (byt, b) = ur_bsr_bytes_any (cue_bsr c) len (replicate len_byt 0)
      in do { (ref, r) \<leftarrow> ur_coin_bytes_unsafe (cue_root c) (strip_zeros len_byt byt) byt;
              Some (ref, c\<lparr>cue_root := r, cue_bsr := b\<rparr>) })"

partial_function (option) cue_next :: "cue_state \<Rightarrow> ((cue_err + nref) \<times> cue_state) option" where
  "cue_next c =
     (let bits = of_nat (bsr_bits (cue_bsr c)) :: u64; (res, b) = ur_bsr_tag (cue_bsr c);
          c1 = c\<lparr>cue_bsr := b\<rparr>
      in case res of
        Inl e \<Rightarrow> Some (Inl e, c1)
      | Inr jam_cell \<Rightarrow>
          do { s \<leftarrow> cue_push \<lparr>frame_ref = CUE_HEAD, frame_bits = bits\<rparr> (cue_stk c1);
               cue_next (c1\<lparr>cue_stk := s\<rparr>) }
      | Inr jam_back \<Rightarrow>
          (let (rl, b2) = ur_bsr_rub_len b; c2 = c1\<lparr>cue_bsr := b2\<rparr>
           in case rl of
             Inl e \<Rightarrow> Some (Inl e, c2)
           | Inr len \<Rightarrow>
               if 62 < len then Some (Inl cue_meme, c2)
               else
                 (let (bak, b3) = ur_bsr64_any b2 (unat len); c3 = c2\<lparr>cue_bsr := b3\<rparr>
                  in do { found \<leftarrow> ur_dict64_get (cue_mug c3) (cue_dict c3) bak;
                          case found of
                            None \<Rightarrow> Some (Inl cue_back, c3)
                          | Some val \<Rightarrow> Some (Inr val, c3) }))
      | Inr jam_atom \<Rightarrow>
          (let (rl, b2) = ur_bsr_rub_len b; c2 = c1\<lparr>cue_bsr := b2\<rparr>
           in case rl of
             Inl e \<Rightarrow> Some (Inl e, c2)
           | Inr len \<Rightarrow>
               do { (ref, c3) \<leftarrow>
                      (if len \<le> 62
                       then let (val, b3) = ur_bsr64_any b2 (unat len)
                            in Some (val, c2\<lparr>cue_bsr := b3\<rparr>)
                       else cue_big_atom c2 (unat len));
                    d \<leftarrow> ur_dict64_put (cue_mug c3) (cue_dict c3) bits ref;
                    Some (Inr ref, c3\<lparr>cue_dict := d\<rparr>) }))"

declare cue_next.simps [code]

partial_function (option) cue_loop ::
  "cue_state \<Rightarrow> cue_err + nref \<Rightarrow> ((cue_err + nref) \<times> cue_state) option" where
  "cue_loop c res =
     (case (res, cs_frames (cue_stk c)) of
        (Inr ref, f # fs) \<Rightarrow>
          if frame_ref f = CUE_HEAD then
            do { (res1, c1) \<leftarrow>
                   cue_next (c\<lparr>cue_stk := (cue_stk c)\<lparr>cs_frames := f\<lparr>frame_ref := ref\<rparr> # fs\<rparr>\<rparr>);
                 cue_loop c1 res1 }
          else
            do { (cel, r) \<leftarrow> ur_cons (cue_root c) (frame_ref f) ref;
                 d \<leftarrow> ur_dict64_put (ur_nref_mug r) (cue_dict c) (frame_bits f) cel;
                 cue_loop (c\<lparr>cue_root := r, cue_dict := d,
                            cue_stk := (cue_stk c)\<lparr>cs_frames := fs\<rparr>\<rparr>) (Inr cel) }
      | _ \<Rightarrow> Some (res, c))"

declare cue_loop.simps [code]

text \<open>The handle keeps the stack and the dictionary.\<close>

record cue =
  cue_hstk :: "cue_frame cue_stack"
  cue_hdict :: dict64

definition cue_run ::
  "ur_root \<Rightarrow> cue \<Rightarrow> nat \<Rightarrow> u8 list \<Rightarrow> ((cue_err + nref) \<times> ur_root \<times> cue) option" where
  "cue_run r h len byt =
     (case ur_bsr_init bsr_zero len byt of
        (Inl e, _) \<Rightarrow> Some (Inl e, r, h)
      | (Inr _, b) \<Rightarrow>
          if 0x7ffffffffffffff < len then Some (Inl cue_meme, r, h)
          else
            do { (res, c) \<leftarrow> cue_next \<lparr>cue_root = r, cue_bsr = b, cue_stk = cue_hstk h,
                                       cue_dict = cue_hdict h\<rparr>;
                 (res1, c1) \<leftarrow> cue_loop c res;
                 Some (res1, cue_root c1, \<lparr>cue_hstk = cue_stk c1, cue_hdict = cue_dict c1\<rparr>) })"

definition ur_cue_init_with :: "ur_root \<Rightarrow> nat \<Rightarrow> nat \<Rightarrow> nat \<Rightarrow> nat \<Rightarrow> cue option" where
  "ur_cue_init_with r d_prev d_size s_prev s_size =
     do { d \<leftarrow> ur_dict64_grow (ur_nref_mug r) dict_null d_prev d_size;
          Some \<lparr>cue_hstk = \<lparr>cs_prev = s_prev, cs_size = s_size, cs_frames = []\<rparr>, cue_hdict = d\<rparr> }"

definition ur_cue_init :: "ur_root \<Rightarrow> cue option" where
  "ur_cue_init r = ur_cue_init_with r ur_fib11 ur_fib12 ur_fib10 ur_fib11"

definition ur_cue_with ::
  "ur_root \<Rightarrow> cue \<Rightarrow> nat \<Rightarrow> u8 list \<Rightarrow> ((cue_err + nref) \<times> ur_root \<times> cue) option" where
  "ur_cue_with r h len byt =
     do { (res, r1, h1) \<leftarrow> cue_run r h len byt;
          Some (res, r1, \<lparr>cue_hstk = (cue_hstk h1)\<lparr>cs_frames := []\<rparr>,
                           cue_hdict = ur_dict64_wipe (cue_hdict h1)\<rparr>) }"

definition ur_cue :: "ur_root \<Rightarrow> nat \<Rightarrow> u8 list \<Rightarrow> ((cue_err + nref) \<times> ur_root) option" where
  "ur_cue r len byt =
     do { h \<leftarrow> ur_cue_init r;
          (res, r1, _) \<leftarrow> cue_run r h len byt;
          Some (res, r1) }"

section \<open>Cue test\<close>

text \<open>The dictionary of cursors without a root: only direct references have a mug.\<close>

definition null_mug :: "nref \<Rightarrow> mug option" where
  "null_mug ref = (if ur_nref_tag ref = ur_direct then Some (ur_mug64 ref) else None)"

record test_frame =
  test_tal :: bool
  test_bits :: u64

record cue_test =
  test_bsr :: bsr
  test_stk :: "test_frame cue_stack"
  test_dict :: dict_set

partial_function (option) cue_test_next :: "cue_test \<Rightarrow> ((cue_err + unit) \<times> cue_test) option" where
  "cue_test_next t =
     (let bits = of_nat (bsr_bits (test_bsr t)) :: u64; (res, b) = ur_bsr_tag (test_bsr t);
          t1 = t\<lparr>test_bsr := b\<rparr>
      in case res of
        Inl e \<Rightarrow> Some (Inl e, t1)
      | Inr jam_cell \<Rightarrow>
          do { s \<leftarrow> cue_push \<lparr>test_tal = False, test_bits = bits\<rparr> (test_stk t1);
               cue_test_next (t1\<lparr>test_stk := s\<rparr>) }
      | Inr jam_back \<Rightarrow>
          (let (rl, b2) = ur_bsr_rub_len b; t2 = t1\<lparr>test_bsr := b2\<rparr>
           in case rl of
             Inl e \<Rightarrow> Some (Inl e, t2)
           | Inr len \<Rightarrow>
               if 62 < len then Some (Inl cue_meme, t2)
               else
                 (let (bak, b3) = ur_bsr64_any b2 (unat len); t3 = t2\<lparr>test_bsr := b3\<rparr>
                  in do { found \<leftarrow> ur_dict_get null_mug (test_dict t3) bak;
                          Some (if found then Inr () else Inl cue_back, t3) }))
      | Inr jam_atom \<Rightarrow>
          (let (rl, b2) = ur_bsr_rub_len b; t2 = t1\<lparr>test_bsr := b2\<rparr>
           in case rl of
             Inl e \<Rightarrow> Some (Inl e, t2)
           | Inr len \<Rightarrow>
               let t3 = t2\<lparr>test_bsr := ur_bsr_skip_any b2 (unat len)\<rparr>
               in do { d \<leftarrow> ur_dict_put null_mug (test_dict t3) bits;
                       Some (Inr (), t3\<lparr>test_dict := d\<rparr>) }))"

declare cue_test_next.simps [code]

partial_function (option) cue_test_loop ::
  "cue_test \<Rightarrow> cue_err + unit \<Rightarrow> ((cue_err + unit) \<times> cue_test) option" where
  "cue_test_loop t res =
     (case (res, cs_frames (test_stk t)) of
        (Inr _, f # fs) \<Rightarrow>
          if \<not> test_tal f then
            do { (res1, t1) \<leftarrow>
                   cue_test_next (t\<lparr>test_stk := (test_stk t)\<lparr>cs_frames := f\<lparr>test_tal := True\<rparr> # fs\<rparr>\<rparr>);
                 cue_test_loop t1 res1 }
          else
            do { d \<leftarrow> ur_dict_put null_mug (test_dict t) (test_bits f);
                 cue_test_loop (t\<lparr>test_dict := d, test_stk := (test_stk t)\<lparr>cs_frames := fs\<rparr>\<rparr>) res }
      | _ \<Rightarrow> Some (res, t))"

declare cue_test_loop.simps [code]

record cue_test_handle =
  test_hstk :: "test_frame cue_stack"
  test_hdict :: dict_set

definition cue_test_run ::
  "cue_test_handle \<Rightarrow> nat \<Rightarrow> u8 list \<Rightarrow> ((cue_err + unit) \<times> cue_test_handle) option" where
  "cue_test_run h len byt =
     (case ur_bsr_init bsr_zero len byt of
        (Inl e, _) \<Rightarrow> Some (Inl e, h)
      | (Inr _, b) \<Rightarrow>
          if 0x7ffffffffffffff < len then Some (Inl cue_meme, h)
          else
            do { (res, t) \<leftarrow> cue_test_next \<lparr>test_bsr = b, test_stk = test_hstk h, test_dict = test_hdict h\<rparr>;
                 (res1, t1) \<leftarrow> cue_test_loop t res;
                 Some (res1, \<lparr>test_hstk = test_stk t1, test_hdict = test_dict t1\<rparr>) })"

definition ur_cue_test_init_with :: "nat \<Rightarrow> nat \<Rightarrow> nat \<Rightarrow> nat \<Rightarrow> cue_test_handle option" where
  "ur_cue_test_init_with d_prev d_size s_prev s_size =
     do { d \<leftarrow> ur_dict_grow null_mug dict_null d_prev d_size;
          Some \<lparr>test_hstk = \<lparr>cs_prev = s_prev, cs_size = s_size, cs_frames = []\<rparr>, test_hdict = d\<rparr> }"

definition ur_cue_test_init :: "cue_test_handle option" where
  "ur_cue_test_init = ur_cue_test_init_with ur_fib11 ur_fib12 ur_fib10 ur_fib11"

definition ur_cue_test_with ::
  "cue_test_handle \<Rightarrow> nat \<Rightarrow> u8 list \<Rightarrow> (bool \<times> cue_test_handle) option" where
  "ur_cue_test_with h len byt =
     do { (res, h1) \<leftarrow> cue_test_run h len byt;
          Some (res = Inr (), \<lparr>test_hstk = (test_hstk h1)\<lparr>cs_frames := []\<rparr>,
                                test_hdict = ur_dict_wipe (test_hdict h1)\<rparr>) }"

definition ur_cue_test :: "nat \<Rightarrow> u8 list \<Rightarrow> bool option" where
  "ur_cue_test len byt =
     do { h \<leftarrow> ur_cue_test_init;
          (res, _) \<leftarrow> cue_test_run h len byt;
          Some (res = Inr ()) }"

end
