(* ===== verification/CueJam.thy ===== *)
theory CueJam
  imports Serial
begin

text \<open>
  What the serialization of \<open>pkg/ur/serial.c\<close> does to nouns: \<open>cue\<close> reads back what \<open>jam\<close>
  writes, keeps the invariants of the root on every input, and \<open>cue_test\<close> accepts what
  \<open>jam\<close> writes.  Both directions are related step by step: at every point of a walk the
  backreferences of the two sides stand for the same nouns.
\<close>

section \<open>The cursor of the reader\<close>

lemma ur_bsr_tag_bits:
  assumes "fst (ur_bsr_tag b) = Inr t"
  shows "bsr_bits (snd (ur_bsr_tag b)) = (bsr_bits b + (if t = jam_atom then 1 else 2)) mod 2 ^ 64"
  using assms by (auto simp: ur_bsr_tag_def Let_def split: if_splits)

lemma ur_bsr_log_bits:
  assumes "fst (ur_bsr_log b) = Inr z"
  shows "bsr_bits (snd (ur_bsr_log b)) = (bsr_bits b + (1 + z)) mod 2 ^ 64"
  using assms by (auto simp: ur_bsr_log_def Let_def split: if_splits log_scan.splits)

lemma ur_bsr_bytes_any_bits: "bsr_bits (snd (ur_bsr_bytes_any b n out)) = (bsr_bits b + n) mod 2 ^ 64"
  by (simp add: ur_bsr_bytes_any_def Let_def)

lemma ur_bsr_skip_any_bits: "bsr_bits (ur_bsr_skip_any b n) = (bsr_bits b + n) mod 2 ^ 64"
  by (simp add: ur_bsr_skip_any_def Let_def)

lemma ur_bsr_rub_len_bits:
  assumes wf: "bsr_wf b" and s: "bsr_stream b = mat_bits bs @ rest" and len: "length bs < 2 ^ 63"
  shows "bsr_bits (snd (ur_bsr_rub_len b)) = (bsr_bits b + (length (mat_bits bs) - length bs)) mod 2 ^ 64"
proof -
  let ?z = "met0 (length bs)"
  have sz: "bsr_stream b = replicate ?z False @ True # (bits_of (?z - 1) (length bs) @ bs @ rest)"
    using s by (cases "bs = []") (simp_all add: mat_bits_def Let_def)
  then have zo: "zeros_of (bsr_stream b) = ?z" by (simp only: zeros_of_replicate)
  have z: "?z \<le> 63" using len by (simp add: met0_le_iff)
  have l: "fst (ur_bsr_log b) = Inr ?z"
    by (rule ur_bsr_log_good(1) [OF wf zo]) (use sz z in simp_all)
  obtain b1 where b1: "ur_bsr_log b = (Inr ?z, b1)" using l by (cases "ur_bsr_log b") auto
  have bits: "bsr_bits b1 = (bsr_bits b + (1 + ?z)) mod 2 ^ 64" using ur_bsr_log_bits [OF l] b1 by simp
  have m: "length (mat_bits bs) - length bs = 1 + ?z + (?z - 1)"
    by (cases "bs = []") (simp_all add: mat_bits_def Let_def)
  consider "?z = 0" | "?z = 1" | "1 < ?z" by linarith
  then show ?thesis
  proof cases
    case 3
    have "bsr_bits (snd (ur_bsr64_any b1 (?z - 1))) = (bsr_bits b1 + (?z - 1)) mod 2 ^ 64"
      using ur_bsr64_any_bits [of b1 "?z - 1"] z by simp
    also have "\<dots> = (bsr_bits b + (1 + ?z + (?z - 1))) mod 2 ^ 64"
      by (simp only: bits mod_add_left_eq add.assoc)
    finally have "bsr_bits (snd (ur_bsr64_any b1 (?z - 1))) =
        (bsr_bits b + (length (mat_bits bs) - length bs)) mod 2 ^ 64" by (simp only: m)
    moreover have "snd (ur_bsr_rub_len b) = snd (ur_bsr64_any b1 (?z - 1))"
      using 3 z b1 by (cases "ur_bsr64_any b1 (?z - 1)") (auto simp: ur_bsr_rub_len_def)
    ultimately show ?thesis by simp
  qed (use b1 bits m in \<open>simp_all add: ur_bsr_rub_len_def\<close>)
qed

text \<open>
  A reader at cursor \<open>p\<close> of a stream: the bits after the cursor, and a cursor that has not
  wrapped around.
\<close>

definition reader_at :: "bsr \<Rightarrow> nat \<Rightarrow> bool list \<Rightarrow> bool" where
  "reader_at b p bs \<longleftrightarrow> bsr_wf b \<and> bsr_bits b = p \<and> bsr_stream b = bs"

lemma reader_tag:
  assumes r: "reader_at b p (tag @ rest)" and p: "p + length tag < 2 ^ 64"
    and tag: "(tag, t) \<in> {([False], jam_atom), ([True, False], jam_cell), ([True, True], jam_back)}"
  shows "\<exists>b1. ur_bsr_tag b = (Inr t, b1) \<and> reader_at b1 (p + length tag) rest"
proof -
  have wf: "bsr_wf b" and s: "bsr_stream b = tag @ rest" and bits: "bsr_bits b = p"
    using r by (auto simp: reader_at_def)
  note spec = ur_bsr_tag_spec [OF wf]
  have f: "fst (ur_bsr_tag b) = Inr t" "bsr_stream (snd (ur_bsr_tag b)) = rest"
    using spec(2) s tag by (auto split: list.splits)
  moreover have "bsr_bits (snd (ur_bsr_tag b)) = p + length tag"
    using ur_bsr_tag_bits [OF f(1)] bits tag p by auto
  ultimately show ?thesis using spec(1) by (cases "ur_bsr_tag b") (auto simp: reader_at_def)
qed

lemma reader_mat:
  assumes r: "reader_at b p (mat_bits bs @ rest)" and p: "p + length (mat_bits bs) < 2 ^ 64"
    and len: "length bs < 2 ^ 63"
  shows "\<exists>b1. ur_bsr_rub_len b = (Inr (of_nat (length bs)), b1) \<and>
      reader_at b1 (p + (length (mat_bits bs) - length bs)) (bs @ rest)"
proof -
  have wf: "bsr_wf b" and s: "bsr_stream b = mat_bits bs @ rest" and bits: "bsr_bits b = p"
    using r by (auto simp: reader_at_def)
  note spec = ur_bsr_rub_len_mat [OF wf s len]
  have "bsr_bits (snd (ur_bsr_rub_len b)) = p + (length (mat_bits bs) - length bs)"
    using ur_bsr_rub_len_bits [OF wf s len] bits p by simp
  then show ?thesis using spec by (cases "ur_bsr_rub_len b") (auto simp: reader_at_def)
qed

lemma length_mat_bits_ge: "length bs \<le> length (mat_bits bs)"
  by (cases "bs = []") (simp_all add: mat_bits_def Let_def)

lemma reader_value:
  assumes r: "reader_at b p (bs @ rest)" and p: "p + length bs < 2 ^ 64" and len: "length bs \<le> 64"
  shows "\<exists>b1. ur_bsr64_any b (length bs) = (word_of_bits bs, b1) \<and> reader_at b1 (p + length bs) rest"
proof -
  have wf: "bsr_wf b" and s: "bsr_stream b = bs @ rest" and bits: "bsr_bits b = p"
    using r by (auto simp: reader_at_def)
  have "fst (ur_bsr64_any b (length bs)) = word_of_bits bs"
    "bsr_stream (snd (ur_bsr64_any b (length bs))) = rest" "bsr_wf (snd (ur_bsr64_any b (length bs)))"
    using r64.read_value [OF wf] r64.read_stream [OF wf] r64.read_wf [OF wf] len by (simp_all add: s)
  moreover have "bsr_bits (snd (ur_bsr64_any b (length bs))) = p + length bs"
    using ur_bsr64_any_bits [of b "length bs"] bits p len by simp
  ultimately show ?thesis by (cases "ur_bsr64_any b (length bs)") (auto simp: reader_at_def)
qed

lemma stream_no_wrap:
  assumes "bsr_wf b" "n \<le> length (bsr_stream b)"
  shows "bsr_no_wrap b n"
proof -
  have "length (bsr_stream b) \<le> 8 * bsr_left b"
    using assms(1) bsr_wfD(2) [OF assms(1)] by (simp add: bsr_stream_def)
  then show ?thesis using assms(2) unfolding bsr_no_wrap_def by linarith
qed

lemma reader_bytes:
  assumes r: "reader_at b p (bs @ rest)" and p: "p + length bs < 2 ^ 64" and k: "length bs \<le> 8 * k"
  shows "\<exists>byt b1. ur_bsr_bytes_any b (length bs) (replicate k 0) = (byt, b1) \<and>
      bytes_bits byt = bs @ replicate (8 * k - length bs) False \<and> length byt = k \<and>
      reader_at b1 (p + length bs) rest \<and> ur_bsr_skip_any b (length bs) = b1"
proof -
  have wf: "bsr_wf b" and s: "bsr_stream b = bs @ rest" and bits: "bsr_bits b = p"
    using r by (auto simp: reader_at_def)
  have nw: "bsr_no_wrap b (length bs)" by (rule stream_no_wrap [OF wf]) (simp add: s)
  let ?r = "ur_bsr_bytes_any b (length bs) (replicate k 0)"
  have "bytes_bits (fst ?r) = bs @ replicate (8 * k - length bs) False"
    using ur_bsr_bytes_any_value [OF wf disjI2 [OF nw] k] s by (simp add: pad_take_eq_take)
  moreover have "length (fst ?r) = k" using length_ur_bsr_bytes_any [OF wf, of "length bs" "replicate k 0"] k by simp
  moreover have st: "snd ?r = ur_bsr_skip_any b (length bs)" by (rule ur_bsr_bytes_any_state [OF wf nw])
  moreover have "bsr_wf (ur_bsr_skip_any b (length bs))" "bsr_stream (ur_bsr_skip_any b (length bs)) = rest"
    using ur_bsr_skip_any_stream [OF wf nw] s by simp_all
  moreover have "bsr_bits (ur_bsr_skip_any b (length bs)) = p + length bs"
    using ur_bsr_skip_any_bits [of b "length bs"] bits p by simp
  ultimately show ?thesis by (cases ?r) (auto simp: reader_at_def)
qed

section \<open>One item of the stream\<close>

lemma bits_of_unat: "bits_of n (unat w) = bits_of n w" for w :: "'a::len word"
  by (rule nth_equalityI) (auto simp: bit_unsigned_iff dest: bit_imp_le_length)

lemma bits_of_bytes_nat:
  assumes "n \<le> 8 * len" "len \<le> length byt"
  shows "bits_of n (bytes_nat (take len byt)) = take n (bytes_bits byt)"
  using assms by (intro nth_equalityI) (auto simp: bit_bytes_nat take_bytes_bits)

lemma bits_nat_bits_of: "bits_nat (bits_of (met0 a) a) = a"
proof (rule bit_eqI)
  fix n
  show "bit (bits_nat (bits_of (met0 a) a)) n = bit a n"
    using bit_less_met0 [of a n] by (auto simp: bit_bits_nat)
qed

lemma word_of_bits_met0:
  assumes "met0 a \<le> 64"
  shows "word_of_bits (bits_of (met0 a) a) = (of_nat a :: u64)"
proof (rule bit_word_eqI)
  fix n
  assume "n < LENGTH(64)"
  then show "bit (word_of_bits (bits_of (met0 a) a) :: u64) n = bit (of_nat a :: u64) n"
    using bit_less_met0 [of a n] by (auto simp: bit_word_of_bits bit_of_nat_iff)
qed

text \<open>What an atom is in the stream.\<close>

abbreviation atom_code :: "nat \<Rightarrow> bool list" where
  "atom_code a \<equiv> False # mat_bits (bits_of (met0 a) a)"

abbreviation back_code :: "nat \<Rightarrow> bool list" where
  "back_code p \<equiv> True # True # mat_bits (bits_of (met0 p) p)"

lemma bsw_atom_adds:
  assumes rep: "rep r ref (Atom a)" and wf: "root_wf r" "root_canon r" "bsw_wf w" and len: "met0 a < 2 ^ 64"
  shows "\<exists>w'. bsw_atom r ref w (met0 a) = Some w' \<and> bsw_adds w (atom_code a) w'"
proof -
  consider "ur_nref_tag ref = ur_direct" "a = unat ref"
    | "ur_nref_tag ref = ur_iatom" "ur_nref_idx ref < at_fill (atoms r)"
      "a = bytes_nat (at_content (atoms r) (ur_nref_idx ref))"
    using rep unfolding rep_Atom_iff by blast
  then show ?thesis
  proof cases
    case 1
    have "met0 a \<le> 64" using 1 unsigned_less [of ref, where 'a = nat] by (simp add: met0_le_iff)
    then show ?thesis
      using ur_bsw_atom64_adds [OF wf(3), of "met0 a" ref] 1 by (simp add: bsw_atom_def bits_of_unat min_absorb2)
  next
    case 2
    let ?i = "ur_nref_idx ref"
    have a: "atoms_wf r" using wf by (simp add: root_wf_def)
    note l = atoms_wfD(6) [OF a 2(2)]
    have "a < 2 ^ (8 * at_lens (atoms r) ! ?i)"
      using bytes_nat_less [of "at_content (atoms r) ?i"] l 2(3) by (simp add: at_content_def power_mult)
    then have m: "met0 a \<le> 8 * at_lens (atoms r) ! ?i" by (simp add: met0_le_iff)
    then have "bits_of (met0 a) a = take (met0 a) (bytes_bits (at_bytes (atoms r) ! ?i))"
      using bits_of_bytes_nat [OF m l] 2(3) by (simp add: at_content_def)
    then show ?thesis
      using 2 ur_bsw_atom_bytes_adds [OF wf(3), of "met0 a" "at_bytes (atoms r) ! ?i"] m l len
      by (simp add: bsw_atom_def tag_defs at_index_def at_fill_def)
  qed
qed

lemma ur_bsw_back64_code:
  assumes "bsw_wf w"
  shows "bsw_adds w (back_code (unat v)) (ur_bsw_back64 w (met0 (unat v)) v)"
proof -
  have "met0 (unat v) \<le> 64" using unsigned_less [of v, where 'a = nat] by (simp add: met0_le_iff)
  then show ?thesis using ur_bsw_back64_adds [OF assms, of "met0 (unat v)" v] by (simp add: bits_of_unat min_absorb2)
qed

lemma dict64_put_spec:
  "ur_dict64_put mugf d k v = Some d' \<Longrightarrow> dict_wf mugf d \<Longrightarrow>
   dict_wf mugf d' \<and> dict_map d' = (dict_map d)(k \<mapsto> v)"
  unfolding ur_dict64_put_def by (rule dict_put_spec)

lemma dict64_get_spec:
  "dict_wf mugf d \<Longrightarrow> mugf k = Some m \<Longrightarrow> ur_dict64_get mugf d k = Some (dict_map d k)"
  unfolding ur_dict64_get_def by (rule dict_get_spec)

section \<open>Steps of cue\<close>

lemma cue_next_cell:
  assumes "reader_at (cue_bsr c) p (True # False # rest)" "p + 2 < 2 ^ 64"
  shows "\<exists>b. reader_at b (p + 2) rest \<and>
    cue_next c = do { s \<leftarrow> cue_push \<lparr>frame_ref = CUE_HEAD, frame_bits = of_nat p\<rparr> (cue_stk c);
                      cue_next (c\<lparr>cue_bsr := b, cue_stk := s\<rparr>) }"
proof -
  obtain b where "ur_bsr_tag (cue_bsr c) = (Inr jam_cell, b)" "reader_at b (p + 2) rest"
    using reader_tag [of "cue_bsr c" p "[True, False]" rest jam_cell] assms by auto
  then show ?thesis using assms(1)
    by (intro exI [of _ b]) (subst cue_next.simps, simp add: reader_at_def)
qed

lemma cue_next_back:
  assumes r: "reader_at (cue_bsr c) p (back_code q @ rest)" and p: "p + length (back_code q) < 2 ^ 64"
    and q: "q < 2 ^ 62" and d: "dict_wf (cue_mug c) (cue_dict c)" "dict_map (cue_dict c) (of_nat q) = Some v"
  shows "\<exists>b. reader_at b (p + length (back_code q)) rest \<and> cue_next c = Some (Inr v, c\<lparr>cue_bsr := b\<rparr>)"
proof -
  let ?bs = "bits_of (met0 q) q"
  have m: "met0 q \<le> 62" using q by (simp add: met0_le_iff)
  then have big: "\<not> (62 :: u64) < of_nat (met0 q)" by (simp add: word_less_nat_alt unat_of_nat)
  have un: "unat (of_nat (met0 q) :: u64) = met0 q" using m by (simp add: unat_of_nat)
  obtain b1 where b1: "ur_bsr_tag (cue_bsr c) = (Inr jam_back, b1)" "reader_at b1 (p + 2) (mat_bits ?bs @ rest)"
    using reader_tag [of "cue_bsr c" p "[True, True]" "mat_bits ?bs @ rest" jam_back] r p by auto
  obtain b2 where b2: "ur_bsr_rub_len b1 = (Inr (of_nat (met0 q)), b2)"
      "reader_at b2 (p + 2 + (length (mat_bits ?bs) - met0 q)) (?bs @ rest)"
    using reader_mat [OF b1(2)] p m by auto
  have sum: "p + 2 + (length (mat_bits ?bs) - met0 q) + met0 q = p + length (back_code q)"
    using length_mat_bits_ge [of ?bs] by simp
  obtain b3 where b3: "ur_bsr64_any b2 (met0 q) = (of_nat q, b3)" "reader_at b3 (p + length (back_code q)) rest"
    using reader_value [OF b2(2)] p m sum word_of_bits_met0 [of q] by auto
  obtain mu where mu: "cue_mug c (of_nat q) = Some mu"
    using dict_map_mugged [OF d] by blast
  show ?thesis using b1 b2 b3 big un d(2) dict64_get_spec [OF d(1) mu]
    by (intro exI [of _ b3] conjI, simp) (subst cue_next.simps, simp add: Let_def)
qed

lemma cue_next_atom:
  assumes r: "reader_at (cue_bsr c) p (atom_code a @ rest)" and p: "p + length (atom_code a) < 2 ^ 64"
    and a: "met0 a < 2 ^ 63"
  shows "\<exists>b byt. reader_at b (p + length (atom_code a)) rest \<and> bytes_nat byt = a \<and>
    cue_next c =
      do { (ref, r1) \<leftarrow> (if met0 a \<le> 62 then Some (of_nat a, cue_root c)
                       else ur_coin_bytes_unsafe (cue_root c) (strip_zeros (length byt) byt) byt);
           d \<leftarrow> ur_dict64_put (ur_nref_mug r1) (cue_dict c) (of_nat p) ref;
           Some (Inr ref, c\<lparr>cue_root := r1, cue_bsr := b, cue_dict := d\<rparr>) }"
proof -
  let ?bs = "bits_of (met0 a) a"
  have un: "unat (of_nat (met0 a) :: u64) = met0 a" using a by (simp add: unat_of_nat)
  then have big: "of_nat (met0 a) \<le> (62 :: u64) \<longleftrightarrow> met0 a \<le> 62" by (simp add: word_le_nat_alt)
  have bits: "bsr_bits (cue_bsr c) = p" using r by (simp add: reader_at_def)
  obtain b1 where b1: "ur_bsr_tag (cue_bsr c) = (Inr jam_atom, b1)" "reader_at b1 (p + 1) (mat_bits ?bs @ rest)"
    using reader_tag [of "cue_bsr c" p "[False]" "mat_bits ?bs @ rest" jam_atom] r p by auto
  obtain b2 where b2: "ur_bsr_rub_len b1 = (Inr (of_nat (met0 a)), b2)"
      "reader_at b2 (p + 1 + (length (mat_bits ?bs) - met0 a)) (?bs @ rest)"
    using reader_mat [OF b1(2)] p a by auto
  have sum: "p + 1 + (length (mat_bits ?bs) - met0 a) + met0 a = p + length (atom_code a)"
    using length_mat_bits_ge [of ?bs] by simp
  show ?thesis
  proof (cases "met0 a \<le> 62")
    case True
    obtain b3 where b3: "ur_bsr64_any b2 (met0 a) = (of_nat a, b3)" "reader_at b3 (p + length (atom_code a)) rest"
      using reader_value [OF b2(2)] p True sum word_of_bits_met0 [of a] by auto
    have "a < 2 ^ 62" using True by (simp add: met0_le_iff)
    then have byt: "bytes_nat (bytes64 (of_nat a)) = a" by (simp add: bytes_nat_bytes64 unat_of_nat)
    have "cue_next c = do { d \<leftarrow> ur_dict64_put (cue_mug c) (cue_dict c) (of_nat p) (of_nat a);
        Some (Inr (of_nat a), c\<lparr>cue_bsr := b3, cue_dict := d\<rparr>) }"
      using True b1(1) b2(1) b3(1) big un bits by (subst cue_next.simps) (simp add: Let_def)
    then show ?thesis using True b3(2) byt by (intro exI [of _ b3] exI [of _ "bytes64 (of_nat a)"]) simp
  next
    case False
    let ?k = "met0 a div 8 + of_bool (met0 a mod 8 \<noteq> 0)"
    have k: "met0 a \<le> 8 * ?k" unfolding ceil_div by simp
    obtain byt b3 where b3: "ur_bsr_bytes_any b2 (met0 a) (replicate ?k 0) = (byt, b3)"
        "bytes_bits byt = ?bs @ replicate (8 * ?k - met0 a) False" "length byt = ?k"
        "reader_at b3 (p + length (atom_code a)) rest"
      using reader_bytes [OF b2(2), of ?k] p sum k by auto
    have "bytes_nat byt = a" unfolding bytes_nat_def b3(2) bits_nat_append_False by (rule bits_nat_bits_of)
    moreover have "cue_next c =
      do { (ref, r1) \<leftarrow> ur_coin_bytes_unsafe (cue_root c) (strip_zeros (length byt) byt) byt;
           d \<leftarrow> ur_dict64_put (ur_nref_mug r1) (cue_dict c) (of_nat p) ref;
           Some (Inr ref, c\<lparr>cue_root := r1, cue_bsr := b3, cue_dict := d\<rparr>) }"
      using False b1 b2 b3(1,3) big un bits
      by (subst cue_next.simps) (simp add: cue_big_atom_def Let_def case_prod_beta' bind_assoc)
    ultimately show ?thesis using False b3(4) by (intro exI [of _ b3] exI [of _ byt]) simp
  qed
qed

section \<open>Steps of jam\<close>

abbreviation jam_pos :: "jam \<Rightarrow> nref \<Rightarrow> u64 option" where
  "jam_pos j \<equiv> dict_map (jam_dict j)"

abbreviation jam_out :: "jam \<Rightarrow> bool list" where
  "jam_out j \<equiv> bsw_out (jam_bsw j)"

definition jam_ok :: "ur_root \<Rightarrow> jam \<Rightarrow> bool" where
  "jam_ok r j \<longleftrightarrow> dict_wf (ur_nref_mug r) (jam_dict j) \<and> bsw_wf (jam_bsw j)"

text \<open>The atoms of a root fit an address space of 2 ^ 60 bytes.\<close>

definition atoms_small :: "ur_root \<Rightarrow> bool" where
  "atoms_small r \<longleftrightarrow> (\<forall>i < at_fill (atoms r). at_lens (atoms r) ! i < 2 ^ 60)"

lemma atoms_small_met0:
  assumes "atoms_small r" "root_wf r" "rep r ref (Atom a)"
  shows "met0 a < 2 ^ 63"
proof -
  consider "a = unat ref" | "ur_nref_idx ref < at_fill (atoms r)" "a = bytes_nat (at_content (atoms r) (ur_nref_idx ref))"
    using assms(3) unfolding rep_Atom_iff by blast
  then show ?thesis
  proof cases
    case 1
    then have "met0 a \<le> 64" using unsigned_less [of ref, where 'a = nat] by (simp add: met0_le_iff)
    then show ?thesis by simp
  next
    case 2
    let ?l = "length (at_content (atoms r) (ur_nref_idx ref))"
    have "?l < 2 ^ 60" using assms(1) 2(1) by (auto simp: atoms_small_def at_content_def)
    moreover have "met0 a \<le> 8 * ?l" using bytes_nat_less 2(2) by (simp add: met0_le_iff power_mult)
    ultimately show ?thesis by simp
  qed
qed

lemma jam_atom_step:
  assumes wf: "root_wf r" "root_canon r" "atoms_small r" and rep: "rep r ref (Atom a)"
    and ok: "jam_ok r j" and step: "jam_atom_cb r ref j = Some j'"
  shows "jam_ok r j'"
    "jam_pos j ref = None \<and> jam_pos j' = (jam_pos j)(ref \<mapsto> of_nat (length (jam_out j))) \<and>
       jam_out j' = jam_out j @ atom_code a \<or>
     jam_pos j ref \<noteq> None \<and> jam_pos j' = jam_pos j \<and> jam_out j' = jam_out j @ atom_code a \<or>
     (\<exists>bak. jam_pos j ref = Some bak \<and> jam_pos j' = jam_pos j \<and>
       jam_out j' = jam_out j @ back_code (unat bak))"
proof -
  have d: "dict_wf (ur_nref_mug r) (jam_dict j)" and w: "bsw_wf (jam_bsw j)" using ok by (simp_all add: jam_ok_def)
  obtain mu where mu: "ur_nref_mug r ref = Some mu" using root_ref_mug [OF wf(1) rep_root_ref [OF rep]] by blast
  have met: "ur_met r 0 ref = Some (met0 a)" using ur_met_bits [OF rep wf(1,2), of 0] by simp
  obtain w' where w': "bsw_atom r ref (jam_bsw j) (met0 a) = Some w'" "bsw_adds (jam_bsw j) (atom_code a) w'"
    using bsw_atom_adds [OF rep wf(1,2) w] atoms_small_met0 [OF wf(3,1) rep] by auto
  have get: "ur_dict64_get (ur_nref_mug r) (jam_dict j) ref = Some (jam_pos j ref)"
    by (rule dict64_get_spec [OF d mu])
  note len = bsw_wfD(7) [OF w]
  have "jam_ok r j' \<and>
    (jam_pos j ref = None \<and> jam_pos j' = (jam_pos j)(ref \<mapsto> of_nat (length (jam_out j))) \<and>
       jam_out j' = jam_out j @ atom_code a \<or>
     jam_pos j ref \<noteq> None \<and> jam_pos j' = jam_pos j \<and> jam_out j' = jam_out j @ atom_code a \<or>
     (\<exists>bak. jam_pos j ref = Some bak \<and> jam_pos j' = jam_pos j \<and>
       jam_out j' = jam_out j @ back_code (unat bak)))"
  proof (cases "jam_pos j ref")
    case None
    then obtain d' where d': "ur_dict64_put (ur_nref_mug r) (jam_dict j) ref (of_nat (bsw_bits (jam_bsw j))) = Some d'"
      and j': "j' = j\<lparr>jam_dict := d', jam_bsw := w'\<rparr>"
      using step met get w'(1) by (auto simp: jam_atom_cb_def bind_eq_Some_conv)
    then show ?thesis using None dict64_put_spec [OF d' d] w'(2) len by (simp add: jam_ok_def bsw_adds_def)
  next
    case (Some bak)
    show ?thesis
    proof (cases "met0 a \<le> met0 (unat bak)")
      case True
      then have "j' = j\<lparr>jam_bsw := w'\<rparr>" using step met get w'(1) Some by (simp add: jam_atom_cb_def)
      then show ?thesis using Some w'(2) d by (simp add: jam_ok_def bsw_adds_def)
    next
      case False
      then have "j' = j\<lparr>jam_bsw := ur_bsw_back64 (jam_bsw j) (met0 (unat bak)) bak\<rparr>"
        using step met get Some by (simp add: jam_atom_cb_def Let_def)
      then show ?thesis using Some ur_bsw_back64_code [OF w, of bak] d by (simp add: jam_ok_def bsw_adds_def)
    qed
  qed
  then show "jam_ok r j'"
    "jam_pos j ref = None \<and> jam_pos j' = (jam_pos j)(ref \<mapsto> of_nat (length (jam_out j))) \<and>
       jam_out j' = jam_out j @ atom_code a \<or>
     jam_pos j ref \<noteq> None \<and> jam_pos j' = jam_pos j \<and> jam_out j' = jam_out j @ atom_code a \<or>
     (\<exists>bak. jam_pos j ref = Some bak \<and> jam_pos j' = jam_pos j \<and>
       jam_out j' = jam_out j @ back_code (unat bak))" by blast+
qed

lemma jam_cell_step:
  assumes wf: "root_wf r" and rep: "rep r ref n"
    and ok: "jam_ok r j" and step: "jam_cell_cb r ref j = Some (go, j')"
  shows "jam_ok r j'"
    "go \<and> jam_pos j ref = None \<and> jam_pos j' = (jam_pos j)(ref \<mapsto> of_nat (length (jam_out j))) \<and>
       jam_out j' = jam_out j @ [True, False] \<or>
     \<not> go \<and> (\<exists>bak. jam_pos j ref = Some bak \<and> jam_pos j' = jam_pos j \<and>
       jam_out j' = jam_out j @ back_code (unat bak))"
proof -
  have d: "dict_wf (ur_nref_mug r) (jam_dict j)" and w: "bsw_wf (jam_bsw j)" using ok by (simp_all add: jam_ok_def)
  obtain mu where mu: "ur_nref_mug r ref = Some mu" using root_ref_mug [OF wf rep_root_ref [OF rep]] by blast
  have get: "ur_dict64_get (ur_nref_mug r) (jam_dict j) ref = Some (jam_pos j ref)"
    by (rule dict64_get_spec [OF d mu])
  note len = bsw_wfD(7) [OF w]
  have "jam_ok r j' \<and>
    (go \<and> jam_pos j ref = None \<and> jam_pos j' = (jam_pos j)(ref \<mapsto> of_nat (length (jam_out j))) \<and>
       jam_out j' = jam_out j @ [True, False] \<or>
     \<not> go \<and> (\<exists>bak. jam_pos j ref = Some bak \<and> jam_pos j' = jam_pos j \<and>
       jam_out j' = jam_out j @ back_code (unat bak)))"
  proof (cases "jam_pos j ref")
    case None
    then obtain d' where d': "ur_dict64_put (ur_nref_mug r) (jam_dict j) ref (of_nat (bsw_bits (jam_bsw j))) = Some d'"
      and j': "go" "j' = j\<lparr>jam_dict := d', jam_bsw := ur_bsw_cell (jam_bsw j)\<rparr>"
      using step get by (auto simp: jam_cell_cb_def bind_eq_Some_conv)
    then show ?thesis
      using None dict64_put_spec [OF d' d] ur_bsw_cell_adds [OF w] len by (simp add: jam_ok_def bsw_adds_def)
  next
    case (Some bak)
    then have "\<not> go" "j' = j\<lparr>jam_bsw := ur_bsw_back64 (jam_bsw j) (met0 (unat bak)) bak\<rparr>"
      using step get by (simp_all add: jam_cell_cb_def)
    then show ?thesis using Some ur_bsw_back64_code [OF w, of bak] d by (simp add: jam_ok_def bsw_adds_def)
  qed
  then show "jam_ok r j'"
    "go \<and> jam_pos j ref = None \<and> jam_pos j' = (jam_pos j)(ref \<mapsto> of_nat (length (jam_out j))) \<and>
       jam_out j' = jam_out j @ [True, False] \<or>
     \<not> go \<and> (\<exists>bak. jam_pos j ref = Some bak \<and> jam_pos j' = jam_pos j \<and>
       jam_out j' = jam_out j @ back_code (unat bak))" by blast+
qed

text \<open>A walk adds to the stream and to the backreferences.\<close>

abbreviation jam_visit :: "ur_root \<Rightarrow> noun \<Rightarrow> nref \<Rightarrow> jam \<Rightarrow> jam option" where
  "jam_visit r \<equiv> visit r jam_atom_cb jam_cell_cb"

lemma jam_visit_extends:
  assumes wf: "root_wf r" "root_canon r" "atoms_small r"
  shows "rep r ref n \<Longrightarrow> jam_ok r j \<Longrightarrow> jam_visit r n ref j = Some j' \<Longrightarrow>
    jam_ok r j' \<and> (\<exists>X. jam_out j' = jam_out j @ X) \<and> jam_pos j \<subseteq>\<^sub>m jam_pos j'"
proof (induction n arbitrary: ref j j')
  case (Atom a)
  then have step: "jam_atom_cb r ref j = Some j'" by simp
  have "jam_pos j \<subseteq>\<^sub>m jam_pos j'"
    using jam_atom_step(2) [OF wf Atom.prems(1,2) step] by (auto simp: map_le_def dom_def)
  then show ?case
    using jam_atom_step [OF wf Atom.prems(1,2) step] by auto
next
  case (Cell h t)
  obtain a b where ab: "ur_head r ref = Some a" "ur_tail r ref = Some b" "rep r a h" "rep r b t"
    using rep_Cell_lookup [OF Cell.prems(1) wf(1)] .
  obtain go j1 where j1: "jam_cell_cb r ref j = Some (go, j1)"
    using Cell.prems(3) by (auto simp: bind_eq_Some_conv)
  note step = jam_cell_step [OF wf(1) Cell.prems(1,2) j1]
  have ext1: "(\<exists>X. jam_out j1 = jam_out j @ X) \<and> jam_pos j \<subseteq>\<^sub>m jam_pos j1"
    using step(2) by (auto simp: map_le_def dom_def)
  show ?case
  proof (cases go)
    case True
    then obtain j2 where j2: "jam_visit r h a j1 = Some j2" "jam_visit r t b j2 = Some j'"
      using Cell.prems(3) j1 ab by (auto simp: bind_eq_Some_conv)
    note h = Cell.IH(1) [OF ab(3) step(1) j2(1)]
    note t = Cell.IH(2) [OF ab(4) conjunct1 [OF h] j2(2)]
    obtain X1 X2 X3 where "jam_out j1 = jam_out j @ X1" "jam_out j2 = jam_out j1 @ X2" "jam_out j' = jam_out j2 @ X3"
      using ext1 h t by blast
    then have "\<exists>X. jam_out j' = jam_out j @ X" by simp
    moreover have "jam_pos j \<subseteq>\<^sub>m jam_pos j'" using ext1 h t by (blast intro: map_le_trans)
    ultimately show ?thesis using t by blast
  next
    case False
    then have "j1 = j'" using Cell.prems(3) j1 by simp
    then show ?thesis using step(1) ext1 by blast
  qed
qed

section \<open>Jam and cue in step\<close>

text \<open>
  The backreferences of the two sides agree: every reference that jam has written stands for
  the same noun as the one that cue has read at that cursor, but for the cells in \<open>P\<close>, those
  whose children are being read.
\<close>

definition synced :: "ur_root \<Rightarrow> nref set \<Rightarrow> jam \<Rightarrow> cue_state \<Rightarrow> bool" where
  "synced r P j c \<longleftrightarrow>
     inj_on (jam_pos j) (dom (jam_pos j)) \<and>
     (\<forall>x pos. jam_pos j x = Some pos \<longrightarrow> unat pos < length (jam_out j) \<and>
        (x \<in> P \<or> (\<exists>n y. rep r x n \<and> dict_map (cue_dict c) pos = Some y \<and> rep (cue_root c) y n)))"

definition cue_ok :: "cue_state \<Rightarrow> bool" where
  "cue_ok c \<longleftrightarrow> root_wf (cue_root c) \<and> dict_wf (cue_mug c) (cue_dict c)"

definition cue_go :: "cue_state \<Rightarrow> ((cue_err + nref) \<times> cue_state) option" where
  "cue_go c = do { (res, c1) \<leftarrow> cue_next c; cue_loop c1 res }"

lemma syncedD:
  assumes "synced r P j c" "jam_pos j x = Some pos"
  shows "unat pos < length (jam_out j)"
    "x \<notin> P \<Longrightarrow> \<exists>n y. rep r x n \<and> dict_map (cue_dict c) pos = Some y \<and> rep (cue_root c) y n"
  using assms by (auto simp: synced_def)

text \<open>The relation carries over to states with the same backreferences and more output.\<close>

lemma synced_more:
  assumes "synced r P j c" "jam_pos j' = jam_pos j" "jam_out j' = jam_out j @ X"
    "cue_dict c' = cue_dict c" "cue_root c' = cue_root c"
  shows "synced r P j' c'"
  using assms by (auto simp: synced_def intro: trans_less_add1)

lemma synced_inj:
  "synced r P j c \<Longrightarrow> jam_pos j x = Some p \<Longrightarrow> jam_pos j y = Some p \<Longrightarrow> x = y"
  unfolding synced_def inj_on_def by (metis domI)

lemma new_pos_fresh:
  assumes "synced r P j c" "length (jam_out j) < 2 ^ 62" "jam_pos j x = Some pos"
  shows "pos \<noteq> of_nat (length (jam_out j))"
  using syncedD(1) [OF assms(1,3)] assms(2) by (auto simp: unat_of_nat)

lemma synced_put_jam:
  assumes s: "synced r P j c" and len: "length (jam_out j) < 2 ^ 62" and "X \<noteq> []"
    and j': "jam_pos j' = (jam_pos j)(ref \<mapsto> of_nat (length (jam_out j)))" "jam_out j' = jam_out j @ X"
    and c': "cue_dict c' = cue_dict c" "cue_root c' = cue_root c"
  shows "synced r (insert ref P) j' c'"
  unfolding synced_def
proof (intro conjI allI impI)
  have un: "unat (of_nat (length (jam_out j)) :: u64) = length (jam_out j)" using len by (simp add: unat_of_nat)
  have fresh: "jam_pos j x \<noteq> Some (of_nat (length (jam_out j)))" for x
    using new_pos_fresh [OF s len] by blast
  show "inj_on (jam_pos j') (dom (jam_pos j'))"
    using fresh synced_inj [OF s] by (intro inj_onI) (auto simp: j'(1) split: if_splits)
  fix x pos
  assume x: "jam_pos j' x = Some pos"
  show "unat pos < length (jam_out j')"
    using x syncedD(1) [OF s, of x pos] un \<open>X \<noteq> []\<close> by (auto simp: j' split: if_splits)
  show "x \<in> insert ref P \<or> (\<exists>n y. rep r x n \<and> dict_map (cue_dict c') pos = Some y \<and> rep (cue_root c') y n)"
    using x s c' by (auto simp: j' synced_def split: if_splits)
qed

lemma synced_put_cue:
  assumes s: "synced r P j c" and ref: "jam_pos j ref = Some pos0" "rep r ref n" "rep (cue_root c') y n"
    and ext: "root_ext (cue_root c) (cue_root c')" "root_wf (cue_root c)"
    and c': "dict_map (cue_dict c') = (dict_map (cue_dict c))(pos0 \<mapsto> y)" and Q: "P \<subseteq> insert ref Q"
  shows "synced r Q j c'"
  unfolding synced_def
proof (intro conjI allI impI)
  show "inj_on (jam_pos j) (dom (jam_pos j))" using s by (simp add: synced_def)
  fix x pos
  assume x: "jam_pos j x = Some pos"
  show "unat pos < length (jam_out j)" by (rule syncedD(1) [OF s x])
  show "x \<in> Q \<or> (\<exists>n y. rep r x n \<and> dict_map (cue_dict c') pos = Some y \<and> rep (cue_root c') y n)"
  proof (cases "x = ref")
    case True
    then show ?thesis using ref x c' by auto
  next
    case False
    then have "pos \<noteq> pos0" using synced_inj [OF s x] ref(1) by blast
    then show ?thesis
      using syncedD(2) [OF s x] Q False c' rep_ext [OF _ ext] by fastforce
  qed
qed

text \<open>Writing an entry at a cursor that jam does not refer to.\<close>

lemma synced_put_other:
  assumes s: "synced r P j c" and fresh: "\<And>x. jam_pos j x \<noteq> Some pos0"
    and ext: "root_ext (cue_root c) (cue_root c')" "root_wf (cue_root c)"
    and c': "dict_map (cue_dict c') = (dict_map (cue_dict c))(pos0 \<mapsto> y)"
    and j': "jam_pos j' = jam_pos j" "jam_out j' = jam_out j @ X"
  shows "synced r P j' c'"
  unfolding synced_def
proof (intro conjI allI impI)
  show "inj_on (jam_pos j') (dom (jam_pos j'))" using s j'(1) by (simp add: synced_def)
  fix x pos
  assume x: "jam_pos j' x = Some pos"
  then have x: "jam_pos j x = Some pos" by (simp add: j'(1))
  show "unat pos < length (jam_out j')" using syncedD(1) [OF s x] by (simp add: j')
  have "pos \<noteq> pos0" using fresh x by blast
  then show "x \<in> P \<or> (\<exists>n y. rep r x n \<and> dict_map (cue_dict c') pos = Some y \<and> rep (cue_root c') y n)"
    using syncedD(2) [OF s x] c' rep_ext [OF _ ext] by fastforce
qed

lemma rep_not_head:
  assumes "rep r y n"
  shows "y \<noteq> CUE_HEAD"
proof
  assume "y = CUE_HEAD"
  then have "ur_nref_tag y = 3" unfolding ur_nref_tag_div CUE_HEAD_def by simp
  moreover have "ur_nref_tag y \<noteq> 3"
    using rep_root_ref [OF assms] by (auto simp: root_ref_def ref_below_def tag_defs)
  ultimately show False by simp
qed

text \<open>Reading an atom.\<close>

lemma cue_atom_step:
  assumes ok: "cue_ok c" and r: "reader_at (cue_bsr c) p (atom_code a @ rest)"
    and p: "p + length (atom_code a) < 2 ^ 62" and a: "met0 a < 2 ^ 63"
    and next_: "cue_next c = Some res"
  shows "\<exists>y b r1 d. res = (Inr y, c\<lparr>cue_root := r1, cue_bsr := b, cue_dict := d\<rparr>) \<and>
    reader_at b (p + length (atom_code a)) rest \<and> root_wf r1 \<and> root_ext (cue_root c) r1 \<and>
    rep r1 y (Atom a) \<and> dict_wf (ur_nref_mug r1) d \<and> dict_map d = (dict_map (cue_dict c))(of_nat p \<mapsto> y)"
proof -
  have wf: "root_wf (cue_root c)" and d: "dict_wf (cue_mug c) (cue_dict c)" using ok by (simp_all add: cue_ok_def)
  obtain b byt where b: "reader_at b (p + length (atom_code a)) rest" and byt: "bytes_nat byt = a"
    and eq: "cue_next c =
      do { (ref, r1) \<leftarrow> (if met0 a \<le> 62 then Some (of_nat a, cue_root c)
                       else ur_coin_bytes_unsafe (cue_root c) (strip_zeros (length byt) byt) byt);
           d \<leftarrow> ur_dict64_put (ur_nref_mug r1) (cue_dict c) (of_nat p) ref;
           Some (Inr ref, c\<lparr>cue_root := r1, cue_bsr := b, cue_dict := d\<rparr>) }"
    using cue_next_atom [OF r _ a] p by auto
  obtain y r1 d' where make: "(if met0 a \<le> 62 then Some (of_nat a, cue_root c)
        else ur_coin_bytes_unsafe (cue_root c) (strip_zeros (length byt) byt) byt) = Some (y, r1)"
    and put: "ur_dict64_put (ur_nref_mug r1) (cue_dict c) (of_nat p) y = Some d'"
    and res: "res = (Inr y, c\<lparr>cue_root := r1, cue_bsr := b, cue_dict := d'\<rparr>)"
    using next_ unfolding eq by (auto simp: bind_eq_Some_conv simp del: met0_le_iff split: if_splits)
  have "root_wf r1 \<and> root_ext (cue_root c) r1 \<and> rep r1 y (Atom a)"
  proof (cases "met0 a \<le> 62")
    case True
    then have "a < 2 ^ 62" by (simp add: met0_le_iff)
    then have un: "unat (of_nat a :: u64) = a" by (simp add: unat_of_nat)
    then have "ur_nref_tag (of_nat a) = ur_direct" using \<open>a < 2 ^ 62\<close> by (simp add: direct_value)
    then show ?thesis using rep_direct [of "of_nat a" "cue_root c"] make True wf un by simp
  next
    case False
    have le: "strip_zeros (length byt) byt \<le> length byt" by (rule strip_zeros_le)
    have c: "ur_coin_bytes_unsafe (cue_root c) (strip_zeros (length byt) byt) byt = Some (y, r1)"
      using make False by (simp split: if_splits)
    have "coin_post (cue_root c) (strip_zeros (length byt) byt) byt y r1"
      by (rule coin_bytes_spec [OF c wf le])
    then show ?thesis
      using coin_post_rep [of "cue_root c" "strip_zeros (length byt) byt" byt y r1]
        bytes_nat_strip [of "length byt" byt] byt by (simp add: coin_post_def)
  qed
  moreover have "dict_wf (ur_nref_mug r1) (cue_dict c)"
    by (rule dict_wf_mono [OF d root_ext_mug]) (use calculation in simp)
  ultimately show ?thesis using dict64_put_spec [OF put] res b by blast
qed

lemma cue_loop_head:
  assumes "cs_frames (cue_stk c) = \<lparr>frame_ref = CUE_HEAD, frame_bits = pos\<rparr> # fs"
  shows "cue_loop c (Inr y) =
    cue_go (c\<lparr>cue_stk := (cue_stk c)\<lparr>cs_frames := \<lparr>frame_ref = y, frame_bits = pos\<rparr> # fs\<rparr>\<rparr>)"
  using assms by (subst cue_loop.simps) (simp add: cue_go_def)

lemma cue_push_frames: "cue_push f s = Some s' \<Longrightarrow> cs_frames s' = f # cs_frames s"
  by (auto simp: cue_push_def Let_def split: if_splits)

section \<open>Whole buffers\<close>

lemma dict64_new:
  assumes "0 < p" "0 < s"
  shows "\<exists>d. ur_dict64_grow mugf dict_null p s = Some d \<and> dict_wf mugf d \<and> dict_map d = Map.empty"
  unfolding ur_dict64_grow_def by (rule dict_new [OF assms])

lemma jam_start:
  "\<exists>j. ur_jam_init r = Some j \<and> walk_wf (jam_walk j) 1 \<and>
     jam_ok r (j\<lparr>jam_bsw := ur_bsw_init (jam_bsw j) ur_fib11 ur_fib12\<rparr>) \<and>
     jam_pos j = Map.empty \<and> bsw_out (ur_bsw_init (jam_bsw j) ur_fib11 ur_fib12) = []"
proof -
  obtain d where "ur_dict64_grow (ur_nref_mug r) dict_null ur_fib11 ur_fib12 = Some d"
      "dict_wf (ur_nref_mug r) d" "dict_map d = Map.empty"
    using dict64_new [of ur_fib11 ur_fib12 "ur_nref_mug r"] by (auto simp: ur_fib11_def ur_fib12_def)
  then show ?thesis
    using ur_bsw_init_wf [of ur_fib11 ur_fib12]
    by (simp add: ur_jam_init_def ur_jam_init_with_def jam_ok_def walk_wf_def ur_walk_fore_init_with_def
        ur_fib10_def ur_fib11_def ur_fib12_def)
qed

text \<open>What a jam is: the output of the walk, padded to whole bytes.\<close>

lemma ur_jam_out:
  assumes wf: "root_wf r" "root_canon r" "atoms_small r" and rep: "rep r ref n"
    and cells: "ce_fill (cells r) < 2 ^ 31 - 1" and jam: "ur_jam r ref = Some (bits, len, byt)"
  shows "\<exists>j j'. jam_visit r n ref j = Some j' \<and> jam_ok r j \<and> jam_pos j = Map.empty \<and> jam_out j = [] \<and>
    bits = length (jam_out j') \<and> len = bloq_up3 bits \<and> len \<le> length byt \<and>
    bytes_bits (take len byt) = jam_out j' @ replicate (8 * len - bits) False"
proof -
  obtain j where j: "ur_jam_init r = Some j" "walk_wf (jam_walk j) 1"
      "jam_ok r (j\<lparr>jam_bsw := ur_bsw_init (jam_bsw j) ur_fib11 ur_fib12\<rparr>)"
      "jam_pos j = Map.empty" "bsw_out (ur_bsw_init (jam_bsw j) ur_fib11 ur_fib12) = []"
    using jam_start by blast
  let ?j = "j\<lparr>jam_bsw := ur_bsw_init (jam_bsw j) ur_fib11 ur_fib12\<rparr>"
  obtain w where w: "ur_walk_fore_with r (jam_walk j) ref ?j jam_atom_cb jam_cell_cb =
      (case jam_visit r n ref ?j of None \<Rightarrow> None | Some v \<Rightarrow> Some (w, v))"
    using walk_fore_visit [OF wf(1) rep j(2) cells, where v = ?j and atom = jam_atom_cb and cell = jam_cell_cb]
    by blast
  obtain j1 where v: "jam_visit r n ref ?j = Some j1"
    using jam j(1) w by (cases "jam_visit r n ref ?j") (auto simp: ur_jam_def jam_run_def)
  obtain bsw where done_: "ur_bsw_done (jam_bsw j1) = ((bits, len, byt), bsw)"
    using jam j(1) w v by (cases "ur_bsw_done (jam_bsw j1)") (auto simp: ur_jam_def jam_run_def)
  have "bsw_wf (jam_bsw j1)" using jam_visit_extends [OF wf rep j(3) v] by (simp add: jam_ok_def)
  note spec = ur_bsw_done_spec [OF this done_]
  show ?thesis using v j(3-5) spec by (intro exI [of _ ?j] exI [of _ j1]) simp
qed

lemma ur_cue_start:
  assumes bytes: "bytes_bits (take len byt) = bs" "len \<le> length byt" and len: "len \<le> 0x7ffffffffffffff"
    and wf: "root_wf r"
  shows "\<exists>c. ur_cue r len (take len byt) = map_option (\<lambda>(res, c'). (res, cue_root c')) (cue_go c) \<and>
    cue_root c = r \<and> cue_ok c \<and> reader_at (cue_bsr c) 0 bs \<and> cs_frames (cue_stk c) = [] \<and>
    dict_map (cue_dict c) = Map.empty \<and> cs_prev (cue_stk c) = ur_fib10 \<and> cs_size (cue_stk c) = ur_fib11"
proof -
  obtain d where d: "ur_dict64_grow (ur_nref_mug r) dict_null ur_fib11 ur_fib12 = Some d"
      "dict_wf (ur_nref_mug r) d" "dict_map d = Map.empty"
    using dict64_new [of ur_fib11 ur_fib12 "ur_nref_mug r"] by (auto simp: ur_fib11_def ur_fib12_def)
  let ?b = "bsr_zero\<lparr>bsr_left := len, bsr_bytes := take len byt\<rparr>"
  let ?c = "\<lparr>cue_root = r, cue_bsr = ?b,
    cue_stk = \<lparr>cs_prev = ur_fib10, cs_size = ur_fib11, cs_frames = []\<rparr>, cue_dict = d\<rparr>"
  have init: "ur_bsr_init bsr_zero len (take len byt) = (Inr (), ?b)"
    using len by (simp add: ur_bsr_init_def)
  have wfb: "bsr_wf ?b" using bytes(2) by (intro bsr_wfI) (auto simp: bsr_zero_def)
  have "bsr_stream ?b = bs" using bytes(1) by (simp add: bsr_stream_def bsr_zero_def)
  then have "reader_at ?b 0 bs" using wfb by (simp add: reader_at_def bsr_zero_def)
  moreover have "ur_cue r len (take len byt) = map_option (\<lambda>(res, c'). (res, cue_root c')) (cue_go ?c)"
  proof (cases "cue_next ?c")
    case None
    then show ?thesis using d(1) init len
      by (simp add: ur_cue_def ur_cue_init_def ur_cue_init_with_def cue_run_def cue_go_def)
  next
    case (Some res)
    then show ?thesis using d(1) init len
      by (cases "cue_loop (snd res) (fst res)")
        (simp_all add: ur_cue_def ur_cue_init_def ur_cue_init_with_def cue_run_def cue_go_def case_prod_beta')
  qed
  ultimately show ?thesis using wf d by (intro exI [of _ ?c]) (simp add: cue_ok_def)
qed

lemma cue_loop_end: "cs_frames (cue_stk c) = [] \<Longrightarrow> cue_loop c res = Some (res, c)"
  by (subst cue_loop.simps) (simp split: sum.split)

section \<open>Both return\<close>

primrec subnouns :: "noun \<Rightarrow> noun set" where
  "subnouns (Atom a) = {Atom a}"
| "subnouns (Cell h t) = insert (Cell h t) (subnouns h \<union> subnouns t)"

lemma subnouns_self: "n \<in> subnouns n"
  by (cases n) auto

text \<open>The references of a noun and of the nouns in it.\<close>

definition refs_in :: "ur_root \<Rightarrow> noun \<Rightarrow> nref set" where
  "refs_in r n = {x. \<exists>m \<in> subnouns n. rep r x m}"

lemma jam_put_total:
  assumes ok: "jam_ok r j" and wf: "root_wf r" and rep: "rep r ref n"
    and S: "dom (jam_pos j) \<subseteq> S" "ref \<in> S" "mug_spread (ur_nref_mug r) S"
  shows "\<exists>d. ur_dict64_put (ur_nref_mug r) (jam_dict j) ref v = Some d"
  unfolding ur_dict64_put_def
proof (rule dict_put_total)
  show "dict_wf (ur_nref_mug r) (jam_dict j)" using ok by (simp add: jam_ok_def)
  show "ur_nref_mug r ref \<noteq> None" by (rule root_ref_mug [OF wf rep_root_ref [OF rep]])
  show "mug_spread (ur_nref_mug r) (insert ref (dom (dict_map (jam_dict j))))"
    by (rule mug_spread_mono [OF S(3)]) (use S in blast)
qed

lemma jam_atom_total:
  assumes wf: "root_wf r" "root_canon r" "atoms_small r" and rep: "rep r ref (Atom a)" and ok: "jam_ok r j"
    and S: "dom (jam_pos j) \<subseteq> S" "ref \<in> S" "mug_spread (ur_nref_mug r) S"
  shows "\<exists>j'. jam_atom_cb r ref j = Some j'"
proof -
  have d: "dict_wf (ur_nref_mug r) (jam_dict j)" and w: "bsw_wf (jam_bsw j)" using ok by (simp_all add: jam_ok_def)
  obtain mu where mu: "ur_nref_mug r ref = Some mu" using root_ref_mug [OF wf(1) rep_root_ref [OF rep]] by blast
  have met: "ur_met r 0 ref = Some (met0 a)" using ur_met_bits [OF rep wf(1,2), of 0] by simp
  obtain w' where w': "bsw_atom r ref (jam_bsw j) (met0 a) = Some w'"
    using bsw_atom_adds [OF rep wf(1,2) w] atoms_small_met0 [OF wf(3,1) rep] by auto
  obtain d' where d': "ur_dict64_put (ur_nref_mug r) (jam_dict j) ref (of_nat (bsw_bits (jam_bsw j))) = Some d'"
    using jam_put_total [OF ok wf(1) rep S] by blast
  have get: "ur_dict64_get (ur_nref_mug r) (jam_dict j) ref = Some (jam_pos j ref)"
    by (rule dict64_get_spec [OF d mu])
  show ?thesis
    using met w' d' get by (cases "jam_pos j ref") (simp_all add: jam_atom_cb_def Let_def)
qed

lemma jam_cell_total:
  assumes wf: "root_wf r" and rep: "rep r ref n" and ok: "jam_ok r j"
    and S: "dom (jam_pos j) \<subseteq> S" "ref \<in> S" "mug_spread (ur_nref_mug r) S"
  shows "\<exists>go j'. jam_cell_cb r ref j = Some (go, j')"
proof -
  have d: "dict_wf (ur_nref_mug r) (jam_dict j)" using ok by (simp add: jam_ok_def)
  obtain mu where mu: "ur_nref_mug r ref = Some mu" using root_ref_mug [OF wf rep_root_ref [OF rep]] by blast
  have get: "ur_dict64_get (ur_nref_mug r) (jam_dict j) ref = Some (jam_pos j ref)"
    by (rule dict64_get_spec [OF d mu])
  obtain d' where "ur_dict64_put (ur_nref_mug r) (jam_dict j) ref (of_nat (bsw_bits (jam_bsw j))) = Some d'"
    using jam_put_total [OF ok wf rep S] by blast
  then show ?thesis using get by (cases "jam_pos j ref") (auto simp: jam_cell_cb_def)
qed

lemma jam_visit_total:
  assumes wf: "root_wf r" "root_canon r" "atoms_small r" and spread: "mug_spread (ur_nref_mug r) S"
  shows "rep r ref n \<Longrightarrow> jam_ok r j \<Longrightarrow> dom (jam_pos j) \<subseteq> S \<Longrightarrow> refs_in r n \<subseteq> S \<Longrightarrow>
    \<exists>j'. jam_visit r n ref j = Some j' \<and> dom (jam_pos j') \<subseteq> S"
proof (induction n arbitrary: ref j)
  case (Atom a)
  then have S: "ref \<in> S" by (auto simp: refs_in_def)
  obtain j' where j': "jam_atom_cb r ref j = Some j'"
    using jam_atom_total [OF wf Atom.prems(1,2,3) S spread] by blast
  have "dom (jam_pos j') \<subseteq> insert ref (dom (jam_pos j))"
    using jam_atom_step(2) [OF wf Atom.prems(1,2) j'] by (auto split: if_splits)
  then have "dom (jam_pos j') \<subseteq> S" using Atom.prems(3) S by blast
  then show ?case using j' by simp
next
  case (Cell h t)
  then have S: "ref \<in> S" by (auto simp: refs_in_def)
  have sub: "refs_in r h \<subseteq> S" "refs_in r t \<subseteq> S" using Cell.prems(4) by (auto simp: refs_in_def)
  obtain a b where ab: "ur_head r ref = Some a" "ur_tail r ref = Some b" "rep r a h" "rep r b t"
    using rep_Cell_lookup [OF Cell.prems(1) wf(1)] .
  obtain go j1 where j1: "jam_cell_cb r ref j = Some (go, j1)"
    using jam_cell_total [OF wf(1) Cell.prems(1,2,3) S spread] by blast
  note step = jam_cell_step [OF wf(1) Cell.prems(1,2) j1]
  have "dom (jam_pos j1) \<subseteq> insert ref (dom (jam_pos j))" using step(2) by (auto split: if_splits)
  then have dom1: "dom (jam_pos j1) \<subseteq> S" using Cell.prems(3) S by blast
  show ?case
  proof (cases go)
    case True
    obtain j2 where j2: "jam_visit r h a j1 = Some j2" "dom (jam_pos j2) \<subseteq> S"
      using Cell.IH(1) [OF ab(3) step(1) dom1 sub(1)] by blast
    have ok2: "jam_ok r j2" using jam_visit_extends [OF wf ab(3) step(1) j2(1)] by blast
    from Cell.IH(2) [OF ab(4) ok2 j2(2) sub(2)] show ?thesis using j1 ab j2 True by simp
  next
    case False
    then show ?thesis using j1 dom1 by simp
  qed
qed

lemma ur_jam_total:
  assumes wf: "root_wf r" "root_canon r" "atoms_small r" and rep: "rep r ref n"
    and cells: "ce_fill (cells r) < 2 ^ 31 - 1" and spread: "mug_spread (ur_nref_mug r) (refs_in r n)"
  shows "\<exists>bits len byt. ur_jam r ref = Some (bits, len, byt)"
proof -
  obtain j where j: "ur_jam_init r = Some j" "walk_wf (jam_walk j) 1"
      "jam_ok r (j\<lparr>jam_bsw := ur_bsw_init (jam_bsw j) ur_fib11 ur_fib12\<rparr>)"
      "jam_pos j = Map.empty" "bsw_out (ur_bsw_init (jam_bsw j) ur_fib11 ur_fib12) = []"
    using jam_start by blast
  let ?j = "j\<lparr>jam_bsw := ur_bsw_init (jam_bsw j) ur_fib11 ur_fib12\<rparr>"
  obtain w where w: "ur_walk_fore_with r (jam_walk j) ref ?j jam_atom_cb jam_cell_cb =
      (case jam_visit r n ref ?j of None \<Rightarrow> None | Some v \<Rightarrow> Some (w, v))"
    using walk_fore_visit [OF wf(1) rep j(2) cells, where v = ?j and atom = jam_atom_cb and cell = jam_cell_cb]
    by blast
  obtain j1 where v: "jam_visit r n ref ?j = Some j1"
    using jam_visit_total [OF wf spread rep j(3)] j(4) by auto
  obtain bits len byt bsw where "ur_bsw_done (jam_bsw j1) = ((bits, len, byt), bsw)"
    by (metis prod_cases3 surj_pair)
  then show ?thesis using j(1) w v by (simp add: ur_jam_def jam_run_def Let_def)
qed

text \<open>The empty root has no entries that could share a mug.\<close>

lemma jam_of_atom:
  assumes r: "ur_root_init = Some r" and ref: "ur_nref_tag ref = ur_direct"
  shows "rep r ref (Atom (unat ref)) \<and> atoms_small r \<and> ce_fill (cells r) < 2 ^ 31 - 1 \<and>
    mug_spread (ur_nref_mug r) (refs_in r (Atom (unat ref)))"
proof -
  have wf: "root_wf r" "root_canon r" using reachable_wf [OF ur_reachable.init [OF r]] by simp_all
  obtain s where "ur_root_init = Some s" "at_fill (atoms s) = 0" "ce_fill (cells s) = 0"
    using root_init_spec by blast
  then have fill: "at_fill (atoms r) = 0" "ce_fill (cells r) = 0" using r by (metis option.inject)+
  have rep: "rep r ref (Atom (unat ref))" by (rule rep_direct [OF ref])
  have "refs_in r (Atom (unat ref)) = {ref}"
    using rep rep_unique [OF wf _ rep] by (auto simp: refs_in_def)
  then show ?thesis
    using rep fill by (simp add: atoms_small_def mug_spread_finite ur_pail_max_def)
qed

section \<open>Cue on any input\<close>

lemma bits_of_last_mod: "8 * lst \<le> len \<Longrightarrow> len mod 8 \<le> bits_of_last len lst"
proof -
  assume "8 * lst \<le> len"
  then have e: "int len - int (lst * 8) = int (len - 8 * lst)" by (simp add: of_nat_diff mult.commute)
  have "bits_of_last len lst = (len - 8 * lst) mod 256"
    unfolding bits_of_last_def e by (metis nat_int of_nat_mod of_nat_numeral)
  moreover have "(len - 8 * lst) mod 256 mod 8 = (len - 8 * lst) mod 8" by (simp add: mod_mod_cancel)
  moreover have "(len - 8 * lst) mod 8 = len mod 8"
    using \<open>8 * lst \<le> len\<close> by (metis add.commute le_add_diff_inverse mod_mult_self2)
  ultimately show ?thesis using mod_less_eq_dividend [of "(len - 8 * lst) mod 256" 8] by simp
qed

lemma ur_bsr_bytes_any_wf:
  assumes wf: "bsr_wf b"
  shows "bsr_wf (snd (ur_bsr_bytes_any b n out))"
proof (cases "bsr_left b = 0")
  case True
  then show ?thesis using wf by (simp add: ur_bsr_bytes_any_def Let_def bsr_wf_def ur_bsr_sane_def bsr_tick_def)
next
  case left: False
  note o = bsr_wfD [OF wf]
  let ?need = "n div 8 + of_bool (n mod 8 \<noteq> 0)"
  show ?thesis
  proof (cases "bsr_off b = 0")
    case True
    show ?thesis
    proof (cases "bsr_left b < ?need")
      case True
      then show ?thesis using left \<open>bsr_off b = 0\<close>
        by (intro bsr_wfI) (simp_all add: ur_bsr_bytes_any_def Let_def)
    next
      case False
      then have "bsr_left b \<noteq> n div 8 \<or> n mod 8 = 0" by auto
      then show ?thesis using left \<open>bsr_off b = 0\<close> False o(2)
        by (intro bsr_wfI) (auto simp: ur_bsr_bytes_any_def Let_def)
    qed
  next
    case off: False
    show ?thesis
    proof (cases "bsr_left b \<le> ?need")
      case True
      have "?need \<le> n div 8 + 1" by (simp add: of_bool_def)
      then have "bsr_left b - 1 \<le> n div 8" using True by linarith
      then have lst: "8 * (bsr_left b - 1) \<le> n" by (simp add: less_eq_div_iff_mult_less_eq mult.commute)
      then have mx: "min (bsr_left b - 1) (n div 8) = bsr_left b - 1" by (simp add: less_eq_div_iff_mult_less_eq mult.commute min_absorb1)
      show ?thesis
      proof (cases "bits_of_last n (bsr_left b - 1) < 8 - bsr_off b")
        case last_: True
        then have "bsr_off b + n mod 8 < 8" using bits_of_last_mod [OF lst] by linarith
        then show ?thesis using left off True last_ mx o(2)
          by (intro bsr_wfI) (simp_all add: ur_bsr_bytes_any_def Let_def)
      next
        case False
        then show ?thesis using left off True by (intro bsr_wfI) (simp_all add: ur_bsr_bytes_any_def Let_def)
      qed
    next
      case False
      then have mx: "min (bsr_left b - 1) (n div 8) = n div 8" by (cases "n mod 8 = 0") simp_all
      have step: "(bsr_off b + n mod 8) div 8 = 0 \<or> (bsr_off b + n mod 8) div 8 = 1"
        using o(1) by auto
      have room: "n div 8 + of_bool ((bsr_off b + n mod 8) div 8 \<noteq> 0) < bsr_left b"
      proof (cases "n mod 8 = 0")
        case True
        then show ?thesis using False o(1) by simp
      next
        case nz: False
        then have "n div 8 + 1 < bsr_left b" using False by simp
        then show ?thesis by (simp add: of_bool_def)
      qed
      show ?thesis using left off False mx o(2) room step
        by (intro bsr_wfI) (auto simp: ur_bsr_bytes_any_def Let_def)
    qed
  qed
qed

lemma ur_bsr_log_wf: "bsr_wf b \<Longrightarrow> bsr_wf (snd (ur_bsr_log b))"
  using ur_bsr_log_spec by blast

lemma ur_bsr_rub_len_wf:
  assumes "bsr_wf b"
  shows "bsr_wf (snd (ur_bsr_rub_len b))"
proof (cases "ur_bsr_log b")
  case (Pair x b1)
  have "bsr_wf b1" using ur_bsr_log_wf [OF assms] Pair by simp
  then show ?thesis using Pair r64.read_wf [of b1]
    by (cases x) (auto simp: ur_bsr_rub_len_def case_prod_beta' Let_def)
qed

text \<open>
  The invariant of a cue, on any input: the root and the dictionary are well formed, and every
  reference in the dictionary, on the stack and in a result is one of the root.
\<close>

definition cue_inv :: "cue_state \<Rightarrow> bool" where
  "cue_inv c \<longleftrightarrow> cue_ok c \<and> bsr_wf (cue_bsr c) \<and>
     (\<forall>v \<in> ran (dict_map (cue_dict c)). root_ref (cue_root c) v) \<and>
     (\<forall>f \<in> set (cs_frames (cue_stk c)). frame_ref f = CUE_HEAD \<or> root_ref (cue_root c) (frame_ref f))"

definition cue_good_end :: "cue_state \<Rightarrow> (cue_err + nref) \<times> cue_state \<Rightarrow> bool" where
  "cue_good_end c res \<longleftrightarrow> cue_inv (snd res) \<and> root_ext (cue_root c) (cue_root (snd res)) \<and>
     (\<forall>y. fst res = Inr y \<longrightarrow> root_ref (cue_root (snd res)) y)"

lemma cue_invD:
  assumes "cue_inv c"
  shows "root_wf (cue_root c)" "dict_wf (cue_mug c) (cue_dict c)" "bsr_wf (cue_bsr c)"
    "\<And>k v. dict_map (cue_dict c) k = Some v \<Longrightarrow> root_ref (cue_root c) v"
    "\<And>f. f \<in> set (cs_frames (cue_stk c)) \<Longrightarrow> frame_ref f = CUE_HEAD \<or> root_ref (cue_root c) (frame_ref f)"
  using assms by (auto simp: cue_inv_def cue_ok_def ran_def)

lemma cue_inv_bsr: "cue_inv c \<Longrightarrow> bsr_wf b \<Longrightarrow> cue_inv (c\<lparr>cue_bsr := b\<rparr>)"
  by (simp add: cue_inv_def cue_ok_def)

text \<open>A larger root, an entry for one of its references, and frames of it keep the invariant.\<close>

lemma cue_inv_put:
  assumes inv: "cue_inv c" and r: "root_wf r" "root_ext (cue_root c) r" and v: "root_ref r v"
    and put: "ur_dict64_put (ur_nref_mug r) (cue_dict c) k v = Some d"
    and c': "cue_root c' = r" "cue_dict c' = d" "bsr_wf (cue_bsr c')"
      "set (cs_frames (cue_stk c')) \<subseteq> set (cs_frames (cue_stk c))"
  shows "cue_inv c'"
proof -
  note i = cue_invD [OF inv]
  have "dict_wf (ur_nref_mug r) (cue_dict c)" by (rule dict_wf_mono [OF i(2) root_ext_mug [OF r(2)]])
  note d = dict64_put_spec [OF put this]
  have refs: "root_ref r x" if "root_ref (cue_root c) x" for x by (rule root_ref_ext [OF r(2) that])
  show ?thesis
    unfolding cue_inv_def cue_ok_def
  proof (intro conjI ballI)
    show "root_ref (cue_root c') x" if "x \<in> ran (dict_map (cue_dict c'))" for x
      using that d i(4) refs v by (auto simp: c' ran_def split: if_splits)
    show "frame_ref f = CUE_HEAD \<or> root_ref (cue_root c') (frame_ref f)"
      if "f \<in> set (cs_frames (cue_stk c'))" for f
      using i(5) [of f] that c'(4) refs by (auto simp: c'(1))
  qed (use c' r d in simp_all)
qed

lemma sized_value_ref:
  fixes len :: u64
  assumes "bsr_wf b" "unat len \<le> 62" "ur_bsr64_any b (unat len) = (v, b3)"
  shows "root_ref r v" "bsr_wf b3"
proof -
  have v: "v = word_of_bits (take (unat len) (bsr_stream b))"
    using r64.read_value [OF assms(1), of "unat len"] assms(2,3) by (simp add: min_absorb2)
  have "bit (unat v) k \<Longrightarrow> k < 62" for k
    using assms(2) by (auto simp: v bit_unsigned_iff bit_word_of_bits)
  then have "unat v < 2 ^ 62" by (rule less_exp_bitI)
  then show "root_ref r v" by (simp add: root_ref_def ref_below_def direct_value)
  show "bsr_wf b3" using r64.read_wf [OF assms(1), of "unat len"] assms(3) by simp
qed

lemma cue_big_atom_inv:
  assumes inv: "cue_inv c" and big: "cue_big_atom c len = Some (ref, c')"
  shows "\<exists>b r. c' = c\<lparr>cue_root := r, cue_bsr := b\<rparr> \<and> bsr_wf b \<and> root_wf r \<and>
    root_ext (cue_root c) r \<and> root_ref r ref"
proof -
  note i = cue_invD [OF inv]
  let ?k = "len div 8 + of_bool (len mod 8 \<noteq> 0)"
  have k: "len \<le> 8 * ?k" unfolding ceil_div by simp
  obtain byt b where b: "ur_bsr_bytes_any (cue_bsr c) len (replicate ?k 0) = (byt, b)" by fastforce
  have "length byt = ?k" using length_ur_bsr_bytes_any [OF i(3), of len "replicate ?k 0"] k b by simp
  obtain r where r: "ur_coin_bytes_unsafe (cue_root c) (strip_zeros ?k byt) byt = Some (ref, r)"
    and c': "c' = c\<lparr>cue_root := r, cue_bsr := b\<rparr>"
    using big b by (auto simp: cue_big_atom_def bind_eq_Some_conv)
  have post: "coin_post (cue_root c) (strip_zeros ?k byt) byt ref r"
    by (rule coin_bytes_spec [OF r i(1) strip_zeros_le(2)])
  have "bsr_wf b" using ur_bsr_bytes_any_wf [OF i(3), of len "replicate ?k 0"] b by simp
  moreover have "root_ref r ref" by (rule rep_root_ref [OF coin_post_rep [OF post]])
  ultimately show ?thesis using c' post by (auto simp: coin_post_def)
qed

lemma cue_next_inv:
  assumes "cue_next c = Some res" "cue_inv c"
  shows "cue_good_end c res"
  using assms
proof (induction rule: cue_next.raw_induct [rotated 1, consumes 1, case_names step])
  case (step nxt c res)
  note i = cue_invD [OF step.prems]
  obtain t b where tag: "ur_bsr_tag (cue_bsr c) = (t, b)" by fastforce
  have b: "bsr_wf b" using ur_bsr_tag_spec(1) [OF i(3)] tag by simp
  have inv1: "cue_inv (c\<lparr>cue_bsr := b\<rparr>)" by (rule cue_inv_bsr [OF step.prems b])
  obtain rl b2 where rl: "ur_bsr_rub_len b = (rl, b2)" by fastforce
  have b2: "bsr_wf b2" using ur_bsr_rub_len_wf [OF b] rl by simp
  have inv2: "cue_inv (c\<lparr>cue_bsr := b2\<rparr>)" by (rule cue_inv_bsr [OF step.prems b2])
  note hyp = step.hyps [unfolded tag Let_def, simplified]
  consider (err) e where "t = Inl e" | (cell) "t = Inr jam_cell" | (bref) "t = Inr jam_back" | (atom) "t = Inr jam_atom"
    by (metis cue_tag.exhaust sum.exhaust)
  then show ?case
  proof cases
    case err
    then show ?thesis using hyp inv1 by (auto simp: cue_good_end_def)
  next
    case cell
    then obtain s where s: "cue_push \<lparr>frame_ref = CUE_HEAD, frame_bits = of_nat (bsr_bits (cue_bsr c))\<rparr> (cue_stk c) = Some s"
      and nx: "nxt (c\<lparr>cue_bsr := b, cue_stk := s\<rparr>) = Some res"
      using hyp by (auto simp: bind_eq_Some_conv)
    have "cue_inv (c\<lparr>cue_bsr := b, cue_stk := s\<rparr>)"
      using inv1 cue_push_frames [OF s] by (simp add: cue_inv_def cue_ok_def)
    from step.IH [OF nx this] show ?thesis by (simp add: cue_good_end_def)
  next
    case bref
    show ?thesis
    proof (cases rl)
      case (Inl e)
      then show ?thesis using hyp bref rl inv2 by (auto simp: cue_good_end_def)
    next
      case (Inr len)
      show ?thesis
      proof (cases "62 < len")
        case True
        then show ?thesis using hyp bref rl Inr inv2 by (auto simp: cue_good_end_def)
      next
        case False
        then have len: "unat len \<le> 62" by (simp add: word_less_nat_alt)
        obtain bak b3 where v: "ur_bsr64_any b2 (unat len) = (bak, b3)" by fastforce
        have "bsr_wf b3" by (rule sized_value_ref(2) [OF b2 len v])
        then have inv3: "cue_inv (c\<lparr>cue_bsr := b3\<rparr>)" by (rule cue_inv_bsr [OF step.prems])
        obtain mu where mu: "cue_mug c bak = Some mu"
          using sized_value_ref(1) [OF b2 len v] root_ref_mug [OF i(1)] by blast
        from hyp bref rl Inr False v dict64_get_spec [OF i(2) mu] inv3 i(4) [of bak]
        show ?thesis by (auto simp: cue_good_end_def split: option.splits)
      qed
    qed
  next
    case atom
    show ?thesis
    proof (cases rl)
      case (Inl e)
      then show ?thesis using hyp atom rl inv2 by (auto simp: cue_good_end_def)
    next
      case (Inr len)
      obtain ref b3 r where s: "bsr_wf b3" "root_wf r" "root_ext (cue_root c) r" "root_ref r ref"
        and put: "\<exists>d. ur_dict64_put (ur_nref_mug r) (cue_dict c) (of_nat (bsr_bits (cue_bsr c))) ref = Some d \<and>
          res = (Inr ref, c\<lparr>cue_root := r, cue_bsr := b3, cue_dict := d\<rparr>)"
      proof (cases "len \<le> 62")
        case True
        then have len: "unat len \<le> 62" by (simp add: word_le_nat_alt)
        obtain v b3 where v: "ur_bsr64_any b2 (unat len) = (v, b3)" by fastforce
        show ?thesis
          by (rule that [of b3 "cue_root c" v])
            (use sized_value_ref [OF b2 len v] i(1) hyp atom rl Inr True v in \<open>auto simp: bind_eq_Some_conv\<close>)
      next
        case False
        obtain v c3 where big: "cue_big_atom (c\<lparr>cue_bsr := b2\<rparr>) (unat len) = Some (v, c3)"
          and rest: "\<exists>d. ur_dict64_put (cue_mug c3) (cue_dict c3) (of_nat (bsr_bits (cue_bsr c))) v = Some d \<and>
            res = (Inr v, c3\<lparr>cue_dict := d\<rparr>)"
          using hyp atom rl Inr False by (auto simp: bind_eq_Some_conv)
        obtain b3 r where "c3 = c\<lparr>cue_bsr := b2, cue_root := r, cue_bsr := b3\<rparr>" "bsr_wf b3" "root_wf r"
            "root_ext (cue_root c) r" "root_ref r v"
          using cue_big_atom_inv [OF inv2 big] by auto
        with rest that [of b3 r v] show ?thesis by auto
      qed
      obtain d where d: "ur_dict64_put (ur_nref_mug r) (cue_dict c) (of_nat (bsr_bits (cue_bsr c))) ref = Some d"
        and res: "res = (Inr ref, c\<lparr>cue_root := r, cue_bsr := b3, cue_dict := d\<rparr>)" using put by blast
      have "cue_inv (snd res)"
        by (rule cue_inv_put [OF step.prems s(2-4) d]) (use res s in simp_all)
      then show ?thesis using res s by (simp add: cue_good_end_def)
    qed
  qed
qed

lemma cue_loop_inv:
  assumes "cue_loop c res = Some out" "cue_inv c" "\<And>y. res = Inr y \<Longrightarrow> root_ref (cue_root c) y"
  shows "cue_good_end c out"
  using assms
proof (induction rule: cue_loop.raw_induct [rotated 1, consumes 1, case_names step])
  case (step loop c res out)
  note i = cue_invD [OF step.prems(1)]
  have stop: "cue_good_end c (res, c)"
    using step.prems by (simp add: cue_good_end_def)
  show ?case
  proof (cases res)
    case (Inl e)
    then show ?thesis using step.hyps stop by simp
  next
    case res: (Inr ref)
    show ?thesis
    proof (cases "cs_frames (cue_stk c)")
      case Nil
      then show ?thesis using step.hyps stop res by simp
    next
      case (Cons f fs)
      let ?c1 = "c\<lparr>cue_stk := (cue_stk c)\<lparr>cs_frames := f\<lparr>frame_ref := ref\<rparr> # fs\<rparr>\<rparr>"
      show ?thesis
      proof (cases "frame_ref f = CUE_HEAD")
        case True
        then obtain res1 c2 where nx: "cue_next ?c1 = Some (res1, c2)" and lp: "loop c2 res1 = Some out"
          using step.hyps res Cons by (auto simp: bind_eq_Some_conv)
        have "cue_inv ?c1" using step.prems res Cons by (simp add: cue_inv_def cue_ok_def)
        then have e: "cue_good_end ?c1 (res1, c2)" by (rule cue_next_inv [OF nx])
        have "cue_good_end c2 out"
          by (rule step.IH [OF lp]) (use e in \<open>auto simp: cue_good_end_def\<close>)
        then show ?thesis using e root_ext_trans by (auto simp: cue_good_end_def)
      next
        case False
        then have hed: "root_ref (cue_root c) (frame_ref f)" using i(5) [of f] Cons by simp
        obtain cel r d where cons: "ur_cons (cue_root c) (frame_ref f) ref = Some (cel, r)"
          and put: "ur_dict64_put (ur_nref_mug r) (cue_dict c) (frame_bits f) cel = Some d"
          and lp: "loop (c\<lparr>cue_root := r, cue_dict := d, cue_stk := (cue_stk c)\<lparr>cs_frames := fs\<rparr>\<rparr>) (Inr cel) = Some out"
          using step.hyps res Cons False by (auto simp: bind_eq_Some_conv)
        let ?c2 = "c\<lparr>cue_root := r, cue_dict := d, cue_stk := (cue_stk c)\<lparr>cs_frames := fs\<rparr>\<rparr>"
        have post: "cons_post (cue_root c) (frame_ref f) ref cel r"
          by (rule cons_spec [OF cons i(1) hed]) (use step.prems(2) res in blast)
        then have r: "root_wf r" "root_ext (cue_root c) r" by (simp_all add: cons_post_def)
        obtain k where "k < ce_fill (cells r)" "cel = nref_of ur_icell k" using post by (auto simp: cons_post_def)
        then have cel: "root_ref r cel"
          using icell_lookup(1,2) [of r k] r(1) by (simp add: root_ref_def ref_below_def root_wf_def)
        have "cue_inv ?c2"
          by (rule cue_inv_put [OF step.prems(1) r cel put]) (use i(3) Cons in auto)
        then have "cue_good_end ?c2 out" by (rule step.IH [OF lp]) (use cel in simp)
        then show ?thesis using root_ext_trans [OF r(2)] by (simp add: cue_good_end_def)
      qed
    qed
  qed
qed

lemma cue_run_safe:
  assumes cue: "ur_cue r len byt = Some (res, r1)" and wf: "root_wf r" and len: "length byt = len"
  shows "root_wf r1 \<and> root_ext r r1 \<and> (\<forall>y. res = Inr y \<longrightarrow> root_ref r1 y)"
proof -
  obtain d where d: "ur_dict64_grow (ur_nref_mug r) dict_null ur_fib11 ur_fib12 = Some d"
      "dict_wf (ur_nref_mug r) d" "dict_map d = Map.empty"
    using dict64_new [of ur_fib11 ur_fib12 "ur_nref_mug r"] by (auto simp: ur_fib11_def ur_fib12_def)
  let ?b = "bsr_zero\<lparr>bsr_left := len, bsr_bytes := byt\<rparr>"
  let ?c = "\<lparr>cue_root = r, cue_bsr = ?b,
    cue_stk = \<lparr>cs_prev = ur_fib10, cs_size = ur_fib11, cs_frames = []\<rparr>, cue_dict = d\<rparr>"
  show ?thesis
  proof (cases "(len * 8) mod 2 ^ 64 < len \<or> 0x7ffffffffffffff < len")
    case True
    then have "(\<exists>e. res = Inl e) \<and> r1 = r"
      using cue d(1)
      by (auto simp: ur_cue_def ur_cue_init_def ur_cue_init_with_def cue_run_def ur_bsr_init_def split: if_splits)
    then show ?thesis using wf by auto
  next
    case False
    then obtain res0 c0 c1 where nx: "cue_next ?c = Some (res0, c0)" and lp: "cue_loop c0 res0 = Some (res, c1)"
      and r1: "cue_root c1 = r1"
      using cue d(1)
      by (auto simp: ur_cue_def ur_cue_init_def ur_cue_init_with_def cue_run_def ur_bsr_init_def bind_eq_Some_conv)
    have "bsr_wf ?b" using len by (intro bsr_wfI) (auto simp: bsr_zero_def)
    then have "cue_inv ?c" using wf d by (simp add: cue_inv_def cue_ok_def)
    then have e: "cue_good_end ?c (res0, c0)" by (rule cue_next_inv [OF nx])
    have "cue_good_end c0 (res, c1)" by (rule cue_loop_inv [OF lp]) (use e in \<open>auto simp: cue_good_end_def\<close>)
    then show ?thesis using e r1 root_ext_trans by (auto simp: cue_good_end_def cue_inv_def cue_ok_def)
  qed
qed

section \<open>Steps of cue-test\<close>

definition test_go :: "cue_test \<Rightarrow> ((cue_err + unit) \<times> cue_test) option" where
  "test_go t = do { (res, t1) \<leftarrow> cue_test_next t; cue_test_loop t1 res }"

lemma test_next_cell:
  assumes "reader_at (test_bsr t) p (True # False # rest)" "p + 2 < 2 ^ 64"
  shows "\<exists>b. reader_at b (p + 2) rest \<and>
    cue_test_next t = do { s \<leftarrow> cue_push \<lparr>test_tal = False, test_bits = of_nat p\<rparr> (test_stk t);
                           cue_test_next (t\<lparr>test_bsr := b, test_stk := s\<rparr>) }"
proof -
  obtain b where "ur_bsr_tag (test_bsr t) = (Inr jam_cell, b)" "reader_at b (p + 2) rest"
    using reader_tag [of "test_bsr t" p "[True, False]" rest jam_cell] assms by auto
  then show ?thesis using assms(1)
    by (intro exI [of _ b]) (subst cue_test_next.simps, simp add: reader_at_def)
qed

lemma test_next_atom:
  assumes "reader_at (test_bsr t) p (False # rest)" "p + 1 < 2 ^ 64"
  shows "\<exists>b. reader_at b (p + 1) rest \<and>
    (\<forall>len b2. ur_bsr_rub_len b = (Inr len, b2) \<longrightarrow>
      cue_test_next t = do { d \<leftarrow> ur_dict_put null_mug (test_dict t) (of_nat p);
                             Some (Inr (), t\<lparr>test_bsr := ur_bsr_skip_any b2 (unat len), test_dict := d\<rparr>) })"
proof -
  obtain b where b: "ur_bsr_tag (test_bsr t) = (Inr jam_atom, b)" "reader_at b (p + 1) rest"
    using reader_tag [of "test_bsr t" p "[False]" rest jam_atom] assms by auto
  have bits: "bsr_bits (test_bsr t) = p" using assms(1) by (simp add: reader_at_def)
  show ?thesis
  proof (intro exI [of _ b] conjI allI impI)
    fix len b2
    assume "ur_bsr_rub_len b = (Inr len, b2)"
    then show "cue_test_next t = do { d \<leftarrow> ur_dict_put null_mug (test_dict t) (of_nat p);
        Some (Inr (), t\<lparr>test_bsr := ur_bsr_skip_any b2 (unat len), test_dict := d\<rparr>) }"
      using b(1) bits by (subst cue_test_next.simps) (simp add: Let_def)
  qed (rule b(2))
qed

lemma null_mug_wf: "null_mug k = Some m \<Longrightarrow> ur_nref_tag k = ur_direct"
  by (simp add: null_mug_def split: if_splits)

lemma null_mug_pos: "p < 2 ^ 62 \<Longrightarrow> null_mug (of_nat p) \<noteq> None"
  by (simp add: null_mug_def direct_value unat_of_nat)

lemma dict_set_put_spec:
  "ur_dict_put mugf d k = Some d' \<Longrightarrow> dict_wf mugf d \<Longrightarrow>
   dict_wf mugf d' \<and> dict_map d' = (dict_map d)(k \<mapsto> ())"
  unfolding ur_dict_put_def by (rule dict_put_spec)

lemma dict_set_put_small:
  assumes "dict_wf mugf d" "mugf k \<noteq> None" "card (insert k (dom (dict_map d))) \<le> ur_pail_max"
  shows "\<exists>d'. ur_dict_put mugf d k = Some d'"
  unfolding ur_dict_put_def
  by (rule dict_put_total [OF assms(1,2)])
    (rule mug_spread_finite [OF _ assms(3)], simp add: dict_map_dom)

lemma ur_cue_test_start:
  assumes bytes: "bytes_bits byt = bs" "length byt = len" and len: "len \<le> 0x7ffffffffffffff"
  shows "\<exists>t. ur_cue_test len byt = map_option (\<lambda>(res, t'). res = Inr ()) (test_go t) \<and>
    dict_wf null_mug (test_dict t) \<and> dict_map (test_dict t) = Map.empty \<and>
    reader_at (test_bsr t) 0 bs \<and>
    test_stk t = \<lparr>cs_prev = ur_fib10, cs_size = ur_fib11, cs_frames = []\<rparr>"
proof -
  obtain d :: dict_set where d: "ur_dict_grow null_mug dict_null ur_fib11 ur_fib12 = Some d"
      "dict_wf null_mug d" "dict_map d = Map.empty"
    using dict_new [of ur_fib11 ur_fib12 null_mug] by (auto simp: ur_fib11_def ur_fib12_def ur_dict_grow_def)
  let ?b = "bsr_zero\<lparr>bsr_left := len, bsr_bytes := byt\<rparr>"
  let ?t = "\<lparr>test_bsr = ?b, test_stk = \<lparr>cs_prev = ur_fib10, cs_size = ur_fib11, cs_frames = []\<rparr>, test_dict = d\<rparr>"
  have wfb: "bsr_wf ?b" using bytes(2) by (intro bsr_wfI) (auto simp: bsr_zero_def)
  have "bsr_stream ?b = bs" using bytes(1) by (simp add: bsr_stream_def bsr_zero_def)
  then have "reader_at ?b 0 bs" using wfb by (simp add: reader_at_def bsr_zero_def)
  moreover have "ur_cue_test len byt = map_option (\<lambda>(res, t'). res = Inr ()) (test_go ?t)"
  proof (cases "cue_test_next ?t")
    case None
    then show ?thesis using d(1) len
      by (simp add: ur_cue_test_def ur_cue_test_init_def ur_cue_test_init_with_def cue_test_run_def
          ur_bsr_init_def test_go_def)
  next
    case (Some res)
    then show ?thesis using d(1) len
      by (cases "cue_test_loop (snd res) (fst res)")
        (simp_all add: ur_cue_test_def ur_cue_test_init_def ur_cue_test_init_with_def cue_test_run_def
          ur_bsr_init_def test_go_def case_prod_beta')
  qed
  ultimately show ?thesis using d by (intro exI [of _ ?t]) simp
qed

lemma test_loop_head:
  assumes "cs_frames (test_stk t) = \<lparr>test_tal = False, test_bits = pos\<rparr> # fs"
  shows "cue_test_loop t (Inr ()) =
    test_go (t\<lparr>test_stk := (test_stk t)\<lparr>cs_frames := \<lparr>test_tal = True, test_bits = pos\<rparr> # fs\<rparr>\<rparr>)"
  using assms by (subst cue_test_loop.simps) (simp add: test_go_def)

lemma test_loop_tail:
  assumes "cs_frames (test_stk t) = \<lparr>test_tal = True, test_bits = pos\<rparr> # fs"
  shows "cue_test_loop t (Inr ()) =
    do { d \<leftarrow> ur_dict_put null_mug (test_dict t) pos;
         cue_test_loop (t\<lparr>test_dict := d, test_stk := (test_stk t)\<lparr>cs_frames := fs\<rparr>\<rparr>) (Inr ()) }"
  using assms by (subst cue_test_loop.simps) simp

lemma test_loop_end: "cs_frames (test_stk t) = [] \<Longrightarrow> cue_test_loop t res = Some (res, t)"
  by (subst cue_test_loop.simps) (simp split: sum.split)

text \<open>A unary length of any size that fits.\<close>

lemma reader_rub:
  assumes r: "reader_at b p (replicate (Suc z) False @ True # ds @ rest)" and z: "length ds = z" "0 < z" "z \<le> 62"
    and p: "p + (2 + 2 * z) < 2 ^ 64"
  shows "\<exists>b1. ur_bsr_rub_len b = (Inr (word_of_bits ds XOR push_bit z 1), b1) \<and>
    reader_at b1 (p + (2 + 2 * z)) rest"
proof -
  have wf: "bsr_wf b" and s: "bsr_stream b = replicate (Suc z) False @ True # ds @ rest" and bits: "bsr_bits b = p"
    using r by (simp_all only: reader_at_def)
  then have zo: "zeros_of (bsr_stream b) = Suc z" by (simp only: zeros_of_replicate)
  note log = ur_bsr_log_good [OF wf zo]
  obtain b1 where b1: "ur_bsr_log b = (Inr (Suc z), b1)" "bsr_wf b1" "bsr_stream b1 = ds @ rest"
    using log s z by (cases "ur_bsr_log b") auto
  have "bsr_bits b1 = p + (2 + z)" using ur_bsr_log_bits [of b "Suc z"] b1(1) bits p by simp
  then have "reader_at b1 (p + (2 + z)) (ds @ rest)" using b1 by (simp add: reader_at_def)
  from reader_value [OF this] obtain b2 where "ur_bsr64_any b1 z = (word_of_bits ds, b2)"
      "reader_at b2 (p + (2 + z) + z) rest"
    using z p by auto
  then show ?thesis using b1(1) z by (intro exI [of _ b2]) (simp add: ur_bsr_rub_len_def mult_2 add.assoc)
qed

text \<open>A skip that wraps around the 8-bit count stays in the last byte.\<close>

lemma skip_wraps:
  assumes wf: "bsr_wf b" and left: "bsr_left b = 1" and m: "0 < m"
  shows "bsr_wf (ur_bsr_skip_any b (256 * m)) \<and> bsr_stream (ur_bsr_skip_any b (256 * m)) = bsr_stream b"
proof -
  note o = bsr_wfD [OF wf]
  have "bits_of_last (256 * m) 0 = 0" by (simp add: bits_of_last_def)
  moreover have "(256 * m) div 8 = 32 * m" "(256 * m) mod 8 = 0" by simp_all
  ultimately show ?thesis
    using left m o by (auto intro!: bsr_wfI simp: ur_bsr_skip_any_def Let_def bsr_stream_def)
qed

end
