(* ===== verification/JamReader.thy ===== *)
theory JamReader
  imports CueJam
begin
text \<open>
  What it takes to read a jammed noun back (\<^verbatim>\<open>serial.c\<close>). Cue and cue-test are loops over an
  explicit stack that go through the code of a noun in the order in which jam wrote it. The
  locale states what each step of such a reader has to do; one induction over the noun shows that
  the reader then follows jam through the whole noun. Cue (towards any root, and towards the root
  the noun came from) and cue-test are its interpretations.
\<close>

section \<open>Readers that follow jam\<close>

text \<open>
  A state \<open>s\<close> of the reader: \<open>rdr s\<close> is its bitstream, \<open>frames s\<close> its stack; \<open>run s\<close> is what
  remains to happen when the code of a noun comes next, \<open>cont s v\<close> when the noun just read had
  the value \<open>v\<close>; \<open>opened p\<close> and \<open>headed p v\<close> are the frames of a cell at cursor \<open>p\<close> before and
  after its head. \<open>sync P j s\<close> relates the reader to jam, whose references outside of \<open>P\<close> (the
  cells that are being read) it knows; \<open>val s v n\<close> says that \<open>v\<close> is a value for the noun \<open>n\<close>;
  \<open>good\<close> tells the runs to speak of, and \<open>N\<close> bounds the cursor.
\<close>

definition follows ::
  "('s \<Rightarrow> bsr) \<Rightarrow> ('s \<Rightarrow> 'f list) \<Rightarrow> (nref set \<Rightarrow> jam \<Rightarrow> 's \<Rightarrow> bool) \<Rightarrow> ('s \<Rightarrow> 'v \<Rightarrow> 'res) \<Rightarrow>
   ('s \<Rightarrow> 's \<Rightarrow> bool) \<Rightarrow> ('s \<Rightarrow> 'v \<Rightarrow> noun \<Rightarrow> bool) \<Rightarrow>
   nref set \<Rightarrow> noun \<Rightarrow> jam \<Rightarrow> 's \<Rightarrow> bool list \<Rightarrow> 'res \<Rightarrow> bool" where
  "follows rdr frames sync cont grows val P n j' s rest res \<longleftrightarrow>
     (\<exists>s' v. res = cont s' v \<and> sync P j' s' \<and> reader_at (rdr s') (length (jam_out j')) rest \<and>
        frames s' = frames s \<and> grows s s' \<and> val s' v n)"

locale jam_reader =
  fixes r :: ur_root and N :: nat
    and rdr :: "'s \<Rightarrow> bsr" and frames :: "'s \<Rightarrow> 'f list"
    and sync :: "nref set \<Rightarrow> jam \<Rightarrow> 's \<Rightarrow> bool"
    and run :: "'s \<Rightarrow> 'res" and cont :: "'s \<Rightarrow> 'v \<Rightarrow> 'res" and good :: "'res \<Rightarrow> bool"
    and opened :: "nat \<Rightarrow> 'f" and headed :: "nat \<Rightarrow> 'v \<Rightarrow> 'f"
    and grows :: "'s \<Rightarrow> 's \<Rightarrow> bool" and val :: "'s \<Rightarrow> 'v \<Rightarrow> noun \<Rightarrow> bool"
  assumes synced_root: "sync P j s \<Longrightarrow> root_wf r \<and> root_canon r \<and> atoms_small r"
    and grows_trans: "grows s s1 \<Longrightarrow> grows s1 s2 \<Longrightarrow> grows s s2"
    and val_grows: "val s v n \<Longrightarrow> sync P j s \<Longrightarrow> grows s s1 \<Longrightarrow> val s1 v n"
    and reads_atom: "sync P j s \<Longrightarrow> good (run s) \<Longrightarrow> rep r x (Atom a) \<Longrightarrow> met0 a < 2 ^ 63 \<Longrightarrow>
      reader_at (rdr s) (length (jam_out j)) (atom_code a @ rest) \<Longrightarrow>
      jam_out j' = jam_out j @ atom_code a \<Longrightarrow> length (jam_out j') \<le> N \<Longrightarrow>
      jam_pos j' = (jam_pos j)(x \<mapsto> of_nat (length (jam_out j))) \<or> jam_pos j' = jam_pos j \<Longrightarrow>
      follows rdr frames sync cont grows val P (Atom a) j' s rest (run s)"
    and reads_back: "sync P j s \<Longrightarrow> good (run s) \<Longrightarrow> rep r x n \<Longrightarrow> jam_pos j x = Some bak \<Longrightarrow> x \<notin> P \<Longrightarrow>
      reader_at (rdr s) (length (jam_out j)) (back_code (unat bak) @ rest) \<Longrightarrow>
      jam_out j' = jam_out j @ back_code (unat bak) \<Longrightarrow> length (jam_out j') \<le> N \<Longrightarrow>
      jam_pos j' = jam_pos j \<Longrightarrow>
      follows rdr frames sync cont grows val P n j' s rest (run s)"
    and reads_cell: "sync P j s \<Longrightarrow> good (run s) \<Longrightarrow> rep r x (Cell h t) \<Longrightarrow>
      reader_at (rdr s) (length (jam_out j)) (True # False # rest) \<Longrightarrow>
      length (frames s) < 2 ^ 31 \<Longrightarrow>
      jam_pos j' = (jam_pos j)(x \<mapsto> of_nat (length (jam_out j))) \<Longrightarrow>
      jam_out j' = jam_out j @ [True, False] \<Longrightarrow> length (jam_out j') \<le> N \<Longrightarrow>
      \<exists>s1. run s = run s1 \<and> sync (insert x P) j' s1 \<and> reader_at (rdr s1) (length (jam_out j')) rest \<and>
        frames s1 = opened (length (jam_out j)) # frames s \<and> grows s s1"
    and ends_head: "sync P j s \<Longrightarrow> good (cont s v) \<Longrightarrow> frames s = opened p # fs \<Longrightarrow> val s v h \<Longrightarrow>
      \<exists>s1. cont s v = run s1 \<and> sync P j s1 \<and> rdr s1 = rdr s \<and> frames s1 = headed p v # fs \<and> grows s s1"
    and ends_tail: "sync (insert x P) j s \<Longrightarrow> good (cont s w) \<Longrightarrow> frames s = headed p v # fs \<Longrightarrow>
      val s v h \<Longrightarrow> val s w t \<Longrightarrow> rep r x (Cell h t) \<Longrightarrow> jam_pos j x = Some (of_nat p) \<Longrightarrow> p < N \<Longrightarrow>
      \<exists>s1 y. cont s w = cont s1 y \<and> sync P j s1 \<and> rdr s1 = rdr s \<and> frames s1 = fs \<and> grows s s1 \<and>
        val s1 y (Cell h t)"
begin

abbreviation reads :: "nref set \<Rightarrow> noun \<Rightarrow> jam \<Rightarrow> 's \<Rightarrow> bool list \<Rightarrow> 'res \<Rightarrow> bool" where
  "reads \<equiv> follows rdr frames sync cont grows val"

lemma readsE:
  assumes "reads P n j' s rest res"
  obtains s' v where "res = cont s' v" "sync P j' s'" "reader_at (rdr s') (length (jam_out j')) rest"
    "frames s' = frames s" "grows s s'" "val s' v n"
  using assms unfolding follows_def by blast

text \<open>A cell is read when its head and its tail are.\<close>

lemma cell_from_parts:
  assumes x: "rep r x (Cell h t)" and s: "sync P j s" "good (run s)"
    and rd: "reader_at (rdr s) (length (jam_out j)) (True # False # X1 @ X2 @ rest)"
    and fr: "length (frames s) < 2 ^ 31"
    and new: "jam_pos j1 = (jam_pos j)(x \<mapsto> of_nat (length (jam_out j)))" "jam_out j1 = jam_out j @ [True, False]"
    and len: "length (jam_out j1) \<le> N" and pos: "jam_pos j' x = Some (of_nat (length (jam_out j)))"
    and head: "\<And>s1. sync (insert x P) j1 s1 \<Longrightarrow> good (run s1) \<Longrightarrow>
      reader_at (rdr s1) (length (jam_out j1)) (X1 @ X2 @ rest) \<Longrightarrow> length (frames s1) = Suc (length (frames s)) \<Longrightarrow>
      reads (insert x P) h j2 s1 (X2 @ rest) (run s1)"
    and tail: "\<And>s1. sync (insert x P) j2 s1 \<Longrightarrow> good (run s1) \<Longrightarrow>
      reader_at (rdr s1) (length (jam_out j2)) (X2 @ rest) \<Longrightarrow> length (frames s1) = Suc (length (frames s)) \<Longrightarrow>
      reads (insert x P) t j' s1 rest (run s1)"
  shows "reads P (Cell h t) j' s rest (run s)"
proof -
  let ?p = "length (jam_out j)"
  obtain s1 where s1: "run s = run s1" "sync (insert x P) j1 s1"
      "reader_at (rdr s1) (length (jam_out j1)) (X1 @ X2 @ rest)" "frames s1 = opened ?p # frames s" "grows s s1"
    using reads_cell [OF s x rd fr new len] by blast
  have "reads (insert x P) h j2 s1 (X2 @ rest) (run s1)"
    by (rule head [OF s1(2) _ s1(3)]) (use s(2) s1 in simp_all)
  then obtain s2 v where s2: "run s1 = cont s2 v" "sync (insert x P) j2 s2"
      "reader_at (rdr s2) (length (jam_out j2)) (X2 @ rest)" "frames s2 = opened ?p # frames s" "grows s1 s2" "val s2 v h"
    using s1(4) by (elim readsE) simp
  obtain s3 where s3: "cont s2 v = run s3" "sync (insert x P) j2 s3" "rdr s3 = rdr s2"
      "frames s3 = headed ?p v # frames s" "grows s2 s3"
    using ends_head [OF s2(2) _ s2(4,6)] s(2) s1(1) s2(1) by auto
  have "reads (insert x P) t j' s3 rest (run s3)"
    by (rule tail [OF s3(2)]) (use s(2) s1(1) s2 s3 in simp_all)
  then obtain s4 w where s4: "run s3 = cont s4 w" "sync (insert x P) j' s4"
      "reader_at (rdr s4) (length (jam_out j')) rest" "frames s4 = headed ?p v # frames s" "grows s3 s4" "val s4 w t"
    using s3(4) by (elim readsE) simp
  have v4: "val s4 v h" by (rule val_grows [OF val_grows [OF s2(6,2) s3(5)] s3(2) s4(5)])
  obtain s5 y where s5: "cont s4 w = cont s5 y" "sync P j' s5" "rdr s5 = rdr s4" "frames s5 = frames s"
      "grows s4 s5" "val s5 y (Cell h t)"
    using ends_tail [OF s4(2) _ s4(4) v4 s4(6) x pos] s(2) s1(1) s2(1) s3(1) s4(1) len new(2) by auto
  have "grows s s5"
    by (rule grows_trans [OF grows_trans [OF grows_trans [OF grows_trans [OF s1(5) s2(5)] s3(5)] s4(5)] s5(5)])
  then show ?thesis
    unfolding follows_def using s1(1) s2(1) s3(1) s4(1,3) s5 by (intro exI [of _ s5] exI [of _ y]) simp
qed

theorem reads_jam:
  "rep r x n \<Longrightarrow> jam_ok r j \<Longrightarrow> jam_visit r n x j = Some j' \<Longrightarrow> sync P j s \<Longrightarrow> good (run s) \<Longrightarrow>
    (\<And>z m. z \<in> P \<Longrightarrow> rep r z m \<Longrightarrow> size n < size m) \<Longrightarrow>
    jam_out j' = jam_out j @ X \<Longrightarrow> length (jam_out j') \<le> N \<Longrightarrow>
    reader_at (rdr s) (length (jam_out j)) (X @ rest) \<Longrightarrow>
    length (frames s) + noun_depth n < 2 ^ 31 \<Longrightarrow> reads P n j' s rest (run s)"
proof (induction n arbitrary: x j j' s P X rest)
  case (Atom a)
  have root: "root_wf r" "root_canon r" "atoms_small r" using synced_root [OF Atom.prems(4)] by simp_all
  have step: "jam_atom_cb r x j = Some j'" using Atom.prems(3) by simp
  have notin: "x \<notin> P" using Atom.prems(1,6) by blast
  have small: "met0 a < 2 ^ 63" using atoms_small_met0 [OF root(3,1) Atom.prems(1)] by simp
  consider (plain) "jam_pos j' = (jam_pos j)(x \<mapsto> of_nat (length (jam_out j))) \<or> jam_pos j' = jam_pos j" "X = atom_code a"
    | (bref) bak where "jam_pos j x = Some bak" "jam_pos j' = jam_pos j" "X = back_code (unat bak)"
    using jam_atom_step(2) [OF root Atom.prems(1,2) step] Atom.prems(7) by auto
  then show ?case
  proof cases
    case plain
    show ?thesis
      by (rule reads_atom [OF Atom.prems(4,5,1) small _ _ Atom.prems(8) plain(1)]) (use Atom.prems plain in simp_all)
  next
    case bref
    show ?thesis
      by (rule reads_back [OF Atom.prems(4,5,1) bref(1) notin _ _ Atom.prems(8) bref(2)])
        (use Atom.prems bref in simp_all)
  qed
next
  case (Cell h t)
  have root: "root_wf r" "root_canon r" "atoms_small r" using synced_root [OF Cell.prems(4)] by simp_all
  obtain a b where ab: "ur_head r x = Some a" "ur_tail r x = Some b" "rep r a h" "rep r b t"
    using rep_Cell_lookup [OF Cell.prems(1) root(1)] .
  obtain go j1 where j1: "jam_cell_cb r x j = Some (go, j1)"
    using Cell.prems(3) by (auto simp: bind_eq_Some_conv)
  note step = jam_cell_step [OF root(1) Cell.prems(1,2) j1]
  have notin: "x \<notin> P" using Cell.prems(1,6) by blast
  show ?case
  proof (cases go)
    case False
    then obtain bak where bak: "jam_pos j x = Some bak" "jam_pos j1 = jam_pos j"
        "jam_out j1 = jam_out j @ back_code (unat bak)" and j': "j1 = j'"
      using step(2) Cell.prems(3) j1 by auto
    show ?thesis
      by (rule reads_back [OF Cell.prems(4,5,1) bak(1) notin _ _ Cell.prems(8)]) (use Cell.prems bak j' in simp_all)
  next
    case True
    have new: "jam_pos j1 = (jam_pos j)(x \<mapsto> of_nat (length (jam_out j)))" "jam_out j1 = jam_out j @ [True, False]"
      using step(2) True by auto
    obtain j2 where j2: "jam_visit r h a j1 = Some j2" "jam_visit r t b j2 = Some j'"
      using Cell.prems(3) j1 ab True by (auto simp: bind_eq_Some_conv)
    note eh = jam_visit_extends [OF root ab(3) step(1) j2(1)]
    note et = jam_visit_extends [OF root ab(4) conjunct1 [OF eh] j2(2)]
    obtain X1 X2 where X: "jam_out j2 = jam_out j1 @ X1" "jam_out j' = jam_out j2 @ X2" using eh et by blast
    then have XX: "X = True # False # X1 @ X2" using new(2) Cell.prems(7) by simp
    have len: "length (jam_out j1) \<le> N" "length (jam_out j2) \<le> N" using Cell.prems(8) X by simp_all
    have "jam_pos j1 x = Some (of_nat (length (jam_out j)))" by (simp add: new(1))
    then have pos: "jam_pos j' x = Some (of_nat (length (jam_out j)))" using eh et by (auto simp: map_le_def dom_def)
    have P1: "size h < size m" "size t < size m" if "z \<in> insert x P" "rep r z m" for z m
    proof -
      have "size (Cell h t) \<le> size m"
        using that Cell.prems(6) [of z m] rep_det [OF Cell.prems(1), of m] by (cases "z = x") auto
      then show "size h < size m" "size t < size m" by simp_all
    qed
    have rd: "reader_at (rdr s) (length (jam_out j)) (True # False # X1 @ X2 @ rest)"
      using Cell.prems(9) XX by simp
    have fr: "length (frames s) < 2 ^ 31" "Suc (length (frames s)) + noun_depth h < 2 ^ 31"
        "Suc (length (frames s)) + noun_depth t < 2 ^ 31"
      using Cell.prems(10) by simp_all
    show ?thesis
    proof (rule cell_from_parts [OF Cell.prems(1,4,5) rd fr(1) new len(1) pos])
      fix s1
      assume s1: "sync (insert x P) j1 s1" "good (run s1)"
        "reader_at (rdr s1) (length (jam_out j1)) (X1 @ X2 @ rest)" "length (frames s1) = Suc (length (frames s))"
      show "reads (insert x P) h j2 s1 (X2 @ rest) (run s1)"
        by (rule Cell.IH(1) [OF ab(3) step(1) j2(1) s1(1,2) P1(1) X(1) len(2) s1(3)]) (use s1(4) fr(2) in simp_all)
    next
      fix s1
      assume s1: "sync (insert x P) j2 s1" "good (run s1)"
        "reader_at (rdr s1) (length (jam_out j2)) (X2 @ rest)" "length (frames s1) = Suc (length (frames s))"
      show "reads (insert x P) t j' s1 rest (run s1)"
        by (rule Cell.IH(2) [OF ab(4) conjunct1 [OF eh] j2(2) s1(1,2) P1(2) X(2) Cell.prems(8) s1(3)])
          (use s1(4) fr(3) in simp_all)
    qed
  qed
qed

end

section \<open>Cue\<close>

text \<open>The stack that cue and cue-test grow by hand.\<close>

definition stack_wf :: "'f cue_stack \<Rightarrow> bool" where
  "stack_wf s \<longleftrightarrow> 0 < cs_prev s \<and> cs_prev s \<le> cs_size s \<and> length (cs_frames s) \<le> cs_size s"

lemma cue_push_wf:
  assumes "stack_wf s" "length (cs_frames s) < 2 ^ 31"
  shows "\<exists>s'. cue_push f s = Some s' \<and> stack_wf s' \<and> cs_frames s' = f # cs_frames s"
proof (cases "length (cs_frames s) = cs_size s")
  case True
  have "cs_prev s + cs_size s < 2 ^ 32" using assms True by (simp add: stack_wf_def)
  then have "(cs_prev s + cs_size s) mod 2 ^ 32 = cs_prev s + cs_size s" by (rule mod_less)
  then show ?thesis using True assms(1) by (simp add: cue_push_def Let_def stack_wf_def)
next
  case False
  then show ?thesis using assms(1) by (simp add: cue_push_def Let_def stack_wf_def)
qed


text \<open>What the roots that jam reads from have in common.\<close>

definition jam_root :: "ur_root \<Rightarrow> bool" where
  "jam_root r \<longleftrightarrow> root_wf r \<and> root_canon r \<and> atoms_small r"

text \<open>Interning a noun that a root holds gives its reference and leaves the root alone.\<close>

lemma cons_held:
  assumes wf: "root_wf r" and canon: "root_canon r" and x: "rep r x (Cell h t)" and ab: "rep r a h" "rep r b t"
  shows "ur_cons r a b = Some (x, r)"
proof -
  have c: "cells_wf r" using wf by (simp add: root_wf_def)
  let ?i = "ur_nref_idx x"
  have x': "ur_nref_tag x = ur_icell" "?i < ce_fill (cells r)"
    "rep r (ce_heads (cells r) ! ?i) h" "rep r (ce_tails (cells r) ! ?i) t"
    using rep_CellE [OF x] by blast+
  then have held: "ce_heads (cells r) ! ?i = a" "ce_tails (cells r) ! ?i = b"
    using rep_unique [OF wf canon] ab by blast+
  obtain hm tm where m: "ur_nref_mug r a = Some hm" "ur_nref_mug r b = Some tm"
    using cells_wfD [OF c] x'(2) held by blast
  let ?b = "map fst (cell_bucket r (ur_mug_both hm tm))"
  let ?p = "\<lambda>t. ce_heads (cells r) ! ur_nref_idx t = a \<and> ce_tails (cells r) ! ur_nref_idx t = b"
  obtain k where k: "find ?p ?b = Some k"
    using cons_absent [OF c m _ x'(2)] held by (cases "find ?p ?b") blast+
  then have "k \<in> set ?b" and p: "?p k" by (auto simp: find_Some_iff)
  then obtain i where i: "i < ce_fill (cells r)" "k = nref_of ur_icell i"
    using cell_bucket_refs [OF c] by auto
  have "rep r k (Cell h t)"
    by (rule rep_icell) (use i p ab icell_lookup [OF c i(1)] in simp_all)
  then have "k = x" by (rule rep_unique [OF wf canon _ x])
  moreover have "find_cell r a b ?b = Some (Some k)"
    using find_cell_spec [OF c cell_bucket_refs [OF c]] k by simp
  ultimately show ?thesis using m by (subst ur_cons.simps) (simp add: Let_def)
qed

lemma coin_held:
  assumes wf: "root_wf r" and canon: "root_canon r" and x: "rep r x (Atom a)" and a: "2 ^ 62 \<le> a"
    and byt: "bytes_nat byt = a"
  shows "ur_coin_bytes_unsafe r (strip_zeros (length byt) byt) byt = Some (x, r)"
proof -
  have c: "atoms_wf r" using wf by (simp add: root_wf_def)
  let ?i = "ur_nref_idx x" and ?n = "strip_zeros (length byt) byt"
  have x': "ur_nref_tag x = ur_iatom" "?i < at_fill (atoms r)" "bytes_nat (at_content (atoms r) ?i) = a"
    using x a by (auto simp: rep_Atom_iff direct_value)
  have n: "?n \<le> length byt" by (rule strip_zeros_le)
  have "bytes_nat (take ?n byt) = a" using bytes_nat_strip [of "length byt" byt] byt by simp
  moreover have "?n \<noteq> 0" using strip_zeros_value [of "length byt" byt] byt a by auto
  ultimately have held: "at_content (atoms r) ?i = take ?n byt"
    using canon x'(2,3) strip_zeros_last [of "length byt" byt]
    by (intro bytes_nat_inject) (auto simp: root_canon_def atom_canon_def)
  let ?b = "map fst (dict_buckets (at_dict (atoms r)) !
    (unat (ur_mug_bytes byt ?n) mod dict_size (at_dict (atoms r))))"
  let ?p = "\<lambda>t. at_content (atoms r) (ur_nref_idx t) = take ?n byt"
  obtain k where k: "find ?p ?b = Some k"
    using coin_bytes_absent [OF c n _ x'(2)] held by (cases "find ?p ?b") blast+
  then have "k \<in> set ?b" and p: "?p k" by (auto simp: find_Some_iff)
  then obtain i where i: "i < at_fill (atoms r)" "k = nref_of ur_iatom i"
    using atom_bucket_refs [OF c] by auto
  have "rep r k (Atom (bytes_nat (at_content (atoms r) (ur_nref_idx k))))"
    by (rule rep_iatom) (use i iatom_lookup [OF c i(1)] in simp_all)
  then have "rep r k (Atom a)" using p held x'(3) by simp
  then have "k = x" by (rule rep_unique [OF wf canon _ x])
  moreover have "find_atom r ?n byt ?b = Some (Some k)"
    using find_atom_spec [OF c n atom_bucket_refs [OF c]] k by simp
  ultimately show ?thesis by (subst ur_coin_bytes_unsafe.simps) (simp add: Let_def)
qed

text \<open>
  How cue keeps in step. With \<open>home\<close>, cue reads into the very root \<open>r\<close> that jam read from, and the
  cursors below \<open>N\<close> do not crowd the dictionary: then every step returns, and the root stays as
  it is. Without, cue reads into any root, and a step that returns does the right thing.
\<close>

definition cue_home :: "ur_root \<Rightarrow> nat \<Rightarrow> cue_state \<Rightarrow> bool" where
  "cue_home r N c \<longleftrightarrow> cue_root c = r \<and> dom (dict_map (cue_dict c)) \<subseteq> of_nat ` {..<N} \<and>
     mug_spread null_mug (of_nat ` {..<N})"

definition cue_sync :: "bool \<Rightarrow> ur_root \<Rightarrow> nat \<Rightarrow> nref set \<Rightarrow> jam \<Rightarrow> cue_state \<Rightarrow> bool" where
  "cue_sync home r N P j c \<longleftrightarrow> jam_root r \<and> N < 2 ^ 62 \<and> cue_ok c \<and> synced r P j c \<and>
     stack_wf (cue_stk c) \<and> (home \<longrightarrow> cue_home r N c)"

lemma direct_mug:
  assumes "p < 2 ^ 62"
  shows "ur_nref_mug r (of_nat p) = null_mug (of_nat p)" "null_mug (of_nat p) \<noteq> None"
proof -
  have "ur_nref_tag (of_nat p) = ur_direct" using assms by (simp add: direct_value unat_of_nat)
  then show "ur_nref_mug r (of_nat p) = null_mug (of_nat p)" "null_mug (of_nat p) \<noteq> None"
    by (simp_all add: ur_nref_mug_def null_mug_def)
qed

lemma cue_home_put:
  assumes home: "cue_home r N c" and ok: "dict_wf (ur_nref_mug r) (cue_dict c)" and p: "p < N" "N < 2 ^ 62"
  shows "\<exists>d. ur_dict64_put (ur_nref_mug r) (cue_dict c) (of_nat p) y = Some d"
proof -
  let ?K = "of_nat ` {..<N} :: nref set"
  have eq: "{k \<in> ?K. ur_nref_mug r k = Some m} = {k \<in> ?K. null_mug k = Some m}" for m
    using direct_mug(1) [of _ r] p(2) by auto
  have "mug_spread null_mug ?K" using home by (simp add: cue_home_def)
  then have "mug_spread (ur_nref_mug r) ?K" unfolding mug_spread_def eq .
  then have "mug_spread (ur_nref_mug r) (insert (of_nat p) (dom (dict_map (cue_dict c))))"
    by (rule mug_spread_mono) (use home p in \<open>auto simp: cue_home_def\<close>)
  then show ?thesis
    using dict_put_total [OF ok] direct_mug(1) [of p r] direct_mug(2) [of p] p unfolding ur_dict64_put_def by simp
qed

lemma cue_home_atom:
  assumes home: "cue_home r N c" and root: "jam_root r" and ok: "cue_ok c" and x: "rep r x (Atom a)"
    and r: "reader_at (cue_bsr c) p (atom_code a @ rest)" and p: "p + length (atom_code a) \<le> N" "N < 2 ^ 62"
    and a: "met0 a < 2 ^ 63"
  shows "\<exists>v c'. cue_next c = Some (v, c') \<and> cue_root c' = r"
proof -
  have c: "cue_root c = r" using home by (simp add: cue_home_def)
  have d: "dict_wf (ur_nref_mug r) (cue_dict c)" using ok c by (simp add: cue_ok_def)
  obtain b byt where byt: "bytes_nat byt = a"
    and eq: "cue_next c =
      do { (ref, r1) \<leftarrow> (if met0 a \<le> 62 then Some (of_nat a, cue_root c)
                       else ur_coin_bytes_unsafe (cue_root c) (strip_zeros (length byt) byt) byt);
           d \<leftarrow> ur_dict64_put (ur_nref_mug r1) (cue_dict c) (of_nat p) ref;
           Some (Inr ref, c\<lparr>cue_root := r1, cue_bsr := b, cue_dict := d\<rparr>) }"
    using cue_next_atom [OF r _ a] p by auto
  obtain y where y: "(if met0 a \<le> 62 then Some (of_nat a, cue_root c)
        else ur_coin_bytes_unsafe (cue_root c) (strip_zeros (length byt) byt) byt) = Some (y, r)"
  proof (cases "met0 a \<le> 62")
    case False
    then have "2 ^ 62 \<le> a" by (simp add: met0_le_iff)
    then show ?thesis using coin_held [of r x a byt] root x byt False c that by (simp add: jam_root_def)
  qed (simp add: c that)
  obtain d' where "ur_dict64_put (ur_nref_mug r) (cue_dict c) (of_nat p) y = Some d'"
    using cue_home_put [OF home d _ p(2), of p y] p(1) by auto
  then show ?thesis unfolding eq y by simp
qed

lemma cue_tail_steps:
  assumes "cs_frames (cue_stk c) = \<lparr>frame_ref = a, frame_bits = pos\<rparr> # fs" "rep r a h"
  shows "cue_loop c (Inr b) =
    do { (y, r1) \<leftarrow> ur_cons (cue_root c) a b; d \<leftarrow> ur_dict64_put (ur_nref_mug r1) (cue_dict c) pos y;
         cue_loop (c\<lparr>cue_root := r1, cue_dict := d, cue_stk := (cue_stk c)\<lparr>cs_frames := fs\<rparr>\<rparr>) (Inr y) }"
  using assms rep_not_head [OF assms(2)] by (subst cue_loop.simps) simp

lemma cue_home_tail:
  assumes home: "cue_home r N c" and root: "jam_root r" and ok: "cue_ok c" and x: "rep r x (Cell h t)"
    and ab: "rep (cue_root c) a h" "rep (cue_root c) b t" and p: "p < N" "N < 2 ^ 62"
  shows "\<exists>d. ur_cons (cue_root c) a b = Some (x, r) \<and>
    ur_dict64_put (ur_nref_mug r) (cue_dict c) (of_nat p) x = Some d"
proof -
  have c: "cue_root c = r" using home by (simp add: cue_home_def)
  have d: "dict_wf (ur_nref_mug r) (cue_dict c)" using ok c by (simp add: cue_ok_def)
  show ?thesis
    using cons_held [of r x h t a b] cue_home_put [OF home d p, of x] root x ab c by (simp add: jam_root_def)
qed

abbreviation cue_cont :: "cue_state \<Rightarrow> nref \<Rightarrow> ((cue_err + nref) \<times> cue_state) option" where
  "cue_cont c y \<equiv> cue_loop c (Inr y)"

abbreviation cue_grows :: "cue_state \<Rightarrow> cue_state \<Rightarrow> bool" where
  "cue_grows c c' \<equiv> root_ext (cue_root c) (cue_root c')"

abbreviation cue_val :: "cue_state \<Rightarrow> nref \<Rightarrow> noun \<Rightarrow> bool" where
  "cue_val c y n \<equiv> rep (cue_root c) y n"

abbreviation cue_frames :: "cue_state \<Rightarrow> cue_frame list" where
  "cue_frames c \<equiv> cs_frames (cue_stk c)"

abbreviation cue_follows ::
  "bool \<Rightarrow> ur_root \<Rightarrow> nat \<Rightarrow> nref set \<Rightarrow> noun \<Rightarrow> jam \<Rightarrow> cue_state \<Rightarrow> bool list \<Rightarrow>
   ((cue_err + nref) \<times> cue_state) option \<Rightarrow> bool" where
  "cue_follows home r N \<equiv> follows cue_bsr cue_frames (cue_sync home r N) cue_cont cue_grows cue_val"

lemma cue_reads_atom:
  assumes s: "cue_sync home r N P j c" and good: "home \<or> cue_go c \<noteq> None" and x: "rep r x (Atom a)"
    and a: "met0 a < 2 ^ 63" and rd: "reader_at (cue_bsr c) (length (jam_out j)) (atom_code a @ rest)"
    and out: "jam_out j' = jam_out j @ atom_code a" "length (jam_out j') \<le> N"
    and pos: "jam_pos j' = (jam_pos j)(x \<mapsto> of_nat (length (jam_out j))) \<or> jam_pos j' = jam_pos j"
  shows "cue_follows home r N P (Atom a) j' c rest (cue_go c)"
proof -
  let ?p = "length (jam_out j)"
  have ok: "cue_ok c" and sy: "synced r P j c" and N: "N < 2 ^ 62" and root: "jam_root r"
    using s by (simp_all add: cue_sync_def)
  have p: "?p + length (atom_code a) \<le> N" "?p + length (atom_code a) < 2 ^ 62" "?p < 2 ^ 62" "?p < N"
    using out N by simp_all
  have rwf: "root_wf (cue_root c)" using ok by (simp add: cue_ok_def)
  obtain v c' where next_: "cue_next c = Some (v, c')" and root': "home \<Longrightarrow> cue_root c' = r"
  proof (cases home)
    case True
    then show ?thesis
      using cue_home_atom [OF _ root ok x rd p(1) N a] s that by (auto simp: cue_sync_def)
  next
    case False
    then show ?thesis using good that by (auto simp: cue_go_def bind_eq_None_conv)
  qed
  obtain y b r1 d where st: "v = Inr y" "c' = c\<lparr>cue_root := r1, cue_bsr := b, cue_dict := d\<rparr>"
      "reader_at b (?p + length (atom_code a)) rest" "root_wf r1" "root_ext (cue_root c) r1"
      "rep r1 y (Atom a)" "dict_wf (ur_nref_mug r1) d" "dict_map d = (dict_map (cue_dict c))(of_nat ?p \<mapsto> y)"
    using cue_atom_step [OF ok rd p(2) a next_] by blast
  have "synced r P j' c'"
  proof (cases "jam_pos j' = jam_pos j")
    case True
    have "jam_pos j z \<noteq> Some (of_nat ?p)" for z using new_pos_fresh [OF sy p(3)] by blast
    then show ?thesis
      by (intro synced_put_other [OF sy _ _ rwf _ True out(1)]) (use st in simp_all)
  next
    case False
    then have new: "jam_pos j' = (jam_pos j)(x \<mapsto> of_nat ?p)" using pos by simp
    have "synced r (insert x P) j' c" by (rule synced_put_jam [OF sy p(3) _ new out(1)]) simp_all
    then show ?thesis
    proof (rule synced_put_cue)
      show "jam_pos j' x = Some (of_nat ?p)" by (simp add: new)
      show "dict_map (cue_dict c') = (dict_map (cue_dict c))(of_nat ?p \<mapsto> y)" by (simp add: st)
    qed (use x rwf st in auto)
  qed
  moreover have "cue_home r N c'" if home
  proof -
    have "cue_home r N c" using s that by (simp add: cue_sync_def)
    moreover have "dom (dict_map (cue_dict c')) = insert (of_nat ?p) (dom (dict_map (cue_dict c)))"
      by (simp add: st(2,8))
    ultimately show ?thesis using root' [OF that] p(4) by (simp add: cue_home_def)
  qed
  ultimately have "cue_sync home r N P j' c'"
    using s st by (simp add: cue_sync_def cue_ok_def)
  then show ?thesis
    unfolding follows_def using st next_ out(1)
    by (intro exI [of _ c'] exI [of _ y]) (simp add: cue_go_def)
qed

lemma cue_reads_back:
  assumes s: "cue_sync home r N P j c" and x: "rep r x n" and pos: "jam_pos j x = Some bak" "x \<notin> P"
    and rd: "reader_at (cue_bsr c) (length (jam_out j)) (back_code (unat bak) @ rest)"
    and out: "jam_out j' = jam_out j @ back_code (unat bak)" "length (jam_out j') \<le> N" "jam_pos j' = jam_pos j"
  shows "cue_follows home r N P n j' c rest (cue_go c)"
proof -
  have ok: "cue_ok c" and sy: "synced r P j c" and N: "N < 2 ^ 62" using s by (simp_all add: cue_sync_def)
  have d: "dict_wf (cue_mug c) (cue_dict c)" using ok by (simp add: cue_ok_def)
  have q: "unat bak < 2 ^ 62" using syncedD(1) [OF sy pos(1)] out N by simp
  obtain m y where y: "rep r x m" "dict_map (cue_dict c) bak = Some y" "rep (cue_root c) y m"
    using syncedD(2) [OF sy pos] by blast
  have n: "m = n" by (rule rep_det [OF y(1) x])
  obtain b where b: "reader_at b (length (jam_out j')) rest" "cue_next c = Some (Inr y, c\<lparr>cue_bsr := b\<rparr>)"
    using cue_next_back [OF rd _ q d, of y] y(2) out N by auto
  have "synced r P j' (c\<lparr>cue_bsr := b\<rparr>)" by (rule synced_more [OF sy out(3,1)]) simp_all
  then show ?thesis
    using b s y n unfolding follows_def
    by (intro exI [of _ "c\<lparr>cue_bsr := b\<rparr>"] exI [of _ y])
      (simp add: cue_go_def cue_ok_def cue_sync_def cue_home_def)
qed

lemma cue_reads_cell:
  assumes s: "cue_sync home r N P j c"
    and rd: "reader_at (cue_bsr c) (length (jam_out j)) (True # False # rest)"
    and fr: "length (cue_frames c) < 2 ^ 31"
    and new: "jam_pos j' = (jam_pos j)(x \<mapsto> of_nat (length (jam_out j)))" "jam_out j' = jam_out j @ [True, False]"
      "length (jam_out j') \<le> N"
  shows "\<exists>c1. cue_go c = cue_go c1 \<and> cue_sync home r N (insert x P) j' c1 \<and>
    reader_at (cue_bsr c1) (length (jam_out j')) rest \<and>
    cue_frames c1 = \<lparr>frame_ref = CUE_HEAD, frame_bits = of_nat (length (jam_out j))\<rparr> # cue_frames c \<and> cue_grows c c1"
proof -
  let ?p = "length (jam_out j)"
  let ?f = "\<lparr>frame_ref = CUE_HEAD, frame_bits = of_nat ?p\<rparr>"
  have sy: "synced r P j c" and N: "N < 2 ^ 62" and st: "stack_wf (cue_stk c)"
    using s by (simp_all add: cue_sync_def)
  obtain b where b: "reader_at b (?p + 2) rest"
    and nx: "cue_next c = do { s \<leftarrow> cue_push ?f (cue_stk c); cue_next (c\<lparr>cue_bsr := b, cue_stk := s\<rparr>) }"
    using cue_next_cell [OF rd] new N by auto
  obtain s1 where s1: "cue_push ?f (cue_stk c) = Some s1" "stack_wf s1" "cs_frames s1 = ?f # cue_frames c"
    using cue_push_wf [OF st fr] by blast
  let ?c1 = "c\<lparr>cue_bsr := b, cue_stk := s1\<rparr>"
  have "synced r (insert x P) j' ?c1"
    by (rule synced_put_jam [OF sy _ _ new(1,2)]) (use new N in simp_all)
  then show ?thesis
    using s nx s1 b new(2)
    by (intro exI [of _ ?c1]) (simp add: cue_go_def cue_sync_def cue_ok_def cue_home_def)
qed

lemma cue_ends_head:
  assumes s: "cue_sync home r N P j c"
    and fr: "cue_frames c = \<lparr>frame_ref = CUE_HEAD, frame_bits = of_nat p\<rparr> # fs"
  shows "\<exists>c1. cue_cont c y = cue_go c1 \<and> cue_sync home r N P j c1 \<and> cue_bsr c1 = cue_bsr c \<and>
    cue_frames c1 = \<lparr>frame_ref = y, frame_bits = of_nat p\<rparr> # fs \<and> cue_grows c c1"
proof -
  let ?c1 = "c\<lparr>cue_stk := (cue_stk c)\<lparr>cs_frames := \<lparr>frame_ref = y, frame_bits = of_nat p\<rparr> # fs\<rparr>\<rparr>"
  have "synced r P j ?c1" by (rule synced_more [where X = "[]"]) (use s in \<open>simp_all add: cue_sync_def\<close>)
  then show ?thesis
    using cue_loop_head [OF fr] s fr
    by (intro exI [of _ ?c1]) (simp add: cue_sync_def cue_ok_def cue_home_def stack_wf_def)
qed

lemma cue_ends_tail:
  assumes s: "cue_sync home r N (insert x P) j c" and good: "home \<or> cue_cont c b \<noteq> None"
    and fr: "cue_frames c = \<lparr>frame_ref = a, frame_bits = of_nat p\<rparr> # fs"
    and ab: "cue_val c a h" "cue_val c b t" and x: "rep r x (Cell h t)"
    and p: "jam_pos j x = Some (of_nat p)" "p < N"
  shows "\<exists>c1 y. cue_cont c b = cue_cont c1 y \<and> cue_sync home r N P j c1 \<and> cue_bsr c1 = cue_bsr c \<and>
    cue_frames c1 = fs \<and> cue_grows c c1 \<and> cue_val c1 y (Cell h t)"
proof -
  have ok: "cue_ok c" and sy: "synced r (insert x P) j c" and N: "N < 2 ^ 62" and root: "jam_root r"
    using s by (simp_all add: cue_sync_def)
  have wf: "root_wf (cue_root c)" and d: "dict_wf (cue_mug c) (cue_dict c)" using ok by (simp_all add: cue_ok_def)
  note steps = cue_tail_steps [OF fr ab(1), of b]
  obtain y r1 d' where cons: "ur_cons (cue_root c) a b = Some (y, r1)"
    and put: "ur_dict64_put (ur_nref_mug r1) (cue_dict c) (of_nat p) y = Some d'" and home: "home \<Longrightarrow> r1 = r"
  proof (cases home)
    case True
    then show ?thesis
      using cue_home_tail [OF _ root ok x ab p(2) N] s that by (auto simp: cue_sync_def)
  next
    case False
    then obtain res where "cue_cont c b = Some res" using good by auto
    then show ?thesis using False that unfolding steps by (auto simp: bind_eq_Some_conv)
  qed
  let ?c1 = "c\<lparr>cue_root := r1, cue_dict := d', cue_stk := (cue_stk c)\<lparr>cs_frames := fs\<rparr>\<rparr>"
  have post: "cons_post (cue_root c) a b y r1"
    by (rule cons_spec [OF cons wf rep_root_ref [OF ab(1)] rep_root_ref [OF ab(2)]])
  then have ext: "root_ext (cue_root c) r1" "root_wf r1" by (simp_all add: cons_post_def)
  have y: "rep r1 y (Cell h t)" by (rule cons_post_rep [OF post wf ab])
  have d': "dict_wf (ur_nref_mug r1) d'" "dict_map d' = (dict_map (cue_dict c))(of_nat p \<mapsto> y)"
    using dict64_put_spec [OF put dict_wf_mono [OF d root_ext_mug [OF ext(1)]]] by simp_all
  have "synced r P j ?c1"
    by (rule synced_put_cue [OF sy p(1) x]) (use y ext d' wf in auto)
  then have "cue_sync home r N P j ?c1"
    using s ext d' home p(2) fr by (auto simp: cue_sync_def cue_ok_def cue_home_def stack_wf_def)
  then show ?thesis
    using steps cons put ext y by (intro exI [of _ ?c1] exI [of _ y]) simp
qed

interpretation cue_reader: jam_reader r N cue_bsr cue_frames "cue_sync home r N" cue_go cue_cont
    "\<lambda>res. home \<or> res \<noteq> None" "\<lambda>p. \<lparr>frame_ref = CUE_HEAD, frame_bits = of_nat p\<rparr>"
    "\<lambda>p y. \<lparr>frame_ref = y, frame_bits = of_nat p\<rparr>" cue_grows cue_val
  for home r N
proof
  show "root_wf r \<and> root_canon r \<and> atoms_small r" if "cue_sync home r N P j s" for P j s
    using that by (simp add: cue_sync_def jam_root_def)
  show "cue_grows s s2" if "cue_grows s s1" "cue_grows s1 s2" for s s1 s2 :: cue_state
    by (rule root_ext_trans [OF that])
  show "cue_val s1 v n" if "cue_val s v n" "cue_sync home r N P j s" "cue_grows s s1" for s v n P j s1
    using rep_ext [OF that(1,3)] that(2) by (simp add: cue_sync_def cue_ok_def)
qed (rule cue_reads_atom cue_reads_back cue_reads_cell cue_ends_head cue_ends_tail; assumption)+

section \<open>Cue-test\<close>

text \<open>
  The cursors that cue-test has seen are those jam refers to, but for the cells in \<open>P\<close>; all
  are below the bound \<open>N\<close>.
\<close>

definition test_synced :: "nref set \<Rightarrow> nat \<Rightarrow> jam \<Rightarrow> cue_test \<Rightarrow> bool" where
  "test_synced P N j t \<longleftrightarrow>
     (\<forall>x pos. jam_pos j x = Some pos \<longrightarrow> unat pos < length (jam_out j) \<and>
        (x \<in> P \<or> pos \<in> dom (dict_map (test_dict t)))) \<and>
     dict_wf null_mug (test_dict t) \<and> dom (dict_map (test_dict t)) \<subseteq> of_nat ` {..<N} \<and>
     stack_wf (test_stk t)"

lemma test_put:
  assumes wf: "dict_wf null_mug d" and dom: "dom (dict_map d) \<subseteq> of_nat ` {..<N}"
    and spread: "mug_spread null_mug (of_nat ` {..<N})" and p: "p < N" "N \<le> 2 ^ 62"
  shows "\<exists>d'. ur_dict_put null_mug d (of_nat p) = Some d' \<and> dict_wf null_mug d' \<and>
    dom (dict_map d') = insert (of_nat p) (dom (dict_map d)) \<and> dom (dict_map d') \<subseteq> of_nat ` {..<N}"
proof -
  have "null_mug (of_nat p) \<noteq> None" using p by (intro null_mug_pos) simp
  moreover have "mug_spread null_mug (insert (of_nat p) (dom (dict_map d)))"
    by (rule mug_spread_mono [OF spread]) (use dom p in auto)
  ultimately obtain d' where d': "ur_dict_put null_mug d (of_nat p) = Some d'"
    using dict_put_total [OF wf] unfolding ur_dict_put_def by blast
  from dict_set_put_spec [OF d' wf] show ?thesis using d' dom p by auto
qed

abbreviation test_cont :: "cue_test \<Rightarrow> unit \<Rightarrow> ((cue_err + unit) \<times> cue_test) option" where
  "test_cont t v \<equiv> cue_test_loop t (Inr v)"

abbreviation test_frames :: "cue_test \<Rightarrow> test_frame list" where
  "test_frames t \<equiv> cs_frames (test_stk t)"

definition test_sync :: "ur_root \<Rightarrow> nat \<Rightarrow> nref set \<Rightarrow> jam \<Rightarrow> cue_test \<Rightarrow> bool" where
  "test_sync r N P j t \<longleftrightarrow> jam_root r \<and> N < 2 ^ 62 \<and> mug_spread null_mug (of_nat ` {..<N}) \<and>
     test_synced P N j t"

abbreviation test_follows ::
  "ur_root \<Rightarrow> nat \<Rightarrow> nref set \<Rightarrow> noun \<Rightarrow> jam \<Rightarrow> cue_test \<Rightarrow> bool list \<Rightarrow>
   ((cue_err + unit) \<times> cue_test) option \<Rightarrow> bool" where
  "test_follows r N \<equiv>
     follows test_bsr test_frames (test_sync r N) test_cont (\<lambda>_ _. True) (\<lambda>_ _ _. True)"

lemma test_reads_atom:
  assumes sync: "test_sync root N P j t"
    and r: "reader_at (test_bsr t) (length (jam_out j)) (atom_code a @ rest)"
    and len: "length (jam_out j') \<le> N" "jam_out j' = jam_out j @ atom_code a" and a: "met0 a < 2 ^ 63"
    and pos: "jam_pos j' = (jam_pos j)(ref \<mapsto> of_nat (length (jam_out j))) \<or> jam_pos j' = jam_pos j"
  shows "test_follows root N P (Atom a) j' t rest (test_go t)"
proof -
  have s: "test_synced P N j t" and spread: "mug_spread null_mug (of_nat ` {..<N})" and N: "N \<le> 2 ^ 62"
    using sync by (simp_all add: test_sync_def)
  let ?p = "length (jam_out j)" and ?bs = "bits_of (met0 a) a"
  have p: "?p + length (atom_code a) \<le> 2 ^ 62" "?p < N" using len N by simp_all
  obtain b where b: "reader_at b (?p + 1) (mat_bits ?bs @ rest)"
    and nx: "\<forall>len b2. ur_bsr_rub_len b = (Inr len, b2) \<longrightarrow>
      cue_test_next t = do { d \<leftarrow> ur_dict_put null_mug (test_dict t) (of_nat ?p);
                             Some (Inr (), t\<lparr>test_bsr := ur_bsr_skip_any b2 (unat len), test_dict := d\<rparr>) }"
    using test_next_atom [of t ?p "mat_bits ?bs @ rest"] r p by auto
  obtain b2 where b2: "ur_bsr_rub_len b = (Inr (of_nat (met0 a)), b2)"
      "reader_at b2 (?p + 1 + (length (mat_bits ?bs) - met0 a)) (?bs @ rest)"
    using reader_mat [OF b] p a by auto
  have sum: "?p + 1 + (length (mat_bits ?bs) - met0 a) + met0 a = length (jam_out j')"
    using length_mat_bits_ge [of ?bs] len(2) by simp
  have rd: "reader_at (ur_bsr_skip_any b2 (met0 a)) (length (jam_out j')) rest"
    using reader_bytes [OF b2(2), of "met0 a"] sum p len by auto
  have ua: "unat (of_nat (met0 a) :: u64) = met0 a" using a by (simp add: unat_of_nat)
  have seen: "dict_wf null_mug (test_dict t)" "dom (dict_map (test_dict t)) \<subseteq> of_nat ` {..<N}"
    using s by (simp_all add: test_synced_def)
  from test_put [OF seen spread p(2) N] obtain d where
      d: "ur_dict_put null_mug (test_dict t) (of_nat ?p) = Some d" "dict_wf null_mug d"
      "dom (dict_map d) = insert (of_nat ?p) (dom (dict_map (test_dict t)))" "dom (dict_map d) \<subseteq> of_nat ` {..<N}"
    by blast
  have sy: "test_synced P N j' (t\<lparr>test_bsr := b', test_dict := d\<rparr>)" for b'
  proof -
    have un: "unat (of_nat ?p :: u64) = ?p" using p(1) by (simp add: unat_of_nat)
    have "unat q < length (jam_out j') \<and> (x \<in> P \<or> q \<in> dom (dict_map d))" if "jam_pos j' x = Some q" for x q
    proof (cases "jam_pos j x = Some q")
      case True
      then have "unat q < ?p \<and> (x \<in> P \<or> q \<in> dom (dict_map (test_dict t)))" using s by (simp add: test_synced_def)
      then show ?thesis using d(3) len(2) by auto
    next
      case False
      then have "q = of_nat ?p" using that pos by (auto split: if_splits)
      then show ?thesis using d(3) un len(2) by simp
    qed
    then show ?thesis using s d by (simp add: test_synced_def)
  qed
  show ?thesis
    using nx b2(1) ua rd d(1) sy sync unfolding follows_def
    by (intro exI [of _ "t\<lparr>test_bsr := ur_bsr_skip_any b2 (met0 a), test_dict := d\<rparr>"]) (simp add: test_go_def test_sync_def)
qed

lemma test_reads_back:
  assumes sync: "test_sync root N P j t"
    and r: "reader_at (test_bsr t) (length (jam_out j)) (back_code (unat q) @ rest)"
    and pos: "jam_pos j ref = Some q" "ref \<notin> P"
    and len: "length (jam_out j') \<le> N" "jam_out j' = jam_out j @ back_code (unat q)" "jam_pos j' = jam_pos j"
  shows "test_follows root N P n j' t rest (test_go t)"
proof -
  have s: "test_synced P N j t" and N: "N < 2 ^ 62" using sync by (simp_all add: test_sync_def)
  let ?p = "length (jam_out j)" and ?bs = "bits_of (met0 (unat q)) (unat q)"
  have d: "dict_wf null_mug (test_dict t)" and in_: "q \<in> dom (dict_map (test_dict t))"
    and lt: "unat q < length (jam_out j)"
    using s pos unfolding test_synced_def by blast+
  then have q: "unat q < 2 ^ 62" using len N by simp
  have p: "?p + length (back_code (unat q)) \<le> 2 ^ 62" using len N by simp
  have m: "met0 (unat q) \<le> 62" using q by (simp add: met0_le_iff)
  then have big: "\<not> (62 :: u64) < of_nat (met0 (unat q))" by (simp add: word_less_nat_alt unat_of_nat)
  have un: "unat (of_nat (met0 (unat q)) :: u64) = met0 (unat q)" using m by (simp add: unat_of_nat)
  obtain b1 where b1: "ur_bsr_tag (test_bsr t) = (Inr jam_back, b1)" "reader_at b1 (?p + 2) (mat_bits ?bs @ rest)"
    using reader_tag [of "test_bsr t" ?p "[True, True]" "mat_bits ?bs @ rest" jam_back] r p by auto
  obtain b2 where b2: "ur_bsr_rub_len b1 = (Inr (of_nat (met0 (unat q))), b2)"
      "reader_at b2 (?p + 2 + (length (mat_bits ?bs) - met0 (unat q))) (?bs @ rest)"
    using reader_mat [OF b1(2)] p m by auto
  have sum: "?p + 2 + (length (mat_bits ?bs) - met0 (unat q)) + met0 (unat q) = length (jam_out j')"
    using length_mat_bits_ge [of ?bs] len(2) by simp
  obtain b3 where b3: "ur_bsr64_any b2 (met0 (unat q)) = (q, b3)" "reader_at b3 (length (jam_out j')) rest"
    using reader_value [OF b2(2)] p m sum word_of_bits_met0 [of "unat q"] len by auto
  obtain mu where "null_mug q = Some mu" using q by (simp add: null_mug_def direct_value)
  then have "ur_dict_get null_mug (test_dict t) q = Some True"
    using dict_get_spec [OF d, of q mu] in_ by (auto simp: ur_dict_get_def)
  then have "cue_test_next t = Some (Inr (), t\<lparr>test_bsr := b3\<rparr>)"
    using b1(1) b2(1) b3(1) big un by (subst cue_test_next.simps) (simp add: Let_def)
  moreover have "test_synced P N j' (t\<lparr>test_bsr := b3\<rparr>)"
  proof -
    have "unat p' < length (jam_out j') \<and> (x \<in> P \<or> p' \<in> dom (dict_map (test_dict t)))"
      if "jam_pos j' x = Some p'" for x p'
    proof -
      have "unat p' < length (jam_out j) \<and> (x \<in> P \<or> p' \<in> dom (dict_map (test_dict t)))"
        using that s len(3) by (simp add: test_synced_def)
      then show ?thesis using len(2) by simp
    qed
    then show ?thesis using s by (simp add: test_synced_def)
  qed
  ultimately show ?thesis
    using b3(2) sync unfolding follows_def
    by (intro exI [of _ "t\<lparr>test_bsr := b3\<rparr>"]) (simp add: test_go_def test_sync_def)
qed
lemma test_synced_open:
  assumes s: "test_synced P N j t" and len: "length (jam_out j) < 2 ^ 62"
    and pos: "jam_pos j1 = (jam_pos j)(ref \<mapsto> of_nat (length (jam_out j)))"
    and out: "length (jam_out j) < length (jam_out j1)" and st: "stack_wf s1"
  shows "test_synced (insert ref P) N j1 (t\<lparr>test_bsr := b, test_stk := s1\<rparr>)"
proof -
  have un: "unat (of_nat (length (jam_out j)) :: u64) = length (jam_out j)" using len by (simp add: unat_of_nat)
  have "unat q < length (jam_out j1) \<and> (x \<in> insert ref P \<or> q \<in> dom (dict_map (test_dict t)))"
    if "jam_pos j1 x = Some q" for x q
  proof (cases "x = ref")
    case True
    then show ?thesis using that pos un out by auto
  next
    case False
    then have "unat q < length (jam_out j) \<and> (x \<in> P \<or> q \<in> dom (dict_map (test_dict t)))"
      using that pos s by (simp add: test_synced_def)
    then show ?thesis using out by auto
  qed
  then show ?thesis using s st by (simp add: test_synced_def)
qed

lemma test_synced_close:
  assumes s: "test_synced (insert ref P) N j t"
    and fr: "cs_frames (test_stk t) = \<lparr>test_tal = True, test_bits = of_nat p\<rparr> # fs"
    and N: "N \<le> 2 ^ 62" "mug_spread null_mug (of_nat ` {..<N})" and p: "p < N"
    and pos: "jam_pos j ref = Some (of_nat p)"
  shows "\<exists>d. cue_test_loop t (Inr ()) =
      cue_test_loop (t\<lparr>test_dict := d, test_stk := (test_stk t)\<lparr>cs_frames := fs\<rparr>\<rparr>) (Inr ()) \<and>
    test_synced P N j (t\<lparr>test_dict := d, test_stk := (test_stk t)\<lparr>cs_frames := fs\<rparr>\<rparr>)"
proof -
  have seen: "dict_wf null_mug (test_dict t)" "dom (dict_map (test_dict t)) \<subseteq> of_nat ` {..<N}"
    and st: "stack_wf (test_stk t)"
    using s by (simp_all add: test_synced_def)
  from test_put [OF seen N(2) p N(1)] obtain d where
      d: "ur_dict_put null_mug (test_dict t) (of_nat p) = Some d" "dict_wf null_mug d"
      "dom (dict_map d) = insert (of_nat p) (dom (dict_map (test_dict t)))" "dom (dict_map d) \<subseteq> of_nat ` {..<N}"
    by blast
  have "unat q < length (jam_out j) \<and> (x \<in> P \<or> q \<in> dom (dict_map d))" if "jam_pos j x = Some q" for x q
  proof -
    have "unat q < length (jam_out j) \<and> (x \<in> insert ref P \<or> q \<in> dom (dict_map (test_dict t)))"
      using that s by (simp add: test_synced_def)
    then show ?thesis using that pos d(3) by auto
  qed
  then have "test_synced P N j (t\<lparr>test_dict := d, test_stk := (test_stk t)\<lparr>cs_frames := fs\<rparr>\<rparr>)"
    using d st fr by (simp add: test_synced_def stack_wf_def)
  then show ?thesis using test_loop_tail [OF fr] d(1) by (intro exI [of _ d]) simp
qed

lemma test_reads_cell:
  assumes sync: "test_sync root N P j t"
    and r: "reader_at (test_bsr t) (length (jam_out j)) (True # False # rest)"
    and fr: "length (test_frames t) < 2 ^ 31"
    and new: "jam_pos j' = (jam_pos j)(ref \<mapsto> of_nat (length (jam_out j)))" "jam_out j' = jam_out j @ [True, False]"
      "length (jam_out j') \<le> N"
  shows "\<exists>t1. test_go t = test_go t1 \<and> test_sync root N (insert ref P) j' t1 \<and>
    reader_at (test_bsr t1) (length (jam_out j')) rest \<and>
    test_frames t1 = \<lparr>test_tal = False, test_bits = of_nat (length (jam_out j))\<rparr> # test_frames t"
proof -
  let ?p = "length (jam_out j)"
  let ?f = "\<lparr>test_tal = False, test_bits = of_nat ?p\<rparr>"
  have s: "test_synced P N j t" and N: "N < 2 ^ 62" using sync by (simp_all add: test_sync_def)
  obtain b where b: "reader_at b (?p + 2) rest"
    and nx: "cue_test_next t = do { s \<leftarrow> cue_push ?f (test_stk t);
                                    cue_test_next (t\<lparr>test_bsr := b, test_stk := s\<rparr>) }"
    using test_next_cell [OF r] new N by auto
  obtain s1 where s1: "cue_push ?f (test_stk t) = Some s1" "stack_wf s1" "cs_frames s1 = ?f # test_frames t"
    using cue_push_wf [OF _ fr, of ?f] s by (auto simp: test_synced_def)
  have "test_synced (insert ref P) N j' (t\<lparr>test_bsr := b, test_stk := s1\<rparr>)"
    by (rule test_synced_open [OF s _ new(1) _ s1(2)]) (use new N in simp_all)
  then show ?thesis
    using nx s1 b new(2) sync
    by (intro exI [of _ "t\<lparr>test_bsr := b, test_stk := s1\<rparr>"]) (simp add: test_go_def test_sync_def)
qed

lemma test_ends_head:
  assumes sync: "test_sync root N P j t"
    and fr: "test_frames t = \<lparr>test_tal = False, test_bits = of_nat p\<rparr> # fs"
  shows "\<exists>t1. test_cont t v = test_go t1 \<and> test_sync root N P j t1 \<and> test_bsr t1 = test_bsr t \<and>
    test_frames t1 = \<lparr>test_tal = True, test_bits = of_nat p\<rparr> # fs"
proof -
  let ?t1 = "t\<lparr>test_stk := (test_stk t)\<lparr>cs_frames := \<lparr>test_tal = True, test_bits = of_nat p\<rparr> # fs\<rparr>\<rparr>"
  have "test_sync root N P j ?t1" using sync fr by (simp add: test_sync_def test_synced_def stack_wf_def)
  then show ?thesis using test_loop_head [OF fr] by (intro exI [of _ ?t1]) simp
qed

lemma test_ends_tail:
  assumes sync: "test_sync root N (insert ref P) j t"
    and fr: "test_frames t = \<lparr>test_tal = True, test_bits = of_nat p\<rparr> # fs"
    and p: "jam_pos j ref = Some (of_nat p)" "p < N"
  shows "\<exists>t1 y. test_cont t w = test_cont t1 y \<and> test_sync root N P j t1 \<and> test_bsr t1 = test_bsr t \<and>
    test_frames t1 = fs"
proof -
  have "test_synced (insert ref P) N j t" "N \<le> 2 ^ 62" "mug_spread null_mug (of_nat ` {..<N})"
    using sync by (simp_all add: test_sync_def)
  from test_synced_close [OF this(1) fr this(2,3) p(2,1)] obtain d where
      d: "test_cont t () = test_cont (t\<lparr>test_dict := d, test_stk := (test_stk t)\<lparr>cs_frames := fs\<rparr>\<rparr>) ()"
      "test_synced P N j (t\<lparr>test_dict := d, test_stk := (test_stk t)\<lparr>cs_frames := fs\<rparr>\<rparr>)"
    by blast
  then show ?thesis
    using sync by (intro exI [of _ "t\<lparr>test_dict := d, test_stk := (test_stk t)\<lparr>cs_frames := fs\<rparr>\<rparr>"] exI [of _ "()"])
      (simp add: test_sync_def)
qed

interpretation test_reader: jam_reader r N test_bsr test_frames "test_sync r N" test_go test_cont
    "\<lambda>_. True" "\<lambda>p. \<lparr>test_tal = False, test_bits = of_nat p\<rparr>"
    "\<lambda>p _. \<lparr>test_tal = True, test_bits = of_nat p\<rparr>" "\<lambda>_ _. True" "\<lambda>_ _ _. True"
  for r N
proof
  show "root_wf r \<and> root_canon r \<and> atoms_small r" if "test_sync r N P j s" for P j s
    using that by (simp add: test_sync_def jam_root_def)
qed (rule TrueI, rule TrueI, rule test_reads_atom, assumption+, rule test_reads_back, assumption+,
  simp (no_asm) only: simp_thms, rule test_reads_cell, assumption+,
  simp (no_asm) only: simp_thms, rule test_ends_head, assumption+,
  simp (no_asm) only: simp_thms, rule test_ends_tail, assumption+)

end
