(* ===== verification/Serializer.thy ===== *)
theory Serializer
  imports JamReader
begin

text \<open>
  The properties of the serializer (\<^verbatim>\<open>serial.c\<close>) as a whole: jam returns, cue is its
  inverse and safe on any input, and cue-test accepts what jam writes; and two inputs, which jam does
  not write, on which cue-test and cue go wrong.
\<close>

section \<open>A small cell\<close>

text \<open>The cell \<open>[0 1]\<close> in a new root: its jam is ten bits long or less.\<close>

lemma small_cell_root:
  "\<exists>r0 r c. ur_root_init = Some r0 \<and> ur_cons r0 0 1 = Some (c, r) \<and> ur_reachable r \<and>
     rep r c (Cell (Atom 0) (Atom 1)) \<and> jam_root r \<and> ce_fill (cells r) < 2 ^ 31 - 1"
proof -
  obtain r0 where r0: "ur_root_init = Some r0" "at_fill (atoms r0) = 0" "ce_fill (cells r0) = 0"
    using root_init_spec by blast
  have reps: "rep r0 0 (Atom 0)" "rep r0 1 (Atom 1)"
    using rep_direct [of 0 r0] rep_direct [of 1 r0] by (simp_all add: direct_value)
  note refs = rep_root_ref [OF reps(1)] rep_root_ref [OF reps(2)]
  obtain c r where cons: "ur_cons r0 0 1 = Some (c, r)" using init_cons [OF r0(1) refs] by blast
  have reach: "ur_reachable r" by (rule ur_reachable.cons [OF ur_reachable.init [OF r0(1)] refs cons])
  note wf0 = reachable_wf [OF ur_reachable.init [OF r0(1)]] and wf = reachable_wf [OF reach]
  have post: "cons_post r0 0 1 c r" by (rule cons_spec [OF cons _ refs]) (use wf0 in simp)
  have rep: "rep r c (Cell (Atom 0) (Atom 1))" by (rule cons_post_rep [OF post _ reps]) (use wf0 in simp)
  have "\<not> 1 < ce_fill (cells r)"
  proof
    assume two: "1 < ce_fill (cells r)"
    have "inj_on (\<lambda>i. (ce_heads (cells r) ! i, ce_tails (cells r) ! i)) {..<ce_fill (cells r)}"
      using wf by (simp add: root_wf_def cells_wf_def Let_def)
    from inj_onD [OF this, of 0 1] show False
      using two post r0(3) by (simp add: cons_post_def)
  qed
  moreover have "atoms r = atoms r0" using post by (simp add: cons_post_def)
  ultimately show ?thesis
    using r0 cons reach rep wf by (auto simp: jam_root_def atoms_small_def)
qed

lemma small_codes: "length (atom_code 0) = 2" "length (atom_code 1) = 4"
  by (simp_all add: length_mat_bits MAT_LEN_def met0_pos)

lemma small_cell_jam:
  assumes wf: "jam_root r" and c: "rep r c (Cell (Atom 0) (Atom 1))" and fill: "ce_fill (cells r) < 2 ^ 31 - 1"
  shows "\<exists>bits len byt. ur_jam r c = Some (bits, len, byt) \<and> bits \<le> 10"
proof -
  have root: "root_wf r" "root_canon r" "atoms_small r" using wf by (simp_all add: jam_root_def)
  have r01: "rep r 0 (Atom 0)" "rep r 1 (Atom 1)"
    using rep_direct [of 0 r] rep_direct [of 1 r] by (simp_all add: direct_value)
  have "refs_in r (Cell (Atom 0) (Atom 1)) = {c, 0, 1}"
    using c r01 rep_unique [OF root(1,2)] by (auto simp: refs_in_def)
  moreover have "card {c, 0, 1} \<le> 3" by (simp add: card_insert_if)
  ultimately have "mug_spread (ur_nref_mug r) (refs_in r (Cell (Atom 0) (Atom 1)))"
    by (simp add: mug_spread_finite ur_pail_max_def)
  from ur_jam_total [OF root c fill this] obtain bits len byt where jam: "ur_jam r c = Some (bits, len, byt)"
    by blast
  obtain j j' where j: "jam_visit r (Cell (Atom 0) (Atom 1)) c j = Some j'" "jam_ok r j"
      "jam_pos j = Map.empty" "jam_out j = []" "bits = length (jam_out j')"
    using ur_jam_out [OF root c fill jam] by blast
  obtain a b where ab: "ur_head r c = Some a" "ur_tail r c = Some b" "rep r a (Atom 0)" "rep r b (Atom 1)"
    using rep_Cell_lookup [OF c root(1)] .
  obtain go j1 where j1: "jam_cell_cb r c j = Some (go, j1)"
    using j(1) by (auto simp: bind_eq_Some_conv)
  note s1 = jam_cell_step [OF root(1) c j(2) j1]
  have go: go "jam_pos j1 = (jam_pos j)(c \<mapsto> of_nat (length (jam_out j)))" "jam_out j1 = jam_out j @ [True, False]"
    using s1(2) j(3) by auto
  obtain j2 where j2: "jam_atom_cb r a j1 = Some j2" "jam_atom_cb r b j2 = Some j'"
    using j(1) j1 ab go by (auto simp: bind_eq_Some_conv)
  have ne: "a \<noteq> c" "b \<noteq> c" "b \<noteq> a"
    using rep_det [OF ab(3), of "Cell (Atom 0) (Atom 1)"] rep_det [OF ab(4), of "Cell (Atom 0) (Atom 1)"]
      rep_det [OF ab(4), of "Atom 0"] c ab(3) by (metis noun.distinct(1), metis noun.distinct(1), metis noun.inject(1) zero_neq_one)
  note s2 = jam_atom_step [OF root ab(3) s1(1) j2(1)]
  have o2: "jam_out j2 = jam_out j1 @ atom_code 0" "jam_pos j2 b = None"
    using s2(2) go(2) j(3) ne by auto
  have "jam_out j' = jam_out j2 @ atom_code 1"
    using jam_atom_step(2) [OF root ab(4) s2(1) j2(2)] o2(2) by auto
  then show ?thesis using jam j(4,5) o2(1) go(3) small_codes by simp
qed

section \<open>Whole runs\<close>

lemma noun_depth_fill: "root_wf r \<Longrightarrow> rep r ref n \<Longrightarrow> noun_depth n \<le> ce_fill (cells r)"
  using noun_depth_le rep_root_ref by (auto simp: root_ref_def)

lemma cue_run_of_jam:
  assumes root: "jam_root r" and rep: "rep r ref n" and cells: "ce_fill (cells r) < 2 ^ 31 - 1"
    and jam: "ur_jam r ref = Some (bits, len, byt)" "bits < 2 ^ 61" and wf: "root_wf r'"
    and home: "home \<Longrightarrow> r' = r \<and> mug_spread null_mug (of_nat ` {..<bits})"
    and good: "home \<or> ur_cue r' len (take len byt) \<noteq> None"
  shows "\<exists>y r1. ur_cue r' len (take len byt) = Some (Inr y, r1) \<and> rep r1 y n \<and> root_wf r1 \<and>
    root_ext r' r1 \<and> (home \<longrightarrow> r1 = r)"
proof -
  note r = root [unfolded jam_root_def]
  obtain j j' where j: "jam_visit r n ref j = Some j'" "jam_ok r j" "jam_pos j = Map.empty" "jam_out j = []"
      "bits = length (jam_out j')" "len = bloq_up3 bits" "len \<le> length byt"
      "bytes_bits (take len byt) = jam_out j' @ replicate (8 * len - bits) False"
    using ur_jam_out [OF _ _ _ rep cells jam(1)] r by blast
  let ?pad = "replicate (8 * len - bits) False"
  have len: "len \<le> 0x7ffffffffffffff" using j(6) jam(2) by (simp add: bloq_up3_def)
  obtain c where eq: "ur_cue r' len (take len byt) = map_option (\<lambda>(res, c'). (res, cue_root c')) (cue_go c)"
    and c: "cue_root c = r'" "cue_ok c" "reader_at (cue_bsr c) 0 (jam_out j' @ ?pad)" "cs_frames (cue_stk c) = []"
      "dict_map (cue_dict c) = Map.empty" "cs_prev (cue_stk c) = ur_fib10" "cs_size (cue_stk c) = ur_fib11"
    using ur_cue_start [OF j(8,7) len wf] by blast
  have sync: "cue_sync home r bits {} j c"
    using root c j(3) jam(2) home
    by (auto simp: cue_sync_def synced_def stack_wf_def cue_home_def ur_fib10_def ur_fib11_def)
  have depth: "noun_depth n < 2 ^ 31" using noun_depth_fill [OF _ rep] r cells by simp
  have "cue_follows home r bits {} n j' c ?pad (cue_go c)"
    by (rule cue_reader.reads_jam [OF rep j(2,1) sync, where X = "jam_out j'"])
      (use good eq j(4,5) c(3,4) depth in auto)
  then obtain c1 y where c1: "cue_go c = cue_cont c1 y" "cue_sync home r bits {} j' c1" "cue_frames c1 = []"
      "cue_grows c c1" "cue_val c1 y n"
    unfolding follows_def using c(4) by auto
  have "cue_go c = Some (Inr y, c1)" using c1(1) cue_loop_end [OF c1(3)] by simp
  then show ?thesis using eq c1 c(1) by (auto simp: cue_sync_def cue_ok_def cue_home_def)
qed

lemma test_run_of_jam:
  assumes root: "jam_root r" and rep: "rep r ref n" and cells: "ce_fill (cells r) < 2 ^ 31 - 1"
    and jam: "ur_jam r ref = Some (bits, len, byt)" "bits < 2 ^ 61"
    and spread: "mug_spread null_mug (of_nat ` {..<bits})"
  shows "ur_cue_test len (take len byt) = Some True"
proof -
  note r = root [unfolded jam_root_def]
  obtain j j' where j: "jam_visit r n ref j = Some j'" "jam_ok r j" "jam_pos j = Map.empty" "jam_out j = []"
      "bits = length (jam_out j')" "len = bloq_up3 bits" "len \<le> length byt"
      "bytes_bits (take len byt) = jam_out j' @ replicate (8 * len - bits) False"
    using ur_jam_out [OF _ _ _ rep cells jam(1)] r by blast
  let ?pad = "replicate (8 * len - bits) False"
  have len: "len \<le> 0x7ffffffffffffff" using j(6) jam(2) by (simp add: bloq_up3_def)
  have tk: "length (take len byt) = len" using j(7) by simp
  obtain t where eq: "ur_cue_test len (take len byt) = map_option (\<lambda>(res, t'). res = Inr ()) (test_go t)"
    and t: "dict_wf null_mug (test_dict t)" "dict_map (test_dict t) = Map.empty"
      "reader_at (test_bsr t) 0 (jam_out j' @ ?pad)"
      "test_stk t = \<lparr>cs_prev = ur_fib10, cs_size = ur_fib11, cs_frames = []\<rparr>"
    using ur_cue_test_start [OF j(8) tk len] by blast
  have sync: "test_sync r bits {} j t"
    using root t j(3) jam(2) spread
    by (auto simp: test_sync_def test_synced_def stack_wf_def ur_fib10_def ur_fib11_def)
  have depth: "noun_depth n < 2 ^ 31" using noun_depth_fill [OF _ rep] r cells by simp
  have "test_follows r bits {} n j' t ?pad (test_go t)"
    by (rule test_reader.reads_jam [OF rep j(2,1) sync, where X = "jam_out j'"])
      (use j(4,5) t(3,4) depth in auto)
  then obtain t1 v where t1: "test_go t = test_cont t1 v" "test_frames t1 = []"
    unfolding follows_def using t(4) by auto
  then show ?thesis using eq test_loop_end [OF t1(2)] by simp
qed

section \<open>Roots and handles\<close>

text \<open>A handle between two runs: its dictionary is empty, whatever the mugs, and no frame is left.\<close>

definition cue_idle :: "cue \<Rightarrow> bool" where
  "cue_idle h \<longleftrightarrow> (\<forall>mugf. dict_wf mugf (cue_hdict h)) \<and> dict_map (cue_hdict h) = Map.empty \<and> cs_frames (cue_hstk h) = []"

lemma dict64_empty:
  assumes "dict_wf mugf (d :: dict64)"
  shows "dict_wf mugf' (ur_dict64_wipe d)" "dict_map (ur_dict64_wipe d) = Map.empty"
  using dict_wipe_spec(2) [OF assms] assms by (auto simp: dict_wf_def dict_wipe_def ur_dict64_wipe_def)

lemma dict64_new_any:
  assumes g: "ur_dict64_grow mugf dict_null p s = Some d" and "0 < p" "0 < s"
  shows "dict_wf mugf' d" "dict_map d = Map.empty"
proof -
  have a: "dict_wf mugf d" "dict_map d = Map.empty" using dict64_new [OF assms(2,3), of mugf] g by auto
  have e: "dict_buckets d ! i = []" if "i < dict_size d" for i
  proof -
    have "i < length (dict_buckets d)" using that dict_wfD(3) [OF a(1)] by simp
    then have "set (dict_buckets d ! i) \<subseteq> set (concat (dict_buckets d))" by (auto intro: nth_mem)
    moreover have "concat (dict_buckets d) = []" using a(2) by (simp add: dict_map_def)
    ultimately show ?thesis by (metis empty_set set_empty2 subset_empty)
  qed
  show "dict_wf mugf' d" using dict_wfD(1-3) [OF a(1)] e by (simp add: dict_wf_def)
  show "dict_map d = Map.empty" by (rule a(2))
qed

lemma cue_init_idle:
  assumes "ur_cue_init_with r p s sp ss = Some h" "0 < p" "0 < s"
  shows "cue_idle h"
  using assms dict64_new_any by (auto simp: ur_cue_init_with_def cue_idle_def bind_eq_Some_conv)

lemma cue_run_idle:
  assumes run: "cue_run r h (length byt) byt = Some (res, r1, h1)" and wf: "root_wf r" and h: "cue_idle h"
  shows "root_wf r1 \<and> root_ext r r1 \<and> (\<forall>y. res = Inr y \<longrightarrow> root_ref r1 y) \<and> (\<exists>mugf. dict_wf mugf (cue_hdict h1))"
proof -
  let ?b = "bsr_zero\<lparr>bsr_left := length byt, bsr_bytes := byt\<rparr>"
  let ?c = "\<lparr>cue_root = r, cue_bsr = ?b, cue_stk = cue_hstk h, cue_dict = cue_hdict h\<rparr>"
  show ?thesis
  proof (cases "(length byt * 8) mod 2 ^ 64 < length byt \<or> 0x7ffffffffffffff < length byt")
    case True
    then have "(\<exists>e. res = Inl e) \<and> r1 = r \<and> h1 = h" using run by (auto simp: cue_run_def ur_bsr_init_def split: if_splits)
    then show ?thesis using wf h by (auto simp: cue_idle_def)
  next
    case False
    then obtain res0 c0 c1 where nx: "cue_next ?c = Some (res0, c0)" and lp: "cue_loop c0 res0 = Some (res, c1)"
      and r1: "cue_root c1 = r1" "h1 = \<lparr>cue_hstk = cue_stk c1, cue_hdict = cue_dict c1\<rparr>"
      using run by (auto simp: cue_run_def ur_bsr_init_def bind_eq_Some_conv)
    have "bsr_wf ?b" by (intro bsr_wfI) (auto simp: bsr_zero_def)
    then have "cue_inv ?c" using wf h by (simp add: cue_inv_def cue_ok_def cue_idle_def)
    then have e: "cue_good_end ?c (res0, c0)" by (rule cue_next_inv [OF nx])
    have "cue_good_end c0 (res, c1)" by (rule cue_loop_inv [OF lp]) (use e in \<open>auto simp: cue_good_end_def\<close>)
    then show ?thesis using e r1 root_ext_trans by (auto simp: cue_good_end_def cue_inv_def cue_ok_def)
  qed
qed

lemma cue_with_idle:
  assumes "ur_cue_with r h (length byt) byt = Some (res, r1, h1)" "root_wf r" "cue_idle h"
  shows "root_wf r1" "cue_idle h1"
proof -
  obtain h2 where h2: "cue_run r h (length byt) byt = Some (res, r1, h2)"
      "h1 = \<lparr>cue_hstk = (cue_hstk h2)\<lparr>cs_frames := []\<rparr>, cue_hdict = ur_dict64_wipe (cue_hdict h2)\<rparr>"
    using assms(1) by (auto simp: ur_cue_with_def bind_eq_Some_conv)
  note s = cue_run_idle [OF h2(1) assms(2,3)]
  show "root_wf r1" using s by simp
  obtain mugf where "dict_wf mugf (cue_hdict h2)" using s by blast
  from dict64_empty [OF this] show "cue_idle h1" by (simp add: cue_idle_def h2(2))
qed

text \<open>
  All that builds a root: the constructors of nouns, also the one that does not strip its bytes, \<open>ur_cue\<close>, and
  \<open>ur_cue_with\<close> with the handles that are made for it and used again.
\<close>

inductive ur_built :: "ur_root \<Rightarrow> bool" and cue_handle :: "cue \<Rightarrow> bool" where
  init: "ur_root_init = Some r \<Longrightarrow> ur_built r"
| coin64: "ur_built r \<Longrightarrow> ur_coin64 r n = Some (ref, r') \<Longrightarrow> ur_built r'"
| coin_bytes: "ur_built r \<Longrightarrow> ur_coin_bytes r len byt = Some (ref, r') \<Longrightarrow> ur_built r'"
| coin_bytes_unsafe: "ur_built r \<Longrightarrow> len \<le> length byt \<Longrightarrow> ur_coin_bytes_unsafe r len byt = Some (ref, r') \<Longrightarrow> ur_built r'"
| cons: "ur_built r \<Longrightarrow> root_ref r hed \<Longrightarrow> root_ref r tal \<Longrightarrow> ur_cons r hed tal = Some (ref, r') \<Longrightarrow> ur_built r'"
| cue: "ur_built r \<Longrightarrow> ur_cue r (length byt) byt = Some (res, r') \<Longrightarrow> ur_built r'"
| cue_with: "ur_built r \<Longrightarrow> cue_handle h \<Longrightarrow> ur_cue_with r h (length byt) byt = Some (res, r', h') \<Longrightarrow> ur_built r'"
| cue_init: "0 < p \<Longrightarrow> 0 < s \<Longrightarrow> ur_cue_init_with r p s sp ss = Some h \<Longrightarrow> cue_handle h"
| cue_used: "ur_built r \<Longrightarrow> cue_handle h \<Longrightarrow> ur_cue_with r h (length byt) byt = Some (res, r', h') \<Longrightarrow> cue_handle h'"

lemma built_wf: "ur_built r \<Longrightarrow> root_wf r" and handle_idle: "cue_handle h \<Longrightarrow> cue_idle h"
proof (induction rule: ur_built_cue_handle.inducts)
  case (init r)
  then show ?case using reachable_wf [OF ur_reachable.init] by blast
next
  case (coin64 r n ref r')
  then show ?case using coin64_post [of r n ref r'] by (auto simp: coin_post_def)
next
  case (coin_bytes r len byt ref r')
  let ?n = "strip_zeros len byt"
  have "r' = r \<or> ur_coin_bytes_unsafe r ?n (take ?n byt) = Some (ref, r')"
    using coin_bytes.hyps(2) by (auto simp: ur_coin_bytes_def Let_def bind_eq_Some_conv split: if_splits)
  then show ?case
    using coin_bytes.IH coin_bytes_spec [of r ?n "take ?n byt" ref r'] strip_zeros_le(2) [of len byt] by (auto simp: coin_post_def)
next
  case (coin_bytes_unsafe r len byt ref r')
  then show ?case using coin_bytes_spec [of r len byt ref r'] by (auto simp: coin_post_def)
next
  case (cons r hed tal ref r')
  then have "cons_post r hed tal ref r'" using cons_spec by blast
  then show ?case by (simp add: cons_post_def)
next
  case (cue r byt res r')
  then show ?case using cue_run_safe by blast
next
  case (cue_with r h byt res r' h')
  then show ?case using cue_with_idle(1) by blast
next
  case (cue_init p s r sp ss h)
  then show ?case using cue_init_idle by blast
next
  case (cue_used r h byt res r' h')
  then show ?case using cue_with_idle(2) by blast
qed

section \<open>Properties\<close>

text \<open>
  C16: What cue makes of a jammed noun. A buffer that \<open>ur_jam\<close> made from a noun is read by
  \<open>ur_cue\<close>, into any root and whenever it returns, as a reference to the same noun; the root keeps
  its invariant, and its older references keep their nouns.
\<close>
theorem cue_of_jam:
  assumes "ur_reachable r" "rep r ref n" "atoms_small r" "ce_fill (cells r) < 2 ^ 31 - 1"
    and "ur_jam r ref = Some (bits, len, byt)" "bits < 2 ^ 61"
    and "root_wf r'" "ur_cue r' len (take len byt) = Some (res, r1)"
  shows "\<exists>y. res = Inr y \<and> rep r1 y n \<and> root_wf r1 \<and> (\<forall>x m. rep r' x m \<longrightarrow> rep r1 x m)"
proof -
  have "jam_root r" using reachable_wf [OF assms(1)] assms(3) by (simp add: jam_root_def)
  from cue_run_of_jam [OF this assms(2,4,5,6,7), of False] assms(8) rep_ext [OF _ _ assms(7)] show ?thesis by auto
qed

text \<open>
  C15: Cue is the inverse of jam. Read back into the root it came from, the buffer of a noun
  gives the very reference it was made from, and the root does not change: \<open>ur_cue\<close> returns, every
  atom and every cell is found and none is made. This holds as long as the cursors of the buffer do
  not crowd one bucket of the dictionary of backreferences.
\<close>
theorem cue_inverts_jam:
  assumes "ur_reachable r" "rep r ref n" "atoms_small r" "ce_fill (cells r) < 2 ^ 31 - 1"
    and "ur_jam r ref = Some (bits, len, byt)" "bits < 2 ^ 61" "mug_spread null_mug (of_nat ` {..<bits})"
  shows "ur_cue r len (take len byt) = Some (Inr ref, r)"
proof -
  have root: "jam_root r" and wf: "root_wf r" "root_canon r"
    using reachable_wf [OF assms(1)] assms(3) by (simp_all add: jam_root_def)
  obtain y where "ur_cue r len (take len byt) = Some (Inr y, r)" "rep r y n"
    using cue_run_of_jam [OF root assms(2,4,5,6) wf(1), of True] assms(7) by auto
  then show ?thesis using rep_unique [OF wf _ assms(2)] by simp
qed

text \<open>
  C17: The validator agrees with the serializer: \<open>ur_cue_test\<close> returns and accepts every buffer
  that \<open>ur_jam\<close> makes, when the cursors do not crowd one bucket of its set.
\<close>
theorem cue_test_accepts_jam:
  assumes "ur_reachable r" "rep r ref n" "atoms_small r" "ce_fill (cells r) < 2 ^ 31 - 1"
    and "ur_jam r ref = Some (bits, len, byt)" "bits < 2 ^ 61" "mug_spread null_mug (of_nat ` {..<bits})"
  shows "ur_cue_test len (take len byt) = Some True"
proof -
  have "jam_root r" using reachable_wf [OF assms(1)] assms(3) by (simp add: jam_root_def)
  from test_run_of_jam [OF this assms(2,4-7)] show ?thesis .
qed

text \<open>
  C19: Jam returns. For every reference of a reachable root, \<open>ur_jam\<close> walks the whole noun and
  gives a buffer, when no more than ten of the references below it share a mug: then the dictionary
  of backreferences never has to grow for ever.
\<close>
theorem jam_returns:
  assumes "ur_reachable r" "rep r ref n" "atoms_small r" "ce_fill (cells r) < 2 ^ 31 - 1"
    and "mug_spread (ur_nref_mug r) (refs_in r n)"
  shows "\<exists>bits len byt. ur_jam r ref = Some (bits, len, byt) \<and> len = bloq_up3 bits \<and> len \<le> length byt"
proof -
  have wf: "root_wf r" "root_canon r" using reachable_wf [OF assms(1)] by simp_all
  obtain bits len byt where jam: "ur_jam r ref = Some (bits, len, byt)"
    using ur_jam_total [OF wf assms(3,2,4,5)] by blast
  then show ?thesis using ur_jam_out [OF wf assms(3,2,4) jam] by blast
qed

text \<open>
  Whatever the buffer holds, a run of \<open>ur_cue\<close> that returns leaves a root that keeps its invariant and
  all its nouns, and a good result is a reference to a noun of that root.
\<close>
lemma cue_safe:
  assumes "root_wf r" "ur_cue r (length byt) byt = Some (res, r1)"
  shows "root_wf r1 \<and> (\<forall>x m. rep r x m \<longrightarrow> rep r1 x m) \<and> (\<forall>y. res = Inr y \<longrightarrow> (\<exists>n. rep r1 y n))"
proof -
  have safe: "root_wf r1" "root_ext r r1" "\<And>y. res = Inr y \<Longrightarrow> root_ref r1 y"
    using cue_run_safe [OF assms(2,1) refl] by simp_all
  have "\<exists>n. rep r1 y n" if "res = Inr y" for y
    by (rule rep_total [OF safe(1) _ order_refl]) (use safe(3) [OF that] in \<open>simp add: root_ref_def\<close>)
  then show ?thesis using safe(1) rep_ext [OF _ safe(2) assms(1)] by blast
qed

lemma small_spread: "bits \<le> 10 \<Longrightarrow> mug_spread null_mug (of_nat ` {..<bits})"
  using card_image_le [of "{..<bits}" "of_nat :: nat \<Rightarrow> nref"]
  by (intro mug_spread_finite) (simp_all add: ur_pail_max_def)

lemma small_cell:
  obtains r0 r c bits len byt where "ur_root_init = Some r0" "ur_cons r0 0 1 = Some (c, r)" "ur_reachable r"
    "rep r c (Cell (Atom 0) (Atom 1))" "atoms_small r" "ce_fill (cells r) < 2 ^ 31 - 1"
    "ur_jam r c = Some (bits, len, byt)" "bits < 2 ^ 61" "mug_spread null_mug (of_nat ` {..<bits})"
proof -
  obtain r0 r c where r: "ur_root_init = Some r0" "ur_cons r0 0 1 = Some (c, r)" "ur_reachable r"
      "rep r c (Cell (Atom 0) (Atom 1))" "jam_root r" "ce_fill (cells r) < 2 ^ 31 - 1"
    using small_cell_root by blast
  obtain bits len byt where "ur_jam r c = Some (bits, len, byt)" "bits \<le> 10"
    using small_cell_jam [OF r(5,4,6)] by blast
  with r small_spread that [of r0 c r bits len byt] show ?thesis by (simp add: jam_root_def)
qed

text \<open>The run of cue on the cell \<open>[0 1]\<close>, for the witnesses.\<close>

lemma small_cell_cue:
  obtains r0 r c bits len byt where "ur_root_init = Some r0" "ur_cons r0 0 1 = Some (c, r)" "ur_reachable r"
    "rep r c (Cell (Atom 0) (Atom 1))" "atoms_small r" "ce_fill (cells r) < 2 ^ 31 - 1"
    "ur_jam r c = Some (bits, len, byt)" "bits < 2 ^ 61" "ur_cue r (length (take len byt)) (take len byt) = Some (Inr c, r)"
    "length (take len byt) = len"
proof (rule small_cell)
  fix r0 r c bits len byt
  assume r: "ur_root_init = Some r0" "ur_cons r0 0 1 = Some (c, r)" "ur_reachable r"
    "rep r c (Cell (Atom 0) (Atom 1))" "atoms_small r" "ce_fill (cells r) < 2 ^ 31 - 1"
    "ur_jam r c = Some (bits, len, byt)" "bits < 2 ^ 61" "mug_spread null_mug (of_nat ` {..<bits})"
  have root: "jam_root r" and wf: "root_wf r" "root_canon r"
    using reachable_wf [OF r(3)] r(5) by (simp_all add: jam_root_def)
  have len: "length (take len byt) = len" using ur_jam_out [OF wf r(5,4,6,7)] by auto
  obtain y where "ur_cue r len (take len byt) = Some (Inr y, r)" "rep r y (Cell (Atom 0) (Atom 1))"
    using cue_run_of_jam [OF root r(4,6,7,8) wf(1), of True] r(9) by auto
  moreover from this have "y = c" using rep_unique [OF wf _ r(4)] by simp
  ultimately show thesis using that [OF r(1-8)] len by simp
qed

lemma cue_of_jam_witness:
  "\<exists>r c bits len byt y. ur_jam r c = Some (bits, len, byt) \<and>
     ur_cue r len (take len byt) = Some (Inr y, r) \<and> rep r y (Cell (Atom 0) (Atom 1))"
proof (rule small_cell_cue)
  fix r0 r c bits len byt
  assume r: "ur_reachable r" "rep r c (Cell (Atom 0) (Atom 1))" "atoms_small r" "ce_fill (cells r) < 2 ^ 31 - 1"
    "ur_jam r c = Some (bits, len, byt)" "bits < 2 ^ 61"
    "ur_cue r (length (take len byt)) (take len byt) = Some (Inr c, r)" "length (take len byt) = len"
  have wf: "root_wf r" using reachable_wf [OF r(1)] by simp
  have cue: "ur_cue r len (take len byt) = Some (Inr c, r)" using r(7,8) by simp
  from cue_of_jam [OF r(1-6) wf cue] show ?thesis using r(5) cue by blast
qed

lemma cue_inverts_jam_witness:
  "\<exists>r0 c r bits len byt. ur_root_init = Some r0 \<and> ur_cons r0 0 1 = Some (c, r) \<and>
     ur_jam r c = Some (bits, len, byt) \<and> ur_cue r len (take len byt) = Some (Inr c, r)"
  by (rule small_cell) (use cue_inverts_jam in blast)

lemma cue_test_accepts_jam_witness:
  "\<exists>r0 c r bits len byt. ur_root_init = Some r0 \<and> ur_cons r0 0 1 = Some (c, r) \<and>
     ur_jam r c = Some (bits, len, byt) \<and> ur_cue_test len (take len byt) = Some True"
  by (rule small_cell) (use cue_test_accepts_jam in blast)

lemma jam_returns_witness:
  "\<exists>r0 bits len byt. ur_root_init = Some r0 \<and> ur_jam r0 5 = Some (bits, len, byt) \<and> len = bloq_up3 bits"
proof -
  obtain r0 where r0: "ur_root_init = Some r0" using root_init_spec by blast
  have "ur_nref_tag (5 :: nref) = ur_direct" by (simp add: direct_value)
  from jam_of_atom [OF r0 this] have "rep r0 5 (Atom 5)" "atoms_small r0" "ce_fill (cells r0) < 2 ^ 31 - 1"
      "mug_spread (ur_nref_mug r0) (refs_in r0 (Atom 5))"
    by simp_all
  from jam_returns [OF ur_reachable.init [OF r0] this] r0 show ?thesis by blast
qed

lemma cue_safe_witness:
  "\<exists>r byt y n. ur_cue r (length byt) byt = Some (Inr y, r) \<and> root_wf r \<and> rep r y n"
proof (rule small_cell_cue)
  fix r0 r c bits len byt
  assume r: "ur_reachable r" "ur_cue r (length (take len byt)) (take len byt) = Some (Inr c, r)"
  have wf: "root_wf r" using reachable_wf [OF r(1)] by simp
  from cue_safe [OF wf r(2)] r(2) wf show ?thesis by blast
qed

text \<open>
  C18: No backreference leads outside. When cue finds the tag of a backreference, in any state that its
  invariant allows and whatever bytes are left, the step returns, and changes nothing but the position of
  the reader: it reports an error, the one of the reader, \<open>cue_meme\<close> for a cursor of more than 62 bits, or
  \<open>cue_back\<close> for one where no noun began, or gives the reference that was stored there, which is one of a noun of
  the root.
\<close>
theorem cue_backs_checked:
  assumes "cue_inv c" "ur_bsr_tag (cue_bsr c) = (Inr jam_back, b)"
  shows "\<exists>res b'. cue_next c = Some (res, c\<lparr>cue_bsr := b'\<rparr>) \<and> cue_inv (c\<lparr>cue_bsr := b'\<rparr>) \<and>
    (case ur_bsr_rub_len b of
       (Inl e, _) \<Rightarrow> res = Inl e
     | (Inr len, b2) \<Rightarrow> res =
         (if 62 < len then Inl cue_meme
          else case dict_map (cue_dict c) (word_of_bits (take (unat len) (bsr_stream b2))) of
              None \<Rightarrow> Inl cue_back | Some v \<Rightarrow> Inr v)) \<and>
    (\<forall>v. res = Inr v \<longrightarrow> (\<exists>n. rep (cue_root c) v n))"
proof -
  note i = cue_invD [OF assms(1)]
  have b: "bsr_wf b" using ur_bsr_tag_spec(1) [OF i(3)] assms(2) by simp
  obtain rl b2 where rl: "ur_bsr_rub_len b = (rl, b2)" by fastforce
  have b2: "bsr_wf b2" using ur_bsr_rub_len_wf [OF b] rl by simp
  show ?thesis
  proof (cases rl)
    case (Inl e)
    then have "cue_next c = Some (Inl e, c\<lparr>cue_bsr := b2\<rparr>)" using assms(2) rl by (subst cue_next.simps) (simp add: Let_def)
    then show ?thesis using cue_inv_bsr [OF assms(1) b2] rl Inl by (intro exI conjI) (assumption | simp)+
  next
    case (Inr len)
    show ?thesis
    proof (cases "62 < len")
      case True
      then have "cue_next c = Some (Inl cue_meme, c\<lparr>cue_bsr := b2\<rparr>)" using assms(2) rl Inr by (subst cue_next.simps) (simp add: Let_def)
      then show ?thesis using cue_inv_bsr [OF assms(1) b2] rl Inr True by (intro exI conjI) (assumption | simp)+
    next
      case False
      then have len: "unat len \<le> 62" by (simp add: word_less_nat_alt)
      obtain v b3 where v: "ur_bsr64_any b2 (unat len) = (v, b3)" by fastforce
      have val: "v = word_of_bits (take (unat len) (bsr_stream b2))"
        using r64.read_value [OF b2, of "unat len"] len v by (simp add: min_absorb2)
      have ref: "root_ref (cue_root c) v" and b3: "bsr_wf b3" using sized_value_ref [OF b2 len v] by simp_all
      obtain m where m: "cue_mug c v = Some m" using root_ref_mug [OF i(1) ref] by blast
      let ?res = "case dict_map (cue_dict c) v of None \<Rightarrow> Inl cue_back | Some v \<Rightarrow> Inr v"
      have e: "cue_next c = Some (?res, c\<lparr>cue_bsr := b3\<rparr>)"
        using assms(2) rl Inr False v dict64_get_spec [OF i(2) m] by (subst cue_next.simps) (simp add: Let_def split: option.split)
      have "\<exists>n. rep (cue_root c) x n" if "?res = Inr x" for x
        using that root_ref_rep [OF i(1) i(4)] by (auto split: option.splits)
      then show ?thesis using e cue_inv_bsr [OF assms(1) b3] rl Inr False unfolding val
        by (intro exI conjI) (assumption | simp)+
    qed
  qed
qed

lemma cue_backs_checked_witness:
  "\<exists>c b'. cue_inv c \<and> cue_next c = Some (Inl cue_back, c\<lparr>cue_bsr := b'\<rparr>)"
proof -
  obtain r where r: "ur_root_init = Some r" using root_init_spec by blast
  have wf: "root_wf r" using reachable_wf [OF ur_reachable.init [OF r]] by simp
  have bits: "bytes_bits (take 1 [7 :: u8]) = [True, True] @ True # replicate 5 False"
    by (simp add: bytes_bits_def bits_of_def upt_rec numeral_eq_Suc)
  obtain c where c: "cue_root c = r" "cue_ok c" "cs_frames (cue_stk c) = []" "dict_map (cue_dict c) = Map.empty"
      "reader_at (cue_bsr c) 0 ([True, True] @ True # replicate 5 False)"
    using ur_cue_start [OF bits _ _ wf] by auto
  have inv: "cue_inv c" using c by (simp add: cue_inv_def reader_at_def)
  obtain b where b: "ur_bsr_tag (cue_bsr c) = (Inr jam_back, b)" "reader_at b (0 + 2) (True # replicate 5 False)"
    using reader_tag [OF c(5), of jam_back] by auto
  have "mat_bits [] = [True]" by (simp add: mat_bits_def)
  then have "reader_at b 2 (mat_bits [] @ replicate 5 False)" using b(2) by (simp only: add_0 append.simps)
  then obtain b2 where b2: "ur_bsr_rub_len b = (Inr 0, b2)" using reader_mat [of b 2 "[]"] by (auto simp: mat_bits_def)
  from cue_backs_checked [OF inv b(1)] show ?thesis using b2 c(4) inv by auto
qed

text \<open>
  C38: Whatever the interface builds, the hash-consing tables stay sound: in a root made by
  any of its calls, \<open>ur_cue\<close> of any bytes included, every atom and every cell is in its dictionary under its
  mug, the children of a cell are older than the cell, so that every reference to the root stands for
  exactly one noun; and as long as only \<open>ur_coin64\<close>, \<open>ur_coin_bytes\<close> and \<open>ur_cons\<close> have built it, no
  stored atom fits a direct reference or has a leading zero byte, and two references are equal exactly when their
  nouns are.
\<close>
theorem built_roots_wf:
  assumes "ur_built r"
  shows "root_wf r \<and> (\<forall>ref. root_ref r ref \<longrightarrow> (\<exists>!n. rep r ref n)) \<and>
    (ur_reachable r \<longrightarrow> root_canon r \<and> (\<forall>a b n m. rep r a n \<longrightarrow> rep r b m \<longrightarrow> (a = b \<longleftrightarrow> n = m)))"
proof -
  have wf: "root_wf r" by (rule built_wf [OF assms])
  have "\<exists>!n. rep r ref n" if "root_ref r ref" for ref using root_ref_rep [OF wf that] rep_det by blast
  moreover have "a = b \<longleftrightarrow> n = m" if "ur_reachable r" "rep r a n" "rep r b m" for a b n m
    using rep_unique [of r] rep_det [of r] reachable_wf [OF that(1)] that(2,3) by blast
  ultimately show ?thesis using wf reachable_wf [of r] by blast
qed

lemma built_roots_wf_witness:
  "\<exists>r. ur_root_init = Some r \<and> root_wf r \<and> (\<exists>!n. rep r 3 n) \<and> root_canon r"
proof -
  obtain r where r: "ur_root_init = Some r" using root_init_spec by blast
  have "root_ref r 3" by (simp add: root_ref_def ref_below_def direct_value)
  note b = built_roots_wf [OF ur_built_cue_handle.init [OF r]]
  have "root_wf r" by (rule b [THEN conjunct1])
  moreover have "\<exists>!n. rep r 3 n" by (rule b [THEN conjunct2, THEN conjunct1, rule_format]) fact
  moreover have "root_canon r" by (rule b [THEN conjunct2, THEN conjunct2, THEN mp, THEN conjunct1]) (rule ur_reachable.init [OF r])
  ultimately show ?thesis using r by (intro exI [of _ r] conjI)
qed

section \<open>Buffers that jam does not make\<close>

text \<open>
  A cell whose head is an atom of length \<open>2 ^ 62\<close>: the unary part has 63 zeros, the length digits
  are all zero, and \<open>ur_bsr_skip_any\<close> wraps, so that the reader stays where it is while its cursor
  moves on by \<open>2 ^ 62\<close>.
\<close>

definition far_cursor :: "u8 list" where
  "far_cursor = [1, 0, 0, 0, 0, 0, 0, 0, 4, 0, 0, 0, 0, 0, 0, 0, 4]"

lemma far_cursor_bits:
  "bytes_bits far_cursor = True # False # False # replicate (Suc 62) False @ True # replicate 62 False @
     (False # True # replicate 5 False)"
  by (simp add: far_cursor_def bytes_bits_def bits_of_def upt_rec numeral_eq_Suc)

lemma dict_put_null: "null_mug k = None \<Longrightarrow> ur_dict_put null_mug d k = None"
  by (simp add: ur_dict_put_def dict_put.simps)

lemma cue_test_far:
  "ur_cue_test 17 far_cursor = None"
proof -
  let ?ds = "replicate 62 False" and ?rest = "False # True # replicate 5 False"
  have bytes: "length far_cursor = 17" by (simp add: far_cursor_def)
  obtain t where eq: "ur_cue_test 17 far_cursor = map_option (\<lambda>(res, t'). res = Inr ()) (test_go t)"
    and t: "dict_wf null_mug (test_dict t)" "dict_map (test_dict t) = Map.empty"
      "reader_at (test_bsr t) 0 (True # False # False # replicate (Suc 62) False @ True # ?ds @ ?rest)"
      "test_stk t = \<lparr>cs_prev = ur_fib10, cs_size = ur_fib11, cs_frames = []\<rparr>"
    using ur_cue_test_start [OF far_cursor_bits bytes] by auto
  let ?f = "\<lparr>test_tal = False, test_bits = of_nat 0\<rparr>"
  obtain b where b: "reader_at b 2 (False # replicate (Suc 62) False @ True # ?ds @ ?rest)"
    and nx: "cue_test_next t = do { s \<leftarrow> cue_push ?f (test_stk t);
                                    cue_test_next (t\<lparr>test_bsr := b, test_stk := s\<rparr>) }"
    using test_next_cell [OF t(3), unfolded add_0_left] by auto
  obtain s where s: "cue_push ?f (test_stk t) = Some s" "cs_frames s = [?f]"
    using cue_push_wf [of "test_stk t" ?f] t(4) by (auto simp: stack_wf_def ur_fib10_def ur_fib11_def)
  let ?t1 = "t\<lparr>test_bsr := b, test_stk := s\<rparr>"
  have rd1: "reader_at (test_bsr ?t1) 2 (False # replicate (Suc 62) False @ True # ?ds @ ?rest)" using b by simp
  obtain b1 where b1: "reader_at b1 3 (replicate (Suc 62) False @ True # ?ds @ ?rest)"
    and nx1: "\<forall>len b2. ur_bsr_rub_len b1 = (Inr len, b2) \<longrightarrow>
      cue_test_next ?t1 = do { d \<leftarrow> ur_dict_put null_mug (test_dict ?t1) (of_nat 2);
                               Some (Inr (), ?t1\<lparr>test_bsr := ur_bsr_skip_any b2 (unat len), test_dict := d\<rparr>) }"
    using test_next_atom [OF rd1] by auto
  have zeros: "word_of_bits ?ds = (0 :: u64)"
    by (rule bit_word_eqI) (auto simp: bit_word_of_bits)
  obtain b2 where b2: "ur_bsr_rub_len b1 = (Inr (push_bit 62 1), b2)" "reader_at b2 129 ?rest"
    using reader_rub [OF b1] zeros by auto
  have len: "unat (push_bit 62 1 :: u64) = 256 * 2 ^ 54" by (simp add: push_bit_eq_mult)
  have wf2: "bsr_wf b2" and st2: "bsr_stream b2 = ?rest" and bits2: "bsr_bits b2 = 129"
    using b2(2) by (simp_all add: reader_at_def)
  have left: "bsr_left b2 = 1"
    using length_bsr_stream [OF wf2] bsr_wfD(1) [OF wf2] st2 by simp
  have rd2: "reader_at (ur_bsr_skip_any b2 (256 * 2 ^ 54)) (129 + 2 ^ 62) ?rest"
    using skip_wraps [OF wf2 left, of "2 ^ 54"] st2 bits2 ur_bsr_skip_any_bits [of b2 "256 * 2 ^ 54"]
    by (simp add: reader_at_def)
  obtain d where d: "ur_dict_put null_mug (test_dict ?t1) (of_nat 2) = Some d"
    using dict_set_put_small [of null_mug "test_dict ?t1" "of_nat 2"] t(1,2) direct_mug(2) [of 2]
    by (auto simp: ur_pail_max_def)
  let ?t2 = "?t1\<lparr>test_bsr := ur_bsr_skip_any b2 (256 * 2 ^ 54), test_dict := d\<rparr>"
  have go: "test_go t = test_cont ?t2 ()"
    using nx s nx1 b2(1) d len by (simp add: test_go_def)
  have fr: "cs_frames (test_stk ?t2) = [\<lparr>test_tal = False, test_bits = of_nat 0\<rparr>]" using s(2) by simp
  let ?t3 = "?t2\<lparr>test_stk := (test_stk ?t2)\<lparr>cs_frames := [\<lparr>test_tal = True, test_bits = of_nat 0\<rparr>]\<rparr>\<rparr>"
  have rd3: "reader_at (test_bsr ?t3) (129 + 2 ^ 62) (False # True # replicate 5 False)" using rd2 by simp
  obtain b3 where b3: "reader_at b3 (129 + 2 ^ 62 + 1) (True # replicate 5 False)"
    and nx3: "\<forall>len b4. ur_bsr_rub_len b3 = (Inr len, b4) \<longrightarrow>
      cue_test_next ?t3 = do { d \<leftarrow> ur_dict_put null_mug (test_dict ?t3) (of_nat (129 + 2 ^ 62));
                               Some (Inr (), ?t3\<lparr>test_bsr := ur_bsr_skip_any b4 (unat len), test_dict := d\<rparr>) }"
    using test_next_atom [OF rd3] by auto
  have "reader_at b3 (129 + 2 ^ 62 + 1) (mat_bits [] @ replicate 5 False)" using b3 by (simp add: mat_bits_def)
  from reader_mat [OF this] obtain b4 where "ur_bsr_rub_len b3 = (Inr 0, b4)" by (auto simp: mat_bits_def)
  moreover have "null_mug (of_nat (129 + 2 ^ 62)) = None"
    by (simp add: null_mug_def direct_value unat_of_nat)
  ultimately have "cue_test_next ?t3 = None" using nx3 dict_put_null by auto
  then have "test_go ?t3 = None" by (simp add: test_go_def)
  then have "test_go t = None" using go test_loop_head [OF fr] by simp
  then show ?thesis using eq by simp
qed

text \<open>An atom of 64 bits, all of them zero.\<close>

definition wide_zero :: "u8 list" where
  "wide_zero = [0, 1, 0, 0, 0, 0, 0, 0, 0, 0]"

lemma wide_zero_bits:
  "bytes_bits wide_zero = False # replicate (Suc 6) False @ True # replicate 6 False @ replicate 64 False @ [False]"
  by (simp add: wide_zero_def bytes_bits_def bits_of_def upt_rec numeral_eq_Suc)

lemma bytes_nat_zero: "bytes_bits byt = replicate n False \<Longrightarrow> bytes_nat byt = 0"
  using bits_nat_append_False [of "[]" n] by (simp add: bytes_nat_def bits_nat_def)

lemma cue_wide_zero:
  assumes r: "ur_root_init = Some r"
  shows "\<exists>y r1. ur_cue r 10 wide_zero = Some (Inr y, r1) \<and> ur_nref_tag y = ur_iatom \<and> rep r1 y (Atom 0) \<and>
    ur_met r1 0 y = None"
proof -
  have wf: "root_wf r" using reachable_wf [OF ur_reachable.init [OF r]] by simp
  have fill: "at_fill (atoms r) = 0" using r root_init_spec by (metis option.inject)
  have dom: "dom (dict_map (at_dict (atoms r))) = {}"
    using atoms_wfD(5) [of r] wf fill by (simp add: root_wf_def)
  have w: "take 10 wide_zero = wide_zero" "length wide_zero = 10" by (simp_all add: wide_zero_def)
  obtain c where eq: "ur_cue r 10 wide_zero = map_option (\<lambda>(res, c'). (res, cue_root c')) (cue_go c)"
    and c: "cue_root c = r" "cue_ok c" "cs_frames (cue_stk c) = []" "dict_map (cue_dict c) = Map.empty"
      "reader_at (cue_bsr c) 0 (False # replicate (Suc 6) False @ True # replicate 6 False @ replicate 64 False @ [False])"
    using ur_cue_start [of 10 wide_zero, unfolded w(1), OF wide_zero_bits _ _ wf] w(2) by auto
  have bits: "bsr_bits (cue_bsr c) = 0" using c(5) by (simp add: reader_at_def)
  obtain b1 where b1: "ur_bsr_tag (cue_bsr c) = (Inr jam_atom, b1)"
      "reader_at b1 1 (replicate (Suc 6) False @ True # replicate 6 False @ replicate 64 False @ [False])"
    using reader_tag [of "cue_bsr c" 0 "[False]" _ jam_atom] c(5) by auto
  have zeros: "word_of_bits (replicate 6 False) = (0 :: u64)"
    by (rule bit_word_eqI) (auto simp: bit_word_of_bits)
  obtain b2 where b2: "ur_bsr_rub_len b1 = (Inr 64, b2)" "reader_at b2 15 (replicate 64 False @ [False])"
    using reader_rub [OF b1(2)] zeros by (auto simp: push_bit_eq_mult)
  obtain byt b3 where b3: "ur_bsr_bytes_any b2 64 (replicate 8 0) = (byt, b3)"
      "bytes_bits byt = replicate 64 False" "length byt = 8"
    using reader_bytes [OF b2(2), of 8] by auto
  have zero: "bytes_nat byt = 0" by (rule bytes_nat_zero [OF b3(2)])
  then have strip: "strip_zeros 8 byt = 0" using strip_zeros_value [of 8 byt] b3(3) by simp
  obtain y r1 where coin: "ur_coin_bytes_unsafe r 0 byt = Some (y, r1)"
    using coin_bytes_total [OF wf, of 0 byt] fill dom
    by (auto simp: mug_spread_def atoms_spread_def atoms_share_def ur_pail_max_def)
  have post: "coin_post r 0 byt y r1" by (rule coin_bytes_spec [OF coin wf]) simp
  then obtain i where i: "i < at_fill (atoms r1)" "y = nref_of ur_iatom i" "at_content (atoms r1) i = []"
      and wf1: "atoms_wf r1"
    by (auto simp: coin_post_def root_wf_def)
  note y = iatom_lookup [OF wf1 i(1), folded i(2)]
  have len0: "at_lens (atoms r1) ! i = 0"
    using i(3) atoms_wfD(6) [OF wf1 i(1)] by (auto simp: at_content_def)
  have d: "dict_wf (ur_nref_mug r) (cue_dict c)" using c(1,2) by (simp add: cue_ok_def)
  have ext: "root_ext r r1" using post by (simp add: coin_post_def)
  have "dict_wf (ur_nref_mug r1) (cue_dict c)" by (rule dict_wf_mono [OF d root_ext_mug [OF ext]])
  then obtain d' where put: "ur_dict64_put (ur_nref_mug r1) (cue_dict c) 0 y = Some d'"
    using dict_put_total [of "ur_nref_mug r1" "cue_dict c" 0 y] c(4) direct_mug(1) [of 0 r1] direct_mug(2) [of 0]
      mug_spread_finite [of "{0}" "ur_nref_mug r1"]
    by (auto simp: ur_dict64_put_def ur_pail_max_def)
  have "cue_next c = Some (Inr y, c\<lparr>cue_root := r1, cue_bsr := b3, cue_dict := d'\<rparr>)"
    using b1(1) b2(1) b3(1,3) strip coin put c(1) bits
    by (subst cue_next.simps) (simp add: cue_big_atom_def Let_def)
  then have "cue_go c = Some (Inr y, c\<lparr>cue_root := r1, cue_bsr := b3, cue_dict := d'\<rparr>)"
    using c(3) by (simp add: cue_go_def cue_loop_end)
  moreover have "rep r1 y (Atom 0)" using coin_post_rep [OF post] by (simp add: bytes_nat_def bits_nat_def)
  moreover have "ur_met r1 0 y = None"
    using y i(1) len0 atoms_wfD(2) [OF wf1]
    by (auto simp: ur_met_def ur_met0_bytes_unsafe_def at_index_def ur_deep_def tag_defs)
  ultimately show ?thesis using eq y by (intro exI [of _ y] exI [of _ r1]) simp
qed

text \<open>
  C28: The validator can be made to crash. On these seventeen bytes \<open>ur_cue_test\<close> has no
  result: the length of an atom makes \<open>ur_bsr_skip_any\<close> wrap, the cursor of the next atom is past
  \<open>2 ^ 62\<close>, and the put takes the mug of that cursor as if it were an indirect reference, of the
  null root that cue-test passes.
\<close>
theorem cue_test_crashes:
  "ur_cue_test 17 [1, 0, 0, 0, 0, 0, 0, 0, 4, 0, 0, 0, 0, 0, 0, 0, 4] = None"
  using cue_test_far unfolding far_cursor_def .

text \<open>
  C29: Cue does not check that an atom is written in its least length. From these ten bytes it
  makes an indirect reference for zero in a new root, beside the direct one: one noun has two
  references, and \<open>ur_met\<close> of the new one reads in front of its empty byte array.
\<close>
theorem cue_makes_second_zero:
  "\<exists>r y r1. ur_root_init = Some r \<and> ur_cue r 10 [0, 1, 0, 0, 0, 0, 0, 0, 0, 0] = Some (Inr y, r1) \<and>
     rep r1 y (Atom 0) \<and> rep r1 0 (Atom 0) \<and> y \<noteq> 0 \<and> ur_met r1 0 y = None"
proof -
  obtain r where r: "ur_root_init = Some r" using root_init_spec by blast
  obtain y r1 where y: "ur_cue r 10 wide_zero = Some (Inr y, r1)" "ur_nref_tag y = ur_iatom"
      "rep r1 y (Atom 0)" "ur_met r1 0 y = None"
    using cue_wide_zero [OF r] by blast
  have "rep r1 0 (Atom 0)" using rep_direct [of 0 r1] by (simp add: direct_value)
  moreover have "y \<noteq> 0" using y(2) by (auto simp: ur_nref_tag_div tag_defs)
  ultimately show ?thesis using r y unfolding wide_zero_def by blast
qed

end
