(* ===== verification/Chain.thy ===== *)
theory Chain
  imports Prelude
begin

text \<open>
  Singly linked lists in a store, as the C code builds them: an address is a number, null is 0,
  and \<open>nxt x\<close> is the link in the object at \<open>x\<close>, if an object is there.
\<close>

primrec chain :: "(nat \<Rightarrow> nat option) \<Rightarrow> nat \<Rightarrow> nat list \<Rightarrow> bool" where
  "chain nxt a [] \<longleftrightarrow> a = 0"
| "chain nxt a (x # xs) \<longleftrightarrow> a = x \<and> x \<noteq> 0 \<and> (case nxt x of None \<Rightarrow> False | Some b \<Rightarrow> chain nxt b xs)"

lemma chain_null [simp]: "chain nxt 0 xs \<longleftrightarrow> xs = []"
  by (cases xs) auto

lemma chain_Cons_iff:
  "a \<noteq> 0 \<Longrightarrow> chain nxt a xs \<longleftrightarrow> (\<exists>b ys. xs = a # ys \<and> nxt a = Some b \<and> chain nxt b ys)"
  by (cases xs) (auto split: option.splits)

lemma chain_nonnull: "chain nxt a xs \<Longrightarrow> x \<in> set xs \<Longrightarrow> x \<noteq> 0 \<and> nxt x \<noteq> None"
  by (induction xs arbitrary: a) (auto split: option.splits)

lemma chain_det: "chain nxt a xs \<Longrightarrow> chain nxt a ys \<Longrightarrow> xs = ys"
proof (induction xs arbitrary: a ys)
  case (Cons x xs)
  then show ?case by (cases ys) (auto split: option.splits)
qed simp

lemma chain_suffix: "chain nxt a (xs @ ys) \<Longrightarrow> \<exists>b. chain nxt b ys"
  by (induction xs arbitrary: a) (auto split: option.splits)

text \<open>A list that ends in null has no cycle.\<close>

lemma chain_distinct: "chain nxt a xs \<Longrightarrow> distinct xs"
proof (induction xs arbitrary: a)
  case (Cons x xs)
  obtain b where b: "nxt x = Some b" "chain nxt b xs" using Cons.prems by (auto split: option.splits)
  have "x \<notin> set xs"
  proof
    assume "x \<in> set xs"
    then obtain us vs where xs: "xs = us @ x # vs" by (auto simp: in_set_conv_decomp)
    have "chain nxt x (x # vs)" using chain_suffix [of nxt b us "x # vs"] b(2) xs by auto
    moreover have "chain nxt x (x # xs)" using Cons.prems by simp
    ultimately have "x # vs = x # xs" by (rule chain_det)
    then show False using xs by simp
  qed
  then show ?case using Cons.IH b(2) by simp
qed simp

text \<open>Links outside of the list do not matter.\<close>

lemma chain_cong: "(\<And>x. x \<in> set xs \<Longrightarrow> nxt x = nxt' x) \<Longrightarrow> chain nxt a xs = chain nxt' a xs"
proof (induction xs arbitrary: a)
  case (Cons x xs)
  then show ?case by (auto split: option.splits)
qed simp

lemma chain_upd: "x \<notin> set xs \<Longrightarrow> chain (nxt(x := v)) a xs = chain nxt a xs"
  by (rule chain_cong) auto

text \<open>A new last object, linked from the one that was last.\<close>

lemma chain_snoc:
  assumes "chain nxt a xs" "xs \<noteq> []" "y \<notin> set xs" "y \<noteq> 0"
  shows "chain (nxt(last xs := Some y, y := Some 0)) a (xs @ [y])"
  using assms
proof (induction xs arbitrary: a)
  case (Cons x xs)
  show ?case
  proof (cases "xs = []")
    case True
    then show ?thesis using Cons.prems by auto
  next
    case False
    obtain b where b: "nxt x = Some b" "chain nxt b xs" using Cons.prems(1) by (auto split: option.splits)
    have "x \<notin> set xs" using chain_distinct [OF Cons.prems(1)] by simp
    then have "x \<noteq> last xs" "x \<noteq> y" using False Cons.prems(3) by auto
    then show ?thesis using Cons.IH [OF b(2) False] b Cons.prems False by simp
  qed
qed simp

text \<open>The first object of a list can be taken off.\<close>

lemma chain_tl: "chain nxt a (x # xs) \<Longrightarrow> nxt a = Some b \<Longrightarrow> chain nxt b xs \<and> x \<notin> set xs"
  using chain_distinct [of nxt a "x # xs"] by auto

end
