(* ===== verification/Newt.thy ===== *)
theory Newt
  imports Chain "HOL-Library.Monad_Syntax"
begin

text \<open>
  The framing of messages on the pipes between the king and its serf, and of the control sockets
  (\<^verbatim>\<open>pkg/vere/newt.c\<close>, its types in \<^verbatim>\<open>pkg/vere/vere.h\<close>): a message is sent as a zero byte,
  its length in four bytes, and its bytes. The decoder is fed the stream in pieces, keeps the
  message it is in the middle of, and links the finished ones into a queue in the store.

  A result \<open>None\<close> is an access to memory that is not allocated. The bytes that a new block
  holds before it is written are a parameter \<open>junk\<close>.
\<close>

section \<open>Inbound\<close>

record meat =
  nex_u :: nat
  len_d :: nat
  hun_y :: "u8 list"

text \<open>
  The message in process: the header bytes read so far, or the block that is being filled and the
  number of bytes in it.
\<close>

datatype mess =
    mess_head "u8 list"
  | mess_tail nat nat

text \<open>
  The stream: the store of its blocks, with the next address that the allocator gives; the timer
  of the queue, the errors passed to \<open>bal_f\<close> so far, and the state of the callback \<open>pok_f\<close>.
\<close>

record 's moat =
  mes_u :: mess
  ent_u :: nat
  ext_u :: nat
  heap :: "nat \<rightharpoonup> meat"
  brk :: nat
  tim_u :: bool
  reading :: bool
  bails :: "int list"
  ptr_v :: 's

definition newt_mess_head :: "'s moat \<Rightarrow> 's moat" where
  "newt_mess_head m = m\<lparr>mes_u := mess_head []\<rparr>"

definition newt_mess_tail :: "(nat \<Rightarrow> u8 list) \<Rightarrow> 's moat \<Rightarrow> nat \<Rightarrow> 's moat" where
  "newt_mess_tail junk m len =
     m\<lparr>heap := (heap m)(brk m \<mapsto> \<lparr>nex_u = 0, len_d = len, hun_y = junk len\<rparr>),
       brk := Suc (brk m), mes_u := mess_tail (brk m) 0\<rparr>"

definition newt_meat_plan :: "'s moat \<Rightarrow> nat \<Rightarrow> 's moat option" where
  "newt_meat_plan m met =
     (if ent_u m \<noteq> 0 then
        do { e \<leftarrow> heap m (ent_u m);
             Some (m\<lparr>heap := (heap m)(ent_u m \<mapsto> e\<lparr>nex_u := met\<rparr>), ent_u := met\<rparr>) }
      else Some (m\<lparr>ent_u := met, ext_u := met\<rparr>))"

definition newt_meat_poke :: "('s \<Rightarrow> nat \<Rightarrow> u8 list \<Rightarrow> bool \<times> 's) \<Rightarrow> 's moat \<Rightarrow> 's moat option" where
  "newt_meat_poke pok m =
     (if ext_u m = 0 then Some m
      else do {
        met \<leftarrow> heap m (ext_u m);
        let (ok, s) = pok (ptr_v m) (len_d met) (hun_y met); m1 = m\<lparr>tim_u := True, ptr_v := s\<rparr>
        in Some (if ok
                 then m1\<lparr>ext_u := nex_u met, ent_u := if nex_u met = 0 then 0 else ent_u m1,
                         heap := (heap m1)(ext_u m1 := None)\<rparr>
                 else m1) })"

definition newt_meat_next_cb :: "('s \<Rightarrow> nat \<Rightarrow> u8 list \<Rightarrow> bool \<times> 's) \<Rightarrow> 's moat \<Rightarrow> 's moat option" where
  "newt_meat_next_cb pok m = newt_meat_poke pok (m\<lparr>tim_u := False\<rparr>)"

text \<open>The length in a full header.\<close>

definition newt_length :: "u8 list \<Rightarrow> u64" where
  "newt_length hed =
     push_bit 0 (ucast (hed ! 1)) OR push_bit 8 (ucast (hed ! 2)) OR
     push_bit 16 (ucast (hed ! 3)) OR push_bit 24 (ucast (hed ! 4))"

text \<open>
  Feeding the decoder. The flag is \<open>c3y\<close> when it wants more input, and \<open>c3n\<close> for a bad header;
  then the bytes of the header do not count as read (\<open>has_y\<close> is not written).
\<close>

partial_function (option) u3_newt_decode ::
  "(nat \<Rightarrow> u8 list) \<Rightarrow> 's moat \<Rightarrow> u8 list \<Rightarrow> (bool \<times> 's moat) option" where
  "u3_newt_decode junk m buf =
     (if buf = [] then Some (True, m)
      else case mes_u m of
        mess_head hed \<Rightarrow>
          (let ned = 5 - length hed; cop = min ned (length buf); hed1 = hed @ take cop buf
           in if ned - cop \<noteq> 0 then u3_newt_decode junk (m\<lparr>mes_u := mess_head hed1\<rparr>) (drop cop buf)
              else let met = unat (newt_length hed1)
                   in if hed1 ! 0 \<noteq> 0 \<or> met = 0 then Some (False, m)
                      else u3_newt_decode junk (newt_mess_tail junk m met) (drop cop buf))
      | mess_tail met has \<Rightarrow>
          do { t \<leftarrow> heap m met;
               let ned = len_d t - has; cop = min ned (length buf);
                   m1 = m\<lparr>heap := (heap m)(met \<mapsto> t\<lparr>hun_y := memcpy_at (hun_y t) has (take cop buf)\<rparr>)\<rparr>
               in if ned - cop \<noteq> 0 then
                    u3_newt_decode junk (m1\<lparr>mes_u := mess_tail met (has + cop)\<rparr>) (drop cop buf)
                  else do { m2 \<leftarrow> newt_meat_plan m1 met;
                            u3_newt_decode junk (newt_mess_head m2) (drop cop buf) } })"

declare u3_newt_decode.simps [code]

text \<open>The callback of the input stream: an error code, nothing yet, or bytes.\<close>

definition newt_read_cb ::
  "(nat \<Rightarrow> u8 list) \<Rightarrow> ('s \<Rightarrow> nat \<Rightarrow> u8 list \<Rightarrow> bool \<times> 's) \<Rightarrow> 's moat \<Rightarrow> int \<Rightarrow> u8 list \<Rightarrow> 's moat option" where
  "newt_read_cb junk pok m len buf =
     (if len < 0 then Some (m\<lparr>reading := False, bails := bails m @ [len]\<rparr>)
      else if len = 0 then Some m
      else do {
        (ok, m1) \<leftarrow> u3_newt_decode junk m (take (nat len) buf);
        newt_meat_poke pok (if ok then m1 else m1\<lparr>bails := bails m1 @ [-1]\<rparr>) })"

text \<open>Starting to read; \<open>sas\<close> is the answer of libuv.\<close>

definition u3_newt_read :: "int \<Rightarrow> 's moat \<Rightarrow> 's moat" where
  "u3_newt_read sas m =
     (let m1 = newt_mess_head (m\<lparr>ent_u := 0, ext_u := 0\<rparr>)
      in if sas \<noteq> 0 then m1\<lparr>bails := bails m1 @ [sas]\<rparr> else m1\<lparr>reading := True\<rparr>)"

text \<open>Freeing the queue: reads the link of each block before it frees it.\<close>

partial_function (option) newt_free_queue :: "(nat \<rightharpoonup> meat) \<Rightarrow> nat \<Rightarrow> (nat \<rightharpoonup> meat) option" where
  "newt_free_queue h met =
     (if met = 0 then Some h
      else do { t \<leftarrow> h met; newt_free_queue (h(met := None)) (nex_u t) })"

declare newt_free_queue.simps [code]

text \<open>Stopping; libuv calls \<open>moat_stop_cb\<close> once the pipe is closed.\<close>

definition moat_stop_cb :: "'s moat \<Rightarrow> 's moat" where
  "moat_stop_cb m = m\<lparr>bails := bails m @ [-1]\<rparr>"

definition u3_newt_moat_stop :: "'s moat \<Rightarrow> 's moat option" where
  "u3_newt_moat_stop m =
     (let m1 = m\<lparr>reading := False, tim_u := False\<rparr>
      in do {
        m2 \<leftarrow> (case mes_u m1 of
                 mess_tail met _ \<Rightarrow>
                   do { _ \<leftarrow> heap m1 met;
                        Some (newt_mess_head (m1\<lparr>heap := (heap m1)(met := None)\<rparr>)) }
               | mess_head _ \<Rightarrow> Some m1);
        h \<leftarrow> newt_free_queue (heap m2) (ext_u m2);
        Some (m2\<lparr>heap := h, ent_u := 0, ext_u := 0\<rparr>) })"

text \<open>The number of pending messages, a 32-bit counter, as the status functions show it.\<close>

partial_function (option) newt_moat_count :: "(nat \<rightharpoonup> meat) \<Rightarrow> nat \<Rightarrow> nat \<Rightarrow> nat option" where
  "newt_moat_count h met len =
     (if met = 0 then Some len
      else do { t \<leftarrow> h met; newt_moat_count h (nex_u t) ((len + 1) mod 2 ^ 32) })"

declare newt_moat_count.simps [code]

definition u3_newt_moat_info :: "'s moat \<Rightarrow> nat option" where
  "u3_newt_moat_info m = newt_moat_count (heap m) (ext_u m) 0"

definition u3_newt_moat_slog :: "'s moat \<Rightarrow> (nat option) option" where
  "u3_newt_moat_slog m =
     do { len \<leftarrow> newt_moat_count (heap m) (ext_u m) 0; Some (if len \<noteq> 0 then Some len else None) }"

section \<open>Outbound\<close>

text \<open>
  The bytes that are written for a message: its header and its body. libuv takes the length of a buffer
  as an \<open>unsigned int\<close>, so that of the body is converted to one. Closing the pipe ends with the callback.
\<close>

definition newt_header :: "u64 \<Rightarrow> u8 list" where
  "newt_header len =
     [0, ucast (len AND 0xff), ucast (drop_bit 8 len AND 0xff), ucast (drop_bit 16 len AND 0xff),
      ucast (drop_bit 24 len AND 0xff)]"

record mojo =
  mojo_out :: "u8 list"
  mojo_bails :: "int list"

definition newt_write_cb :: "int \<Rightarrow> bool \<Rightarrow> mojo \<Rightarrow> mojo" where
  "newt_write_cb sas canceled m =
     (if sas \<noteq> 0 \<and> \<not> canceled then m\<lparr>mojo_bails := mojo_bails m @ [sas]\<rparr> else m)"

definition mojo_stop_cb :: "mojo \<Rightarrow> mojo" where
  "mojo_stop_cb m = m\<lparr>mojo_bails := mojo_bails m @ [-1]\<rparr>"

definition u3_newt_mojo_stop :: "mojo \<Rightarrow> mojo" where
  "u3_newt_mojo_stop m = mojo_stop_cb m"

definition u3_newt_send :: "int \<Rightarrow> mojo \<Rightarrow> u8 list \<Rightarrow> mojo" where
  "u3_newt_send sas m byt =
     (let len = (of_nat (length byt) :: u64)
      in if sas \<noteq> 0 then m\<lparr>mojo_bails := mojo_bails m @ [sas]\<rparr>
         else m\<lparr>mojo_out := mojo_out m @ newt_header len @ take (unat (ucast len :: u32)) byt\<rparr>)"

section \<open>What the decoder computes\<close>

text \<open>
  The messages of a stream: the ones that are complete, and what remains after them, unless a
  header is bad.
\<close>

function newt_frames :: "u8 list \<Rightarrow> u8 list list \<times> u8 list option" where
  "newt_frames bs =
     (let n = unat (newt_length bs)
      in if length bs < 5 then ([], Some bs)
         else if bs ! 0 \<noteq> 0 \<or> n = 0 then ([], None)
         else if length bs < 5 + n then ([], Some bs)
         else let (ms, r) = newt_frames (drop (5 + n) bs) in (take n (drop 5 bs) # ms, r))"
  by auto
termination by (relation "measure length") auto

declare newt_frames.simps [simp del]

definition moat_next :: "(nat \<rightharpoonup> meat) \<Rightarrow> nat \<Rightarrow> nat option" where
  "moat_next h = (\<lambda>a. map_option nex_u (h a))"

text \<open>The addresses \<open>xs\<close> hold the complete messages \<open>q\<close>.\<close>

definition holds_all :: "(nat \<rightharpoonup> meat) \<Rightarrow> nat list \<Rightarrow> u8 list list \<Rightarrow> bool" where
  "holds_all h xs q \<longleftrightarrow> list_all2 (\<lambda>a byt. \<exists>t. h a = Some t \<and> hun_y t = byt \<and> len_d t = length byt) xs q"

definition queue_at :: "(nat \<rightharpoonup> meat) \<Rightarrow> nat \<Rightarrow> nat \<Rightarrow> nat list \<Rightarrow> u8 list list \<Rightarrow> bool" where
  "queue_at h ext ent xs q \<longleftrightarrow> chain (moat_next h) ext xs \<and> ent = (if xs = [] then 0 else last xs) \<and> holds_all h xs q"

text \<open>The message in process holds the bytes \<open>r\<close> of the stream, and lies in the blocks \<open>A\<close>.\<close>

definition partial_at :: "(nat \<rightharpoonup> meat) \<Rightarrow> mess \<Rightarrow> nat set \<Rightarrow> u8 list \<Rightarrow> bool" where
  "partial_at h mes A r \<longleftrightarrow>
     (case mes of
        mess_head hed \<Rightarrow> A = {} \<and> r = hed \<and> length hed < 5
      | mess_tail met has \<Rightarrow> A = {met} \<and>
          (\<exists>t. h met = Some t \<and> nex_u t = 0 \<and> length (hun_y t) = len_d t \<and> has < len_d t \<and>
               5 \<le> length r \<and> r ! 0 = 0 \<and> len_d t = unat (newt_length r) \<and> drop 5 r = take has (hun_y t)))"

text \<open>The decoder has the messages \<open>q\<close> queued and the bytes \<open>r\<close> in process.\<close>

definition moat_is :: "'s moat \<Rightarrow> u8 list list \<Rightarrow> u8 list \<Rightarrow> bool" where
  "moat_is m q r \<longleftrightarrow>
     (\<exists>xs A. queue_at (heap m) (ext_u m) (ent_u m) xs q \<and> partial_at (heap m) (mes_u m) A r \<and>
        A \<inter> set xs = {} \<and> dom (heap m) = set xs \<union> A \<and> 0 \<notin> A \<and> 0 < brk m \<and> (\<forall>a \<in> dom (heap m). a < brk m))"

lemma newt_length_cong:
  assumes "take 5 r = take 5 r'"
  shows "newt_length r = newt_length r'"
proof -
  have "r ! i = r' ! i" if "i < 5" for i using nth_take [OF that, of r] nth_take [OF that, of r'] assms by simp
  then show ?thesis by (simp add: newt_length_def)
qed

lemma queue_snoc:
  assumes q: "queue_at (heap m) (ext_u m) (ent_u m) xs q" and a: "a \<notin> set xs" "a \<noteq> 0"
    and t: "heap m a = Some t" "nex_u t = 0" "len_d t = length (hun_y t)"
  shows "\<exists>m'. newt_meat_plan m a = Some m' \<and> queue_at (heap m') (ext_u m') (ent_u m') (xs @ [a]) (q @ [hun_y t]) \<and>
    dom (heap m') = dom (heap m) \<and> brk m' = brk m"
proof (cases "xs = []")
  case True
  then have "ent_u m = 0" "q = []" using q by (simp_all add: queue_at_def holds_all_def)
  then show ?thesis
    using True a t by (simp add: newt_meat_plan_def queue_at_def holds_all_def moat_next_def)
next
  case False
  let ?l = "last xs"
  have ch: "chain (moat_next (heap m)) (ext_u m) xs" and ent: "ent_u m = ?l" using q False by (simp_all add: queue_at_def)
  have l: "?l \<noteq> 0" "?l \<in> set xs" "?l \<noteq> a" using chain_nonnull [OF ch] False a(1) by (auto dest: last_in_set)
  obtain e where e: "heap m ?l = Some e" using chain_nonnull [OF ch l(2)] by (auto simp: moat_next_def)
  let ?h = "(heap m)(?l \<mapsto> e\<lparr>nex_u := a\<rparr>)"
  have nxt: "moat_next ?h = (moat_next (heap m))(?l := Some a, a := Some 0)"
    using t l(3) by (auto simp: moat_next_def fun_eq_iff)
  have "chain (moat_next ?h) (ext_u m) (xs @ [a])" unfolding nxt by (rule chain_snoc [OF ch False a])
  moreover have "holds_all ?h xs q"
    using q e unfolding queue_at_def holds_all_def by (auto elim!: list_all2_mono)
  then have "holds_all ?h (xs @ [a]) (q @ [hun_y t])"
    using t l(3) by (simp add: holds_all_def list_all2_appendI)
  ultimately show ?thesis
    using l e ent by (auto simp: newt_meat_plan_def queue_at_def)
qed

text \<open>Writing and allocating away from the queue.\<close>

lemma queue_frame:
  assumes "queue_at h ext ent xs q" "\<And>a. a \<in> set xs \<Longrightarrow> h' a = h a"
  shows "queue_at h' ext ent xs q"
proof -
  have "chain (moat_next h') ext xs = chain (moat_next h) ext xs"
    by (rule chain_cong) (simp add: moat_next_def assms(2))
  moreover have "holds_all h' xs q"
    using assms by (auto simp: queue_at_def holds_all_def list_all2_conv_all_nth)
  ultimately show ?thesis using assms(1) by (simp add: queue_at_def)
qed

lemma newt_frames_wait: "length bs < 5 \<Longrightarrow> newt_frames bs = ([], Some bs)"
  by (subst newt_frames.simps) (simp add: Let_def)

lemma newt_frames_bad:
  "5 \<le> length bs \<Longrightarrow> bs ! 0 \<noteq> 0 \<or> newt_length bs = 0 \<Longrightarrow> newt_frames bs = ([], None)"
  by (subst newt_frames.simps) (auto simp: Let_def unat_eq_zero)

lemma newt_frames_body:
  assumes "5 \<le> length r" "r ! 0 = 0" "n = unat (newt_length r)" "0 < n"
  shows "length r + length buf < 5 + n \<Longrightarrow> newt_frames (r @ buf) = ([], Some (r @ buf))"
    "5 + n \<le> length r + length buf \<Longrightarrow> newt_frames (r @ buf) =
       (take n (drop 5 (r @ buf)) # fst (newt_frames (drop (5 + n) (r @ buf))), snd (newt_frames (drop (5 + n) (r @ buf))))"
proof -
  have "newt_length (r @ buf) = newt_length r" by (rule newt_length_cong) (use assms(1) in simp)
  moreover have "(r @ buf) ! 0 = 0" using assms(1,2) by (cases r) auto
  ultimately show
    "length r + length buf < 5 + n \<Longrightarrow> newt_frames (r @ buf) = ([], Some (r @ buf))"
    "5 + n \<le> length r + length buf \<Longrightarrow> newt_frames (r @ buf) =
       (take n (drop 5 (r @ buf)) # fst (newt_frames (drop (5 + n) (r @ buf))), snd (newt_frames (drop (5 + n) (r @ buf))))"
    using assms by (subst newt_frames.simps; simp add: Let_def case_prod_beta')+
qed

text \<open>One round of the decoder, in the four states of the message in process.\<close>

lemma decode_head_wait:
  assumes "mes_u m = mess_head hed" "length hed + length buf < 5"
  shows "u3_newt_decode junk m buf = Some (True, if buf = [] then m else m\<lparr>mes_u := mess_head (hed @ buf)\<rparr>)"
proof (cases "buf = []")
  case False
  have "\<not> 5 - length hed \<le> length buf" using assms(2) by simp
  then show ?thesis
    using assms False by (subst u3_newt_decode.simps) (simp add: Let_def min_def u3_newt_decode.simps [of _ _ "[]"])
qed (simp add: u3_newt_decode.simps)

lemma decode_head_full:
  assumes "mes_u m = mess_head hed" "length hed < 5" "5 \<le> length hed + length buf" "r = hed @ take (5 - length hed) buf"
  shows "u3_newt_decode junk m buf =
    (if r ! 0 \<noteq> 0 \<or> newt_length r = 0 then Some (False, m)
     else u3_newt_decode junk (newt_mess_tail junk m (unat (newt_length r))) (drop (5 - length hed) buf))"
proof -
  have "5 - length hed \<le> length buf" "buf \<noteq> []" using assms(2,3) by auto
  then show ?thesis
    using assms by (subst u3_newt_decode.simps) (simp add: Let_def min_def unat_eq_zero)
qed

lemma decode_tail_wait:
  assumes "mes_u m = mess_tail met has" "heap m met = Some t" "has + length buf < len_d t" "buf \<noteq> []"
  shows "u3_newt_decode junk m buf =
    Some (True, m\<lparr>heap := (heap m)(met \<mapsto> t\<lparr>hun_y := memcpy_at (hun_y t) has buf\<rparr>),
                  mes_u := mess_tail met (has + length buf)\<rparr>)"
proof -
  have "\<not> len_d t - has \<le> length buf" using assms(3) by simp
  then show ?thesis
    using assms by (subst u3_newt_decode.simps) (simp add: Let_def min_def u3_newt_decode.simps [of _ _ "[]"])
qed

lemma decode_tail_full:
  assumes "mes_u m = mess_tail met has" "heap m met = Some t" "has < len_d t" "len_d t \<le> has + length buf"
  shows "u3_newt_decode junk m buf =
    do { m2 \<leftarrow> newt_meat_plan
           (m\<lparr>heap := (heap m)(met \<mapsto> t\<lparr>hun_y := memcpy_at (hun_y t) has (take (len_d t - has) buf)\<rparr>)\<rparr>) met;
         u3_newt_decode junk (newt_mess_head m2) (drop (len_d t - has) buf) }"
proof -
  have "len_d t - has \<le> length buf" "buf \<noteq> []" using assms(3,4) by auto
  then show ?thesis using assms by (subst u3_newt_decode.simps) (simp add: Let_def min_def)
qed

definition alloc_ok :: "(nat \<Rightarrow> u8 list) \<Rightarrow> bool" where
  "alloc_ok junk \<longleftrightarrow> (\<forall>n. length (junk n) = n)"

lemma moat_head_more:
  assumes "moat_is m q r" "mes_u m = mess_head hed" "length hed' < 5"
  shows "moat_is (m\<lparr>mes_u := mess_head hed'\<rparr>) q hed'"
  using assms unfolding moat_is_def partial_at_def by auto

lemma moat_head_to_tail:
  assumes m: "moat_is m q r" and head: "mes_u m = mess_head hed" and junk: "alloc_ok junk"
    and hed: "length h5 = 5" "h5 ! 0 = 0" "newt_length h5 \<noteq> 0"
  shows "moat_is (newt_mess_tail junk m (unat (newt_length h5))) q h5"
proof -
  let ?n = "unat (newt_length h5)"
  let ?m = "newt_mess_tail junk m ?n"
  obtain xs where xs: "queue_at (heap m) (ext_u m) (ent_u m) xs q" "dom (heap m) = set xs"
      "0 < brk m" "\<forall>a \<in> dom (heap m). a < brk m"
    using m head by (auto simp: moat_is_def partial_at_def)
  have new: "brk m \<notin> set xs" using xs(2,4) by auto
  have "queue_at (heap ?m) (ext_u m) (ent_u m) xs q"
    by (rule queue_frame [OF xs(1)]) (use new in \<open>auto simp: newt_mess_tail_def\<close>)
  moreover have "partial_at (heap ?m) (mes_u ?m) {brk m} h5"
    using junk hed by (simp add: partial_at_def newt_mess_tail_def alloc_ok_def unat_gt_0)
  ultimately show ?thesis
    unfolding moat_is_def using xs new
    by (intro exI [of _ xs] exI [of _ "{brk m}"]) (auto simp: newt_mess_tail_def less_SucI)
qed

lemma take_memcpy: "has \<le> length hun \<Longrightarrow> take (has + length src) (memcpy_at hun has src) = take has hun @ src"
  by (simp add: memcpy_at_def min_absorb2)

lemma moat_tail_more:
  assumes m: "moat_is m q r" and tail: "mes_u m = mess_tail met has" "heap m met = Some t"
    and buf: "has + length buf < len_d t"
  shows "moat_is (m\<lparr>heap := (heap m)(met \<mapsto> t\<lparr>hun_y := memcpy_at (hun_y t) has buf\<rparr>),
                    mes_u := mess_tail met (has + length buf)\<rparr>) q (r @ buf)"
proof -
  let ?h = "(heap m)(met \<mapsto> t\<lparr>hun_y := memcpy_at (hun_y t) has buf\<rparr>)"
  obtain xs where xs: "queue_at (heap m) (ext_u m) (ent_u m) xs q" "met \<notin> set xs" "dom (heap m) = set xs \<union> {met}"
      "met \<noteq> 0" "0 < brk m" "\<forall>a \<in> dom (heap m). a < brk m"
    and t: "nex_u t = 0" "length (hun_y t) = len_d t" "has < len_d t" "5 \<le> length r" "r ! 0 = 0"
      "len_d t = unat (newt_length r)" "drop 5 r = take has (hun_y t)"
    using m tail by (auto simp: moat_is_def partial_at_def)
  have "queue_at ?h (ext_u m) (ent_u m) xs q" by (rule queue_frame [OF xs(1)]) (use xs(2) in auto)
  moreover have "newt_length (r @ buf) = newt_length r" by (rule newt_length_cong) (use t(4) in simp)
  moreover have "(r @ buf) ! 0 = 0" using t(4,5) by (cases r) auto
  ultimately show ?thesis
    unfolding moat_is_def using xs t buf
    by (intro exI [of _ xs] exI [of _ "{met}"])
      (auto simp: partial_at_def take_memcpy)
qed

lemma moat_tail_full:
  assumes m: "moat_is m q r" and tail: "mes_u m = mess_tail met has" "heap m met = Some t"
    and buf: "length src = len_d t - has"
  shows "\<exists>m'. newt_meat_plan (m\<lparr>heap := (heap m)(met \<mapsto> t\<lparr>hun_y := memcpy_at (hun_y t) has src\<rparr>)\<rparr>) met = Some m' \<and>
    moat_is (newt_mess_head m') (q @ [drop 5 r @ src]) []"
proof -
  let ?t = "t\<lparr>hun_y := memcpy_at (hun_y t) has src\<rparr>"
  let ?m = "m\<lparr>heap := (heap m)(met \<mapsto> ?t)\<rparr>"
  obtain xs where xs: "queue_at (heap m) (ext_u m) (ent_u m) xs q" "met \<notin> set xs" "dom (heap m) = set xs \<union> {met}"
      "met \<noteq> 0" "0 < brk m" "\<forall>a \<in> dom (heap m). a < brk m"
    and t: "nex_u t = 0" "length (hun_y t) = len_d t" "has < len_d t" "5 \<le> length r" "r ! 0 = 0"
      "len_d t = unat (newt_length r)" "drop 5 r = take has (hun_y t)"
    using m tail by (auto simp: moat_is_def partial_at_def)
  have hun: "memcpy_at (hun_y t) has src = drop 5 r @ src"
    using take_memcpy [of has "hun_y t" src] t buf by (simp add: memcpy_at_def)
  have "queue_at (heap ?m) (ext_u ?m) (ent_u ?m) xs q" by (simp, rule queue_frame [OF xs(1)]) (use xs(2) in auto)
  from queue_snoc [OF this xs(2,4), of ?t] obtain m' where m': "newt_meat_plan ?m met = Some m'"
      "queue_at (heap m') (ext_u m') (ent_u m') (xs @ [met]) (q @ [drop 5 r @ src])"
      "dom (heap m') = dom (heap ?m)" "brk m' = brk m"
    using t buf hun by auto
  have "moat_is (newt_mess_head m') (q @ [drop 5 r @ src]) []"
    unfolding moat_is_def using m' xs
    by (intro exI [of _ "xs @ [met]"] exI [of _ "{}"]) (auto simp: partial_at_def newt_mess_head_def)
  then show ?thesis using m'(1) by blast
qed

lemma decode_spec:
  assumes junk: "alloc_ok junk"
  shows "moat_is m q r \<Longrightarrow> newt_frames (r @ buf) = (ms, rest) \<Longrightarrow>
    \<exists>m'. u3_newt_decode junk m buf = Some (rest \<noteq> None, m') \<and>
      (case rest of None \<Rightarrow> \<exists>r'. moat_is m' (q @ ms) r' | Some r' \<Rightarrow> moat_is m' (q @ ms) r')"
proof (induction "length buf" arbitrary: m q r buf ms rule: less_induct)
  case less
  note m = less.prems(1)
  show ?case
  proof (cases "mes_u m")
    case (mess_head hed)
    then have r: "r = hed" "length hed < 5" using m by (auto simp: moat_is_def partial_at_def)
    show ?thesis
    proof (cases "length hed + length buf < 5")
      case True
      then have fr: "ms = []" "rest = Some (r @ buf)" using less.prems(2) newt_frames_wait [of "r @ buf"] r by auto
      have "moat_is (m\<lparr>mes_u := mess_head (hed @ buf)\<rparr>) q (hed @ buf)"
        by (rule moat_head_more [OF m mess_head]) (use True in simp)
      then show ?thesis using decode_head_wait [OF mess_head True, of junk] fr r m by auto
    next
      case False
      let ?h5 = "hed @ take (5 - length hed) buf" and ?buf = "drop (5 - length hed) buf"
      have h5: "length ?h5 = 5" "?h5 @ ?buf = r @ buf" using False r by simp_all
      have step: "u3_newt_decode junk m buf =
          (if ?h5 ! 0 \<noteq> 0 \<or> newt_length ?h5 = 0 then Some (False, m)
           else u3_newt_decode junk (newt_mess_tail junk m (unat (newt_length ?h5))) ?buf)"
        using decode_head_full [OF mess_head r(2) _ refl] False by simp
      have same: "newt_length ?h5 = newt_length (r @ buf)" "?h5 ! 0 = (r @ buf) ! 0"
      proof -
        have "take 5 ?h5 = take 5 (r @ buf)" using h5(1) by (simp flip: h5(2))
        then show "newt_length ?h5 = newt_length (r @ buf)" by (rule newt_length_cong)
        show "?h5 ! 0 = (r @ buf) ! 0" using h5(1) by (simp only: h5(2) [symmetric] nth_append) simp
      qed
      show ?thesis
      proof (cases "?h5 ! 0 \<noteq> 0 \<or> newt_length ?h5 = 0")
        case True
        then have "newt_frames (r @ buf) = ([], None)"
          using same False r by (intro newt_frames_bad) auto
        then show ?thesis using True step less.prems(2) m by auto
      next
        case good: False
        have "moat_is (newt_mess_tail junk m (unat (newt_length ?h5))) q ?h5"
          by (rule moat_head_to_tail [OF m mess_head junk h5(1)]) (use good in simp_all)
        moreover have "length ?buf < length buf" using False r(2) by simp
        moreover have "newt_frames (?h5 @ ?buf) = (ms, rest)" using less.prems(2) h5(2) by simp
        ultimately obtain m' where "u3_newt_decode junk (newt_mess_tail junk m (unat (newt_length ?h5))) ?buf =
            Some (rest \<noteq> None, m')" "case rest of None \<Rightarrow> \<exists>r'. moat_is m' (q @ ms) r' | Some r' \<Rightarrow> moat_is m' (q @ ms) r'"
          using less.hyps [of ?buf] by blast
        then show ?thesis using step good by auto
      qed
    qed
  next
    case (mess_tail met has)
    then obtain t where t: "heap m met = Some t" "length (hun_y t) = len_d t" "has < len_d t" "5 \<le> length r" "r ! 0 = 0"
        "len_d t = unat (newt_length r)" "drop 5 r = take has (hun_y t)"
      using m by (auto simp: moat_is_def partial_at_def)
    have lr: "length r = 5 + has" using t by (metis add.commute diff_add length_drop length_take less_imp_le min.absorb2 min_def le_add_diff_inverse)
    have pos: "0 < len_d t" using t(3) by simp
    note body = newt_frames_body [OF t(4,5,6) pos, of buf]
    show ?thesis
    proof (cases "has + length buf < len_d t")
      case True
      then have fr: "ms = []" "rest = Some (r @ buf)" using body(1) lr less.prems(2) by simp_all
      show ?thesis
      proof (cases "buf = []")
        case True
        then show ?thesis using fr m by (simp add: u3_newt_decode.simps)
      next
        case False
        show ?thesis
          using decode_tail_wait [OF mess_tail t(1) \<open>has + length buf < len_d t\<close> False, of junk]
            moat_tail_more [OF m mess_tail t(1) \<open>has + length buf < len_d t\<close>] fr by simp
      qed
    next
      case False
      let ?k = "len_d t - has"
      have k: "length (take ?k buf) = ?k" "0 < ?k" "?k \<le> length buf" using False t(3) by auto
      obtain m1 where m1: "newt_meat_plan (m\<lparr>heap := (heap m)(met \<mapsto> t\<lparr>hun_y := memcpy_at (hun_y t) has (take ?k buf)\<rparr>)\<rparr>) met
          = Some m1" "moat_is (newt_mess_head m1) (q @ [drop 5 r @ take ?k buf]) []"
        using moat_tail_full [OF m mess_tail t(1) k(1)] by blast
      have step: "u3_newt_decode junk m buf = u3_newt_decode junk (newt_mess_head m1) (drop ?k buf)"
        using decode_tail_full [OF mess_tail t(1,3), of buf junk] False m1(1) by simp
      have msg: "take (len_d t) (drop 5 (r @ buf)) = drop 5 r @ take ?k buf" "drop (5 + len_d t) (r @ buf) = drop ?k buf"
        using lr t(3,4) by (simp_all add: add.commute)
      obtain ms' where ms': "newt_frames ([] @ drop ?k buf) = (ms', rest)" "ms = (drop 5 r @ take ?k buf) # ms'"
        using body(2) False lr less.prems(2) unfolding msg by (cases "newt_frames (drop ?k buf)") auto
      have "length (drop ?k buf) < length buf" using k by simp
      note IH = less.hyps [OF this m1(2) ms'(1)]
      have "(q @ [drop 5 r @ take ?k buf]) @ ms' = q @ ms" using ms'(2) by simp
      then show ?thesis using IH step by (simp only:)
    qed
  qed
qed

section \<open>Streams in pieces\<close>

primrec newt_feed :: "(nat \<Rightarrow> u8 list) \<Rightarrow> 's moat \<Rightarrow> u8 list list \<Rightarrow> (bool \<times> 's moat) option" where
  "newt_feed junk m [] = Some (True, m)"
| "newt_feed junk m (buf # bufs) =
     do { (ok, m1) \<leftarrow> u3_newt_decode junk m buf; if ok then newt_feed junk m1 bufs else Some (False, m1) }"

lemma newt_frames_append:
  "newt_frames S = (ms, rest) \<Longrightarrow> newt_frames (S @ buf) =
     (case rest of None \<Rightarrow> (ms, None)
      | Some r \<Rightarrow> (ms @ fst (newt_frames (r @ buf)), snd (newt_frames (r @ buf))))"
proof (induction S arbitrary: ms rule: newt_frames.induct)
  case (1 S)
  let ?n = "unat (newt_length S)"
  show ?case
  proof (cases "length S < 5")
    case True
    then show ?thesis using 1(2) newt_frames_wait [of S] by auto
  next
    case five: False
    have len: "newt_length (S @ buf) = newt_length S" by (rule newt_length_cong) (use five in simp)
    have zero: "(S @ buf) ! 0 = S ! 0" using five by (cases S) auto
    show ?thesis
    proof (cases "S ! 0 \<noteq> 0 \<or> newt_length S = 0")
      case True
      then show ?thesis
        using 1(2) newt_frames_bad [of S] newt_frames_bad [of "S @ buf"] five len zero by auto
    next
      case good: False
      then have n: "0 < ?n" by (simp add: unat_gt_0)
      note body = newt_frames_body [OF _ _ refl n]
      show ?thesis
      proof (cases "length S < 5 + ?n")
        case True
        then have "newt_frames S = ([], Some S)" using body(1) [of "[]"] five good by simp
        then show ?thesis using 1(2) by auto
      next
        case False
        obtain ms' where ms': "newt_frames (drop (5 + ?n) S) = (ms', rest)" "ms = take ?n (drop 5 S) # ms'"
          using body(2) [of "[]"] five good False 1(2) by (cases "newt_frames (drop (5 + ?n) S)") auto
        have "newt_frames (drop (5 + ?n) S @ buf) = (case rest of None \<Rightarrow> (ms', None)
            | Some r \<Rightarrow> (ms' @ fst (newt_frames (r @ buf)), snd (newt_frames (r @ buf))))"
          using 1(1) [OF refl _ _ _ ms'(1)] five good False n by simp
        moreover have "newt_frames (S @ buf) = (take ?n (drop 5 S) # fst (newt_frames (drop (5 + ?n) S @ buf)),
            snd (newt_frames (drop (5 + ?n) S @ buf)))"
          using body(2) [of buf] five good False by simp
        ultimately show ?thesis using ms'(2) by (simp split: option.split)
      qed
    qed
  qed
qed

lemma newt_frames_rest: "newt_frames S = (ms, Some r) \<Longrightarrow> newt_frames r = ([], Some r)"
  using newt_frames_append [of S ms "Some r" "[]"] by (cases "newt_frames r") simp

lemma newt_feed_spec:
  assumes junk: "alloc_ok junk"
  shows "moat_is m q r \<Longrightarrow> newt_frames (r @ concat bufs) = (ms, rest) \<Longrightarrow> newt_frames r = ([], Some r) \<Longrightarrow>
    \<exists>m'. newt_feed junk m bufs = Some (rest \<noteq> None, m') \<and>
      (case rest of None \<Rightarrow> \<exists>r'. moat_is m' (q @ ms) r' | Some r' \<Rightarrow> moat_is m' (q @ ms) r')"
proof (induction bufs arbitrary: m q r ms)
  case Nil
  then show ?case by auto
next
  case (Cons buf bufs)
  obtain ms1 rest1 where f1: "newt_frames (r @ buf) = (ms1, rest1)" by (cases "newt_frames (r @ buf)")
  obtain m1 where m1: "u3_newt_decode junk m buf = Some (rest1 \<noteq> None, m1)"
      "case rest1 of None \<Rightarrow> \<exists>r'. moat_is m1 (q @ ms1) r' | Some r' \<Rightarrow> moat_is m1 (q @ ms1) r'"
    using decode_spec [OF junk Cons.prems(1) f1] by blast
  have app: "newt_frames (r @ concat (buf # bufs)) = (case rest1 of None \<Rightarrow> (ms1, None)
      | Some r \<Rightarrow> (ms1 @ fst (newt_frames (r @ concat bufs)), snd (newt_frames (r @ concat bufs))))"
    using newt_frames_append [OF f1, of "concat bufs"] by simp
  show ?case
  proof (cases rest1)
    case None
    then show ?thesis using m1 app Cons.prems(2) by auto
  next
    case (Some r1)
    obtain ms2 where ms2: "newt_frames (r1 @ concat bufs) = (ms2, rest)" "ms = ms1 @ ms2"
      using app Cons.prems(2) Some by (cases "newt_frames (r1 @ concat bufs)") auto
    have "newt_frames r1 = ([], Some r1)"
      using f1 Some newt_frames_rest [of "r @ buf" ms1 r1] by simp
    moreover have "(q @ ms1) @ ms2 = q @ ms" using ms2(2) by simp
    ultimately show ?thesis using Cons.IH [of m1 "q @ ms1" r1 ms2] m1 Some ms2(1) by (simp only:) simp
  qed
qed

section \<open>The queue\<close>

lemma poke_spec:
  assumes m: "moat_is m (x # q) r"
  shows "\<exists>m'. newt_meat_poke pok m = Some m' \<and> ptr_v m' = snd (pok (ptr_v m) (length x) x) \<and> tim_u m' \<and>
    moat_is m' (if fst (pok (ptr_v m) (length x) x) then q else x # q) r"
proof -
  obtain xs A where xs: "queue_at (heap m) (ext_u m) (ent_u m) xs (x # q)" "partial_at (heap m) (mes_u m) A r"
      "A \<inter> set xs = {}" "dom (heap m) = set xs \<union> A" "0 \<notin> A" "0 < brk m" "\<forall>a \<in> dom (heap m). a < brk m"
    using m unfolding moat_is_def by blast
  obtain a ys where a: "xs = a # ys" using xs(1) by (auto simp: queue_at_def holds_all_def list_all2_Cons2)
  obtain t where t: "heap m a = Some t" "hun_y t = x" "len_d t = length x" and rest: "holds_all (heap m) ys q"
    using xs(1) a by (auto simp: queue_at_def holds_all_def)
  have ch: "chain (moat_next (heap m)) (ext_u m) (a # ys)" using xs(1) a by (simp add: queue_at_def)
  then have ext: "ext_u m = a" "a \<noteq> 0" by simp_all
  have nx: "chain (moat_next (heap m)) (nex_u t) ys" "a \<notin> set ys"
    using chain_tl [OF ch, of "nex_u t"] t(1) ext by (simp_all add: moat_next_def)
  let ?h = "(heap m)(a := None)"
  have ent: "(if nex_u t = 0 then 0 else ent_u m) = (if ys = [] then 0 else last ys)"
    using nx(1) xs(1) a by (cases ys) (auto simp: queue_at_def)
  have "queue_at ?h (nex_u t) (if ys = [] then 0 else last ys) ys q"
    by (rule queue_frame [of "heap m"]) (use nx rest in \<open>auto simp: queue_at_def\<close>)
  moreover have "partial_at ?h (mes_u m) A r"
    using xs(2,3) a by (auto simp: partial_at_def split: mess.splits)
  moreover have "dom ?h = set ys \<union> A" using xs(3,4) a nx(2) by auto
  ultimately have "moat_is (m\<lparr>tim_u := True, ptr_v := s, ext_u := nex_u t,
      ent_u := (if nex_u t = 0 then 0 else ent_u m), heap := ?h\<rparr>) q r" for s
    unfolding moat_is_def ent using xs(3,5,6,7) a by (intro exI [of _ ys] exI [of _ A]) auto
  moreover have "moat_is (m\<lparr>tim_u := True, ptr_v := s\<rparr>) (x # q) r" for s
    using m by (simp add: moat_is_def)
  ultimately show ?thesis
    using ext t by (cases "pok (ptr_v m) (length x) x"; cases "nex_u t = 0") (simp_all add: newt_meat_poke_def Let_def)
qed

lemma poke_empty: "moat_is m [] r \<Longrightarrow> newt_meat_poke pok m = Some m"
  by (auto simp: moat_is_def queue_at_def holds_all_def newt_meat_poke_def)

lemma free_queue_spec:
  "chain (moat_next h) a xs \<Longrightarrow> \<exists>h'. newt_free_queue h a = Some h' \<and> h' = h |` (- set xs)"
proof (induction xs arbitrary: h a)
  case Nil
  then show ?case by (simp add: newt_free_queue.simps [of h])
next
  case (Cons x xs)
  then have a: "a = x" "x \<noteq> 0" by simp_all
  then obtain t where t: "h a = Some t" using Cons.prems by (auto simp: moat_next_def split: option.splits)
  have nx: "chain (moat_next h) (nex_u t) xs" "x \<notin> set xs"
    using chain_tl [OF Cons.prems, of "nex_u t"] t by (simp_all add: moat_next_def)
  have "chain (moat_next (h(a := None))) (nex_u t) xs"
    using nx chain_upd [OF nx(2), of "moat_next h" None] a by (simp add: moat_next_def fun_upd_def if_distrib cong: if_cong)
  then obtain h' where h': "newt_free_queue (h(a := None)) (nex_u t) = Some h'" "h' = (h(a := None)) |` (- set xs)"
    using Cons.IH by blast
  have "(h(a := None)) |` (- set xs) = h |` (- set (x # xs))"
    using a by (auto simp: restrict_map_def fun_eq_iff)
  then show ?case using h' t a by (subst newt_free_queue.simps) simp
qed

lemma stop_frees:
  assumes m: "moat_is m q r"
  shows "\<exists>m'. u3_newt_moat_stop m = Some m' \<and> heap m' = Map.empty \<and> ext_u m' = 0 \<and> ent_u m' = 0 \<and> \<not> reading m'"
proof -
  obtain xs A where xs: "queue_at (heap m) (ext_u m) (ent_u m) xs q" "partial_at (heap m) (mes_u m) A r"
      "A \<inter> set xs = {}" "dom (heap m) = set xs \<union> A" "0 \<notin> A"
    using m unfolding moat_is_def by blast
  let ?h = "heap m |` (- A)"
  have q: "queue_at ?h (ext_u m) (ent_u m) xs q"
    by (rule queue_frame [OF xs(1)]) (use xs(3) in \<open>auto simp: restrict_map_def\<close>)
  obtain h' where h': "newt_free_queue ?h (ext_u m) = Some h'" "h' = ?h |` (- set xs)"
    using free_queue_spec [of ?h "ext_u m" xs] q by (auto simp: queue_at_def)
  have empty: "h' = Map.empty"
    using h'(2) xs(4) by (auto simp: restrict_map_def fun_eq_iff domIff)
  show ?thesis
  proof (cases "mes_u m")
    case (mess_head hed)
    then have "?h = heap m" using xs(2) by (simp add: partial_at_def restrict_map_def)
    then show ?thesis using h'(1) empty mess_head by (simp add: u3_newt_moat_stop_def Let_def)
  next
    case (mess_tail met has)
    then have A: "A = {met}" and t: "heap m met \<noteq> None" using xs(2) by (auto simp: partial_at_def)
    have "?h = (heap m)(met := None)" by (auto simp: A restrict_map_def fun_eq_iff)
    then show ?thesis
      using h'(1) empty mess_tail t by (auto simp: u3_newt_moat_stop_def Let_def newt_mess_head_def)
  qed
qed

section \<open>Sending and receiving\<close>

lemma low_byte: "(ucast (w AND 0xff) :: u8) = ucast w" for w :: u64
proof (rule bit_word_eqI)
  fix i
  have "(0xff :: u64) = mask 8" by (simp add: mask_eq_exp_minus_1)
  then show "bit (ucast (w AND 0xff) :: u8) i \<longleftrightarrow> bit (ucast w :: u8) i"
    by (simp only: bit_ucast_iff bit_and_iff bit_mask_iff) auto
qed

lemma byte_bits: "bit (push_bit k (ucast (ucast (drop_bit k w) :: u8)) :: u64) i \<longleftrightarrow> k \<le> i \<and> i < k + 8 \<and> bit w i"
  for w :: u64
  using bit_imp_le_length [of w i] by (auto simp: bit_simps)

lemma newt_length_header: "newt_length (newt_header len @ byt) = take_bit 32 len"
proof (rule bit_word_eqI)
  fix i
  have "newt_length (newt_header len @ byt) =
    push_bit 0 (ucast (ucast (drop_bit 0 len) :: u8)) OR push_bit 8 (ucast (ucast (drop_bit 8 len) :: u8)) OR
    push_bit 16 (ucast (ucast (drop_bit 16 len) :: u8)) OR push_bit 24 (ucast (ucast (drop_bit 24 len) :: u8))"
    by (simp add: newt_length_def newt_header_def low_byte)
  then have "bit (newt_length (newt_header len @ byt)) i \<longleftrightarrow>
    (i < 8 \<or> 8 \<le> i \<and> i < 16 \<or> 16 \<le> i \<and> i < 24 \<or> 24 \<le> i \<and> i < 32) \<and> bit len i"
    by (simp only: bit_or_iff byte_bits) auto
  also have "\<dots> \<longleftrightarrow> bit (take_bit 32 len) i" by (auto simp: bit_take_bit_iff)
  finally show "bit (newt_length (newt_header len @ byt)) i \<longleftrightarrow> bit (take_bit 32 len) i" .
qed

lemma unat_length_header: "n < 2 ^ 64 \<Longrightarrow> unat (newt_length (newt_header (of_nat n) @ byt)) = n mod 2 ^ 32"
  unfolding newt_length_header unsigned_take_bit_eq by (simp add: unat_of_nat take_bit_eq_mod)

lemma newt_frames_message:
  assumes "0 < length byt" "length byt < 2 ^ 32"
  shows "newt_frames (newt_header (of_nat (length byt)) @ byt @ S) = (byt # fst (newt_frames S), snd (newt_frames S))"
proof -
  let ?h = "newt_header (of_nat (length byt))"
  have un: "unat (newt_length (?h @ byt @ S)) = length byt"
    using assms(2) by (simp add: unat_length_header)
  have h: "length ?h = 5" "?h ! 0 = 0" by (simp_all add: newt_header_def)
  have "newt_frames (?h @ byt @ S) = (take (length byt) (drop 5 (?h @ byt @ S)) #
      fst (newt_frames (drop (5 + length byt) (?h @ byt @ S))), snd (newt_frames (drop (5 + length byt) (?h @ byt @ S))))"
    using newt_frames_body(2) [of "?h @ byt @ S" "length byt" "[]"] un h assms(1) by (simp add: nth_append)
  then show ?thesis using h(1) by simp
qed

abbreviation newt_sent :: "u8 list list \<Rightarrow> mojo" where
  "newt_sent msgs \<equiv> fold (\<lambda>byt m. u3_newt_send 0 m byt) msgs \<lparr>mojo_out = [], mojo_bails = []\<rparr>"

text \<open>What is written for a message, and what the other side sees of it.\<close>

definition newt_frame :: "u8 list \<Rightarrow> u8 list" where
  "newt_frame byt = newt_header (of_nat (length byt)) @ take (unat (ucast (of_nat (length byt) :: u64) :: u32)) byt"

lemma newt_sent_out:
  "mojo_out (fold (\<lambda>byt m. u3_newt_send 0 m byt) msgs m) = mojo_out m @ concat (map newt_frame msgs)"
  by (induction msgs arbitrary: m) (simp_all add: u3_newt_send_def newt_frame_def Let_def)

lemma newt_sent_stream: "mojo_out (newt_sent msgs) = concat (map newt_frame msgs)"
  using newt_sent_out [of msgs "\<lparr>mojo_out = [], mojo_bails = []\<rparr>"] by (simp only: mojo.simps append_Nil)

lemma newt_sent_quiet: "mojo_bails (newt_sent msgs) = []"
proof -
  have "mojo_bails (fold (\<lambda>byt m. u3_newt_send 0 m byt) msgs m) = mojo_bails m" for m
    by (induction msgs arbitrary: m) (simp_all add: u3_newt_send_def Let_def)
  then show ?thesis by simp
qed

lemma low_length:
  assumes "n < 2 ^ 64"
  shows "unat (ucast (of_nat n :: u64) :: u32) = n mod 2 ^ 32"
  using assms by (simp add: unsigned_ucast_eq unat_of_nat take_bit_eq_mod mod_mod_cancel)

lemma newt_frame_short: "length byt < 2 ^ 32 \<Longrightarrow> newt_frame byt = newt_header (of_nat (length byt)) @ byt"
  using low_length [of "length byt"] by (simp add: newt_frame_def)

lemma newt_frames_sent:
  "\<forall>byt \<in> set msgs. 0 < length byt \<and> length byt < 2 ^ 32 \<Longrightarrow> newt_frames (concat (map newt_frame msgs)) = (msgs, Some [])"
proof (induction msgs)
  case Nil
  then show ?case by (simp add: newt_frames_wait)
next
  case (Cons byt msgs)
  then show ?case using newt_frames_message [of byt] newt_frame_short [of byt] by simp
qed

text \<open>A message that is longer than its length field can say.\<close>

lemma low_bytes:
  fixes len :: u64
  assumes "k + 8 \<le> 32"
  shows "(ucast (drop_bit k (take_bit 32 len) AND 0xff) :: u8) = ucast (drop_bit k len AND 0xff)"
  unfolding low_byte by (rule bit_word_eqI) (use assms in \<open>auto simp: bit_simps\<close>)

lemma newt_header_low: "newt_header (of_nat n) = newt_header (of_nat (n mod 2 ^ 32))"
proof -
  have "(of_nat (n mod 2 ^ 32) :: u64) = take_bit 32 (of_nat n)" by (simp only: take_bit_of_nat flip: take_bit_eq_mod)
  then show ?thesis using low_bytes [of 0 "of_nat n"] low_bytes [of 8 "of_nat n"] low_bytes [of 16 "of_nat n"] low_bytes [of 24 "of_nat n"]
    by (simp add: newt_header_def)
qed

lemma newt_frame_long:
  assumes "length byt < 2 ^ 64"
  shows "newt_frame byt = newt_frame (take (length byt mod 2 ^ 32) byt)"
proof -
  let ?n = "length byt mod 2 ^ 32"
  have l: "length (take ?n byt) = ?n" by (simp add: min_absorb2)
  have n: "?n < 2 ^ 32" by simp
  show ?thesis using newt_header_low [of "length byt"] low_length [OF assms] newt_frame_short [of "take ?n byt"] l n
    by (simp add: newt_frame_def)
qed

lemma fresh_moat:
  assumes "heap m = Map.empty" "0 < brk m"
  shows "moat_is (u3_newt_read 0 m) [] []"
  using assms by (auto simp: moat_is_def u3_newt_read_def newt_mess_head_def Let_def queue_at_def holds_all_def
      partial_at_def)

lemma newt_feed_fresh:
  assumes "alloc_ok junk" "heap m = Map.empty" "0 < brk m" "newt_frames (concat bufs) = (ms, rest)"
  obtains m' where "newt_feed junk (u3_newt_read 0 m) bufs = Some (rest \<noteq> None, m')"
    "case rest of None \<Rightarrow> \<exists>r'. moat_is m' ms r' | Some r' \<Rightarrow> moat_is m' ms r'"
  using newt_feed_spec [OF assms(1) fresh_moat [OF assms(2,3)], of bufs ms rest] assms(4)
    newt_frames_wait [of "[]"] by (cases rest) auto

section \<open>Properties\<close>

text \<open>
  C33: The decoder does not depend on how the stream is cut. Fed any pieces one after the
  other, it queues the messages of the whole stream, in their order, and holds what remains; it
  reports a bad header exactly when the stream has one, with the messages before it queued; and it
  never touches memory that is not allocated, whatever the allocator puts into a new block.
\<close>
theorem newt_cut_free:
  assumes "alloc_ok junk" "heap m = Map.empty" "0 < brk m"
  shows "\<exists>m'. newt_feed junk (u3_newt_read 0 m) bufs = Some (snd (newt_frames (concat bufs)) \<noteq> None, m') \<and>
    (\<exists>r. moat_is m' (fst (newt_frames (concat bufs))) r \<and>
         (snd (newt_frames (concat bufs)) \<noteq> None \<longrightarrow> snd (newt_frames (concat bufs)) = Some r))"
proof -
  obtain ms rest where fr: "newt_frames (concat bufs) = (ms, rest)" by (cases "newt_frames (concat bufs)")
  show ?thesis by (rule newt_feed_fresh [OF assms fr]) (use fr in \<open>cases rest; auto\<close>)
qed

text \<open>An empty stream, and a store with its first address at 1.\<close>

definition new_moat :: "'s \<Rightarrow> 's moat" where
  "new_moat s = \<lparr>mes_u = mess_head [], ent_u = 0, ext_u = 0, heap = Map.empty, brk = 1, tim_u = False,
                 reading = False, bails = [], ptr_v = s\<rparr>"

lemma newt_cut_free_witness:
  "\<exists>m'. newt_feed (\<lambda>n. replicate n 0) (u3_newt_read 0 (new_moat ())) [[0, 1], [0, 0, 0, 42, 0]] = Some (True, m') \<and>
     moat_is m' [[42]] [0]"
proof -
  have len: "newt_length [0, 1, 0, 0, 0, 42, 0] = 1" by (simp add: newt_length_def)
  have "newt_frames [0, 1, 0, 0, 0, 42, 0] = ([[42]], Some [0])"
    using newt_frames_body(2) [of "[0, 1, 0, 0, 0, 42, 0]" 1 "[]"] len newt_frames_wait [of "[0]"] by simp
  then show ?thesis
    using newt_cut_free [of "\<lambda>n. replicate n 0" "new_moat ()" "[[0, 1], [0, 0, 0, 42, 0]]"]
    by (auto simp: alloc_ok_def new_moat_def)
qed

text \<open>
  C34: What is sent is received. Messages of one byte to \<open>2 ^ 32 - 1\<close> bytes, written by
  \<open>u3_newt_send\<close> one after the other, come out of the decoder in order and complete, however the
  pipe cuts the bytes.
\<close>
theorem newt_delivers:
  assumes "alloc_ok junk" "heap m = Map.empty" "0 < brk m"
    and "\<forall>byt \<in> set msgs. 0 < length byt \<and> length byt < 2 ^ 32"
    and "concat bufs = mojo_out (newt_sent msgs)"
  shows "\<exists>m'. newt_feed junk (u3_newt_read 0 m) bufs = Some (True, m') \<and> moat_is m' msgs []"
proof -
  have fr: "newt_frames (concat bufs) = (msgs, Some [])"
    using newt_frames_sent [OF assms(4)] unfolding assms(5) newt_sent_stream .
  show ?thesis by (rule newt_feed_fresh [OF assms(1-3) fr]) auto
qed

lemma newt_delivers_witness:
  "\<exists>m'. newt_feed (\<lambda>n. replicate n 0) (u3_newt_read 0 (new_moat ())) [mojo_out (newt_sent [[7], [8, 9]])] = Some (True, m') \<and>
     moat_is m' [[7], [8, 9]] []"
  using newt_delivers [of "\<lambda>n. replicate n 0" "new_moat ()" "[[7], [8, 9]]" "[mojo_out (newt_sent [[7], [8, 9]])]"]
  by (simp add: alloc_ok_def new_moat_def)

text \<open>
  The queue is first in, first out, and empties cleanly. Each poke offers the oldest
  message to the callback, and takes it off when the callback accepts; stopping the stream frees
  every block, queued or half read, exactly once.
\<close>
lemma newt_queue_fifo:
  assumes "moat_is m (x # q) r"
  shows "(\<exists>m'. newt_meat_poke pok m = Some m' \<and> ptr_v m' = snd (pok (ptr_v m) (length x) x) \<and>
      moat_is m' (if fst (pok (ptr_v m) (length x) x) then q else x # q) r) \<and>
    (\<exists>m'. u3_newt_moat_stop m = Some m' \<and> heap m' = Map.empty \<and> ext_u m' = 0 \<and> ent_u m' = 0)"
  using poke_spec [OF assms] stop_frees [OF assms] by blast+

lemma newt_queue_fifo_witness:
  "\<exists>m m'. newt_feed (\<lambda>n. replicate n 0) (u3_newt_read 0 (new_moat [])) [mojo_out (newt_sent [[7], [8, 9]])] = Some (True, m) \<and>
     newt_meat_poke (\<lambda>s len byt. (True, s @ [byt])) m = Some m' \<and> ptr_v m' = ptr_v m @ [[7]] \<and> moat_is m' [[8, 9]] []"
proof -
  let ?bufs = "[mojo_out (newt_sent [[7], [8, 9]])]"
  have fr: "newt_frames (concat ?bufs) = ([[7], [8, 9]], Some [])"
    using newt_frames_sent [of "[[7], [8, 9]]"] unfolding newt_sent_stream by simp
  obtain m :: "u8 list list moat" where m: "newt_feed (\<lambda>n. replicate n 0) (u3_newt_read 0 (new_moat [])) ?bufs = Some (True, m)"
      "moat_is m ([7] # [[8, 9]]) []"
    by (rule newt_feed_fresh [OF _ _ _ fr, of "\<lambda>n. replicate n 0" "new_moat []"]) (auto simp: alloc_ok_def new_moat_def)
  from newt_queue_fifo [OF m(2), of "\<lambda>s len byt. (True, s @ [byt])"] m(1) show ?thesis by fastforce
qed

text \<open>
  C35: The length that is sent has eight bytes, the length field four, and so has the length that libuv is
  given for the body. A message of \<open>2 ^ 32\<close> bytes or more is cut silently to its length modulo \<open>2 ^ 32\<close>: the
  other side takes that many bytes for the message and goes on with the messages after it, or, when
  nothing is left of it, refuses the stream. The sender is told of no error.
\<close>
theorem newt_long_message_cut:
  assumes "alloc_ok junk" "heap m = Map.empty" "0 < brk m"
    and "\<forall>byt \<in> set msgs. 0 < length byt \<and> length byt < 2 ^ 32" and long: "2 ^ 32 \<le> length byt" "length byt < 2 ^ 64"
    and "concat bufs = mojo_out (newt_sent (byt # msgs))"
  shows "mojo_bails (newt_sent (byt # msgs)) = [] \<and>
    (\<exists>m'. newt_feed junk (u3_newt_read 0 m) bufs = Some (length byt mod 2 ^ 32 \<noteq> 0, m') \<and>
      (if length byt mod 2 ^ 32 = 0 then \<exists>r. moat_is m' [] r
       else moat_is m' (take (length byt mod 2 ^ 32) byt # msgs) [])) \<and>
    length byt mod 2 ^ 32 < length byt"
proof -
  let ?n = "length byt mod 2 ^ 32" let ?cut = "take ?n byt"
  have lt: "?n < length byt" by (rule less_le_trans [OF mod_less_divisor long(1)]) simp
  have lc: "length ?cut = ?n" "?n < 2 ^ 32" by (simp_all add: min_absorb2)
  have str: "concat bufs = concat (map newt_frame (?cut # msgs))"
    unfolding assms(7) newt_sent_stream using newt_frame_long [OF long(2)] by simp
  have "\<exists>m'. newt_feed junk (u3_newt_read 0 m) bufs = Some (?n \<noteq> 0, m') \<and>
      (if ?n = 0 then \<exists>r. moat_is m' [] r else moat_is m' (?cut # msgs) [])"
  proof (cases "?n = 0")
    case True
    have e: "newt_frame ?cut = newt_header 0" using True by (simp add: newt_frame_def)
    have z: "newt_length (newt_header 0 @ S) = 0" "length (newt_header 0) = 5" for S
      by (simp_all add: newt_header_def newt_length_def)
    have "newt_frames (concat bufs) = ([], None)"
      unfolding str using newt_frames_bad [of "newt_header 0 @ concat (map newt_frame msgs)"] z e by simp
    then obtain m' where "newt_feed junk (u3_newt_read 0 m) bufs = Some (False, m')" "\<exists>r. moat_is m' [] r"
      using newt_feed_fresh [OF assms(1-3), of bufs "[]" None] by auto
    then show ?thesis using True by simp
  next
    case False
    have "newt_frames (concat bufs) = (?cut # msgs, Some [])"
      unfolding str by (rule newt_frames_sent) (use False lc assms(4) in auto)
    then obtain m' where "newt_feed junk (u3_newt_read 0 m) bufs = Some (True, m')" "moat_is m' (?cut # msgs) []"
      using newt_feed_fresh [OF assms(1-3), of bufs "?cut # msgs" "Some []"] by auto
    then show ?thesis using False by simp
  qed
  then show ?thesis using lt newt_sent_quiet [of "byt # msgs"] by blast
qed

lemma newt_long_message_cut_witness:
  "\<exists>m'. newt_feed (\<lambda>n. replicate n 0) (u3_newt_read 0 (new_moat ())) [mojo_out (newt_sent [replicate (2 ^ 32 + 1) 5, [8, 9]])] = Some (True, m') \<and>
     moat_is m' [[5], [8, 9]] []"
  using newt_long_message_cut [of "\<lambda>n. replicate n 0" "new_moat ()" "[[8, 9]]" "replicate (2 ^ 32 + 1) 5"
      "[mojo_out (newt_sent [replicate (2 ^ 32 + 1) 5, [8, 9]])]"]
  by (simp add: alloc_ok_def new_moat_def)

end
