(* ===== verification/Bitset.thy ===== *)
theory Bitset
  imports Prelude "HOL-Library.Monad_Syntax"
begin

text \<open>
  The set of fragment numbers of a request (\<^verbatim>\<open>pkg/vere/io/mesa/bitset.c\<close>): a byte buffer with a
  bit for every number below a length. A result \<open>None\<close> is a failed assertion or an access past the
  buffer.
\<close>

section \<open>Operations\<close>

record bitset =
  len_w :: nat
  buf_y :: "u8 list"

definition bitset_init :: "nat \<Rightarrow> bitset" where
  "bitset_init len = \<lparr>len_w = len, buf_y = replicate (drop_bit 3 len + 1) 0\<rparr>"

definition popcnt :: "u8 \<Rightarrow> nat" where
  "popcnt num = length (filter (bit num) [0..<8])"

definition bitset_wyt :: "bitset \<Rightarrow> nat" where
  "bitset_wyt b = sum_list (map (\<lambda>i. popcnt (buf_y b ! i)) [0..<drop_bit 3 (len_w b)])"

definition bitset_put :: "bitset \<Rightarrow> nat \<Rightarrow> bitset option" where
  "bitset_put b mem =
     (if len_w b < mem then Some b
      else let idx = drop_bit 3 mem; rem = mem AND 7; mas = push_bit rem 1
           in if idx < length (buf_y b)
              then Some (b\<lparr>buf_y := (buf_y b)[idx := buf_y b ! idx OR mas]\<rparr>) else None)"

definition bitset_has :: "bitset \<Rightarrow> nat \<Rightarrow> bool option" where
  "bitset_has b mem =
     (if len_w b < mem then Some False
      else if \<not> mem < len_w b then None
      else let idx = drop_bit 3 mem; rem = mem AND 7
           in if idx < length (buf_y b) then Some (drop_bit rem (buf_y b ! idx) AND 1 = 1) else None)"

definition bitset_del :: "bitset \<Rightarrow> nat \<Rightarrow> bitset option" where
  "bitset_del b mem =
     (if \<not> mem < len_w b then None
      else let idx = drop_bit 3 mem; rem = mem AND 7; mas = NOT (push_bit rem 1)
           in if idx < length (buf_y b)
              then Some (b\<lparr>buf_y := (buf_y b)[idx := buf_y b ! idx AND mas]\<rparr>) else None)"

section \<open>The set it stands for\<close>

definition bitset_wf :: "bitset \<Rightarrow> bool" where
  "bitset_wf b \<longleftrightarrow> length (buf_y b) = len_w b div 8 + 1"

definition bitset_set :: "bitset \<Rightarrow> nat set" where
  "bitset_set b = {i. i < len_w b \<and> bytes_bits (buf_y b) ! i}"

text \<open>What the users of a set of numbers below a bound rely on.\<close>

locale number_set =
  fixes wf :: "'s \<Rightarrow> bool" and elems :: "'s \<Rightarrow> nat set" and bound :: "'s \<Rightarrow> nat"
    and has :: "'s \<Rightarrow> nat \<Rightarrow> bool option" and put :: "'s \<Rightarrow> nat \<Rightarrow> 's option" and del :: "'s \<Rightarrow> nat \<Rightarrow> 's option"
  assumes has_law: "wf s \<Longrightarrow> i < bound s \<Longrightarrow> has s i = Some (i \<in> elems s)"
    and put_law: "wf s \<Longrightarrow> i < bound s \<Longrightarrow>
      \<exists>s'. put s i = Some s' \<and> wf s' \<and> bound s' = bound s \<and> elems s' = insert i (elems s)"
    and del_law: "wf s \<Longrightarrow> i < bound s \<Longrightarrow>
      \<exists>s'. del s i = Some s' \<and> wf s' \<and> bound s' = bound s \<and> elems s' = elems s - {i}"
begin

lemma put_has:
  assumes "wf s" "i < bound s" "j < bound s" "put s i = Some s'"
  shows "has s' j = Some (j = i \<or> j \<in> elems s)"
  using put_law [OF assms(1,2)] assms has_law [of s' j] by auto

lemma del_has:
  assumes "wf s" "i < bound s" "j < bound s" "del s i = Some s'"
  shows "has s' j = Some (j \<noteq> i \<and> j \<in> elems s)"
  using del_law [OF assms(1,2)] assms has_law [of s' j] by auto

text \<open>Putting a list of numbers.\<close>

primrec put_all :: "'s \<Rightarrow> nat list \<Rightarrow> 's option" where
  "put_all s [] = Some s"
| "put_all s (i # is) = do { s' \<leftarrow> put s i; put_all s' is }"

lemma put_all_law:
  "wf s \<Longrightarrow> \<forall>i \<in> set is. i < bound s \<Longrightarrow>
    \<exists>s'. put_all s is = Some s' \<and> wf s' \<and> bound s' = bound s \<and> elems s' = elems s \<union> set is"
proof (induction "is" arbitrary: s)
  case (Cons i "is")
  obtain s1 where s1: "put s i = Some s1" "wf s1" "bound s1 = bound s" "elems s1 = insert i (elems s)"
    using put_law [OF Cons.prems(1), of i] Cons.prems(2) by auto
  then show ?case using Cons.IH [OF s1(2)] Cons.prems(2) by auto
qed simp

end

lemma and_7: "n AND 7 = n mod 8" for n :: nat
  using take_bit_eq_mask [of 3 n] by (simp add: take_bit_eq_mod mask_eq_exp_minus_1)

lemma drop_3: "drop_bit 3 n = n div 8" for n :: nat
  by (simp add: drop_bit_eq_div)

lemma and_one: "w AND 1 = 1 \<longleftrightarrow> bit w 0" for w :: u8
  by (simp add: and_one_eq bit_0 mod_2_eq_odd)

lemma bit_one_byte: "bit ((2 :: u8) ^ (m mod 8)) j \<longleftrightarrow> j = m mod 8"
proof -
  have "m mod 8 < 8" by simp
  then show ?thesis by (auto simp: bit_exp_iff possible_bit_def)
qed

lemma same_bit: "i = m \<longleftrightarrow> i div 8 = m div 8 \<and> i mod 8 = m mod 8" for i m :: nat
  by (metis mult_div_mod_eq)

lemma bits_change:
  assumes m: "m div 8 < length byt"
    and byte: "\<And>j. j < 8 \<Longrightarrow> bit b j \<longleftrightarrow> (if j = m mod 8 then v else bit (byt ! (m div 8)) j)"
  shows "bytes_bits (byt[m div 8 := b]) = (bytes_bits byt)[m := v]"
proof (rule nth_equalityI)
  fix i
  assume "i < length (bytes_bits (byt[m div 8 := b]))"
  then have i: "i < 8 * length byt" by simp
  have "bytes_bits (byt[m div 8 := b]) ! i = bit (byt[m div 8 := b] ! (i div 8)) (i mod 8)"
    by (rule nth_bytes_bits) (use i in simp)
  also have "\<dots> = (if i = m then v else bit (byt ! (i div 8)) (i mod 8))"
    using m byte [of "i mod 8"] same_bit [of i m] by (cases "i div 8 = m div 8") (simp_all add: nth_list_update)
  also have "\<dots> = (bytes_bits byt)[m := v] ! i"
    using i by (simp add: nth_list_update nth_bytes_bits)
  finally show "bytes_bits (byt[m div 8 := b]) ! i = (bytes_bits byt)[m := v] ! i" .
qed simp

lemma bits_put:
  "m div 8 < length byt \<Longrightarrow>
    bytes_bits (byt[m div 8 := byt ! (m div 8) OR 2 ^ (m mod 8)]) = (bytes_bits byt)[m := True]"
  by (rule bits_change) (simp_all only: bit_or_iff bit_one_byte, auto)

lemma bits_del:
  "m div 8 < length byt \<Longrightarrow>
    bytes_bits (byt[m div 8 := byt ! (m div 8) AND NOT (2 ^ (m mod 8))]) = (bytes_bits byt)[m := False]"
  by (rule bits_change) (simp_all only: bit_and_iff bit_not_iff bit_one_byte possible_bit_def, auto)

lemma bitset_has_spec:
  assumes "bitset_wf b" "i < len_w b"
  shows "bitset_has b i = Some (i \<in> bitset_set b)"
proof -
  have k: "i div 8 < length (buf_y b)" using assms div_le_mono [of i "len_w b" 8] by (simp add: bitset_wf_def)
  then have "i < 8 * length (buf_y b)" by simp
  then show ?thesis
    using assms k by (simp add: bitset_has_def bitset_set_def Let_def and_7 drop_3 and_one bit_drop_bit_eq nth_bytes_bits)
qed

interpretation bset: number_set bitset_wf bitset_set len_w bitset_has bitset_put bitset_del
proof
  fix b i
  assume b: "bitset_wf b" and i: "i < len_w b"
  show "bitset_has b i = Some (i \<in> bitset_set b)" by (rule bitset_has_spec [OF b i])
  have k: "i div 8 < length (buf_y b)" using b i div_le_mono [of i "len_w b" 8] by (simp add: bitset_wf_def)
  then have len: "i < 8 * length (buf_y b)" by simp
  show "\<exists>b'. bitset_put b i = Some b' \<and> bitset_wf b' \<and> len_w b' = len_w b \<and> bitset_set b' = insert i (bitset_set b)"
    using b i k len by (auto simp: bitset_put_def Let_def and_7 drop_3 bitset_wf_def bitset_set_def bits_put nth_list_update)
  show "\<exists>b'. bitset_del b i = Some b' \<and> bitset_wf b' \<and> len_w b' = len_w b \<and> bitset_set b' = bitset_set b - {i}"
    using b i k len by (auto simp: bitset_del_def Let_def and_7 drop_3 bitset_wf_def bitset_set_def bits_del nth_list_update)
qed

lemma bitset_init_spec: "bitset_wf (bitset_init len)" "bitset_set (bitset_init len) = {}"
proof -
  have "bytes_bits (replicate n 0) = replicate (8 * n) False" for n
    by (rule nth_equalityI) (simp_all add: nth_bytes_bits)
  from this [of "Suc (len div 8)"] show "bitset_wf (bitset_init len)" "bitset_set (bitset_init len) = {}"
    by (auto simp: bitset_init_def bitset_wf_def bitset_set_def drop_3 simp del: replicate_Suc)
qed

section \<open>Counting\<close>

lemma popcnt_sum:
  "n \<le> length byt \<Longrightarrow> sum_list (map (\<lambda>i. popcnt (byt ! i)) [0..<n]) = length (filter (\<lambda>i. bytes_bits byt ! i) [0..<8 * n])"
proof (induction n)
  case (Suc n)
  have up: "[0..<8 * Suc n] = [0..<8 * n] @ map (\<lambda>j. j + 8 * n) [0..<8]"
    using upt_add_eq_append [of 0 "8 * n" 8] by (simp add: map_add_upt add.commute)
  have "filter (\<lambda>i. bytes_bits byt ! i) (map (\<lambda>j. j + 8 * n) [0..<8]) = map (\<lambda>j. j + 8 * n) (filter (bit (byt ! n)) [0..<8])"
    unfolding filter_map o_def
    by (rule arg_cong [of _ _ "map _"], rule filter_cong) (use Suc.prems in \<open>auto simp: nth_bytes_bits\<close>)
  then show ?case using Suc by (simp add: up popcnt_def del: mult_Suc_right)
qed simp

lemma bitset_wyt_spec:
  assumes "bitset_wf b"
  shows "bitset_wyt b = card (bitset_set b \<inter> {..<8 * (len_w b div 8)})"
proof -
  let ?n = "len_w b div 8"
  have "bitset_wyt b = length (filter (\<lambda>i. bytes_bits (buf_y b) ! i) [0..<8 * ?n])"
    unfolding bitset_wyt_def drop_3 by (rule popcnt_sum) (use assms in \<open>simp add: bitset_wf_def\<close>)
  also have "\<dots> = card (set (filter (\<lambda>i. bytes_bits (buf_y b) ! i) [0..<8 * ?n]))"
    by (rule distinct_card [symmetric]) simp
  also have "set (filter (\<lambda>i. bytes_bits (buf_y b) ! i) [0..<8 * ?n]) = bitset_set b \<inter> {..<8 * ?n}"
    using times_div_less_eq_dividend [of 8 "len_w b"] by (auto simp: bitset_set_def)
  finally show ?thesis .
qed

section \<open>Properties\<close>

text \<open>
  C36: A bitset is a set of numbers below its length: a put adds exactly its number, a delete
  removes exactly its number, no other member changes, and none of the operations leaves the
  buffer. A new bitset is empty.
\<close>
theorem bitset_is_set:
  assumes "bitset_wf b" "i < len_w b" "j < len_w b"
  shows "(\<exists>b'. bitset_put b i = Some b' \<and> bitset_wf b' \<and> bitset_has b' j = Some (j = i \<or> bitset_has b j = Some True)) \<and>
    (\<exists>b'. bitset_del b i = Some b' \<and> bitset_wf b' \<and> bitset_has b' j = Some (j \<noteq> i \<and> bitset_has b j = Some True)) \<and>
    bitset_wf (bitset_init n) \<and> (j < n \<longrightarrow> bitset_has (bitset_init n) j = Some False)"
proof (intro conjI impI)
  have j: "bitset_has b j = Some (j \<in> bitset_set b)" by (rule bset.has_law [OF assms(1,3)])
  show "\<exists>b'. bitset_put b i = Some b' \<and> bitset_wf b' \<and> bitset_has b' j = Some (j = i \<or> bitset_has b j = Some True)"
    using bset.put_law [OF assms(1,2)] bset.put_has [OF assms] j by fastforce
  show "\<exists>b'. bitset_del b i = Some b' \<and> bitset_wf b' \<and> bitset_has b' j = Some (j \<noteq> i \<and> bitset_has b j = Some True)"
    using bset.del_law [OF assms(1,2)] bset.del_has [OF assms] j by fastforce
  show "bitset_wf (bitset_init n)" by (rule bitset_init_spec)
  show "bitset_has (bitset_init n) j = Some False" if "j < n"
    using bset.has_law [OF bitset_init_spec(1), of j n] bitset_init_spec(2) [of n] that by (simp add: bitset_init_def)
qed

lemma bitset_is_set_witness:
  "\<exists>b. bitset_put (bitset_init 20) 9 = Some b \<and> bitset_has b 9 = Some True \<and> bitset_has b 10 = Some False"
proof -
  have w: "bitset_wf (bitset_init 20)" "len_w (bitset_init 20) = 20"
    using bitset_init_spec(1) by (blast, simp add: bitset_init_def)
  from bitset_is_set [of "bitset_init 20" 9 9 20] bitset_is_set [of "bitset_init 20" 9 10 20] w
  show ?thesis by auto
qed

text \<open>
  The edges of a bitset. The population count leaves out the last, partly used byte, so
  that members from there on are not counted. At the length itself, which the guards of put and has
  let pass, a put writes a bit that no query sees and a query fails its assertion; beyond it, both
  are turned away.
\<close>
lemma bitset_edges:
  assumes "bitset_wf b"
  shows "bitset_wyt b = card (bitset_set b \<inter> {..<8 * (len_w b div 8)}) \<and>
    (\<exists>b'. bitset_put b (len_w b) = Some b' \<and> bitset_wf b' \<and> bitset_set b' = bitset_set b) \<and> bitset_has b (len_w b) = None \<and>
    (len_w b < i \<longrightarrow> bitset_put b i = Some b \<and> bitset_has b i = Some False)"
proof (intro conjI impI)
  show "bitset_wyt b = card (bitset_set b \<inter> {..<8 * (len_w b div 8)})" by (rule bitset_wyt_spec [OF assms])
  show "\<exists>b'. bitset_put b (len_w b) = Some b' \<and> bitset_wf b' \<and> bitset_set b' = bitset_set b"
    using assms by (auto simp: bitset_put_def Let_def and_7 drop_3 bitset_wf_def bitset_set_def bits_put)
  show "bitset_has b (len_w b) = None" by (simp add: bitset_has_def)
qed (simp_all add: bitset_put_def bitset_has_def)

lemma bitset_edges_witness:
  "\<exists>b. bitset_put (bitset_init 5) 2 = Some b \<and> bitset_has b 2 = Some True \<and> bitset_wyt b = 0 \<and> bitset_has b 5 = None"
proof -
  have w: "bitset_wf (bitset_init 5)" "len_w (bitset_init 5) = 5"
    using bitset_init_spec(1) by (blast, simp add: bitset_init_def)
  obtain b where b: "bitset_put (bitset_init 5) 2 = Some b" "bitset_wf b" "len_w b = 5"
      "bitset_set b = insert 2 (bitset_set (bitset_init 5))"
    using bset.put_law [OF w(1), of 2] w(2) by auto
  have "bitset_has b 2 = Some True" using bset.has_law [OF b(2), of 2] b(3,4) by simp
  then show ?thesis using bitset_edges [OF b(2)] b(1,3) by auto
qed

end
