(* ===== verification/Lss.thy ===== *)
theory Lss
  imports Prelude "HOL-Library.Monad_Syntax"
begin

text \<open>
  Lockstep streaming (\<^verbatim>\<open>pkg/vere/io/lss.c\<close>): the Merkle tree over the leaves of 1024 bytes of a
  message. A builder takes the leaves one by one and makes the initial proof and the pairs of hashes
  that go with the leaves; a verifier checks a leaf as soon as it has arrived.

  BLAKE3 is the library's; its two functions are parameters. Counters and lengths have 32 bits. A
  result \<open>None\<close> is an access outside an array, or a shift by the width of the word.
\<close>

section \<open>Hashes\<close>

type_synonym lss_hash = "u8 list"
type_synonym lss_pair = "lss_hash \<times> lss_hash"

text \<open>
  \<open>b3_output leaf cv counter\<close> is \<open>urcrypt_blake3_chunk_output\<close>, whose results are the chaining
  value, the last block and its length, the counter and the flags; \<open>b3_compress\<close> is
  \<open>urcrypt_blake3_compress\<close>.
\<close>

record blake3 =
  b3_output :: "u8 list \<Rightarrow> u8 list \<Rightarrow> u64 \<Rightarrow> u8 list \<times> u8 list \<times> u8 \<times> u64 \<times> u8"
  b3_compress :: "u8 list \<Rightarrow> u8 list \<Rightarrow> u8 \<Rightarrow> u64 \<Rightarrow> u8 \<Rightarrow> u8 list"

definition IV :: "u8 list" where
  "IV = [103, 230, 9, 106, 133, 174, 103, 187, 114, 243, 110, 60, 58, 245, 79, 165, 127, 82, 14, 81,
         140, 104, 5, 155, 171, 217, 131, 31, 25, 205, 224, 91]"

definition leaf_hash :: "blake3 \<Rightarrow> u8 list \<Rightarrow> u64 \<Rightarrow> lss_hash" where
  "leaf_hash B leaf counter =
     (let (cv, block, block_len, counter1, flags) = b3_output B leaf IV counter
      in take 32 (b3_compress B cv block block_len counter1 flags))"

definition parent_hash :: "blake3 \<Rightarrow> lss_hash \<Rightarrow> lss_hash \<Rightarrow> lss_hash" where
  "parent_hash B left right = take 32 (b3_compress B IV (left @ right) 64 0 (push_bit 2 1))"

section \<open>Trees\<close>

definition w32 :: "nat \<Rightarrow> nat" where
  "w32 n = n mod 2 ^ 32"

definition dec32 :: "nat \<Rightarrow> nat" where
  "dec32 n = w32 (n + (2 ^ 32 - 1))"

text \<open>The number of trailing zeros of a number that is not zero.\<close>

fun tz_w :: "nat \<Rightarrow> nat" where
  "tz_w n = (if n = 0 \<or> odd n then 0 else Suc (tz_w (n div 2)))"

declare tz_w.simps [simp del]

partial_function (option) subtree_root :: "blake3 \<Rightarrow> u8 list \<Rightarrow> u64 \<Rightarrow> lss_hash option" where
  "subtree_root B leaf counter =
     (if length leaf \<le> 1024 then Some (leaf_hash B leaf counter)
      else let leaves = w32 (length leaf + 1023) div 1024;
               mid = 2 ^ (met0 (dec32 leaves) - 1);
               len = w32 (mid * 1024)
           in do { l \<leftarrow> subtree_root B (take len leaf) counter;
                   r \<leftarrow> subtree_root B (drop len leaf) (counter + of_nat mid);
                   Some (parent_hash B l r) })"

declare subtree_root.simps [code]

definition lss_proof_size :: "nat \<Rightarrow> nat" where
  "lss_proof_size leaves = 1 + met0 (dec32 leaves)"

definition lss_expect_pair :: "nat \<Rightarrow> nat \<Rightarrow> bool" where
  "lss_expect_pair leaves i \<longleftrightarrow> i \<noteq> 0 \<and> w32 (i + 2 ^ (1 + tz_w i)) < leaves"

section \<open>The builder\<close>

record lss_builder =
  trees :: "lss_hash list"
  leaves :: nat
  counter :: nat
  proof_a :: "lss_hash list"
  pairs :: "lss_pair list"

definition set_at :: "'a list \<Rightarrow> nat \<Rightarrow> 'a \<Rightarrow> 'a list option" where
  "set_at xs i x = (if i < length xs then Some (xs[i := x]) else None)"

definition get_at :: "'a list \<Rightarrow> nat \<Rightarrow> 'a option" where
  "get_at xs i = (if i < length xs then Some (xs ! i) else None)"

definition lss_builder_init :: "nat \<Rightarrow> lss_hash list \<Rightarrow> lss_builder" where
  "lss_builder_init n junk =
     \<lparr>trees = junk, leaves = n, counter = 0,
      proof_a = replicate (lss_proof_size n) (replicate 32 0),
      pairs = replicate n (replicate 32 0, replicate 32 0)\<rparr>"

definition lss_builder_merge :: "lss_builder \<Rightarrow> nat \<Rightarrow> lss_hash \<Rightarrow> lss_hash \<Rightarrow> lss_builder option" where
  "lss_builder_merge b height l r =
     (if 31 \<le> height then None
      else if drop_bit (height + 1) (counter b) \<noteq> 0 then
        do { ps \<leftarrow> set_at (pairs b) (push_bit (height + 1) (drop_bit (height + 1) (counter b)) - 2 ^ height) (l, r);
             Some (b\<lparr>pairs := ps\<rparr>) }
      else
        do { p1 \<leftarrow> (if height = 0 then set_at (proof_a b) 0 l else Some (proof_a b));
             p2 \<leftarrow> set_at p1 (height + 1) r;
             Some (b\<lparr>proof_a := p2\<rparr>) })"

function ingest_loop :: "blake3 \<Rightarrow> lss_builder \<Rightarrow> nat \<Rightarrow> lss_hash \<Rightarrow> lss_builder option" where
  "ingest_loop B b height h =
     (if height < 32 \<and> bit (counter b) height then
        do { t \<leftarrow> get_at (trees b) height;
             b1 \<leftarrow> lss_builder_merge b height t h;
             ingest_loop B b1 (Suc height) (parent_hash B t h) }
      else do { ts \<leftarrow> set_at (trees b) height h;
                Some (b\<lparr>trees := ts, counter := w32 (counter b + 1)\<rparr>) })"
  by auto
termination by (relation "measure (\<lambda>(B, b, height, h). 32 - height)") auto

declare ingest_loop.simps [simp del]

definition lss_builder_ingest :: "blake3 \<Rightarrow> lss_builder \<Rightarrow> u8 list \<Rightarrow> lss_builder option" where
  "lss_builder_ingest B b leaf = ingest_loop B b 0 (leaf_hash B leaf (of_nat (counter b)))"

primrec transceive_loop :: "blake3 \<Rightarrow> nat \<Rightarrow> lss_builder \<Rightarrow> u8 list \<Rightarrow> lss_builder option" where
  "transceive_loop B 0 b jumbo = Some b"
| "transceive_loop B (Suc k) b jumbo =
     (if jumbo = [] then Some b
      else do { b1 \<leftarrow> lss_builder_ingest B b (take 1024 jumbo);
                transceive_loop B k b1 (drop 1024 jumbo) })"

definition lss_builder_transceive ::
  "blake3 \<Rightarrow> lss_builder \<Rightarrow> nat \<Rightarrow> u8 list \<Rightarrow> lss_pair option \<Rightarrow> (nat \<times> lss_builder) option" where
  "lss_builder_transceive B b steps jumbo pair =
     do { b1 \<leftarrow> (case pair of
             None \<Rightarrow> Some b
           | Some p \<Rightarrow> do { ps \<leftarrow> set_at (pairs b) (counter b) p; Some (b\<lparr>pairs := ps\<rparr>) });
          b2 \<leftarrow> transceive_loop B (2 ^ steps) b1 jumbo;
          Some (min (w32 (counter b2 + (2 ^ 32 - 2 ^ steps div 2))) (leaves b2), b2) }"

function finalize_loop :: "blake3 \<Rightarrow> lss_builder \<Rightarrow> nat \<Rightarrow> lss_hash \<Rightarrow> lss_builder option" where
  "finalize_loop B b height h =
     (if height < 32 then
        if bit (counter b) height then
          do { t \<leftarrow> get_at (trees b) height;
               b1 \<leftarrow> lss_builder_merge b height t h;
               finalize_loop B b1 (Suc height) (parent_hash B t h) }
        else finalize_loop B b (Suc height) h
      else Some b)"
  by auto
termination by (relation "measure (\<lambda>(B, b, height, h). 32 - height)") auto

declare finalize_loop.simps [simp del]

definition lss_builder_finalize :: "blake3 \<Rightarrow> lss_builder \<Rightarrow> (lss_hash list \<times> lss_builder) option" where
  "lss_builder_finalize B b =
     do { b1 \<leftarrow> (if counter b \<noteq> 0 then
             do { h \<leftarrow> get_at (trees b) (tz_w (counter b)); finalize_loop B b (Suc (tz_w (counter b))) h }
           else Some b);
          Some (proof_a b1, b1) }"

definition lss_builder_pair :: "lss_builder \<Rightarrow> nat \<Rightarrow> lss_pair option option" where
  "lss_builder_pair b i =
     (if lss_expect_pair (leaves b) i then map_option Some (get_at (pairs b) i) else Some None)"

section \<open>Proofs\<close>

text \<open>Writing the parents over the proof, and the rest of the array from \<open>steps\<close> on.\<close>

primrec transceive_proof_loop :: "blake3 \<Rightarrow> nat \<Rightarrow> nat \<Rightarrow> lss_hash list \<Rightarrow> lss_hash list option" where
  "transceive_proof_loop B 0 i proof0 = Some proof0"
| "transceive_proof_loop B (Suc k) i proof0 =
     do { l \<leftarrow> get_at proof0 i; r \<leftarrow> get_at proof0 (i + 1);
          p \<leftarrow> set_at proof0 (i + 1) (parent_hash B l r);
          transceive_proof_loop B k (i + 1) p }"

definition lss_transceive_proof :: "blake3 \<Rightarrow> lss_hash list \<Rightarrow> nat \<Rightarrow> lss_hash list option" where
  "lss_transceive_proof B proof0 steps = map_option (drop steps) (transceive_proof_loop B steps 0 proof0)"

definition lss_complete_inline_proof :: "blake3 \<Rightarrow> lss_hash list \<Rightarrow> u8 list \<Rightarrow> lss_hash list option" where
  "lss_complete_inline_proof B proof0 leaf = do { h \<leftarrow> subtree_root B leaf 0; set_at proof0 0 h }"

definition lss_root :: "blake3 \<Rightarrow> lss_hash list \<Rightarrow> nat \<Rightarrow> lss_hash option" where
  "lss_root B proof0 proof_w =
     do { r \<leftarrow> get_at proof0 0;
          if proof_w \<le> length proof0
          then Some (foldl (parent_hash B) r (take (proof_w - 1) (drop 1 proof0))) else None }"

section \<open>The verifier\<close>

record lss_verifier =
  ver_steps :: nat
  ver_leaves :: nat
  ver_counter :: nat
  ver_pairs :: "lss_pair list"

text \<open>The new block for the pairs holds \<open>junk\<close>.\<close>

primrec verifier_fill :: "nat \<Rightarrow> nat \<Rightarrow> lss_hash list \<Rightarrow> lss_pair list \<Rightarrow> lss_pair list option" where
  "verifier_fill 0 i proof0 ps = Some ps"
| "verifier_fill (Suc k) i proof0 ps =
     do { p \<leftarrow> get_at proof0 i; q \<leftarrow> get_at ps (i - 1); ps1 \<leftarrow> set_at ps (i - 1) (fst q, p);
          verifier_fill k (i + 1) proof0 ps1 }"

definition lss_verifier_init :: "nat \<Rightarrow> nat \<Rightarrow> lss_hash list \<Rightarrow> (nat \<Rightarrow> lss_pair list) \<Rightarrow> lss_verifier option" where
  "lss_verifier_init steps n proof0 junk =
     do { p \<leftarrow> get_at proof0 0;
          q \<leftarrow> get_at (junk (met0 n)) 0;
          ps \<leftarrow> set_at (junk (met0 n)) 0 (p, snd q);
          ps1 \<leftarrow> verifier_fill (lss_proof_size n - 1) 1 proof0 ps;
          Some \<lparr>ver_steps = steps, ver_leaves = n, ver_counter = 0, ver_pairs = ps1\<rparr> }"

text \<open>The number of ones at the low end.\<close>

definition ones_w :: "nat \<Rightarrow> nat" where
  "ones_w n = tz_w (2 ^ 32 - 1 - n)"

definition lss_verifier_check_hash :: "lss_verifier \<Rightarrow> nat \<Rightarrow> nat \<Rightarrow> lss_hash \<Rightarrow> bool option" where
  "lss_verifier_check_hash v i height h =
     (let top = dec32 (ver_leaves v); odd = 2 ^ met0 top - ver_leaves v; k = met0 (i XOR top);
          height1 = height + ones_w (drop_bit height (push_bit k (drop_bit k odd)));
          parity = bit i height1
      in do { q \<leftarrow> get_at (ver_pairs v) height1; Some ((if parity then snd q else fst q) = h) })"

definition lss_verifier_ingest :: "blake3 \<Rightarrow> lss_verifier \<Rightarrow> u8 list \<Rightarrow> lss_pair option \<Rightarrow> (bool \<times> lss_verifier) option" where
  "lss_verifier_ingest B v leaf pair =
     do { h \<leftarrow> subtree_root B leaf (of_nat (w32 (push_bit (ver_steps v) (ver_counter v))));
          ok \<leftarrow> lss_verifier_check_hash v (ver_counter v) 0 h;
          if \<not> ok then Some (False, v)
          else if (pair \<noteq> None) \<noteq> lss_expect_pair (ver_leaves v) (ver_counter v) then Some (False, v)
          else case pair of
            None \<Rightarrow> Some (True, v\<lparr>ver_counter := w32 (ver_counter v + 1)\<rparr>)
          | Some p \<Rightarrow>
              let height = tz_w (ver_counter v); start = w32 (ver_counter v + 2 ^ height)
              in do { ok1 \<leftarrow> lss_verifier_check_hash v start (height + 1) (parent_hash B (fst p) (snd p));
                      if \<not> ok1 then Some (False, v)
                      else do { ps \<leftarrow> set_at (ver_pairs v) height p;
                                Some (True, v\<lparr>ver_pairs := ps, ver_counter := w32 (ver_counter v + 1)\<rparr>) } } }"

end
