(* ===== verification/LssBuild.thy ===== *)
theory LssBuild
  imports Lss
begin

text \<open>
  What the builder of \<^verbatim>\<open>lss.c\<close> computes: the tree over a list of hashes, its blocks, and the
  invariant of the builder. After every leaf the array of trees holds the perfect trees of the
  binary counter, and every merge that is over is recorded as a pair or a part of the proof.
\<close>

section \<open>The tree of a list of hashes\<close>

lemma mid_bounds:
  assumes "2 \<le> n"
  shows "0 < (2::nat) ^ (met0 (n - 1) - 1)" "2 ^ (met0 (n - 1) - 1) < n" "n \<le> 2 * 2 ^ (met0 (n - 1) - 1)"
proof -
  obtain k where k: "met0 (n - 1) = Suc k" using assms by (cases "met0 (n - 1)") auto
  have "2 ^ k \<le> n - 1" by (rule exp_le_of_met0 [OF k])
  then show "2 ^ (met0 (n - 1) - 1) < n" using k assms by simp
  have "n - 1 < 2 ^ Suc k" using less_exp_met0 [of "n - 1"] k by simp
  then show "n \<le> 2 * 2 ^ (met0 (n - 1) - 1)" using k by simp
qed simp

function mroot :: "('h \<Rightarrow> 'h \<Rightarrow> 'h) \<Rightarrow> 'h list \<Rightarrow> 'h" where
  "mroot P hs =
     (if length hs \<le> 1 then hd hs
      else P (mroot P (take (2 ^ (met0 (length hs - 1) - 1)) hs)) (mroot P (drop (2 ^ (met0 (length hs - 1) - 1)) hs)))"
  by auto

termination
proof (relation "measure (\<lambda>(P, hs). length hs)")
  fix P :: "'h \<Rightarrow> 'h \<Rightarrow> 'h" and hs :: "'h list"
  assume a: "\<not> length hs \<le> 1"
  then show "((P, take (2 ^ (met0 (length hs - 1) - 1)) hs), (P, hs)) \<in> measure (\<lambda>(P, hs). length hs)"
    using mid_bounds(2) [of "length hs"] by (simp add: min_def)
  show "((P, drop (2 ^ (met0 (length hs - 1) - 1)) hs), (P, hs)) \<in> measure (\<lambda>(P, hs). length hs)"
    using a by (auto intro!: diff_less)
qed simp

declare mroot.simps [simp del]

lemma mroot_single [simp]: "mroot P [x] = x"
  by (simp add: mroot.simps)

lemma mid_unique: "2 ^ k < n \<Longrightarrow> n \<le> 2 ^ Suc k \<Longrightarrow> met0 (n - 1) - 1 = k"
proof -
  assume a: "2 ^ k < n" "n \<le> 2 ^ Suc k"
  have "\<not> met0 (n - 1) \<le> k" "met0 (n - 1) \<le> Suc k" unfolding met0_le_iff using a by auto
  then show ?thesis by simp
qed

lemma mroot_split: "2 ^ k < length hs \<Longrightarrow> length hs \<le> 2 ^ Suc k \<Longrightarrow> mroot P hs = P (mroot P (take (2 ^ k) hs)) (mroot P (drop (2 ^ k) hs))"
  using mid_unique [of k "length hs"] less_exp [of k] by (subst mroot.simps) (auto simp: not_le)

text \<open>The hash of the leaves from \<open>a\<close> to before \<open>b\<close>.\<close>

definition span :: "('h \<Rightarrow> 'h \<Rightarrow> 'h) \<Rightarrow> 'h list \<Rightarrow> nat \<Rightarrow> nat \<Rightarrow> 'h" where
  "span P hs a b = mroot P (take (b - a) (drop a hs))"

lemma span_leaf [simp]: "a < length hs \<Longrightarrow> span P hs a (Suc a) = hs ! a"
  by (simp add: span_def take_Suc_conv_app_nth)

lemma span_all: "span P hs 0 (length hs) = mroot P hs"
  by (simp add: span_def)

lemma span_split:
  assumes "a + 2 ^ k < b" "b \<le> a + 2 ^ Suc k" "b \<le> length hs"
  shows "span P hs a b = P (span P hs a (a + 2 ^ k)) (span P hs (a + 2 ^ k) b)"
proof -
  have len: "length (take (b - a) (drop a hs)) = b - a" using assms by simp
  have "span P hs a b = P (mroot P (take (2 ^ k) (take (b - a) (drop a hs)))) (mroot P (drop (2 ^ k) (take (b - a) (drop a hs))))"
    unfolding span_def by (rule mroot_split) (use assms len in auto)
  moreover have "take (2 ^ k) (take (b - a) (drop a hs)) = take (2 ^ k) (drop a hs)" using assms(1) by (simp add: min_def)
  moreover have "drop (2 ^ k) (take (b - a) (drop a hs)) = take (b - (a + 2 ^ k)) (drop (a + 2 ^ k) hs)"
    by (simp add: drop_take diff_diff_left add.commute)
  ultimately show ?thesis unfolding span_def by simp
qed

section \<open>Leaves of a message\<close>

definition leaf_count :: "u8 list \<Rightarrow> nat" where
  "leaf_count data = max 1 ((length data + 1023) div 1024)"

definition leaf_hashes :: "blake3 \<Rightarrow> u8 list \<Rightarrow> u64 \<Rightarrow> lss_hash list" where
  "leaf_hashes B data c = map (\<lambda>i. leaf_hash B (take 1024 (drop (1024 * i) data)) (c + of_nat i)) [0..<leaf_count data]"

lemma length_leaf_hashes [simp]: "length (leaf_hashes B data c) = leaf_count data"
  by (simp add: leaf_hashes_def)

lemma leaf_count_pos [simp]: "0 < leaf_count data"
  by (simp add: leaf_count_def)

lemma nth_leaf_hashes: "i < leaf_count data \<Longrightarrow> leaf_hashes B data c ! i = leaf_hash B (take 1024 (drop (1024 * i) data)) (c + of_nat i)"
  by (simp add: leaf_hashes_def)

lemma take_leaf_hashes:
  assumes "0 < m" "m < leaf_count data"
  shows "take m (leaf_hashes B data c) = leaf_hashes B (take (1024 * m) data) c"
proof -
  have n: "1024 * m < length data" using assms by (auto simp: leaf_count_def max_def split: if_splits)
  have "leaf_count (take (1024 * m) data) = m" using n assms(1) by (simp add: leaf_count_def)
  moreover have "take 1024 (drop (1024 * i) data) = take 1024 (drop (1024 * i) (take (1024 * m) data))" if "i < m" for i
  proof -
    have "1024 \<le> 1024 * m - 1024 * i" using that by (simp add: diff_mult_distrib2 [symmetric])
    then show ?thesis by (simp add: drop_take min_absorb1)
  qed
  ultimately show ?thesis using assms by (intro nth_equalityI) (simp_all add: nth_leaf_hashes)
qed

lemma drop_leaf_hashes:
  assumes "m < leaf_count data"
  shows "drop m (leaf_hashes B data c) = leaf_hashes B (drop (1024 * m) data) (c + of_nat m)"
proof -
  have "leaf_count (drop (1024 * m) data) = leaf_count data - m"
    using assms by (auto simp: leaf_count_def max_def split: if_splits)
  then show ?thesis using assms
    by (intro nth_equalityI) (simp_all add: nth_leaf_hashes algebra_simps)
qed

lemma subtree_root_eq:
  "length data + 1023 < 2 ^ 32 \<Longrightarrow> subtree_root B data c = Some (mroot (parent_hash B) (leaf_hashes B data c))"
proof (induction "length data" arbitrary: data c rule: less_induct)
  case less
  show ?case
  proof (cases "length data \<le> 1024")
    case True
    then have "leaf_count data = 1" by (simp add: leaf_count_def)
    then show ?thesis using True by (subst subtree_root.simps) (simp add: leaf_hashes_def)
  next
    case False
    let ?n = "leaf_count data" let ?m = "2 ^ (met0 (?n - 1) - 1) :: nat"
    have n: "?n = (length data + 1023) div 1024" "2 \<le> ?n" using False by (simp_all add: leaf_count_def)
    have w: "w32 (length data + 1023) div 1024 = ?n" using less.prems n by (simp add: w32_def)
    have d: "dec32 ?n = ?n - 1" using less.prems n by (simp add: dec32_def w32_def mod_if)
    note mb = mid_bounds [OF n(2)]
    have m: "1024 * ?m < length data" using mb(2) n(1) by linarith
    then have l: "w32 (?m * 1024) = 1024 * ?m" using less.prems by (simp add: w32_def mult.commute)
    have e: "subtree_root B data c = do { l \<leftarrow> subtree_root B (take (1024 * ?m) data) c;
        r \<leftarrow> subtree_root B (drop (1024 * ?m) data) (c + of_nat ?m); Some (parent_hash B l r) }"
      using False by (subst subtree_root.simps) (simp only: Let_def if_False w d l)
    have "subtree_root B (take (1024 * ?m) data) c = Some (mroot (parent_hash B) (leaf_hashes B (take (1024 * ?m) data) c))"
      by (rule less.hyps) (use m less.prems in auto)
    moreover have "subtree_root B (drop (1024 * ?m) data) (c + of_nat ?m) =
        Some (mroot (parent_hash B) (leaf_hashes B (drop (1024 * ?m) data) (c + of_nat ?m)))"
      by (rule less.hyps) (use m mb(1) less.prems in \<open>auto intro!: diff_less\<close>)
    moreover have "mroot (parent_hash B) (leaf_hashes B data c) =
        parent_hash B (mroot (parent_hash B) (take ?m (leaf_hashes B data c))) (mroot (parent_hash B) (drop ?m (leaf_hashes B data c)))"
      using n(2) by (subst mroot.simps) simp
    ultimately show ?thesis
      unfolding e using take_leaf_hashes [OF mb(1,2)] drop_leaf_hashes [OF mb(2)] by simp
  qed
qed

section \<open>Trailing zeros\<close>

lemma tz_w_spec: "0 < n \<Longrightarrow> 2 ^ tz_w n dvd n \<and> bit n (tz_w n)"
proof (induction n rule: tz_w.induct)
  case (1 n)
  show ?case
  proof (cases "odd n")
    case True
    then show ?thesis by (simp add: tz_w.simps bit_0)
  next
    case False
    then obtain k where k: "n = 2 * k" by blast
    have "tz_w (2 * k) = Suc (tz_w k)" using 1(2) k by (subst tz_w.simps) simp
    moreover have "2 ^ tz_w k dvd k \<and> bit k (tz_w k)" using 1 False k by auto
    ultimately show ?thesis by (simp add: k bit_Suc)
  qed
qed

lemma tz_w_mult: "tz_w ((2 * m + 1) * 2 ^ k) = k"
proof (induction k)
  case (Suc k)
  have e: "(2 * m + 1) * 2 ^ Suc k = 2 * ((2 * m + 1) * 2 ^ k)" by simp
  have t: "tz_w (2 * x) = Suc (tz_w x)" if "0 < x" for x using that by (subst tz_w.simps) simp
  have "tz_w ((2 * m + 1) * 2 ^ Suc k) = Suc (tz_w ((2 * m + 1) * 2 ^ k))" unfolding e by (rule t) simp
  then show ?case by (simp only: Suc)
qed (simp add: tz_w.simps)

lemma bit_odd_div: "bit n k \<longleftrightarrow> odd (n div 2 ^ k)" for n :: nat
  by (simp add: bit_iff_odd)

lemma dvd_not_bit: "2 ^ Suc h dvd n \<Longrightarrow> \<not> bit n h" for n :: nat
proof -
  assume "2 ^ Suc h dvd n"
  then obtain k where "n = 2 ^ h * (2 * k)" by (auto simp: mult.assoc mult.left_commute elim: dvdE)
  then show ?thesis by (simp add: bit_odd_div)
qed

lemma div_exp_Suc: "n div 2 ^ Suc h = n div 2 ^ h div (2::nat)"
  by (simp add: power_Suc2 div_mult2_eq del: power_Suc)

lemma carry_one:
  assumes "2 ^ h dvd Suc n" "bit n h"
  shows "2 ^ Suc h dvd Suc n" "Suc n = (n div 2 ^ Suc h + 1) * 2 ^ Suc h"
proof -
  obtain q where q: "Suc n = 2 ^ h * q" using assms(1) by blast
  then obtain p where p: "q = Suc p" by (cases q) auto
  have "Suc n = p * 2 ^ h + 2 ^ h" using q p by simp
  moreover have "(1::nat) \<le> 2 ^ h" by simp
  ultimately have "p * 2 ^ h \<le> n" "n < Suc p * 2 ^ h" by (linarith, simp)
  then have d: "n div 2 ^ h = p" by (intro div_nat_eqI) (simp_all only: mult.commute)
  then have "odd p" using assms(2) by (simp add: bit_odd_div)
  then obtain r where r: "p = 2 * r + 1" by (rule oddE)
  have e: "Suc n = (r + 1) * 2 ^ Suc h" using q p r by (simp add: algebra_simps)
  have "n div 2 ^ Suc h = r" unfolding div_exp_Suc using d r by simp
  then show "Suc n = (n div 2 ^ Suc h + 1) * 2 ^ Suc h" using e by simp
  then show "2 ^ Suc h dvd Suc n" by (metis dvd_triv_right)
qed

lemma carry_zero:
  assumes "2 ^ h dvd Suc n" "\<not> bit n h"
  shows "bit (Suc n) h" "h < j \<Longrightarrow> Suc n div 2 ^ j = n div 2 ^ j" "(n div 2 ^ Suc h) * 2 ^ Suc h = Suc n - 2 ^ h"
proof -
  obtain q where q: "Suc n = 2 ^ h * q" using assms(1) by blast
  then obtain p where p: "q = Suc p" by (cases q) auto
  have "Suc n = p * 2 ^ h + 2 ^ h" using q p by simp
  moreover have "(1::nat) \<le> 2 ^ h" by simp
  ultimately have "p * 2 ^ h \<le> n" "n < Suc p * 2 ^ h" by (linarith, simp)
  then have d: "n div 2 ^ h = p" by (intro div_nat_eqI) (simp_all only: mult.commute)
  then have "even p" using assms(2) by (simp add: bit_odd_div)
  then obtain r where r: "p = 2 * r" by blast
  have d1: "Suc n div 2 ^ h = Suc p" using q p by simp
  show "bit (Suc n) h" using d1 \<open>even p\<close> by (simp add: bit_odd_div)
  have d2: "n div 2 ^ Suc h = r" unfolding div_exp_Suc using d r by simp
  show "(n div 2 ^ Suc h) * 2 ^ Suc h = Suc n - 2 ^ h" unfolding d2 using q p r by simp
  assume "h < j"
  then obtain i where j: "j = Suc h + i" using less_iff_Suc_add by auto
  have "x div 2 ^ j = x div 2 ^ Suc h div 2 ^ i" for x :: nat by (simp only: j power_add div_mult2_eq)
  moreover have "Suc n div 2 ^ Suc h = r" unfolding div_exp_Suc d1 using r by simp
  ultimately show "Suc n div 2 ^ j = n div 2 ^ j" using d2 by simp
qed

section \<open>What the builder has recorded\<close>

text \<open>
  Merging the block of \<open>2 ^ t\<close> leaves at \<open>M * 2 ^ (t + 1)\<close> with the leaves after it is recorded as
  a pair, and on the left spine, where \<open>M = 0\<close>, as a part of the proof.
\<close>

definition records :: "('h \<Rightarrow> 'h \<Rightarrow> 'h) \<Rightarrow> 'h list \<Rightarrow> nat \<Rightarrow> nat \<Rightarrow> ('h \<times> 'h) list \<Rightarrow> 'h list \<Rightarrow> bool" where
  "records P hs M t ps pf \<longleftrightarrow>
     (let a = M * 2 ^ Suc t; m = a + 2 ^ t; b = min (length hs) (a + 2 ^ Suc t)
      in if M = 0 then pf ! Suc t = span P hs m b \<and> (t = 0 \<longrightarrow> pf ! 0 = hs ! 0)
         else ps ! (a - 2 ^ t) = (span P hs a m, span P hs m b))"

definition bil_wf :: "lss_builder \<Rightarrow> nat \<Rightarrow> bool" where
  "bil_wf b n \<longleftrightarrow> length (trees b) = 32 \<and> n \<le> leaves b \<and> leaves b < 2 ^ 31 \<and> length (pairs b) = leaves b \<and>
     length (proof_a b) = lss_proof_size (leaves b)"

lemma pair_index_unique:
  assumes "0 < M" "0 < M'" "M * 2 ^ Suc t - 2 ^ t = M' * 2 ^ Suc t' - (2::nat) ^ t'"
  shows "M = M' \<and> t = t'"
proof -
  have odd: "M * 2 ^ Suc t - 2 ^ t = (2 * (M - 1) + 1) * 2 ^ t" if "0 < M" for M t :: nat
    using that by (cases M) (simp_all add: algebra_simps)
  have "t = t'" using assms tz_w_mult [of "M - 1" t] tz_w_mult [of "M' - 1" t'] by (simp only: odd)
  moreover have "2 * (M - 1) + 1 = 2 * (M' - 1) + 1"
    using assms(3) unfolding odd [OF assms(1)] odd [OF assms(2)] \<open>t = t'\<close> by (simp only: mult_cancel2) simp
  ultimately show ?thesis using assms(1,2) by simp
qed

lemma dec32_eq: "0 < n \<Longrightarrow> n < 2 ^ 32 \<Longrightarrow> dec32 n = n - 1"
  by (simp add: dec32_def w32_def mod_if)

lemma proof_size_eq: "0 < n \<Longrightarrow> n < 2 ^ 32 \<Longrightarrow> lss_proof_size n = 1 + met0 (n - 1)"
  by (simp add: lss_proof_size_def dec32_eq)

lemma proof_index:
  assumes "2 ^ t < n" "n < 2 ^ 32"
  shows "Suc t < lss_proof_size n"
proof -
  have "\<not> met0 (n - 1) \<le> t" unfolding met0_le_iff using assms by simp
  moreover have "0 < n" using assms(1) by (cases n) auto
  ultimately show ?thesis using assms(2) by (simp add: proof_size_eq)
qed

lemma merge_records:
  assumes wf: "bil_wf b (length hs)" and t: "t < 31" and M: "M = drop_bit (Suc t) (counter b)"
    and below: "M * 2 ^ Suc t + 2 ^ t < length hs"
    and l: "l = span P hs (M * 2 ^ Suc t) (M * 2 ^ Suc t + 2 ^ t)"
    and r: "r = span P hs (M * 2 ^ Suc t + 2 ^ t) (min (length hs) (M * 2 ^ Suc t + 2 ^ Suc t))"
  shows "\<exists>b'. lss_builder_merge b t l r = Some b' \<and> bil_wf b' (length hs) \<and> trees b' = trees b \<and> leaves b' = leaves b \<and>
    counter b' = counter b \<and> records P hs M t (pairs b') (proof_a b') \<and>
    (\<forall>M' t'. records P hs M' t' (pairs b) (proof_a b) \<longrightarrow> records P hs M' t' (pairs b') (proof_a b'))"
proof (cases "M = 0")
  case False
  let ?i = "M * 2 ^ Suc t - 2 ^ t" let ?b = "b\<lparr>pairs := (pairs b)[?i := (l, r)]\<rparr>"
  have i: "?i < length (pairs b)" using wf below unfolding bil_wf_def by linarith
  have e: "push_bit (t + 1) (drop_bit (t + 1) (counter b)) - 2 ^ t = ?i" unfolding M by (simp add: push_bit_eq_mult)
  have "lss_builder_merge b t l r = Some ?b"
    unfolding lss_builder_merge_def e set_at_def using t False [unfolded M] i by simp
  moreover have new: "records P hs M t (pairs ?b) (proof_a ?b)"
    using False i by (simp add: records_def Let_def l r)
  moreover have "records P hs M' t' (pairs ?b) (proof_a ?b)" if "records P hs M' t' (pairs b) (proof_a b)" for M' t'
  proof (cases "M' = 0 \<or> M' * 2 ^ Suc t' - 2 ^ t' \<noteq> ?i")
    case True
    then show ?thesis using that by (auto simp: records_def Let_def)
  next
    case eq: False
    then have "M' = M" "t' = t" using pair_index_unique [of M' M t' t] False by auto
    then show ?thesis using new by simp
  qed
  ultimately show ?thesis using wf by (intro exI [of _ ?b]) (simp add: bil_wf_def)
next
  case True
  let ?p = "if t = 0 then (proof_a b)[0 := l] else proof_a b" let ?b = "b\<lparr>proof_a := ?p[Suc t := r]\<rparr>"
  have n: "2 ^ t < leaves b" "leaves b < 2 ^ 32" using wf below True by (simp_all add: bil_wf_def)
  have i: "Suc t < length (proof_a b)" using proof_index [OF n] wf by (simp add: bil_wf_def)
  have i0: "0 < length (proof_a b)" using i by linarith
  have "drop_bit (Suc t) (counter b) = 0" using True M by simp
  then have "lss_builder_merge b t l r = Some ?b"
    using t i i0 by (simp add: lss_builder_merge_def set_at_def)
  moreover have "0 < length hs" using below by linarith
  then have l0: "l = hs ! 0" if "t = 0" using l that True span_leaf [of 0 hs P] by simp
  have new: "records P hs M t (pairs ?b) (proof_a ?b)"
    using True i i0 l0 by (simp add: records_def Let_def r nth_list_update)
  moreover have "records P hs M' t' (pairs ?b) (proof_a ?b)" if "records P hs M' t' (pairs b) (proof_a b)" for M' t'
  proof (cases "M' = 0 \<and> t' = t")
    case True
    then show ?thesis using new \<open>M = 0\<close> by simp
  next
    case False
    then show ?thesis using that l0 i i0 by (auto simp: records_def Let_def nth_list_update)
  qed
  ultimately show ?thesis using wf by (intro exI [of _ ?b]) (simp add: bil_wf_def)
qed

text \<open>The merges that are over when \<open>N\<close> leaves have been taken in.\<close>

definition recorded :: "('h \<Rightarrow> 'h \<Rightarrow> 'h) \<Rightarrow> 'h list \<Rightarrow> (nat \<Rightarrow> nat \<Rightarrow> bool) \<Rightarrow> ('h \<times> 'h) list \<Rightarrow> 'h list \<Rightarrow> bool" where
  "recorded P hs Q ps pf \<longleftrightarrow> (\<forall>M t. Q M t \<longrightarrow> records P hs M t ps pf)"

definition trees_hold :: "('h \<Rightarrow> 'h \<Rightarrow> 'h) \<Rightarrow> 'h list \<Rightarrow> nat \<Rightarrow> 'h list \<Rightarrow> bool" where
  "trees_hold P hs N ts \<longleftrightarrow>
     (\<forall>h. bit N h \<longrightarrow> ts ! h = span P hs (N div 2 ^ Suc h * 2 ^ Suc h) (N div 2 ^ Suc h * 2 ^ Suc h + 2 ^ h))"

definition closed :: "nat \<Rightarrow> nat \<Rightarrow> nat \<Rightarrow> bool" where
  "closed N M t \<longleftrightarrow> M * 2 ^ Suc t + 2 ^ Suc t \<le> N"

definition bil_inv :: "blake3 \<Rightarrow> lss_hash list \<Rightarrow> lss_builder \<Rightarrow> bool" where
  "bil_inv B hs b \<longleftrightarrow> bil_wf b (length hs) \<and> counter b \<le> length hs \<and> trees_hold (parent_hash B) hs (counter b) (trees b) \<and>
     recorded (parent_hash B) hs (closed (counter b)) (pairs b) (proof_a b)"

lemma trees_hold_carry:
  assumes "trees_hold P hs N ts" "2 ^ h dvd Suc N" "\<not> bit N h" "h < length ts"
  shows "trees_hold P hs (Suc N) (ts[h := span P hs (Suc N - 2 ^ h) (Suc N)])"
  unfolding trees_hold_def
proof (intro allI impI)
  fix j assume j: "bit (Suc N) j"
  have "h \<le> j"
  proof (rule ccontr)
    assume "\<not> h \<le> j"
    then obtain i where "h = Suc j + i" using less_iff_Suc_add [of j h] by auto
    then have "2 ^ Suc j dvd Suc N" using assms(2) by (auto simp: power_add elim!: dvdE)
    then show False using j dvd_not_bit by blast
  qed
  note carry = carry_zero [OF assms(2,3)]
  have le: "2 ^ h \<le> Suc N" using assms(2) by (rule dvd_imp_le) simp
  have d: "Suc N div 2 ^ Suc j = N div 2 ^ Suc j" using carry(2) [of "Suc j"] \<open>h \<le> j\<close> by simp
  show "ts[h := span P hs (Suc N - 2 ^ h) (Suc N)] ! j =
      span P hs (Suc N div 2 ^ Suc j * 2 ^ Suc j) (Suc N div 2 ^ Suc j * 2 ^ Suc j + 2 ^ j)"
  proof (cases "j = h")
    case True
    then show ?thesis using assms(4) le carry(3) d by simp
  next
    case False
    then have "bit N j" using carry(2) [of j] \<open>h \<le> j\<close> j by (simp add: bit_odd_div)
    then show ?thesis using assms(1) False d by (simp add: trees_hold_def)
  qed
qed

lemma ingest_loop_records:
  assumes "bil_wf b (length hs)" "N < length hs" "counter b = N" "trees_hold (parent_hash B) hs N (trees b)"
    "recorded (parent_hash B) hs (\<lambda>M t. closed N M t \<or> closed (Suc N) M t \<and> t < h) (pairs b) (proof_a b)"
    "2 ^ h dvd Suc N" "x = span (parent_hash B) hs (Suc N - 2 ^ h) (Suc N)"
  shows "\<exists>b'. ingest_loop B b h x = Some b' \<and> bil_inv B hs b' \<and> counter b' = Suc N \<and> leaves b' = leaves b"
  using assms
proof (induction "32 - h" arbitrary: b h x rule: less_induct)
  case less
  let ?P = "parent_hash B" let ?M = "N div 2 ^ Suc h"
  note wf = less.prems(1) and N = less.prems(2) and c = less.prems(3) and ts = less.prems(4)
    and rec0 = less.prems(5) and dv = less.prems(6) and x = less.prems(7)
  have N31: "Suc N < 2 ^ 31" using N wf unfolding bil_wf_def by linarith
  have "2 ^ h \<le> Suc N" using dv by (rule dvd_imp_le) simp
  then have "(2::nat) ^ h < 2 ^ 31" using N31 by linarith
  then have h: "h < 31" by (rule power_less_imp_less_exp [rotated]) simp
  show ?case
  proof (cases "bit N h")
    case True
    note carry = carry_one [OF dv True]
    let ?a = "?M * 2 ^ Suc h"
    have a: "?a + 2 ^ Suc h = Suc N" using carry(2) by simp
    have t: "trees b ! h = span ?P hs ?a (?a + 2 ^ h)" using ts True unfolding trees_hold_def by blast
    have h2: "Suc N - 2 ^ h = ?a + 2 ^ h" using a by simp
    have xs: "x = span ?P hs (?a + 2 ^ h) (Suc N)" using x unfolding h2 .
    then have xr: "x = span ?P hs (?a + 2 ^ h) (min (length hs) (?a + 2 ^ Suc h))"
      unfolding a using N by (simp add: min_absorb2 Suc_leI)
    have merge: "\<exists>b'. lss_builder_merge b h (trees b ! h) x = Some b' \<and> bil_wf b' (length hs) \<and> trees b' = trees b \<and>
        leaves b' = leaves b \<and> counter b' = counter b \<and> records ?P hs ?M h (pairs b') (proof_a b') \<and>
        (\<forall>M' t'. records ?P hs M' t' (pairs b) (proof_a b) \<longrightarrow> records ?P hs M' t' (pairs b') (proof_a b'))"
    proof (rule merge_records [OF wf h _ _ t xr])
      show "?M = drop_bit (Suc h) (counter b)" using c by (simp add: drop_bit_eq_div)
      have "(0::nat) < 2 ^ h" by simp
      then show "?a + 2 ^ h < length hs" using h2 N by linarith
    qed
    then obtain b1 where b1: "lss_builder_merge b h (trees b ! h) x = Some b1" "bil_wf b1 (length hs)" "trees b1 = trees b"
        "leaves b1 = leaves b" "counter b1 = N" "records ?P hs ?M h (pairs b1) (proof_a b1)"
        "\<And>M' t'. records ?P hs M' t' (pairs b) (proof_a b) \<Longrightarrow> records ?P hs M' t' (pairs b1) (proof_a b1)"
      using c by auto
    have "recorded ?P hs (\<lambda>M t. closed N M t \<or> closed (Suc N) M t \<and> t < Suc h) (pairs b1) (proof_a b1)"
      unfolding recorded_def
    proof (intro allI impI)
      fix M t assume q: "closed N M t \<or> closed (Suc N) M t \<and> t < Suc h"
      show "records ?P hs M t (pairs b1) (proof_a b1)"
      proof (cases "closed N M t \<or> closed (Suc N) M t \<and> t < h")
        case True
        then show ?thesis using rec0 b1(7) unfolding recorded_def by blast
      next
        case False
        then have "t = h" "M * 2 ^ Suc h + 2 ^ Suc h = Suc N" using q by (auto simp: closed_def less_Suc_eq)
        then have "M * 2 ^ Suc h = ?M * 2 ^ Suc h" using a by linarith
        then have "M = ?M" by simp
        then show ?thesis using b1(6) \<open>t = h\<close> by simp
      qed
    qed
    moreover have "parent_hash B (trees b ! h) x = span ?P hs (Suc N - 2 ^ Suc h) (Suc N)"
    proof -
      have "span ?P hs ?a (Suc N) = ?P (span ?P hs ?a (?a + 2 ^ h)) (span ?P hs (?a + 2 ^ h) (Suc N))"
      proof (rule span_split)
        have "(0::nat) < 2 ^ h" by simp
        then show "?a + 2 ^ h < Suc N" using h2 by linarith
      qed (use a N in linarith)+
      moreover have "Suc N - 2 ^ Suc h = ?a" using a by linarith
      ultimately show ?thesis using t xs by simp
    qed
    ultimately have "\<exists>b'. ingest_loop B b1 (Suc h) (parent_hash B (trees b ! h) x) = Some b' \<and> bil_inv B hs b' \<and>
        counter b' = Suc N \<and> leaves b' = leaves b1"
      using b1 h by (intro less.hyps [OF _ b1(2) N b1(5) _ _ carry(1)]) (simp_all add: ts)
    moreover have "get_at (trees b) h = Some (trees b ! h)" using wf h by (simp add: get_at_def bil_wf_def)
    ultimately show ?thesis using True h c b1(1,4) by (subst ingest_loop.simps) simp
  next
    case False
    let ?b = "b\<lparr>trees := (trees b)[h := x], counter := Suc N\<rparr>"
    have "closed N M t \<or> closed (Suc N) M t \<and> t < h" if q: "closed (Suc N) M t" for M t
    proof -
      show ?thesis
      proof (cases "closed N M t")
        case False
        then have e: "Suc N = (M + 1) * 2 ^ Suc t" using q by (auto simp: closed_def)
        show ?thesis
        proof (rule ccontr)
          assume "\<not> ?thesis"
          then have "h \<le> t" using q by simp
          then obtain i where "Suc t = Suc h + i" using less_iff_Suc_add [of h "Suc t"] by auto
          then have "2 ^ Suc h dvd Suc N" unfolding e by (simp add: power_add)
          then show False using carry_zero(1) [OF dv \<open>\<not> bit N h\<close>] dvd_not_bit by blast
        qed
      qed simp
    qed
    then have "recorded ?P hs (closed (Suc N)) (pairs b) (proof_a b)"
      using rec0 unfolding recorded_def by blast
    moreover have "trees_hold ?P hs (Suc N) ((trees b)[h := x])"
      unfolding x by (rule trees_hold_carry [OF ts dv False]) (use wf h in \<open>simp add: bil_wf_def\<close>)
    ultimately have "bil_inv B hs ?b" using wf N by (simp add: bil_inv_def bil_wf_def)
    moreover have "ingest_loop B b h x = Some ?b"
      using False wf h c N31 by (subst ingest_loop.simps) (simp add: set_at_def bil_wf_def w32_def)
    ultimately show ?thesis by simp
  qed
qed

lemma ingest_records:
  assumes "bil_inv B hs b" "counter b < length hs" "leaf_hash B leaf (of_nat (counter b)) = hs ! counter b"
  shows "\<exists>b'. lss_builder_ingest B b leaf = Some b' \<and> bil_inv B hs b' \<and> counter b' = Suc (counter b) \<and> leaves b' = leaves b"
  unfolding lss_builder_ingest_def
  by (rule ingest_loop_records) (use assms in \<open>simp_all add: bil_inv_def recorded_def\<close>)

lemma init_inv:
  assumes "length hs \<le> n" "n < 2 ^ 31" "length junk = 32"
  shows "bil_inv B hs (lss_builder_init n junk)"
  using assms by (simp add: bil_inv_def bil_wf_def lss_builder_init_def trees_hold_def recorded_def closed_def)

text \<open>The bytes from a leaf on.\<close>

lemma transceive_loop_records:
  assumes "length data + 1023 < 2 ^ 32" "data \<noteq> []"
  shows "bil_inv B (leaf_hashes B data 0) b \<Longrightarrow> leaf_count data = counter b + k \<Longrightarrow>
    \<exists>b'. transceive_loop B k b (drop (1024 * counter b) data) = Some b' \<and> bil_inv B (leaf_hashes B data 0) b' \<and>
      counter b' = leaf_count data \<and> leaves b' = leaves b"
proof (induction k arbitrary: b)
  case (Suc k)
  let ?c = "counter b"
  have c: "?c < leaf_count data" using Suc.prems(2) by simp
  have n: "leaf_count data = (length data + 1023) div 1024"
    using assms(2) by (cases data) (simp_all add: leaf_count_def)
  have ne: "drop (1024 * ?c) data \<noteq> []" using c n by simp
  have "\<exists>b'. lss_builder_ingest B b (take 1024 (drop (1024 * ?c) data)) = Some b' \<and> bil_inv B (leaf_hashes B data 0) b' \<and>
      counter b' = Suc ?c \<and> leaves b' = leaves b"
    by (rule ingest_records [OF Suc.prems(1)]) (use c in \<open>simp_all add: nth_leaf_hashes\<close>)
  then obtain b1 where b1: "lss_builder_ingest B b (take 1024 (drop (1024 * ?c) data)) = Some b1"
    "bil_inv B (leaf_hashes B data 0) b1" "counter b1 = Suc ?c" "leaves b1 = leaves b" by blast
  have d: "drop 1024 (drop (1024 * ?c) data) = drop (1024 * counter b1) data" by (simp add: b1(3))
  show ?case using Suc.IH [OF b1(2)] Suc.prems(2) ne unfolding d [symmetric] by (simp add: b1)
qed simp

definition spine :: "nat \<Rightarrow> nat \<Rightarrow> nat \<Rightarrow> bool" where
  "spine N M t \<longleftrightarrow> M * 2 ^ Suc t + 2 ^ t < N"

lemma finalize_loop_records:
  assumes "bil_wf b (length hs)" "counter b = length hs" "trees_hold (parent_hash B) hs (length hs) (trees b)"
    "recorded (parent_hash B) hs (\<lambda>M t. closed (length hs) M t \<or> spine (length hs) M t \<and> t < h) (pairs b) (proof_a b)"
    "0 < length hs mod 2 ^ h" "x = span (parent_hash B) hs (length hs div 2 ^ h * 2 ^ h) (length hs)" "h \<le> 32"
  shows "\<exists>b'. finalize_loop B b h x = Some b' \<and> bil_wf b' (length hs) \<and> leaves b' = leaves b \<and>
    recorded (parent_hash B) hs (spine (length hs)) (pairs b') (proof_a b')"
  using assms
proof (induction "32 - h" arbitrary: b h x rule: less_induct)
  case less
  let ?P = "parent_hash B" let ?N = "length hs" let ?M = "?N div 2 ^ Suc h" let ?a = "?M * 2 ^ Suc h"
  note wf = less.prems(1) and c = less.prems(2) and ts = less.prems(3)
    and rec0 = less.prems(4) and md = less.prems(5) and x = less.prems(6)
  have N31: "?N < 2 ^ 31" using wf unfolding bil_wf_def by linarith
  have md1: "0 < ?N mod 2 ^ Suc h"
  proof -
    have "?N mod 2 ^ h = ?N mod 2 ^ Suc h mod 2 ^ h" by (simp add: mod_mod_cancel)
    then show ?thesis using md by (cases "?N mod 2 ^ Suc h") simp_all
  qed
  have sp: "M = ?M" if "spine ?N M h" "\<not> closed ?N M h" for M
  proof -
    have "M * 2 ^ Suc h \<le> ?N" "?N < Suc M * 2 ^ Suc h" using that unfolding spine_def closed_def by (linarith, simp)
    then have "?N div 2 ^ Suc h = M" by (intro div_nat_eqI) (simp_all only: mult.commute)
    then show ?thesis by simp
  qed
  have small: "?a + ?N mod 2 ^ Suc h = ?N" by (rule div_mult_mod_eq)
  show ?case
  proof (cases "h < 32")
    case False
    have "closed ?N M t \<or> spine ?N M t \<and> t < h" if "spine ?N M t" for M t
    proof -
      have "(2::nat) ^ t < 2 ^ 31" using that N31 unfolding spine_def by linarith
      then have "t < 31" by (rule power_less_imp_less_exp [rotated]) simp
      then show ?thesis using that False by simp
    qed
    then have "recorded ?P hs (spine ?N) (pairs b) (proof_a b)" using rec0 unfolding recorded_def by blast
    then show ?thesis using False wf by (subst finalize_loop.simps) simp
  next
    case h: True
    show ?thesis
    proof (cases "bit ?N h")
      case False
      have "?N div 2 ^ h = 2 * ?M" using False unfolding bit_odd_div div_exp_Suc by simp
      then have "?N div 2 ^ h * 2 ^ h = ?a" by simp
      then have xa: "x = span ?P hs ?a ?N" unfolding x by (rule arg_cong)
      moreover have "recorded ?P hs (\<lambda>M t. closed ?N M t \<or> spine ?N M t \<and> t < Suc h) (pairs b) (proof_a b)"
      proof -
        have "\<not> spine ?N M h" if "\<not> closed ?N M h" for M
        proof
          assume s: "spine ?N M h"
          then have "spine ?N ?M h" using sp that by blast
          then have "2 ^ h < ?N mod 2 ^ Suc h" using small unfolding spine_def by linarith
          moreover have "?N mod 2 ^ Suc h = ?N mod 2 ^ h"
            using False by (simp add: bit_odd_div mod_mult2_eq power_Suc2 del: power_Suc)
          moreover have "?N mod 2 ^ h < 2 ^ h" by simp
          ultimately show False by linarith
        qed
        then show ?thesis using rec0 unfolding recorded_def less_Suc_eq by blast
      qed
      ultimately have "\<exists>b'. finalize_loop B b (Suc h) x = Some b' \<and> bil_wf b' ?N \<and>
          leaves b' = leaves b \<and> recorded ?P hs (spine ?N) (pairs b') (proof_a b')"
        by (intro less.hyps [OF _ wf c ts _ md1]) (use h in simp_all)
      then show ?thesis using False h c by (subst finalize_loop.simps) simp
    next
      case True
      have q: "?N div 2 ^ h = 2 * ?M + 1" using True unfolding bit_odd_div div_exp_Suc by simp
      then have xa: "x = span ?P hs (?a + 2 ^ h) ?N" unfolding x by (simp add: algebra_simps)
      have dm: "?N div 2 ^ h * 2 ^ h + ?N mod 2 ^ h = ?N" by (rule div_mult_mod_eq)
      have dq: "?N div 2 ^ h * 2 ^ h = ?a + 2 ^ h" unfolding q by (simp add: algebra_simps)
      have lt: "?a + 2 ^ h < ?N" using dm dq md by linarith
      have "?N mod 2 ^ Suc h < 2 ^ Suc h" by simp
      then have gt: "?N \<le> ?a + 2 ^ Suc h" using small by linarith
      have t: "trees b ! h = span ?P hs ?a (?a + 2 ^ h)" using ts True unfolding trees_hold_def by blast
      have "(2::nat) ^ h < 2 ^ 31" using lt N31 by linarith
      then have h31: "h < 31" by (rule power_less_imp_less_exp [rotated]) simp
      have merge: "\<exists>b'. lss_builder_merge b h (trees b ! h) x = Some b' \<and> bil_wf b' ?N \<and> trees b' = trees b \<and>
          leaves b' = leaves b \<and> counter b' = counter b \<and> records ?P hs ?M h (pairs b') (proof_a b') \<and>
          (\<forall>M' t'. records ?P hs M' t' (pairs b) (proof_a b) \<longrightarrow> records ?P hs M' t' (pairs b') (proof_a b'))"
        by (rule merge_records [OF wf h31 _ lt t]) (use gt c xa in \<open>simp_all add: drop_bit_eq_div min_absorb1\<close>)
      then obtain b1 where b1: "lss_builder_merge b h (trees b ! h) x = Some b1" "bil_wf b1 ?N" "trees b1 = trees b"
          "leaves b1 = leaves b" "counter b1 = ?N" "records ?P hs ?M h (pairs b1) (proof_a b1)"
          "\<And>M' t'. records ?P hs M' t' (pairs b) (proof_a b) \<Longrightarrow> records ?P hs M' t' (pairs b1) (proof_a b1)"
        using c by auto
      have "recorded ?P hs (\<lambda>M t. closed ?N M t \<or> spine ?N M t \<and> t < Suc h) (pairs b1) (proof_a b1)"
        using rec0 b1(6,7) sp unfolding recorded_def less_Suc_eq by blast
      moreover have "parent_hash B (trees b ! h) x = span ?P hs ?a ?N"
        unfolding t xa by (rule span_split [OF lt gt, symmetric]) simp
      ultimately have "\<exists>b'. finalize_loop B b1 (Suc h) (parent_hash B (trees b ! h) x) = Some b' \<and> bil_wf b' ?N \<and>
          leaves b' = leaves b1 \<and> recorded ?P hs (spine ?N) (pairs b') (proof_a b')"
        by (intro less.hyps [OF _ b1(2,5) _ _ md1]) (use h b1(3) ts in simp_all)
      moreover have "get_at (trees b) h = Some (trees b ! h)" using wf h by (simp add: get_at_def bil_wf_def)
      ultimately show ?thesis using True h c b1(1,4) by (subst finalize_loop.simps) simp
    qed
  qed
qed

lemma finalize_records:
  assumes inv: "bil_inv B hs b" and all: "counter b = length hs"
  shows "\<exists>pf b'. lss_builder_finalize B b = Some (pf, b') \<and> pf = proof_a b' \<and> bil_wf b' (length hs) \<and> leaves b' = leaves b \<and>
    recorded (parent_hash B) hs (spine (length hs)) (pairs b') pf"
proof (cases "hs = []")
  case True
  have "recorded (parent_hash B) hs (spine (length hs)) ps pf" for ps pf using True by (simp add: recorded_def spine_def)
  then show ?thesis using inv all True by (simp add: lss_builder_finalize_def bil_inv_def)
next
  case False
  let ?N = "length hs" let ?P = "parent_hash B" let ?z = "tz_w ?N" let ?x = "trees b ! ?z"
  have wf: "bil_wf b ?N" and ts: "trees_hold ?P hs ?N (trees b)"
    and rec0: "recorded ?P hs (closed ?N) (pairs b) (proof_a b)" using inv all by (simp_all add: bil_inv_def)
  have z: "2 ^ ?z dvd ?N" "bit ?N ?z" using tz_w_spec [of ?N] False by auto
  have le: "2 ^ ?z \<le> ?N" using z(1) by (rule dvd_imp_le) (use False in simp)
  have N31: "?N < 2 ^ 31" using wf unfolding bil_wf_def by linarith
  have "(2::nat) ^ ?z < 2 ^ 31" using le N31 by linarith
  then have z31: "?z < 31" by (rule power_less_imp_less_exp [rotated]) simp
  have q: "?N div 2 ^ ?z = 2 * (?N div 2 ^ Suc ?z) + 1" using z(2) unfolding bit_odd_div div_exp_Suc by simp
  have dm: "?N div 2 ^ ?z * 2 ^ ?z = ?N" using z(1) by simp
  have e: "?N div 2 ^ Suc ?z * 2 ^ Suc ?z + 2 ^ ?z = ?N" using dm unfolding q by (simp add: algebra_simps)
  have "?N div 2 ^ Suc ?z * 2 ^ Suc ?z + ?N mod 2 ^ Suc ?z = ?N" by (rule div_mult_mod_eq)
  then have "?N mod 2 ^ Suc ?z = 2 ^ ?z" using e by linarith
  then have md: "0 < ?N mod 2 ^ Suc ?z" by simp
  have x: "?x = span ?P hs (?N div 2 ^ Suc ?z * 2 ^ Suc ?z) ?N" using ts z(2) e unfolding trees_hold_def by metis
  have "t \<ge> Suc ?z" if "spine ?N M t" "\<not> closed ?N M t" for M t
  proof (rule ccontr)
    assume "\<not> t \<ge> Suc ?z"
    then have "(2::nat) ^ t dvd 2 ^ ?z" by (intro le_imp_power_dvd) simp
    then have "2 ^ t dvd ?N" using z(1) by (rule dvd_trans)
    then obtain k where k: "?N = 2 ^ t * k" by blast
    then have "2 ^ t * (2 * M + 1) < 2 ^ t * k" "2 ^ t * k < 2 ^ t * (2 * M + 2)"
      using that unfolding spine_def closed_def by (simp_all add: algebra_simps)
    then have "2 * M + 1 < k" "k < 2 * M + 2" by (simp_all only: mult_less_cancel1)
    then show False by simp
  qed
  then have "recorded ?P hs (\<lambda>M t. closed ?N M t \<or> spine ?N M t \<and> t < Suc ?z) (pairs b) (proof_a b)"
    using rec0 unfolding recorded_def by (meson not_le)
  then have "\<exists>b'. finalize_loop B b (Suc ?z) ?x = Some b' \<and> bil_wf b' ?N \<and> leaves b' = leaves b \<and>
      recorded ?P hs (spine ?N) (pairs b') (proof_a b')"
    by (intro finalize_loop_records [OF wf all ts _ md x]) (use z31 in simp_all)
  moreover have "get_at (trees b) ?z = Some ?x" using wf z31 by (simp add: get_at_def bil_wf_def)
  ultimately show ?thesis using all False by (auto simp: lss_builder_finalize_def)
qed

section \<open>What the records say\<close>

lemma root_of_records:
  assumes "recorded (parent_hash B) hs (spine (length hs)) ps pf" "2 \<le> length hs" "length hs < 2 ^ 32"
    "length pf = lss_proof_size (length hs)"
  shows "lss_root B pf (lss_proof_size (length hs)) = Some (mroot (parent_hash B) hs)"
proof -
  let ?P = "parent_hash B" let ?n = "length hs" let ?s = "met0 (?n - 1)"
  have s: "lss_proof_size ?n = Suc ?s" using proof_size_eq [of ?n] assms(2,3) by linarith
  have rec: "pf ! Suc t = span ?P hs (2 ^ t) (min ?n (2 ^ Suc t)) \<and> (t = 0 \<longrightarrow> pf ! 0 = hs ! 0)" if "t < ?s" for t
  proof -
    have "\<not> ?s \<le> t" using that by simp
    then have "2 ^ t < ?n" unfolding met0_le_iff using assms(2) by simp
    then have "spine ?n 0 t" by (simp add: spine_def)
    then have "records ?P hs 0 t ps pf" using assms(1) unfolding recorded_def by blast
    then show ?thesis by (simp add: records_def Let_def)
  qed
  have s0: "0 < ?s" using assms(2) by (cases ?s) auto
  have fold: "foldl ?P (pf ! 0) (take k (drop 1 pf)) = span ?P hs 0 (min ?n (2 ^ k))" if "k \<le> ?s" for k
    using that
  proof (induction k)
    case 0
    have "0 < ?n" "min ?n 1 = 1" using assms(2) by linarith+
    then show ?case using rec [OF s0] span_leaf [of 0 hs ?P] by simp
  next
    case (Suc k)
    have lt: "2 ^ k < ?n"
    proof -
      have "\<not> ?s \<le> k" using Suc.prems by simp
      then show ?thesis unfolding met0_le_iff using assms(2) by simp
    qed
    have "take (Suc k) (drop 1 pf) = take k (drop 1 pf) @ [pf ! Suc k]"
      using Suc.prems assms(4) s by (simp add: take_Suc_conv_app_nth)
    then have "foldl ?P (pf ! 0) (take (Suc k) (drop 1 pf)) = ?P (span ?P hs 0 (2 ^ k)) (span ?P hs (2 ^ k) (min ?n (2 ^ Suc k)))"
      using Suc lt rec [of k] by (simp add: min_absorb2)
    also have "\<dots> = span ?P hs 0 (min ?n (2 ^ Suc k))"
      by (subst span_split [of 0 k]) (use lt in auto)
    finally show ?case .
  qed
  have "?n - 1 < 2 ^ ?s" by (rule less_exp_met0)
  then have "min ?n (2 ^ ?s) = ?n" by simp
  then have "foldl ?P (pf ! 0) (take ?s (drop 1 pf)) = mroot ?P hs" using fold [of ?s] by (simp add: span_all)
  then show ?thesis using assms(4) s by (simp add: lss_root_def get_at_def)
qed

end
