(* ===== verification/LssVerify.thy ===== *)
theory LssVerify
  imports LssBuild
begin

text \<open>
  The verifier of \<^verbatim>\<open>lss.c\<close>: which block it holds at each height, the height at which it looks
  for a block, the odd pairs of an incomplete tree included, and the properties of builder and
  verifier together.
\<close>

section \<open>What the verifier holds\<close>

lemma tz_w_unique:
  assumes "2 ^ k dvd n" "bit n k"
  shows "tz_w n = k"
proof -
  have "odd (n div 2 ^ k)" using assms(2) by (simp add: bit_odd_div)
  then obtain m where m: "n div 2 ^ k = 2 * m + 1" by (rule oddE)
  have "n = n div 2 ^ k * 2 ^ k" using assms(1) by simp
  then have "n = (2 * m + 1) * 2 ^ k" unfolding m .
  then show ?thesis using tz_w_mult by simp
qed

lemma tz_w_high:
  assumes "0 < q" "q < 2 ^ j"
  shows "tz_w (q + 2 ^ j * x) = tz_w q"
proof (rule tz_w_unique)
  let ?t = "tz_w q"
  note q = tz_w_spec [OF assms(1)]
  have "2 ^ ?t \<le> q" using q assms(1) by (auto intro: dvd_imp_le)
  then have "(2::nat) ^ ?t < 2 ^ j" using assms(2) by linarith
  then have t: "?t < j" by (rule power_less_imp_less_exp [rotated]) simp
  then have j: "2 ^ j * x = 2 ^ ?t * (2 * (2 ^ (j - Suc ?t) * x))"
    by (metis Suc_diff_Suc mult.assoc power_Suc power_add le_add_diff_inverse less_imp_le_nat)
  show "2 ^ ?t dvd q + 2 ^ j * x" using q unfolding j by simp
  have "(q + 2 ^ j * x) div 2 ^ ?t = q div 2 ^ ?t + 2 * (2 ^ (j - Suc ?t) * x)"
    unfolding j using div_mult_self2 [of "2 ^ ?t" q] by simp
  then show "bit (q + 2 ^ j * x) ?t" using q by (simp add: bit_odd_div)
qed

definition block_at :: "nat \<Rightarrow> nat \<Rightarrow> nat" where
  "block_at c h = (c + 2 ^ h - 1) div 2 ^ Suc h * 2 ^ Suc h"

text \<open>
  At every height the two children of the last block that is split there: the first one that ends
  behind the counter. The first split at each height is the one of the initial proof, whose left
  children are held for single leaves only.
\<close>

definition ver_inv :: "('h \<Rightarrow> 'h \<Rightarrow> 'h) \<Rightarrow> 'h list \<Rightarrow> nat \<Rightarrow> ('h \<times> 'h) list \<Rightarrow> bool" where
  "ver_inv P hs c V \<longleftrightarrow> length V = met0 (length hs) \<and>
     (\<forall>h. let a = block_at c h; m = a + 2 ^ h
          in m < length hs \<longrightarrow> snd (V ! h) = span P hs m (min (length hs) (m + 2 ^ h)) \<and>
             (a \<noteq> 0 \<or> h = 0 \<longrightarrow> fst (V ! h) = span P hs a m))"

lemma block_at_eq:
  assumes "2 ^ h dvd s" "c \<le> s" "s < c + 2 ^ h"
  shows "block_at c h = (if bit s h then s - 2 ^ h else s)"
proof -
  obtain q where q: "s = 2 ^ h * q" using assms(1) by blast
  have b: "bit s h \<longleftrightarrow> odd q" unfolding bit_odd_div q by simp
  have "q div 2 * 2 ^ Suc h \<le> s" unfolding q by (simp add: mult.commute)
  moreover have "s + 2 ^ h \<le> Suc (q div 2) * 2 ^ Suc h"
  proof -
    have "q + 1 \<le> 2 * Suc (q div 2)" by simp
    then have "2 ^ h * (q + 1) \<le> 2 ^ h * (2 * Suc (q div 2))" by (rule mult_le_mono2)
    then show ?thesis unfolding q by (simp add: algebra_simps)
  qed
  ultimately have "q div 2 * 2 ^ Suc h \<le> c + 2 ^ h - 1" "c + 2 ^ h - 1 < Suc (q div 2) * 2 ^ Suc h"
    using assms(2,3) by linarith+
  then have d: "(c + 2 ^ h - 1) div 2 ^ Suc h = q div 2" by (intro div_nat_eqI) (simp_all only: mult.commute)
  show ?thesis
  proof (cases "odd q")
    case True
    then obtain m where "q = 2 * m + 1" by (rule oddE)
    then show ?thesis using True unfolding block_at_def d b by (simp add: q algebra_simps)
  next
    case False
    then obtain m where "q = 2 * m" by (auto elim: evenE)
    then show ?thesis using False unfolding block_at_def d b by (simp add: q algebra_simps)
  qed
qed

text \<open>The height at which a block is held.\<close>

definition slot :: "nat \<Rightarrow> nat \<Rightarrow> nat \<Rightarrow> nat" where
  "slot n s k = (if s + 2 ^ k < n then k else tz_w s)"

lemma slot_hash:
  assumes inv: "ver_inv P hs c V" and s: "2 ^ k dvd s" "c \<le> s" "s < c + 2 ^ k" "s < length hs"
    and pos: "0 < s \<or> k = 0" and n: "2 \<le> length hs"
  shows "slot (length hs) s k < length V"
    and "(if bit s (slot (length hs) s k) then snd else fst) (V ! slot (length hs) s k) = span P hs s (min (length hs) (s + 2 ^ k))"
proof -
  let ?n = "length hs" let ?H = "slot ?n s k"
  have end0: "0 < s" if "\<not> s + 2 ^ k < ?n" using that pos n by (cases s) auto
  have ge: "k \<le> ?H" and dv: "2 ^ ?H dvd s"
  proof -
    have "k \<le> ?H \<and> 2 ^ ?H dvd s"
    proof (cases "s + 2 ^ k < ?n")
      case True
      then show ?thesis using s(1) by (simp add: slot_def)
    next
      case False
      note z = tz_w_spec [OF end0 [OF False]]
      have "k \<le> tz_w s"
      proof (rule ccontr)
        assume "\<not> k \<le> tz_w s"
        then have "(2::nat) ^ Suc (tz_w s) dvd 2 ^ k" by (intro le_imp_power_dvd) simp
        then have "2 ^ Suc (tz_w s) dvd s" using s(1) by (rule dvd_trans)
        then show False using z dvd_not_bit by blast
      qed
      then show ?thesis using False z by (simp add: slot_def)
    qed
    then show "k \<le> ?H" "2 ^ ?H dvd s" by simp_all
  qed
  have kH: "(2::nat) ^ k \<le> 2 ^ ?H" using ge by simp
  have "s < c + 2 ^ ?H" using s(3) kH by linarith
  then have a: "block_at c ?H = (if bit s ?H then s - 2 ^ ?H else s)" by (rule block_at_eq [OF dv s(2)])
  have rec: "block_at c ?H + 2 ^ ?H < ?n \<Longrightarrow> snd (V ! ?H) = span P hs (block_at c ?H + 2 ^ ?H) (min ?n (block_at c ?H + 2 ^ ?H + 2 ^ ?H)) \<and>
      (block_at c ?H \<noteq> 0 \<or> ?H = 0 \<longrightarrow> fst (V ! ?H) = span P hs (block_at c ?H) (block_at c ?H + 2 ^ ?H))"
    using inv unfolding ver_inv_def Let_def by blast
  have "2 ^ ?H < ?n \<and> (if bit s ?H then snd else fst) (V ! ?H) = span P hs s (min ?n (s + 2 ^ k))"
  proof (cases "bit s ?H")
    case True
    then have "0 < s" by (cases s) simp_all
    then have le: "2 ^ ?H \<le> s" using dv by (auto intro: dvd_imp_le)
    have m: "block_at c ?H + 2 ^ ?H = s" using a True le by simp
    have "min ?n (s + 2 ^ ?H) = min ?n (s + 2 ^ k)"
    proof (cases "s + 2 ^ k < ?n")
      case True
      then show ?thesis by (simp add: slot_def)
    next
      case False
      then have "min ?n (s + 2 ^ ?H) = ?n" "min ?n (s + 2 ^ k) = ?n" using kH by linarith+
      then show ?thesis by simp
    qed
    then show ?thesis using rec True le s(4) unfolding m by simp
  next
    case False
    have A: "s + 2 ^ k < ?n"
    proof (rule ccontr)
      assume B: "\<not> s + 2 ^ k < ?n"
      then have "bit s ?H" using tz_w_spec [OF end0 [OF B]] by (simp add: slot_def)
      then show False using False by simp
    qed
    then have H: "?H = k" by (simp add: slot_def)
    then have e: "block_at c k = s" using a False by simp
    show ?thesis using rec False A pos unfolding H e by auto
  qed
  then show "(if bit s ?H then snd else fst) (V ! ?H) = span P hs s (min ?n (s + 2 ^ k))" by simp
  have "2 ^ ?H < ?n" using \<open>2 ^ ?H < ?n \<and> _\<close> by simp
  then have "\<not> met0 ?n \<le> ?H" unfolding met0_le_iff by simp
  then show "?H < length V" using inv by (simp add: ver_inv_def)
qed

lemma ones_even: "even y \<Longrightarrow> ones_w y = 0"
proof -
  assume "even y"
  then have "2 ^ 32 - 1 - y = 0 \<or> odd (2 ^ 32 - 1 - y)" by (cases "y \<le> 2 ^ 32 - 1") auto
  then show ?thesis unfolding ones_w_def by (subst tz_w.simps) auto
qed

lemma ones_complement:
  assumes "0 < q" "q < 2 ^ j" "j \<le> 32"
  shows "ones_w (2 ^ j - 1 - q) = tz_w q"
proof -
  have "(2::nat) ^ 32 = 2 ^ j * 2 ^ (32 - j)" using assms(3) by (simp flip: power_add)
  moreover have "2 ^ j * 2 ^ (32 - j) = 2 ^ j + 2 ^ j * (2 ^ (32 - j) - (1::nat))" by (simp add: algebra_simps)
  ultimately have "2 ^ 32 - 1 - (2 ^ j - 1 - q) = q + 2 ^ j * (2 ^ (32 - j) - (1::nat))"
    using assms(2) by linarith
  then show ?thesis unfolding ones_w_def using tz_w_high [OF assms(1,2)] by simp
qed

lemma met0_xor: "met0 (a XOR b) \<le> k \<longleftrightarrow> a div 2 ^ k = b div 2 ^ k" for a b :: nat
proof -
  have "met0 (a XOR b) \<le> k \<longleftrightarrow> (a XOR b) div 2 ^ k = 0" unfolding met0_le_iff by (simp add: div_eq_0_iff)
  also have "\<dots> \<longleftrightarrow> drop_bit k a XOR drop_bit k b = 0" by (simp flip: drop_bit_eq_div)
  also have "\<dots> \<longleftrightarrow> a div 2 ^ k = b div 2 ^ k"
    unfolding drop_bit_eq_div by (auto simp: bit_eq_iff bit_xor_iff)
  finally show ?thesis .
qed

text \<open>The odd pairs: the height that the verifier looks at is the one of the slot.\<close>

lemma odd_height:
  assumes "2 ^ k dvd s" "s < n" "n < 2 ^ 32" "0 < s \<or> k = 0" "2 \<le> n"
  shows "k + ones_w (drop_bit k (push_bit (met0 (s XOR (n - 1))) (drop_bit (met0 (s XOR (n - 1))) (2 ^ met0 (n - 1) - n)))) = slot n s k"
proof -
  let ?x = "met0 (s XOR (n - 1))" and ?m = "met0 (n - 1)" let ?D = "2 ^ ?m - n"
  show ?thesis
  proof (cases "s + 2 ^ k < n")
    case True
    have "s div 2 ^ k < (n - 1) div 2 ^ k"
    proof -
      have "s div 2 ^ k + 1 = (s + 2 ^ k) div 2 ^ k" using div_add_self2 [of "2 ^ k" s] by simp
      also have "\<dots> \<le> (n - 1) div 2 ^ k" using True by (intro div_le_mono) simp
      finally show ?thesis by simp
    qed
    then have "k < ?x" using met0_xor [of s "n - 1" k] by simp
    then have "\<not> bit (push_bit ?x (drop_bit ?x ?D)) k" by (simp add: bit_push_bit_iff)
    then have "even (drop_bit k (push_bit ?x (drop_bit ?x ?D)))" by (simp add: bit_iff_odd drop_bit_eq_div)
    then show ?thesis using True by (simp add: ones_even slot_def)
  next
    case False
    have s0: "0 < s" using False assms(4,5) by (cases s) auto
    obtain q where q: "s = 2 ^ k * q" using assms(1) by blast
    then have q0: "0 < q" using s0 by (cases q) auto
    have top: "(n - 1) div 2 ^ k = q"
      by (rule div_nat_eqI) (use False assms(2) q in \<open>simp_all add: algebra_simps\<close>)
    then have xk: "?x \<le> k" using q by (simp add: met0_xor)
    have km: "k < ?m"
    proof -
      have "2 ^ k \<le> s" using assms(1) s0 by (rule dvd_imp_le)
      then have "\<not> n - 1 < 2 ^ k" using assms(2) by linarith
      then show ?thesis unfolding met0_le_iff [symmetric] by simp
    qed
    have m32: "?m \<le> 32" unfolding met0_le_iff using assms(3) by simp
    have "n - 1 < 2 ^ ?m" by (rule less_exp_met0)
    have qm: "q < 2 ^ (?m - k)"
    proof -
      have "2 ^ k * q < 2 ^ ?m" using q assms(2) \<open>n - 1 < 2 ^ ?m\<close> by linarith
      also have "(2::nat) ^ ?m = 2 ^ k * 2 ^ (?m - k)" using km by (simp flip: power_add)
      finally show ?thesis by simp
    qed
    have mk: "?m - k \<le> 32" using m32 by linarith
    have "drop_bit k (push_bit ?x (drop_bit ?x ?D)) = ?D div 2 ^ k"
    proof -
      obtain i where i: "k = ?x + i" using xk le_Suc_ex by blast
      have "drop_bit (?x + i) (push_bit ?x (drop_bit ?x ?D)) = drop_bit i (drop_bit ?x (push_bit ?x (drop_bit ?x ?D)))"
        by (simp add: ac_simps)
      also have "\<dots> = drop_bit i (drop_bit ?x ?D)" by (simp add: drop_bit_push_bit)
      also have "\<dots> = drop_bit k ?D" unfolding i[symmetric] by (subst i) (simp add: ac_simps)
      finally show ?thesis unfolding i [symmetric] drop_bit_eq_div .
    qed
    also have "?D div 2 ^ k = 2 ^ (?m - k) - 1 - q"
    proof (rule div_nat_eqI)
      have e: "(2::nat) ^ ?m = 2 ^ k * 2 ^ (?m - k)" using km by (simp flip: power_add)
      have d: "2 ^ k * (2 ^ (?m - k) - 1 - q) = 2 ^ ?m - 2 ^ k - s" unfolding e q by (simp add: diff_mult_distrib2)
      have le: "2 ^ k + s \<le> 2 ^ ?m"
      proof -
        have "2 ^ k * (1 + q) \<le> 2 ^ k * 2 ^ (?m - k)" using qm by (intro mult_le_mono2) simp
        then show ?thesis unfolding e q by (simp add: algebra_simps)
      qed
      show "2 ^ k * (2 ^ (?m - k) - 1 - q) \<le> ?D" unfolding d using False assms(2) by linarith
      have "2 ^ k * Suc (2 ^ (?m - k) - 1 - q) = 2 ^ ?m - s" unfolding mult_Suc_right d using le by linarith
      then show "?D < 2 ^ k * Suc (2 ^ (?m - k) - 1 - q)" using assms(2) le \<open>n - 1 < 2 ^ ?m\<close> by linarith
    qed
    finally have "ones_w (drop_bit k (push_bit ?x (drop_bit ?x ?D))) = tz_w q"
      using ones_complement [OF q0 qm mk] by simp
    moreover have "tz_w s = k + tz_w q"
    proof (rule tz_w_unique)
      note z = tz_w_spec [OF q0]
      show "2 ^ (k + tz_w q) dvd s" unfolding q power_add using z by (intro mult_dvd_mono) auto
      have "s div 2 ^ (k + tz_w q) = q div 2 ^ tz_w q" unfolding q power_add div_mult2_eq by simp
      then show "bit s (k + tz_w q)" using z by (simp add: bit_odd_div)
    qed
    ultimately show ?thesis using False by (simp add: slot_def)
  qed
qed

lemma check_hash_spec:
  assumes inv: "ver_inv P hs c (ver_pairs v)" and s: "2 ^ k dvd s" "c \<le> s" "s < c + 2 ^ k" "s < length hs"
    and pos: "0 < s \<or> k = 0" and n: "2 \<le> length hs" "length hs < 2 ^ 32" "ver_leaves v = length hs"
  shows "lss_verifier_check_hash v s k h = Some (span P hs s (min (length hs) (s + 2 ^ k)) = h)"
proof -
  have d: "dec32 (length hs) = length hs - 1" by (rule dec32_eq) (use n in linarith)+
  show ?thesis
    unfolding lss_verifier_check_hash_def Let_def n(3) d odd_height [OF s(1,4) n(2) pos n(1)]
    using slot_hash [OF inv s pos n(1)] by (simp add: get_at_def split: if_splits)
qed

lemma block_at_Suc: "block_at (Suc c) h = (if 0 < c \<and> tz_w c = h then c + 2 ^ h else block_at c h)"
proof -
  let ?p = "2 ^ Suc h :: nat"
  have S: "Suc (c + 2 ^ h - 1) = c + 2 ^ h" by simp
  have iff: "(c + 2 ^ h) mod ?p = 0 \<longleftrightarrow> 0 < c \<and> tz_w c = h"
  proof
    assume "(c + 2 ^ h) mod ?p = 0"
    then obtain k where k: "c + 2 ^ h = ?p * k" by (auto simp: mod_eq_0_iff_dvd elim: dvdE)
    then obtain j where j: "k = Suc j" by (cases k) auto
    have c: "c = (2 * j + 1) * 2 ^ h" using k unfolding j by simp
    show "0 < c \<and> tz_w c = h" unfolding c tz_w_mult by simp
  next
    assume a: "0 < c \<and> tz_w c = h"
    then have "2 ^ h dvd c" "bit c h" using tz_w_spec [of c] by auto
    then have "odd (c div 2 ^ h)" "c = c div 2 ^ h * 2 ^ h" by (simp_all add: bit_odd_div)
    then obtain m where "c = (2 * m + 1) * 2 ^ h" by (metis oddE)
    then have "c + 2 ^ h = ?p * (m + 1)" by (simp add: algebra_simps)
    then show "(c + 2 ^ h) mod ?p = 0" by (simp only: mod_mult_self1_is_0)
  qed
  show ?thesis
  proof (cases "0 < c \<and> tz_w c = h")
    case True
    then have "(c + 2 ^ h) div ?p * ?p = c + 2 ^ h" using iff by (metis add.right_neutral div_mult_mod_eq)
    then show ?thesis using True by (simp add: block_at_def)
  next
    case False
    then have "(c + 2 ^ h) mod ?p \<noteq> 0" unfolding iff .
    then have "(c + 2 ^ h) div ?p = (c + 2 ^ h - 1) div ?p"
      using div_Suc [of "c + 2 ^ h - 1" ?p] unfolding S by (simp only: if_False)
    then have "block_at (Suc c) h = block_at c h" unfolding block_at_def by simp
    then show ?thesis by (simp only: False if_False)
  qed
qed

lemma ver_inv_keep:
  assumes "ver_inv P hs c V" "0 < c \<Longrightarrow> length hs \<le> c + 2 * 2 ^ tz_w c"
  shows "ver_inv P hs (Suc c) V"
  using assms unfolding ver_inv_def block_at_Suc Let_def by (auto simp: algebra_simps)

lemma ver_inv_put:
  assumes "ver_inv P hs c V" "0 < c" "tz_w c < length V"
    and "l = span P hs (c + 2 ^ tz_w c) (c + 2 * 2 ^ tz_w c)"
    and "r = span P hs (c + 2 * 2 ^ tz_w c) (min (length hs) (c + 3 * 2 ^ tz_w c))"
  shows "ver_inv P hs (Suc c) (V[tz_w c := (l, r)])"
proof -
  have e: "c + 2 ^ t + 2 ^ t = c + 2 * 2 ^ t" "c + 2 * 2 ^ t + 2 ^ t = c + 3 * 2 ^ t" for t by simp_all
  show ?thesis
    unfolding ver_inv_def Let_def block_at_Suc
  proof (intro conjI allI)
    show "length (V[tz_w c := (l, r)]) = met0 (length hs)" using assms(1) by (simp add: ver_inv_def)
    fix h
    show "(if 0 < c \<and> tz_w c = h then c + 2 ^ h else block_at c h) + 2 ^ h < length hs \<longrightarrow>
        snd (V[tz_w c := (l, r)] ! h) = span P hs ((if 0 < c \<and> tz_w c = h then c + 2 ^ h else block_at c h) + 2 ^ h)
          (min (length hs) ((if 0 < c \<and> tz_w c = h then c + 2 ^ h else block_at c h) + 2 ^ h + 2 ^ h)) \<and>
        ((if 0 < c \<and> tz_w c = h then c + 2 ^ h else block_at c h) \<noteq> 0 \<or> h = 0 \<longrightarrow>
          fst (V[tz_w c := (l, r)] ! h) = span P hs (if 0 < c \<and> tz_w c = h then c + 2 ^ h else block_at c h)
            ((if 0 < c \<and> tz_w c = h then c + 2 ^ h else block_at c h) + 2 ^ h))"
    proof (cases "tz_w c = h")
      case True
      then show ?thesis using assms(2-5) by (simp add: e)
    next
      case False
      then show ?thesis using assms(1) unfolding ver_inv_def Let_def by simp
    qed
  qed
qed

lemma verifier_fill_spec:
  "0 < i \<Longrightarrow> i + k \<le> length pf \<Longrightarrow> i - 1 + k \<le> length ps \<Longrightarrow>
    \<exists>ps'. verifier_fill k i pf ps = Some ps' \<and> length ps' = length ps \<and>
      (\<forall>j. ps' ! j = (if i - 1 \<le> j \<and> j < i - 1 + k then (fst (ps ! j), pf ! Suc j) else ps ! j))"
proof (induction k arbitrary: i ps)
  case (Suc k)
  let ?ps = "ps[i - 1 := (fst (ps ! (i - 1)), pf ! i)]"
  obtain ps' where ps': "verifier_fill k (i + 1) pf ?ps = Some ps'" "length ps' = length ?ps"
      "\<And>j. ps' ! j = (if i \<le> j \<and> j < i + k then (fst (?ps ! j), pf ! Suc j) else ?ps ! j)"
    using Suc.IH [of "i + 1" ?ps] Suc.prems by auto
  have "verifier_fill (Suc k) i pf ps = Some ps'"
    using Suc.prems ps'(1) by (simp add: get_at_def set_at_def)
  moreover have "ps' ! j = (if i - 1 \<le> j \<and> j < i - 1 + Suc k then (fst (ps ! j), pf ! Suc j) else ps ! j)" for j
    using Suc.prems unfolding ps'(3) by (cases "j = i - 1") auto
  ultimately show ?case using ps'(2) by simp
qed auto

definition true_proof :: "('h \<Rightarrow> 'h \<Rightarrow> 'h) \<Rightarrow> 'h list \<Rightarrow> 'h list \<Rightarrow> bool" where
  "true_proof P hs pf \<longleftrightarrow> length pf = lss_proof_size (length hs) \<and> pf ! 0 = hs ! 0 \<and>
     (\<forall>t. 2 ^ t < length hs \<longrightarrow> pf ! Suc t = span P hs (2 ^ t) (min (length hs) (2 ^ Suc t)))"

lemma verifier_init_inv:
  assumes "true_proof P hs pf" "2 \<le> length hs" "length hs < 2 ^ 32" "length (junk (met0 (length hs))) = met0 (length hs)"
  shows "\<exists>V. lss_verifier_init steps (length hs) pf junk =
      Some \<lparr>ver_steps = steps, ver_leaves = length hs, ver_counter = 0, ver_pairs = V\<rparr> \<and> ver_inv P hs 0 V"
proof -
  let ?n = "length hs" let ?J = "junk (met0 ?n)" let ?J1 = "?J[0 := (pf ! 0, snd (?J ! 0))]"
  have n0: "0 < ?n" using assms(2) by linarith
  have s: "lss_proof_size ?n = 1 + met0 (?n - 1)" by (rule proof_size_eq [OF n0 assms(3)])
  have len: "length pf = 1 + met0 (?n - 1)" using assms(1) s by (simp add: true_proof_def)
  have m0: "0 < met0 ?n" using n0 by (cases "met0 ?n") auto
  have "met0 (?n - 1) \<le> met0 ?n" unfolding met0_le_iff using less_exp_met0 [of ?n] by linarith
  then obtain V where V: "verifier_fill (met0 (?n - 1)) 1 pf ?J1 = Some V" "length V = length ?J1"
      "\<And>j. V ! j = (if j < met0 (?n - 1) then (fst (?J1 ! j), pf ! Suc j) else ?J1 ! j)"
    using verifier_fill_spec [of 1 "met0 (?n - 1)" pf ?J1] len assms(4) by auto
  have "lss_verifier_init steps ?n pf junk = Some \<lparr>ver_steps = steps, ver_leaves = ?n, ver_counter = 0, ver_pairs = V\<rparr>"
    using V(1) m0 len assms(4) s by (simp add: lss_verifier_init_def get_at_def set_at_def)
  moreover have "ver_inv P hs 0 V"
    unfolding ver_inv_def Let_def
  proof (intro conjI allI impI)
    show "length V = met0 ?n" using V(2) assms(4) by simp
    fix h assume h: "block_at 0 h + 2 ^ h < ?n"
    have "0 + 2 ^ h - 1 < (2::nat) ^ Suc h" by (simp add: less_imp_diff_less)
    then have b: "block_at 0 h = 0" unfolding block_at_def by (simp only: div_less mult_0)
    have "\<not> ?n - 1 < 2 ^ h" using h by (simp add: b)
    then have hm: "h < met0 (?n - 1)" unfolding met0_le_iff [symmetric] by simp
    show "snd (V ! h) = span P hs (block_at 0 h + 2 ^ h) (min ?n (block_at 0 h + 2 ^ h + 2 ^ h))"
      using assms(1) h hm unfolding V(3) b true_proof_def by (simp add: mult_2)
    assume "block_at 0 h \<noteq> 0 \<or> h = 0"
    then have "h = 0" using b by simp
    then show "fst (V ! h) = span P hs (block_at 0 h) (block_at 0 h + 2 ^ h)"
      using assms(1,4) hm m0 span_leaf [OF n0, of P] unfolding V(3) b true_proof_def by (simp add: block_at_def)
  qed
  ultimately show ?thesis by blast
qed

lemma pair_start: "0 < c \<Longrightarrow> 2 ^ Suc (tz_w c) dvd c + 2 ^ tz_w c"
proof -
  assume "0 < c"
  then have z: "2 ^ tz_w c dvd c" "bit c (tz_w c)" using tz_w_spec [of c] by auto
  have "odd (c div 2 ^ tz_w c)" using z(2) by (simp add: bit_odd_div)
  then obtain k where k: "c div 2 ^ tz_w c = 2 * k + 1" by (rule oddE)
  have "c = c div 2 ^ tz_w c * 2 ^ tz_w c" using z(1) by simp
  then have "c + 2 ^ tz_w c = 2 ^ Suc (tz_w c) * (k + 1)" unfolding k by (simp add: algebra_simps)
  then show ?thesis by (metis dvd_triv_left)
qed

lemma expect_eq:
  assumes "c < n" "n < 2 ^ 30"
  shows "lss_expect_pair n c \<longleftrightarrow> 0 < c \<and> c + 2 * 2 ^ tz_w c < n"
proof (cases "c = 0")
  case False
  then have "2 ^ tz_w c \<le> c" using tz_w_spec [of c] by (auto intro: dvd_imp_le)
  moreover have "n < 1073741824" using assms(2) by simp
  ultimately have "c + 2 * 2 ^ tz_w c < 4294967296" using assms(1) by linarith
  then show ?thesis using False by (simp add: lss_expect_pair_def w32_def)
qed (simp add: lss_expect_pair_def)

text \<open>One step of the verifier, when what it holds is true.\<close>

definition pair_ok :: "blake3 \<Rightarrow> lss_hash list \<Rightarrow> nat \<Rightarrow> lss_pair option \<Rightarrow> bool" where
  "pair_ok B hs c pair \<longleftrightarrow>
     (case pair of None \<Rightarrow> \<not> lss_expect_pair (length hs) c
      | Some (l, r) \<Rightarrow> lss_expect_pair (length hs) c \<and>
          parent_hash B l r = span (parent_hash B) hs (c + 2 ^ tz_w c) (min (length hs) (c + 3 * 2 ^ tz_w c)))"

definition stepped :: "lss_verifier \<Rightarrow> lss_pair option \<Rightarrow> lss_verifier" where
  "stepped v pair =
     v\<lparr>ver_counter := ver_counter v + 1,
       ver_pairs := (case pair of None \<Rightarrow> ver_pairs v | Some p \<Rightarrow> (ver_pairs v)[tz_w (ver_counter v) := p])\<rparr>"

lemma verifier_ingest_spec:
  assumes inv: "ver_inv (parent_hash B) hs (ver_counter v) (ver_pairs v)" and c: "ver_counter v < length hs"
    and n: "2 \<le> length hs" "length hs < 2 ^ 30" "ver_leaves v = length hs"
    and x: "subtree_root B leaf (of_nat (w32 (push_bit (ver_steps v) (ver_counter v)))) = Some x"
  shows "lss_verifier_ingest B v leaf pair =
    Some (if x = hs ! ver_counter v \<and> pair_ok B hs (ver_counter v) pair then (True, stepped v pair) else (False, v))"
proof -
  let ?P = "parent_hash B" let ?c = "ver_counter v" let ?t = "tz_w ?c"
  have n32: "length hs < 2 ^ 32" using n(2) by simp
  have "lss_verifier_check_hash v ?c 0 y = Some (span ?P hs ?c (min (length hs) (?c + 2 ^ 0)) = y)" for y
    by (rule check_hash_spec [OF inv _ _ _ c _ n(1) n32 n(3)]) simp_all
  moreover have "min (length hs) (?c + 2 ^ 0) = Suc ?c" using c by simp
  ultimately have leaf: "lss_verifier_check_hash v ?c 0 y = Some (hs ! ?c = y)" for y using span_leaf [OF c] by simp
  have inc: "w32 (?c + 1) = ?c + 1" using c n32 unfolding w32_def by simp
  show ?thesis
  proof (cases "x = hs ! ?c \<and> lss_expect_pair (length hs) ?c = (pair \<noteq> None) \<and> pair \<noteq> None")
    case False
    then show ?thesis using inc
      by (cases pair) (auto simp: lss_verifier_ingest_def x leaf n(3) pair_ok_def stepped_def split: option.splits)
  next
    case True
    then obtain l r where p: "pair = Some (l, r)" and e: "lss_expect_pair (length hs) ?c" by auto
    then have c0: "0 < ?c" and m: "?c + 2 * 2 ^ ?t < length hs" using expect_eq [OF c n(2)] by auto
    have start: "w32 (?c + 2 ^ ?t) = ?c + 2 ^ ?t" using m n32 unfolding w32_def by simp
    have sdv: "2 ^ (?t + 1) dvd ?c + 2 ^ ?t" using pair_start [OF c0] by simp
    have e3: "?c + 2 ^ ?t + 2 ^ (?t + 1) = ?c + 3 * 2 ^ ?t" by simp
    have "lss_verifier_check_hash v (?c + 2 ^ ?t) (?t + 1) (?P l r) =
        Some (span ?P hs (?c + 2 ^ ?t) (min (length hs) (?c + 2 ^ ?t + 2 ^ (?t + 1))) = ?P l r)"
      by (rule check_hash_spec [OF inv sdv _ _ _ _ n(1) n32 n(3)]) (use m c0 in simp_all)
    then have chk: "lss_verifier_check_hash v (?c + 2 ^ ?t) (?t + 1) (?P l r) =
        Some (span ?P hs (?c + 2 ^ ?t) (min (length hs) (?c + 3 * 2 ^ ?t)) = ?P l r)" unfolding e3 .
    have "2 ^ ?t < length hs" using m by linarith
    then have "\<not> met0 (length hs) \<le> ?t" unfolding met0_le_iff by simp
    then have "?t < length (ver_pairs v)" using inv by (simp add: ver_inv_def)
    then show ?thesis using True inc chk
      by (auto simp: lss_verifier_ingest_def x leaf n(3) pair_ok_def stepped_def p Let_def start set_at_def)
  qed
qed

section \<open>Building and verifying a message\<close>

text \<open>A message is built leaf by leaf; \<open>junk\<close> is what the array of trees holds before.\<close>

definition lss_build :: "blake3 \<Rightarrow> lss_hash list \<Rightarrow> u8 list \<Rightarrow> (lss_hash list \<times> lss_builder) option" where
  "lss_build B junk data =
     do { b \<leftarrow> transceive_loop B (leaf_count data) (lss_builder_init (leaf_count data) junk) data;
          lss_builder_finalize B b }"

primrec verify_all :: "blake3 \<Rightarrow> lss_verifier \<Rightarrow> (u8 list \<times> lss_pair option) list \<Rightarrow> (bool \<times> lss_verifier) option" where
  "verify_all B v [] = Some (True, v)"
| "verify_all B v (x # xs) =
     do { (ok, v1) \<leftarrow> lss_verifier_ingest B v (fst x) (snd x);
          if ok then verify_all B v1 xs else Some (False, v1) }"

definition leaf_at :: "u8 list \<Rightarrow> nat \<Rightarrow> u8 list" where
  "leaf_at data i = take 1024 (drop (1024 * i) data)"

definition true_pair :: "('h \<Rightarrow> 'h \<Rightarrow> 'h) \<Rightarrow> 'h list \<Rightarrow> nat \<Rightarrow> 'h \<times> 'h" where
  "true_pair P hs i =
     (span P hs (i + 2 ^ tz_w i) (i + 2 * 2 ^ tz_w i), span P hs (i + 2 * 2 ^ tz_w i) (min (length hs) (i + 3 * 2 ^ tz_w i)))"

lemma build_records:
  assumes "1024 < length data" "length data + 1023 < 2 ^ 32" "length junk = 32"
  shows "\<exists>pf b. lss_build B junk data = Some (pf, b) \<and> leaves b = leaf_count data \<and> length (pairs b) = leaf_count data \<and>
    length pf = lss_proof_size (leaf_count data) \<and>
    recorded (parent_hash B) (leaf_hashes B data 0) (spine (leaf_count data)) (pairs b) pf"
proof -
  let ?hs = "leaf_hashes B data 0" let ?n = "leaf_count data" let ?b = "lss_builder_init ?n junk"
  have n: "?n < 2 ^ 31" using assms(1,2) by (simp add: leaf_count_def)
  have ne: "data \<noteq> []" using assms(1) by auto
  have inv: "bil_inv B ?hs ?b" by (rule init_inv) (use n assms(3) in simp_all)
  have c0: "counter ?b = 0" and l0: "leaves ?b = ?n" by (simp_all add: lss_builder_init_def)
  obtain b where b: "transceive_loop B ?n ?b data = Some b" "bil_inv B ?hs b" "counter b = ?n" "leaves b = ?n"
    using transceive_loop_records [OF assms(2) ne inv, of ?n] c0 l0 by auto
  have cn: "counter b = length ?hs" using b(3) by simp
  from finalize_records [OF b(2) cn] obtain pf b' where f: "lss_builder_finalize B b = Some (pf, b')" "pf = proof_a b'"
    "bil_wf b' ?n" "leaves b' = ?n" "recorded (parent_hash B) ?hs (spine ?n) (pairs b') pf"
    using b(4) by auto
  have "lss_build B junk data = Some (pf, b')" using b(1) f(1) by (simp add: lss_build_def)
  moreover have "length (pairs b') = ?n" "length pf = lss_proof_size ?n" using f(2-4) by (simp_all add: bil_wf_def)
  ultimately show ?thesis using f(4,5) by blast
qed

lemma two_leaves: "1024 < length data \<Longrightarrow> 2 \<le> leaf_count data"
  by (simp add: leaf_count_def)

lemma leaves_bound: "length data + 1023 < 2 ^ 32 \<Longrightarrow> leaf_count data < 2 ^ 30"
  by (simp add: leaf_count_def)

lemma recorded_proof:
  assumes "recorded P hs (spine (length hs)) ps pf" "length pf = lss_proof_size (length hs)" "2 \<le> length hs"
  shows "true_proof P hs pf"
  unfolding true_proof_def
proof (intro conjI allI impI)
  have r: "records P hs 0 t ps pf" if "2 ^ t < length hs" for t
    using assms(1) that unfolding recorded_def by (simp add: spine_def)
  show "pf ! 0 = hs ! 0" using r [of 0] assms(3) by (simp add: records_def Let_def)
  fix t assume "2 ^ t < length hs"
  then show "pf ! Suc t = span P hs (2 ^ t) (min (length hs) (2 ^ Suc t))" using r [of t] by (simp add: records_def Let_def)
qed (rule assms(2))

lemma recorded_pair:
  assumes "recorded P hs (spine (length hs)) ps pf" "0 < i" "i + 2 * 2 ^ tz_w i < length hs"
  shows "ps ! i = true_pair P hs i"
proof -
  let ?t = "tz_w i"
  have z: "2 ^ ?t dvd i" "bit i ?t" using tz_w_spec [OF assms(2)] by auto
  have "odd (i div 2 ^ ?t)" using z(2) by (simp add: bit_odd_div)
  then obtain m where m: "i div 2 ^ ?t = 2 * m + 1" by (rule oddE)
  have "i = i div 2 ^ ?t * 2 ^ ?t" using z(1) by simp
  then have i: "i + 2 ^ ?t = Suc m * 2 ^ Suc ?t" unfolding m by (simp add: algebra_simps)
  have e: "i + 2 ^ ?t + 2 ^ ?t = i + 2 * 2 ^ ?t" "i + 2 ^ ?t + 2 ^ Suc ?t = i + 3 * 2 ^ ?t" "i + 2 ^ ?t - 2 ^ ?t = i" by simp_all
  have "spine (length hs) (Suc m) ?t" unfolding spine_def i [symmetric] e using assms(3) .
  then have "records P hs (Suc m) ?t ps pf" using assms(1) unfolding recorded_def by blast
  then show ?thesis unfolding records_def i [symmetric] Let_def e true_pair_def by simp
qed

lemma builder_pair_eq:
  assumes "recorded P (hs :: lss_hash list) (spine (length hs)) (pairs b) pf" "length (pairs b) = length hs" "leaves b = length hs"
    "length hs < 2 ^ 30" "i < length hs"
  shows "lss_builder_pair b i = Some (if lss_expect_pair (length hs) i then Some (true_pair P hs i) else None)"
  using recorded_pair [OF assms(1)] expect_eq [OF assms(5,4)] assms(2,3,5) by (simp add: lss_builder_pair_def get_at_def)

lemma true_pair_ok:
  assumes "lss_expect_pair (length hs) i" "i < length hs" "length hs < 2 ^ 30"
  shows "pair_ok B hs i (Some (true_pair (parent_hash B) hs i))"
proof -
  have i: "0 < i" "i + 2 * 2 ^ tz_w i < length hs" using assms expect_eq by auto
  have e: "i + 2 ^ tz_w i + 2 ^ tz_w i = i + 2 * 2 ^ tz_w i" by simp
  have "span (parent_hash B) hs (i + 2 ^ tz_w i) (min (length hs) (i + 3 * 2 ^ tz_w i)) =
      parent_hash B (span (parent_hash B) hs (i + 2 ^ tz_w i) (i + 2 ^ tz_w i + 2 ^ tz_w i))
        (span (parent_hash B) hs (i + 2 ^ tz_w i + 2 ^ tz_w i) (min (length hs) (i + 3 * 2 ^ tz_w i)))"
    by (rule span_split) (use i(2) in simp_all)
  then show ?thesis unfolding e using assms(1) by (simp add: pair_ok_def true_pair_def)
qed

lemma stepped_inv:
  assumes "ver_inv P hs (ver_counter v) (ver_pairs v)" "ver_counter v < length hs" "length hs < 2 ^ 30"
    "pair = (if lss_expect_pair (length hs) (ver_counter v) then Some (true_pair P hs (ver_counter v)) else None)"
  shows "ver_inv P hs (ver_counter (stepped v pair)) (ver_pairs (stepped v pair))"
proof (cases "lss_expect_pair (length hs) (ver_counter v)")
  case True
  then have c: "0 < ver_counter v" "ver_counter v + 2 * 2 ^ tz_w (ver_counter v) < length hs" using expect_eq [OF assms(2,3)] by auto
  have "2 ^ tz_w (ver_counter v) < length hs" using c(2) by linarith
  then have "\<not> met0 (length hs) \<le> tz_w (ver_counter v)" unfolding met0_le_iff by simp
  then have t: "tz_w (ver_counter v) < length (ver_pairs v)" using assms(1) by (simp add: ver_inv_def)
  show ?thesis using ver_inv_put [OF assms(1) c(1) t refl refl] True assms(4) by (simp add: stepped_def true_pair_def)
next
  case False
  then show ?thesis using ver_inv_keep [OF assms(1)] expect_eq [OF assms(2,3)] assms(4) by (auto simp: stepped_def)
qed

text \<open>A run over true leaves and true pairs is accepted.\<close>

lemma honest_run:
  assumes "2 \<le> length hs" "length hs < 2 ^ 30"
    "\<And>i. i < length hs \<Longrightarrow> subtree_root B (lf i) (of_nat (w32 (push_bit steps i))) = Some (hs ! i)"
    "\<And>i. i < length hs \<Longrightarrow> pr i = (if lss_expect_pair (length hs) i then Some (true_pair (parent_hash B) hs i) else None)"
  shows "ver_inv (parent_hash B) hs (ver_counter v) (ver_pairs v) \<Longrightarrow> ver_counter v + k = length hs \<Longrightarrow>
    ver_leaves v = length hs \<Longrightarrow> ver_steps v = steps \<Longrightarrow>
    \<exists>v'. verify_all B v (map (\<lambda>i. (lf i, pr i)) [ver_counter v..<length hs]) = Some (True, v') \<and> ver_counter v' = length hs"
proof (induction k arbitrary: v)
  case (Suc k)
  let ?c = "ver_counter v" let ?v = "stepped v (pr ?c)"
  have c: "?c < length hs" using Suc.prems(2) by simp
  have x: "subtree_root B (lf ?c) (of_nat (w32 (push_bit (ver_steps v) ?c))) = Some (hs ! ?c)"
    using assms(3) [OF c] Suc.prems(4) by simp
  have "pair_ok B hs ?c (pr ?c)"
    using true_pair_ok [OF _ c assms(2)] unfolding assms(4) [OF c] by (auto simp: pair_ok_def)
  then have step: "lss_verifier_ingest B v (lf ?c) (pr ?c) = Some (True, ?v)"
    using verifier_ingest_spec [OF Suc.prems(1) c assms(1,2) Suc.prems(3) x] by simp
  have v: "ver_counter ?v = Suc ?c" "ver_leaves ?v = length hs" "ver_steps ?v = steps"
    using Suc.prems by (simp_all add: stepped_def)
  have "ver_inv (parent_hash B) hs (ver_counter ?v) (ver_pairs ?v)"
    by (rule stepped_inv [OF Suc.prems(1) c assms(2) assms(4) [OF c]])
  then have "\<exists>v'. verify_all B ?v (map (\<lambda>i. (lf i, pr i)) [Suc ?c..<length hs]) = Some (True, v') \<and> ver_counter v' = length hs"
    using Suc.IH [of ?v] Suc.prems(2) v by simp
  then show ?case using c step by (simp add: upt_conv_Cons)
qed simp

section \<open>A verifier takes nothing false\<close>

text \<open>
  The compression function gives 64 bytes. \<open>tree_pairs\<close> are the children of the inner nodes of the tree, and
  \<open>hashed_pairs\<close> what is hashed for a proof and the pairs of a run: by the root of the proof, and by the
  check of each pair. A second preimage is one of these with the hash of one of those, and other bytes.
\<close>

definition b3_64 :: "blake3 \<Rightarrow> bool" where
  "b3_64 B \<longleftrightarrow> (\<forall>cv block len c flags. length (b3_compress B cv block len c flags) = 64)"

definition tree_pairs :: "blake3 \<Rightarrow> lss_hash list \<Rightarrow> lss_pair list" where
  "tree_pairs B hs =
     concat (map (\<lambda>k. map (\<lambda>a. (span (parent_hash B) hs a (a + 2 ^ k), span (parent_hash B) hs (a + 2 ^ k) (min (length hs) (a + 2 ^ Suc k))))
       (filter (\<lambda>a. 2 ^ Suc k dvd a \<and> a + 2 ^ k < length hs) [0..<length hs])) [0..<met0 (length hs)])"

definition hashed_pairs :: "blake3 \<Rightarrow> lss_hash list \<Rightarrow> (u8 list \<times> lss_pair option) list \<Rightarrow> lss_pair list" where
  "hashed_pairs B pf xs =
     map (\<lambda>k. (foldl (parent_hash B) (pf ! 0) (take k (drop 1 pf)), pf ! Suc k)) [0..<length pf - 1] @
     map (\<lambda>x. the (snd x)) (filter (\<lambda>x. snd x \<noteq> None) xs)"

definition second_preimage :: "blake3 \<Rightarrow> lss_hash list \<Rightarrow> lss_hash list \<Rightarrow> (u8 list \<times> lss_pair option) list \<Rightarrow> bool" where
  "second_preimage B hs pf xs \<longleftrightarrow>
     (\<exists>(l, r) \<in> set (hashed_pairs B pf xs). \<exists>(l1, r1) \<in> set (tree_pairs B hs).
        length (l @ r) = 64 \<and> length (l1 @ r1) = 64 \<and> l @ r \<noteq> l1 @ r1 \<and> parent_hash B l r = parent_hash B l1 r1)"

text \<open>Without one, pairs with the hash of an inner node are its children.\<close>

definition no_second :: "blake3 \<Rightarrow> lss_hash list \<Rightarrow> lss_pair set \<Rightarrow> bool" where
  "no_second B hs S \<longleftrightarrow>
     (\<forall>a k b l r. 2 ^ Suc k dvd a \<longrightarrow> a + 2 ^ k < b \<longrightarrow> b = min (length hs) (a + 2 ^ Suc k) \<longrightarrow> length l = 32 \<longrightarrow> length r = 32 \<longrightarrow>
        (l, r) \<in> S \<longrightarrow> parent_hash B l r = span (parent_hash B) hs a b \<longrightarrow>
        l = span (parent_hash B) hs a (a + 2 ^ k) \<and> r = span (parent_hash B) hs (a + 2 ^ k) b)"

definition pair_32 :: "lss_pair option \<Rightarrow> bool" where
  "pair_32 pair \<longleftrightarrow> (case pair of None \<Rightarrow> True | Some (l, r) \<Rightarrow> length l = 32 \<and> length r = 32)"

lemma length_leaf_hash: "b3_64 B \<Longrightarrow> length (leaf_hash B leaf c) = 32"
  by (simp add: b3_64_def leaf_hash_def case_prod_beta' Let_def)

lemma length_parent: "b3_64 B \<Longrightarrow> length (parent_hash B l r) = 32"
  by (simp add: b3_64_def parent_hash_def)

lemma length_span:
  assumes "b3_64 B" "\<forall>h \<in> set hs. length h = 32" "a < b" "b \<le> length hs"
  shows "length (span (parent_hash B) hs a b) = 32"
proof -
  let ?xs = "take (b - a) (drop a hs)"
  have "?xs \<noteq> []" using assms(3,4) by simp
  then have "hd ?xs \<in> set ?xs" by (rule hd_in_set)
  then have "hd ?xs \<in> set hs" by (meson in_set_dropD in_set_takeD)
  then show ?thesis unfolding span_def using assms(2) length_parent [OF assms(1)] by (subst mroot.simps) simp
qed

lemma tree_pairsI:
  assumes "k < met0 (length hs)" "2 ^ Suc k dvd a" "a + 2 ^ k < length hs"
  shows "(span (parent_hash B) hs a (a + 2 ^ k), span (parent_hash B) hs (a + 2 ^ k) (min (length hs) (a + 2 ^ Suc k))) \<in> set (tree_pairs B hs)"
proof -
  define g where "g = (\<lambda>k a. (span (parent_hash B) hs a (a + 2 ^ k), span (parent_hash B) hs (a + 2 ^ k) (min (length hs) (a + 2 ^ Suc k))))"
  have "g k a \<in> set (concat (map (\<lambda>k. map (g k) (filter (\<lambda>a. 2 ^ Suc k dvd a \<and> a + 2 ^ k < length hs) [0..<length hs])) [0..<met0 (length hs)]))"
    using assms by (auto intro!: bexI [of _ k])
  then show ?thesis unfolding tree_pairs_def g_def .
qed

lemma no_second_of:
  assumes b: "b3_64 B" "\<forall>h \<in> set hs. length h = 32" and no: "\<not> second_preimage B hs pf xs"
  shows "no_second B hs (set (hashed_pairs B pf xs))"
  unfolding no_second_def
proof (intro allI impI)
  fix a k c :: nat and l r :: lss_hash
  let ?P = "parent_hash B" let ?n = "length hs" let ?l = "span ?P hs a (a + 2 ^ k)" let ?r = "span ?P hs (a + 2 ^ k) c"
  assume a: "2 ^ Suc k dvd a" "a + 2 ^ k < c" "c = min ?n (a + 2 ^ Suc k)" "length l = 32" "length r = 32"
    "(l, r) \<in> set (hashed_pairs B pf xs)" "?P l r = span ?P hs a c"
  have n: "a + 2 ^ k < ?n" using a(2,3) by simp
  have "2 ^ k < ?n" using n by linarith
  then have "\<not> met0 ?n \<le> k" unfolding met0_le_iff by simp
  then have t: "(?l, ?r) \<in> set (tree_pairs B hs)" unfolding a(3) using a(1) n by (intro tree_pairsI) simp_all
  have "c \<le> ?n" using a(3) by simp
  then have lr: "length ?l = 32" "length ?r = 32" using length_span [OF b] a(2) by simp_all
  have "span ?P hs a c = ?P ?l ?r" by (rule span_split) (use a in simp_all)
  then have h: "?P l r = ?P ?l ?r" using a(7) by simp
  have "l @ r = ?l @ ?r"
  proof (rule ccontr)
    assume "l @ r \<noteq> ?l @ ?r"
    then have "second_preimage B hs pf xs" unfolding second_preimage_def
      by (intro bexI [OF _ a(6)] bexI [OF _ t] case_prodI) (use a(4,5) lr h in simp_all)
    then show False using no by simp
  qed
  then show "l = ?l \<and> r = ?r" using a(4) lr by simp
qed

lemma proof_of_root:
  assumes b: "b3_64 B" "no_second B hs (set (hashed_pairs B pf xs))" and n: "2 \<le> length hs" "length hs < 2 ^ 32"
    and pf: "length pf = lss_proof_size (length hs)" "\<forall>h \<in> set pf. length h = 32"
    and root: "lss_root B pf (lss_proof_size (length hs)) = Some (mroot (parent_hash B) hs)"
  shows "true_proof (parent_hash B) hs pf"
proof -
  let ?P = "parent_hash B" let ?n = "length hs" let ?s = "met0 (?n - 1)"
  let ?f = "\<lambda>k. foldl ?P (pf ! 0) (take k (drop 1 pf))"
  have s: "lss_proof_size ?n = Suc ?s" using proof_size_eq [of ?n] n by linarith
  have below: "2 ^ k < ?n" if "k < ?s" for k
  proof -
    have "\<not> ?s \<le> k" using that by simp
    then show ?thesis unfolding met0_le_iff using n(1) by simp
  qed
  have step: "?f (Suc k) = ?P (?f k) (pf ! Suc k)" if "k < ?s" for k
    using that pf(1) s by (simp add: take_Suc_conv_app_nth)
  have len: "length (?f k) = 32" if "k \<le> ?s" for k
  proof (cases k)
    case 0
    have "pf ! 0 \<in> set pf" using pf(1) s by (intro nth_mem) simp
    then show ?thesis using pf(2) 0 by simp
  next
    case (Suc j)
    then show ?thesis using step [of j] that length_parent [OF b(1)] by simp
  qed
  have "?n - 1 < 2 ^ ?s" by (rule less_exp_met0)
  then have "min ?n (2 ^ ?s) = ?n" by simp
  then have top: "?f ?s = span ?P hs 0 (min ?n (2 ^ ?s))"
    using root pf(1) s by (simp add: lss_root_def get_at_def span_all)
  have main: "d \<le> ?s \<Longrightarrow> ?f (?s - d) = span ?P hs 0 (min ?n (2 ^ (?s - d))) \<and>
      (\<forall>t. ?s - d \<le> t \<longrightarrow> t < ?s \<longrightarrow> pf ! Suc t = span ?P hs (2 ^ t) (min ?n (2 ^ Suc t)))" for d
  proof (induction d)
    case 0
    then show ?case using top by simp
  next
    case (Suc d)
    let ?k = "?s - Suc d"
    have k: "?k < ?s" "Suc ?k = ?s - d" using Suc.prems by auto
    have IH: "?f (Suc ?k) = span ?P hs 0 (min ?n (2 ^ Suc ?k))"
      "\<And>t. Suc ?k \<le> t \<Longrightarrow> t < ?s \<Longrightarrow> pf ! Suc t = span ?P hs (2 ^ t) (min ?n (2 ^ Suc t))"
      using Suc.IH Suc.prems unfolding k(2) by auto
    have l32: "length (pf ! Suc ?k) = 32" using pf s k(1) by simp
    have in_S: "(?f ?k, pf ! Suc ?k) \<in> set (hashed_pairs B pf xs)" using k(1) pf(1) s by (auto simp: hashed_pairs_def)
    have "?f ?k = span ?P hs 0 (2 ^ ?k) \<and> pf ! Suc ?k = span ?P hs (2 ^ ?k) (min ?n (2 ^ Suc ?k))"
      using b(2) [unfolded no_second_def, rule_format, of ?k 0 "min ?n (2 ^ Suc ?k)" "?f ?k" "pf ! Suc ?k"]
        in_S below [OF k(1)] len [of ?k] l32 step [OF k(1)] IH(1) by simp
    moreover have "t = ?k \<or> Suc ?k \<le> t" if "?k \<le> t" for t using that by auto
    ultimately show ?case using IH(2) below [OF k(1)] by (auto simp: min_absorb2)
  qed
  have n0: "0 < ?n" using n(1) by linarith
  have "min ?n 1 = 1" using n(1) by linarith
  then have "pf ! 0 = hs ! 0" using main [of ?s] span_leaf [OF n0, of ?P] by simp
  moreover have "pf ! Suc t = span ?P hs (2 ^ t) (min ?n (2 ^ Suc t))" if "2 ^ t < ?n" for t
  proof -
    have "\<not> ?s \<le> t" unfolding met0_le_iff using that by simp
    then show ?thesis using main [of ?s] by simp
  qed
  ultimately show ?thesis using pf(1) by (simp add: true_proof_def)
qed

lemma pair_is_true:
  assumes "no_second B hs S" "pair_ok B hs c pair" "pair_32 pair" "c < length hs" "length hs < 2 ^ 30" "\<forall>p. pair = Some p \<longrightarrow> p \<in> S"
  shows "pair = (if lss_expect_pair (length hs) c then Some (true_pair (parent_hash B) hs c) else None)"
proof (cases pair)
  case None
  then show ?thesis using assms(2) by (simp add: pair_ok_def)
next
  case (Some p)
  obtain l r where p: "p = (l, r)" by (cases p)
  let ?t = "tz_w c"
  have e: "lss_expect_pair (length hs) c" and h: "parent_hash B l r = span (parent_hash B) hs (c + 2 ^ ?t) (min (length hs) (c + 3 * 2 ^ ?t))"
    using assms(2) Some p by (simp_all add: pair_ok_def)
  have c: "0 < c" "c + 2 * 2 ^ ?t < length hs" using e expect_eq [OF assms(4,5)] by auto
  have a: "c + 2 ^ ?t + 2 ^ ?t = c + 2 * 2 ^ ?t" "c + 2 ^ ?t + 2 ^ Suc ?t = c + 3 * 2 ^ ?t" by simp_all
  have "l = span (parent_hash B) hs (c + 2 ^ ?t) (c + 2 ^ ?t + 2 ^ ?t) \<and>
      r = span (parent_hash B) hs (c + 2 ^ ?t + 2 ^ ?t) (min (length hs) (c + 3 * 2 ^ ?t))"
    by (rule assms(1) [unfolded no_second_def, rule_format])
      (use pair_start [OF c(1)] c(2) h assms(3,6) Some p in \<open>simp_all only: a pair_32_def option.case prod.case\<close>, simp_all)
  then show ?thesis using e Some p by (simp add: true_pair_def a)
qed

lemma sound_run:
  assumes "no_second B hs S" "2 \<le> length hs" "length hs < 2 ^ 30"
  shows "ver_inv (parent_hash B) hs (ver_counter v) (ver_pairs v) \<Longrightarrow> ver_counter v + length xs \<le> length hs \<Longrightarrow>
    ver_leaves v = length hs \<Longrightarrow> \<forall>x \<in> set xs. length (fst x) + 1023 < 2 ^ 32 \<and> pair_32 (snd x) \<and> (\<forall>p. snd x = Some p \<longrightarrow> p \<in> S) \<Longrightarrow>
    verify_all B v xs = Some (True, v') \<Longrightarrow> j < length xs \<Longrightarrow>
    subtree_root B (fst (xs ! j)) (of_nat (w32 (push_bit (ver_steps v) (ver_counter v + j)))) = Some (hs ! (ver_counter v + j)) \<and>
    snd (xs ! j) = (if lss_expect_pair (length hs) (ver_counter v + j) then Some (true_pair (parent_hash B) hs (ver_counter v + j)) else None)"
proof (induction xs arbitrary: v j)
  case (Cons x xs)
  let ?c = "ver_counter v" let ?v = "stepped v (snd x)"
  have c: "?c < length hs" using Cons.prems(2) by simp
  obtain h where h: "subtree_root B (fst x) (of_nat (w32 (push_bit (ver_steps v) ?c))) = Some h"
    using subtree_root_eq [of "fst x"] Cons.prems(4) by simp
  note spec = verifier_ingest_spec [OF Cons.prems(1) c assms(2,3) Cons.prems(3) h, of "snd x"]
  have ok: "h = hs ! ?c \<and> pair_ok B hs ?c (snd x)" using Cons.prems(5) spec by (auto split: if_splits)
  then have rest: "verify_all B ?v xs = Some (True, v')" using Cons.prems(5) spec by simp
  have pr: "snd x = (if lss_expect_pair (length hs) ?c then Some (true_pair (parent_hash B) hs ?c) else None)"
    by (rule pair_is_true [OF assms(1)]) (use ok c assms(3) Cons.prems(4) in simp_all)
  have inv: "ver_inv (parent_hash B) hs (ver_counter ?v) (ver_pairs ?v)"
    by (rule stepped_inv [OF Cons.prems(1) c assms(3) pr])
  have v: "ver_counter ?v = Suc ?c" "ver_leaves ?v = length hs" "ver_steps ?v = ver_steps v"
    using Cons.prems(3) by (simp_all add: stepped_def)
  show ?case
  proof (cases j)
    case 0
    then show ?thesis using h ok pr by simp
  next
    case (Suc i)
    then have "i < length xs" using Cons.prems(6) by simp
    then show ?thesis using Cons.IH [OF inv _ v(2) _ rest, of i] Cons.prems(2,4) v Suc by simp
  qed
qed simp

lemma leaf_hashes_slice:
  assumes "a < b" "b \<le> leaf_count data"
  shows "take (b - a) (drop a (leaf_hashes B data c)) = leaf_hashes B (take (1024 * (b - a)) (drop (1024 * a) data)) (c + of_nat a)"
proof -
  let ?d = "drop (1024 * a) data"
  have d: "drop a (leaf_hashes B data c) = leaf_hashes B ?d (c + of_nat a)" by (rule drop_leaf_hashes) (use assms in simp)
  have cnt: "leaf_count ?d = leaf_count data - a" using arg_cong [OF d, of length] by simp
  show ?thesis
  proof (cases "b = leaf_count data")
    case True
    have "leaf_count ?d = b - a" using cnt True by simp
    then have "length ?d \<le> 1024 * (b - a)" by (simp add: leaf_count_def max_def split: if_splits)
    then show ?thesis using cnt True unfolding d by simp
  next
    case False
    then show ?thesis using assms cnt take_leaf_hashes [of "b - a" ?d] unfolding d by simp
  qed
qed

lemma span_subtree:
  assumes "a < b" "b \<le> leaf_count data" "length data + 1023 < 2 ^ 32"
  shows "subtree_root B (take (1024 * (b - a)) (drop (1024 * a) data)) (of_nat a) = Some (span (parent_hash B) (leaf_hashes B data 0) a b)"
proof -
  let ?d = "take (1024 * (b - a)) (drop (1024 * a) data)"
  have "length ?d \<le> length data" by simp
  then have len: "length ?d + 1023 < 2 ^ 32" using assms(3) by linarith
  show ?thesis using leaf_hashes_slice [OF assms(1,2), of B 0] unfolding subtree_root_eq [OF len] span_def by simp
qed

section \<open>Properties\<close>

lemma honest_message:
  assumes "1024 < length data" "length data + 1023 < 2 ^ 32" "length junk = 32" "\<forall>k. length (vjunk k) = k"
  shows "\<exists>pf b v v'. lss_build B junk data = Some (pf, b) \<and> length pf = lss_proof_size (leaf_count data) \<and>
    true_proof (parent_hash B) (leaf_hashes B data 0) pf \<and>
    lss_root B pf (lss_proof_size (leaf_count data)) = subtree_root B data 0 \<and>
    (\<forall>i < leaf_count data. lss_builder_pair b i = Some (if lss_expect_pair (leaf_count data) i
        then Some (true_pair (parent_hash B) (leaf_hashes B data 0) i) else None)) \<and>
    lss_verifier_init 0 (leaf_count data) pf vjunk = Some v \<and>
    verify_all B v (map (\<lambda>i. (leaf_at data i, the (lss_builder_pair b i))) [0..<leaf_count data]) = Some (True, v') \<and>
    ver_counter v' = leaf_count data"
proof -
  let ?hs = "leaf_hashes B data 0" let ?n = "leaf_count data" let ?P = "parent_hash B"
  have n: "2 \<le> ?n" "?n < 2 ^ 30" using two_leaves [OF assms(1)] leaves_bound [OF assms(2)] .
  have n32: "?n < 2 ^ 32" using n(2) by simp
  obtain pf b where b: "lss_build B junk data = Some (pf, b)" "leaves b = ?n" "length (pairs b) = ?n" "length pf = lss_proof_size ?n"
    "recorded ?P ?hs (spine ?n) (pairs b) pf"
    using build_records [OF assms(1-3)] by blast
  have r: "recorded ?P ?hs (spine (length ?hs)) (pairs b) pf" using b(5) by simp
  have tp: "true_proof ?P ?hs pf" by (rule recorded_proof [OF r]) (use b(4) n in simp_all)
  have root: "lss_root B pf (lss_proof_size ?n) = subtree_root B data 0"
    using root_of_records [OF r] n n32 b(4) subtree_root_eq [OF assms(2)] by simp
  have pr: "lss_builder_pair b i = Some (if lss_expect_pair ?n i then Some (true_pair ?P ?hs i) else None)" if "i < ?n" for i
    using builder_pair_eq [OF r] b(2,3) n(2) that by simp
  obtain V where V: "lss_verifier_init 0 ?n pf vjunk = Some \<lparr>ver_steps = 0, ver_leaves = ?n, ver_counter = 0, ver_pairs = V\<rparr>"
    "ver_inv ?P ?hs 0 V"
    using verifier_init_inv [OF tp, of vjunk 0] n n32 assms(4) by auto
  let ?v = "\<lparr>ver_steps = 0, ver_leaves = ?n, ver_counter = 0, ver_pairs = V\<rparr>"
  have leaf: "subtree_root B (leaf_at data i) (of_nat (w32 (push_bit 0 i))) = Some (?hs ! i)" if "i < length ?hs" for i
    using span_subtree [of i "Suc i" data B] that assms(2) n(2) by (simp add: leaf_at_def w32_def)
  have "\<exists>v'. verify_all B ?v (map (\<lambda>i. (leaf_at data i, the (lss_builder_pair b i))) [ver_counter ?v..<length ?hs]) = Some (True, v') \<and>
      ver_counter v' = length ?hs"
    by (rule honest_run [where steps = 0 and k = ?n]) (use n leaf pr V(2) in simp_all)
  then show ?thesis using b(1,4) tp root pr V(1) by auto
qed

text \<open>
  C22: The proof of a built message has its root. For a message of two leaves or more, the
  incremental builder, fed leaf by leaf and finalized, returns without leaving its arrays, and the
  proof it makes hashes to the root that the recursive definition gives for the whole message.
\<close>
theorem lss_builder_root:
  assumes "1024 < length data" "length data + 1023 < 2 ^ 32" "length junk = 32"
  shows "\<exists>pf b root. lss_build B junk data = Some (pf, b) \<and> subtree_root B data 0 = Some root \<and>
    lss_root B pf (lss_proof_size (leaf_count data)) = Some root"
  using honest_message [OF assms, of "\<lambda>k. replicate k undefined" B] subtree_root_eq [OF assms(2), of B 0] by auto

text \<open>
  C23: The pairs of a built message. The builder has a pair for exactly the leaves for which one
  is expected; for leaf \<open>i\<close>, with \<open>h\<close> trailing zeros, it holds the roots of the \<open>2 ^ h\<close> leaves
  from \<open>i + 2 ^ h\<close> on and of the up to \<open>2 ^ h\<close> leaves after them.
\<close>
theorem lss_builder_pairs:
  assumes "1024 < length data" "length data + 1023 < 2 ^ 32" "length junk = 32" "i < leaf_count data"
  shows "\<exists>pf b. lss_build B junk data = Some (pf, b) \<and>
    (if lss_expect_pair (leaf_count data) i
     then \<exists>l r. lss_builder_pair b i = Some (Some (l, r)) \<and>
       subtree_root B (take (1024 * 2 ^ tz_w i) (drop (1024 * (i + 2 ^ tz_w i)) data)) (of_nat (i + 2 ^ tz_w i)) = Some l \<and>
       subtree_root B (take (1024 * 2 ^ tz_w i) (drop (1024 * (i + 2 * 2 ^ tz_w i)) data)) (of_nat (i + 2 * 2 ^ tz_w i)) = Some r
     else lss_builder_pair b i = Some None)"
proof -
  let ?hs = "leaf_hashes B data 0" let ?n = "leaf_count data" let ?P = "parent_hash B" let ?t = "tz_w i"
  obtain pf b where b: "lss_build B junk data = Some (pf, b)"
    "lss_builder_pair b i = Some (if lss_expect_pair ?n i then Some (true_pair ?P ?hs i) else None)"
    using honest_message [OF assms(1-3), of "\<lambda>k. replicate k undefined" B] assms(4) by auto
  show ?thesis
  proof (cases "lss_expect_pair ?n i")
    case True
    then have i: "0 < i" "i + 2 * 2 ^ ?t < ?n" using expect_eq [OF assms(4) leaves_bound [OF assms(2)]] by auto
    let ?a = "i + 2 ^ ?t" let ?m = "i + 2 * 2 ^ ?t" let ?e = "min ?n (i + 3 * 2 ^ ?t)"
    have l: "subtree_root B (take (1024 * 2 ^ ?t) (drop (1024 * ?a) data)) (of_nat ?a) = Some (span ?P ?hs ?a ?m)"
      using span_subtree [of ?a ?m data B] i(2) assms(2) by simp
    have e: "?m < ?e" "?e \<le> ?n" using i(2) by auto
    have "take (1024 * (?e - ?m)) (drop (1024 * ?m) data) = take (1024 * 2 ^ ?t) (drop (1024 * ?m) data)"
    proof (cases "i + 3 * 2 ^ ?t \<le> ?n")
      case True
      then have "?e - ?m = 2 ^ ?t" by (simp add: min_absorb2)
      then show ?thesis by simp
    next
      case False
      then have ?thesis if "length data \<le> 1024 * ?n" using that by (simp add: min_absorb1 diff_mult_distrib2)
      moreover have "length data \<le> 1024 * ?n" by (simp add: leaf_count_def)
      ultimately show ?thesis by blast
    qed
    then have r: "subtree_root B (take (1024 * 2 ^ ?t) (drop (1024 * ?m) data)) (of_nat ?m) = Some (span ?P ?hs ?m ?e)"
      using span_subtree [OF e assms(2), of B] by (simp only:)
    show ?thesis using True b l r by (simp add: true_pair_def)
  next
    case False
    then show ?thesis using b by simp
  qed
qed

text \<open>A hash function for the examples: every leaf has the same hash, and one pair has a parent of its own.\<close>

definition toy_b3 :: blake3 where
  "toy_b3 = \<lparr>b3_output = \<lambda>leaf cv counter. (cv, [], 0, counter, 0),
     b3_compress = \<lambda>cv block len c flags. replicate 64 (if flags = 0 then 1 else if block = replicate 64 1 then 2 else 3)\<rparr>"

lemma toy_leaf: "leaf_hash toy_b3 leaf c = replicate 32 1"
  by (simp add: leaf_hash_def toy_b3_def)

lemma toy_parent: "parent_hash toy_b3 l r = replicate 32 (if l @ r = replicate 64 1 then 2 else 3)"
  by (simp add: parent_hash_def toy_b3_def)

lemma toy_hashes: "leaf_hashes toy_b3 data c = replicate (leaf_count data) (replicate 32 1)"
  by (simp add: leaf_hashes_def toy_leaf map_replicate_const)

lemma toy_64: "b3_64 toy_b3"
  by (simp add: b3_64_def toy_b3_def)

lemma toy_no_second:
  "\<not> second_preimage toy_b3 [replicate 32 1, replicate 32 1] [replicate 32 1, replicate 32 1] [(x, None), (y, None)]"
proof -
  let ?h = "replicate 32 1 :: lss_hash" let ?hs = "[?h, ?h]"
  have m: "met0 (length ?hs) = 2" by (simp add: met0.simps)
  have "tree_pairs toy_b3 ?hs = [(span (parent_hash toy_b3) ?hs 0 1, span (parent_hash toy_b3) ?hs 1 2)]"
    unfolding tree_pairs_def m by (simp add: upt_rec numeral_2_eq_2)
  moreover have "span (parent_hash toy_b3) ?hs 0 1 = ?h" "span (parent_hash toy_b3) ?hs 1 2 = ?h"
    using span_leaf [of 0 ?hs] span_leaf [of 1 ?hs] by (simp_all add: numeral_2_eq_2)
  ultimately have "tree_pairs toy_b3 ?hs = [(?h, ?h)]" by simp
  moreover have "hashed_pairs toy_b3 ?hs [(x, None), (y, None)] = [(?h, ?h)]" by (simp add: hashed_pairs_def)
  ultimately show ?thesis by (simp add: second_preimage_def)
qed

lemma lss_builder_root_witness:
  "\<exists>pf b root. lss_build toy_b3 (replicate 32 []) (replicate 5000 7) = Some (pf, b) \<and>
    subtree_root toy_b3 (replicate 5000 7) 0 = Some root \<and> lss_root toy_b3 pf (lss_proof_size 5) = Some root"
  using lss_builder_root [of "replicate 5000 7" "replicate 32 []" toy_b3] by (simp add: leaf_count_def)

lemma lss_builder_pairs_witness:
  "\<exists>pf b l r. lss_build toy_b3 (replicate 32 []) (replicate 3073 7) = Some (pf, b) \<and> lss_builder_pair b 1 = Some (Some (l, r)) \<and>
    subtree_root toy_b3 (replicate 1024 7) 2 = Some l \<and> subtree_root toy_b3 [7] 3 = Some r"
proof -
  have t: "tz_w (Suc 0) = 0" by (simp add: tz_w.simps)
  have "lss_expect_pair 4 1" by (simp add: lss_expect_pair_def t w32_def)
  moreover have "leaf_count (replicate 3073 7) = 4" by (simp add: leaf_count_def)
  ultimately show ?thesis
    using lss_builder_pairs [of "replicate 3073 7" "replicate 32 []" 1 toy_b3] by (auto simp: t)
qed

text \<open>
  C21: The verifier accepts what the builder makes. Started from the proof of a message of two
  leaves or more, it takes every leaf of the message in order, each with the pair that the builder
  has for it, and reads no pair that it does not hold, whatever the number of leaves and the odd
  pairs of their tree.
\<close>
theorem lss_honest_accepted:
  assumes "1024 < length data" "length data + 1023 < 2 ^ 32" "length junk = 32" "\<forall>k. length (vjunk k) = k"
  shows "\<exists>pf b v v'. lss_build B junk data = Some (pf, b) \<and> lss_verifier_init 0 (leaf_count data) pf vjunk = Some v \<and>
    verify_all B v (map (\<lambda>i. (leaf_at data i, the (lss_builder_pair b i))) [0..<leaf_count data]) = Some (True, v') \<and>
    ver_counter v' = leaf_count data"
  using honest_message [OF assms, of B] by blast

lemma lss_honest_accepted_witness:
  "\<exists>pf b v v'. lss_build toy_b3 (replicate 32 []) (replicate 7000 9) = Some (pf, b) \<and>
    lss_verifier_init 0 7 pf (\<lambda>k. replicate k ([], [])) = Some v \<and>
    verify_all toy_b3 v (map (\<lambda>i. (leaf_at (replicate 7000 9) i, the (lss_builder_pair b i))) [0..<7]) = Some (True, v') \<and>
    ver_counter v' = 7"
  using lss_honest_accepted [of "replicate 7000 9" "replicate 32 []" "\<lambda>k. replicate k ([], [])" toy_b3]
  by (simp add: leaf_count_def)

text \<open>
  C20: A verifier takes no false leaf. It starts from a proof, from anyone, that hashes to the
  root of the message. Every leaf that it accepts, with whatever pairs, has the hash of the leaf of the message
  at that place; or else, among what was hashed for that proof and those pairs, there are 64 bytes
  that differ from the two children of a node of the tree of the message and have their hash: a second
  preimage for BLAKE3, written out in the messages that were sent.
\<close>
theorem lss_verifier_sound:
  assumes "b3_64 B" "1024 < length data" "length data + 1023 < 2 ^ 32"
    and "length pf = lss_proof_size (leaf_count data)" "\<forall>h \<in> set pf. length h = 32"
    and "lss_root B pf (lss_proof_size (leaf_count data)) = subtree_root B data 0"
    and "\<forall>k. length (vjunk k) = k" "lss_verifier_init 0 (leaf_count data) pf vjunk = Some v"
    and "\<forall>x \<in> set xs. length (fst x) + 1023 < 2 ^ 32 \<and> pair_32 (snd x)" "length xs \<le> leaf_count data"
    and "verify_all B v xs = Some (True, v')"
  shows "(\<forall>j < length xs. subtree_root B (fst (xs ! j)) (of_nat j) = Some (leaf_hash B (leaf_at data j) (of_nat j))) \<or>
    second_preimage B (leaf_hashes B data 0) pf xs"
proof (rule disjCI)
  let ?hs = "leaf_hashes B data 0" let ?n = "leaf_count data"
  assume no: "\<not> second_preimage B ?hs pf xs"
  have h32: "\<forall>h \<in> set ?hs. length h = 32" using assms(1) by (auto simp: leaf_hashes_def length_leaf_hash)
  note ns = no_second_of [OF assms(1) h32 no]
  have n: "2 \<le> length ?hs" "length ?hs < 2 ^ 30" using two_leaves [OF assms(2)] leaves_bound [OF assms(3)] by simp_all
  have n32: "length ?hs < 2 ^ 32" using n(2) by simp
  have tp: "true_proof (parent_hash B) ?hs pf"
    by (rule proof_of_root [OF assms(1) ns n(1) n32]) (use assms(4-6) subtree_root_eq [OF assms(3)] in simp_all)
  obtain V where V: "v = \<lparr>ver_steps = 0, ver_leaves = ?n, ver_counter = 0, ver_pairs = V\<rparr>" "ver_inv (parent_hash B) ?hs 0 V"
    using verifier_init_inv [OF tp n(1) n32, of vjunk 0] assms(7,8) by auto
  have S: "\<forall>x \<in> set xs. length (fst x) + 1023 < 2 ^ 32 \<and> pair_32 (snd x) \<and> (\<forall>p. snd x = Some p \<longrightarrow> p \<in> set (hashed_pairs B pf xs))"
  proof
    fix x assume x: "x \<in> set xs"
    have "p \<in> set (hashed_pairs B pf xs)" if "snd x = Some p" for p
      using x that unfolding hashed_pairs_def by (auto intro!: rev_image_eqI [of x])
    then show "length (fst x) + 1023 < 2 ^ 32 \<and> pair_32 (snd x) \<and> (\<forall>p. snd x = Some p \<longrightarrow> p \<in> set (hashed_pairs B pf xs))"
      using assms(9) x by blast
  qed
  show "\<forall>j < length xs. subtree_root B (fst (xs ! j)) (of_nat j) = Some (leaf_hash B (leaf_at data j) (of_nat j))"
  proof (intro allI impI)
    fix j assume j: "j < length xs"
    have "j < ?n" "j < 2 ^ 32" using assms(10) j n(2) by simp_all
    then show "subtree_root B (fst (xs ! j)) (of_nat j) = Some (leaf_hash B (leaf_at data j) (of_nat j))"
      using sound_run [OF ns n, of v xs v' j] V S assms(10,11) j by (simp add: w32_def nth_leaf_hashes leaf_at_def)
  qed
qed

lemma lss_verifier_sound_witness:
  "\<exists>pf v v' x y. lss_verifier_init 0 2 pf (\<lambda>k. replicate k ([], [])) = Some v \<and> verify_all toy_b3 v [x, y] = Some (True, v') \<and>
    subtree_root toy_b3 (fst y) 1 = Some (leaf_hash toy_b3 [9] 1)"
proof -
  let ?d = "replicate 1025 9 :: u8 list" let ?J = "\<lambda>k. replicate k ([], []) :: lss_pair list"
  let ?xs = "[(replicate 1024 9, None), ([9], None)] :: (u8 list \<times> lss_pair option) list"
  have n: "leaf_count ?d = 2" by (simp add: leaf_count_def)
  have hs: "leaf_hashes toy_b3 ?d 0 = [replicate 32 1, replicate 32 1]" unfolding toy_hashes n by (simp add: numeral_2_eq_2)
  obtain pf b v v' where m: "length pf = lss_proof_size 2" "true_proof (parent_hash toy_b3) (leaf_hashes toy_b3 ?d 0) pf"
    "lss_root toy_b3 pf (lss_proof_size 2) = subtree_root toy_b3 ?d 0"
    "\<forall>i < 2. lss_builder_pair b i = Some (if lss_expect_pair 2 i then Some (true_pair (parent_hash toy_b3) (leaf_hashes toy_b3 ?d 0) i) else None)"
    "lss_verifier_init 0 2 pf ?J = Some v"
    "verify_all toy_b3 v (map (\<lambda>i. (leaf_at ?d i, the (lss_builder_pair b i))) [0..<2]) = Some (True, v')"
    using honest_message [of ?d "replicate 32 []" ?J toy_b3] unfolding n by auto
  have "\<not> lss_expect_pair 2 0" "\<not> lss_expect_pair 2 1" using expect_eq [of 0 2] expect_eq [of 1 2] by simp_all
  then have "the (lss_builder_pair b 0) = None" "the (lss_builder_pair b 1) = None" using m(4) by simp_all
  then have run: "verify_all toy_b3 v ?xs = Some (True, v')"
    using m(6) by (simp add: upt_rec leaf_at_def)
  have p: "lss_proof_size 2 = 2" using proof_size_eq [of 2] by (simp add: met0.simps)
  have "pf ! 0 = replicate 32 1" "pf ! 1 = replicate 32 1"
    using m(2) span_leaf [of 1 "[replicate 32 1, replicate 32 1]"] unfolding true_proof_def hs by (auto simp: numeral_2_eq_2)
  moreover obtain h0 h1 where "pf = [h0, h1]" using m(1) unfolding p by (auto simp: length_Suc_conv numeral_2_eq_2)
  ultimately have pf: "pf = [replicate 32 1, replicate 32 1]" by simp
  have "(\<forall>j < length ?xs. subtree_root toy_b3 (fst (?xs ! j)) (of_nat j) = Some (leaf_hash toy_b3 (leaf_at ?d j) (of_nat j))) \<or>
      second_preimage toy_b3 (leaf_hashes toy_b3 ?d 0) pf ?xs"
    by (rule lss_verifier_sound [where B = toy_b3 and data = ?d and xs = ?xs and pf = pf and vjunk = ?J and v = v and v' = v'])
      (use m(3,5) run p in \<open>simp_all add: toy_64 hs n pf pair_32_def\<close>)
  then have "\<forall>j < length ?xs. subtree_root toy_b3 (fst (?xs ! j)) (of_nat j) = Some (leaf_hash toy_b3 (leaf_at ?d j) (of_nat j))"
    unfolding hs pf using toy_no_second by blast
  then have "subtree_root toy_b3 (fst (?xs ! 1)) (of_nat 1) = Some (leaf_hash toy_b3 (leaf_at ?d 1) (of_nat 1))" by auto
  then show ?thesis using m(5) run by (intro exI [of _ pf] exI [of _ v] exI [of _ v'] exI [of _ "(replicate 1024 9, None)"] exI [of _ "([9], None)"])
      (simp add: leaf_at_def)
qed

text \<open>
  C37: A message of one leaf has no proof. The builder writes the hash of the first leaf when it
  merges it with the second, so for one leaf the finalized proof is the zeros of its allocation,
  not the hash that the root function would have to return.
\<close>
theorem lss_one_leaf:
  assumes "0 < length data" "length data \<le> 1024" "length junk = 32"
  shows "\<exists>b. lss_build B junk data = Some ([replicate 32 0], b) \<and> lss_root B [replicate 32 0] (lss_proof_size 1) = Some (replicate 32 0) \<and>
    subtree_root B data 0 = Some (leaf_hash B data 0)"
proof -
  have n: "leaf_count data = 1" using assms(1,2) by (simp add: leaf_count_def)
  have p: "lss_proof_size 1 = 1" using proof_size_eq [of 1] by simp
  have ne: "data \<noteq> []" using assms(1) by auto
  let ?b = "lss_builder_init 1 junk"
  have c: "\<not> bit (0::nat) i" for i by simp
  have ing: "lss_builder_ingest B ?b data = Some (?b\<lparr>trees := junk[0 := leaf_hash B data 0], counter := 1\<rparr>)"
    unfolding lss_builder_ingest_def
    by (subst ingest_loop.simps) (use assms(3) in \<open>simp add: lss_builder_init_def set_at_def w32_def\<close>)
  have "finalize_loop B b (Suc k) h = Some b" if "counter b = 1" for b k h
    using that
  proof (induction "32 - k" arbitrary: k rule: less_induct)
    case less
    then show ?case by (subst finalize_loop.simps) (simp add: bit_Suc)
  qed
  moreover have "tz_w 1 = 0" by (simp add: tz_w.simps)
  ultimately have "lss_build B junk data = Some ([replicate 32 0], ?b\<lparr>trees := junk[0 := leaf_hash B data 0], counter := 1\<rparr>)"
    using ne assms(2,3) p ing
    by (simp add: lss_build_def n lss_builder_finalize_def get_at_def lss_builder_init_def)
  moreover have "lss_root B [replicate 32 0] (lss_proof_size 1) = Some (replicate 32 0)"
    unfolding p by (simp add: lss_root_def get_at_def)
  moreover have "subtree_root B data 0 = Some (leaf_hash B data 0)" using assms(2) by (subst subtree_root.simps) simp
  ultimately show ?thesis by blast
qed

lemma lss_one_leaf_witness:
  "\<exists>b. lss_build toy_b3 (replicate 32 []) [1, 2, 3] = Some ([replicate 32 0], b) \<and> subtree_root toy_b3 [1, 2, 3] 0 = Some (replicate 32 1)"
  using lss_one_leaf [of "[1, 2, 3]" "replicate 32 []" toy_b3] by (auto simp: toy_leaf)

end
