(* ===== verification/Links.thy ===== *)
theory Links
  imports Prelude Chain
begin

text \<open>
  Doubly linked lists in a store, as the drivers keep their sessions and requests: \<open>L x\<close> holds the
  addresses of the next and the previous member, null is 0, and the list itself is the address of
  its first member.
\<close>

type_synonym links = "nat \<rightharpoonup> nat \<times> nat"

primrec dlist :: "links \<Rightarrow> nat \<Rightarrow> nat \<Rightarrow> nat list \<Rightarrow> bool" where
  "dlist L p a [] \<longleftrightarrow> a = 0"
| "dlist L p a (x # xs) \<longleftrightarrow> a = x \<and> x \<noteq> 0 \<and> (\<exists>n. L x = Some (n, p) \<and> dlist L x n xs)"

lemma dlist_null [simp]: "dlist L p 0 xs \<longleftrightarrow> xs = []"
  by (cases xs) auto

lemma dlist_chain: "dlist L p a xs \<Longrightarrow> chain (\<lambda>x. map_option fst (L x)) a xs"
  by (induction xs arbitrary: p a) auto

lemma dlist_distinct: "dlist L p a xs \<Longrightarrow> distinct xs"
  using dlist_chain chain_distinct by blast

lemma dlist_det: "dlist L p a xs \<Longrightarrow> dlist L q a ys \<Longrightarrow> xs = ys"
  using dlist_chain chain_det by blast

lemma dlist_member: "dlist L p a xs \<Longrightarrow> x \<in> set xs \<Longrightarrow> x \<noteq> 0 \<and> L x \<noteq> None"
  by (induction xs arbitrary: p a) auto

lemma dlist_cong: "(\<And>x. x \<in> set xs \<Longrightarrow> L x = L' x) \<Longrightarrow> dlist L p a xs = dlist L' p a xs"
  by (induction xs arbitrary: p a) auto

lemma dlist_neighbours:
  "dlist L q a (as @ x # bs) \<Longrightarrow> L x = Some ((if bs = [] then 0 else hd bs), (if as = [] then q else last as))"
proof (induction as arbitrary: q a)
  case Nil
  then obtain n where n: "L x = Some (n, q)" "dlist L x n bs" by auto
  then show ?case by (cases bs) simp_all
next
  case (Cons z zs)
  then obtain n where "dlist L z n (zs @ x # bs)" by auto
  from Cons.IH [OF this] show ?case by simp
qed

text \<open>Putting a member in front.\<close>

definition set_prev :: "nat \<Rightarrow> nat \<Rightarrow> links \<Rightarrow> links" where
  "set_prev x p L = L(x := map_option (\<lambda>(n, _). (n, p)) (L x))"

definition set_next :: "nat \<Rightarrow> nat \<Rightarrow> links \<Rightarrow> links" where
  "set_next x n L = L(x := map_option (\<lambda>(_, p). (n, p)) (L x))"

lemma dlist_push:
  assumes "dlist L 0 a xs" "x \<noteq> 0" "x \<notin> set xs"
  shows "dlist (if a = 0 then L(x \<mapsto> (a, 0)) else set_prev a x (L(x \<mapsto> (a, 0)))) 0 x (x # xs)"
proof (cases xs)
  case Nil
  then show ?thesis using assms by simp
next
  case (Cons y ys)
  then have a: "a = y" "y \<noteq> 0" and d: "y \<noteq> x" "y \<notin> set ys" "x \<notin> set ys"
    using assms dlist_distinct [OF assms(1)] by auto
  obtain n where n: "L y = Some (n, 0)" "dlist L y n ys" using assms(1) Cons by auto
  have "dlist (set_prev y x (L(x \<mapsto> (y, 0)))) y n ys = dlist L y n ys"
    by (rule dlist_cong) (use d in \<open>auto simp: set_prev_def\<close>)
  then show ?thesis using Cons a d n assms(2) by (simp add: set_prev_def)
qed

text \<open>Taking a member out.\<close>

definition bypass :: "nat \<Rightarrow> nat \<Rightarrow> links \<Rightarrow> links" where
  "bypass n p L = (let L1 = (if p = 0 then L else set_next p n L) in if n = 0 then L1 else set_prev n p L1)"

lemma bypass_other: "y \<noteq> p \<Longrightarrow> y \<noteq> n \<Longrightarrow> bypass n p L y = L y"
  by (simp add: bypass_def set_next_def set_prev_def)

lemma dlist_bypass:
  "dlist L q a (as @ x # bs) \<Longrightarrow> L x = Some (n, p) \<Longrightarrow> q \<notin> set (as @ x # bs) \<Longrightarrow> distinct (as @ x # bs) \<Longrightarrow>
    dlist (bypass n p L) q (if as = [] then n else a) (as @ bs)"
proof (induction as arbitrary: q a)
  case Nil
  then have p: "p = q" and n: "dlist L x n bs" by auto
  show ?case
  proof (cases bs)
    case Nil
    then show ?thesis using n by simp
  next
    case (Cons y ys)
    then obtain m where m: "n = y" "y \<noteq> 0" "L y = Some (m, x)" "dlist L y m ys" using n by auto
    have yq: "y \<noteq> q" "y \<notin> set ys" "q \<notin> set ys" using Nil Cons by auto
    have "bypass n p L y = Some (m, q)" using m yq p by (simp add: bypass_def set_next_def set_prev_def)
    moreover have "dlist (bypass n p L) y m ys = dlist L y m ys"
      by (rule dlist_cong) (use yq m(1) p in \<open>auto intro!: bypass_other\<close>)
    ultimately show ?thesis using Cons m by simp
  qed
next
  case (Cons z zs)
  then obtain m where m: "a = z" "z \<noteq> 0" "L z = Some (m, q)" "dlist L z m (zs @ x # bs)" by auto
  have IH: "dlist (bypass n p L) z (if zs = [] then n else m) (zs @ bs)"
    by (rule Cons.IH [OF m(4) Cons.prems(2)]) (use Cons.prems in auto)
  have np: "n = (if bs = [] then 0 else hd bs)" "p = (if zs = [] then z else last zs)"
    using dlist_neighbours [OF m(4)] Cons.prems(2) by auto
  have zn: "z \<noteq> n"
    using np(1) m(2) Cons.prems(4) by (cases bs) auto
  have "bypass n p L z = Some (if zs = [] then n else m, q)"
  proof (cases "zs = []")
    case True
    then have "p = z" using np by simp
    then show ?thesis using m zn True by (simp add: bypass_def Let_def set_next_def set_prev_def)
  next
    case False
    then have "p \<in> set zs" using np by simp
    then have "z \<noteq> p" using Cons.prems(4) by auto
    then show ?thesis using bypass_other [of z p n L] zn m False by simp
  qed
  then show ?case using IH m by simp
qed

end
