(* ===== verification/HttpWs.thy ===== *)
theory HttpWs
  imports Links "HOL-Library.Monad_Syntax"
begin

text \<open>
  Websocket sessions of the http server (\<^verbatim>\<open>pkg/vere/io/http.c\<close>, UIP-125). A session begins with a
  handshake request, which Eyre accepts or rejects; after the upgrade libh2o owns the connection and
  calls back with its messages and its end.

  Sessions and requests live in a store; the address 0 is null. A result \<open>None\<close> is an access to memory
  that is not allocated (any more), an access through null, or a failed assertion. What libh2o, libuv
  and wslay are asked to do is recorded as a list of calls, and what they answer is an argument.
  libh2o keeps the request alive while it is asked to answer it.
\<close>

section \<open>State\<close>

datatype rsat = rsat_init | rsat_plan | rsat_peek | rsat_ripe

datatype hwsat = hws_pending | hws_open | hws_closing | hws_closed

type_synonym duct = "nat \<times> nat \<times> nat"

record hws =
  woc_u :: nat
  req_u :: nat
  nex_u :: nat
  pre_u :: nat
  sat_e :: hwsat
  wid_l :: u32
  sev_coq_seq :: duct
  key_c :: "u8 list"

text \<open>The generator of a response: whether more is expected and whether it is ready to send.\<close>

datatype hgen_sat = hgen_wait | hgen_done | hgen_fail

record hreq =
  rsat_e :: rsat
  tim_u :: bool
  gen_u :: "(hgen_sat \<times> bool) option"
  wsu_u :: nat
  duct_u :: duct

text \<open>Events for Eyre, and calls.\<close>

datatype ws_event = ws_disconnect | ws_message u8 "u8 list option"

datatype ovum =
    websocket_handshake duct u32 nat
  | websocket_event duct u32 ws_event
  | cancel_request duct

datatype call =
    timer_stop nat
  | timer_close nat
  | send_error nat nat
  | upgrade nat "u8 list"
  | ws_close nat
  | queue_msg nat u8 "u8 list"
  | proceed nat
  | hgen_send nat
  | forget_peek nat

text \<open>
  A connection that libh2o has made: whether it has its socket yet, the session that the driver left
  with it, and the request it was made of.
\<close>

record conn =
  sock_u :: bool
  data_u :: nat
  of_req :: nat

text \<open>
  The device: the list of its sessions, the next number, the stores, and the connections.
\<close>

record httd =
  web_u :: nat
  next_wid :: u32
  wss :: "nat \<rightharpoonup> hws"
  reqs :: "nat \<rightharpoonup> hreq"
  brk :: nat
  conns :: "nat \<rightharpoonup> conn"
  ova :: "ovum list"
  calls :: "call list"

definition upd_ws :: "nat \<Rightarrow> (hws \<Rightarrow> hws) \<Rightarrow> httd \<Rightarrow> httd option" where
  "upd_ws w f d = do { s \<leftarrow> wss d w; Some (d\<lparr>wss := (wss d)(w \<mapsto> f s)\<rparr>) }"

definition upd_req :: "nat \<Rightarrow> (hreq \<Rightarrow> hreq) \<Rightarrow> httd \<Rightarrow> httd option" where
  "upd_req r f d = do { q \<leftarrow> reqs d r; Some (d\<lparr>reqs := (reqs d)(r \<mapsto> f q)\<rparr>) }"

definition tell :: "ovum \<Rightarrow> httd \<Rightarrow> httd" where
  "tell e d = d\<lparr>ova := ova d @ [e]\<rparr>"

definition ask :: "call \<Rightarrow> httd \<Rightarrow> httd" where
  "ask c d = d\<lparr>calls := calls d @ [c]\<rparr>"

definition free_ws :: "nat \<Rightarrow> httd \<Rightarrow> httd" where
  "free_ws w d = d\<lparr>wss := (wss d)(w := None)\<rparr>"

section \<open>The list of sessions\<close>

definition http_ws_link :: "nat \<Rightarrow> httd \<Rightarrow> httd option" where
  "http_ws_link w d =
     do { d1 \<leftarrow> upd_ws w (\<lambda>s. s\<lparr>nex_u := web_u d, pre_u := 0\<rparr>) d;
          d2 \<leftarrow> (if web_u d \<noteq> 0 then upd_ws (web_u d) (\<lambda>s. s\<lparr>pre_u := w\<rparr>) d1 else Some d1);
          Some (d2\<lparr>web_u := w\<rparr>) }"

definition http_ws_unlink :: "nat \<Rightarrow> httd \<Rightarrow> httd option" where
  "http_ws_unlink w d =
     do { s \<leftarrow> wss d w;
          d1 \<leftarrow> (if pre_u s \<noteq> 0 then
                  do { d1 \<leftarrow> upd_ws (pre_u s) (\<lambda>p. p\<lparr>nex_u := nex_u s\<rparr>) d;
                       if nex_u s \<noteq> 0 then upd_ws (nex_u s) (\<lambda>n. n\<lparr>pre_u := pre_u s\<rparr>) d1 else Some d1 }
                else if web_u d = w then
                  if nex_u s \<noteq> 0 then upd_ws (nex_u s) (\<lambda>n. n\<lparr>pre_u := 0\<rparr>) (d\<lparr>web_u := nex_u s\<rparr>)
                  else Some (d\<lparr>web_u := nex_u s\<rparr>)
                else Some d);
          upd_ws w (\<lambda>s. s\<lparr>nex_u := 0, pre_u := 0\<rparr>) d1 }"

partial_function (option) find_loop :: "(nat \<rightharpoonup> hws) \<Rightarrow> nat \<Rightarrow> u32 \<Rightarrow> nat option" where
  "find_loop h x wid =
     (if x = 0 then Some 0
      else do { s \<leftarrow> h x; if wid = wid_l s then Some x else find_loop h (nex_u s) wid })"

declare find_loop.simps [code]

definition http_ws_find :: "httd \<Rightarrow> u32 \<Rightarrow> nat option" where
  "http_ws_find d wid = find_loop (wss d) (web_u d) wid"

section \<open>A session\<close>

definition http_ws_plan_event :: "nat \<Rightarrow> ws_event \<Rightarrow> httd \<Rightarrow> httd option" where
  "http_ws_plan_event w ev d =
     do { s \<leftarrow> wss d w; Some (tell (websocket_event (sev_coq_seq s) (wid_l s) ev) d) }"

text \<open>\<open>woc\<close> is the connection that libh2o makes of the request, or null.\<close>

definition http_ws_accept :: "nat \<Rightarrow> nat \<Rightarrow> httd \<Rightarrow> httd option" where
  "http_ws_accept woc w d =
     (if w = 0 then Some d
      else do {
        s \<leftarrow> wss d w;
        if sat_e s \<noteq> hws_pending \<or> req_u s = 0 then Some d
        else do {
          let r = req_u s;
          q \<leftarrow> reqs d r;
          let d1 = (if tim_u q then ask (timer_stop r) d else d);
          d2 \<leftarrow> upd_req r (\<lambda>q. q\<lparr>rsat_e := rsat_ripe\<rparr>) d1;
          d3 \<leftarrow> upd_ws w (\<lambda>s. s\<lparr>req_u := 0\<rparr>) d2;
          let d4 = ask (upgrade r (key_c s)) d3;
          d5 \<leftarrow> upd_ws w (\<lambda>s. s\<lparr>woc_u := woc\<rparr>) d4;
          if woc = 0 then do {
            let d6 = ask (send_error r 500) d5;
            d7 \<leftarrow> upd_ws w (\<lambda>s. s\<lparr>req_u := r\<rparr>) d6;
            d8 \<leftarrow> upd_req r (\<lambda>q. q\<lparr>wsu_u := 0\<rparr>) d7;
            d9 \<leftarrow> upd_ws w (\<lambda>s. s\<lparr>sat_e := hws_closed\<rparr>) d8;
            d10 \<leftarrow> http_ws_unlink w d9;
            Some (free_ws w d10) }
          else do {
            d6 \<leftarrow> upd_ws w (\<lambda>s. s\<lparr>sat_e := hws_open\<rparr>) (d5\<lparr>conns := (conns d5)(woc \<mapsto> \<lparr>sock_u = False, data_u = w, of_req = r\<rparr>)\<rparr>);
            upd_req r (\<lambda>q. q\<lparr>wsu_u := w\<rparr>) d6 } } })"

definition http_ws_reject :: "nat \<Rightarrow> httd \<Rightarrow> httd option" where
  "http_ws_reject w d =
     (if w = 0 then Some d
      else do {
        s \<leftarrow> wss d w;
        if sat_e s \<noteq> hws_pending then Some d
        else do {
          d1 \<leftarrow> upd_ws w (\<lambda>s. s\<lparr>sat_e := hws_closed\<rparr>) d;
          d2 \<leftarrow> (if req_u s \<noteq> 0 then do {
                   q \<leftarrow> reqs d1 (req_u s);
                   let da = (if tim_u q then ask (timer_stop (req_u s)) d1 else d1);
                   db \<leftarrow> upd_req (req_u s) (\<lambda>q. q\<lparr>rsat_e := rsat_ripe, wsu_u := 0\<rparr>) da;
                   Some (ask (send_error (req_u s) 403) db) }
                 else Some d1);
          d3 \<leftarrow> http_ws_unlink w d2;
          Some (free_ws w d3) } })"

text \<open>
  The body of a message from Eyre: none, octets with their length, of which the atom may have
  fewer or more, or something else. \<open>sas\<close> is the answer of wslay.
\<close>

datatype ws_body = body_nul | body_bad | body_octs u64 "u8 list"

definition http_ws_send_message :: "int \<Rightarrow> nat \<Rightarrow> u32 option \<Rightarrow> ws_body \<Rightarrow> httd \<Rightarrow> (bool \<times> httd) option" where
  "http_ws_send_message sas w opcode body d =
     (if w = 0 then Some (False, d)
      else do {
        s \<leftarrow> wss d w;
        if sat_e s \<noteq> hws_open \<or> woc_u s = 0 then Some (False, d)
        else case opcode of
          None \<Rightarrow> Some (False, d)
        | Some opc \<Rightarrow>
            (case body of
               body_bad \<Rightarrow> Some (False, d)
             | _ \<Rightarrow>
                 let buf = (case body of body_octs len octs \<Rightarrow> take (unat len) (octs @ replicate (unat len) 0) | _ \<Rightarrow> [])
                 in do {
                   c \<leftarrow> conns d (woc_u s);
                   let d1 = ask (queue_msg (woc_u s) (ucast (opc AND 0xFF)) buf) d;
                   if sas \<noteq> 0 then Some (False, d1)
                   else if sock_u c then Some (True, ask (proceed (woc_u s)) d1)
                   else None }) })"

definition http_ws_disconnect :: "nat \<Rightarrow> httd \<Rightarrow> httd option" where
  "http_ws_disconnect w d =
     (if w = 0 then Some d
      else do {
        s \<leftarrow> wss d w;
        if sat_e s = hws_pending then http_ws_reject w d
        else if sat_e s = hws_open \<and> woc_u s \<noteq> 0 then do {
          d1 \<leftarrow> upd_ws w (\<lambda>s. s\<lparr>sat_e := hws_closing\<rparr>) d;
          Some (ask (ws_close (woc_u s)) d1) }
        else Some d })"

partial_function (option) close_loop :: "nat \<Rightarrow> httd \<Rightarrow> httd option" where
  "close_loop x d =
     (if x = 0 then Some d
      else do { s \<leftarrow> wss d x; d1 \<leftarrow> http_ws_disconnect x d; close_loop (nex_u s) d1 })"

declare close_loop.simps [code]

definition http_ws_close_all :: "httd \<Rightarrow> httd option" where
  "http_ws_close_all d = close_loop (web_u d) d"

definition http_ws_detach_request :: "nat \<Rightarrow> httd \<Rightarrow> httd option" where
  "http_ws_detach_request r d =
     do { q \<leftarrow> reqs d r;
          if wsu_u q = 0 then Some d
          else do {
            let w = wsu_u q;
            d1 \<leftarrow> upd_req r (\<lambda>q. q\<lparr>wsu_u := 0\<rparr>) d;
            s \<leftarrow> wss d1 w;
            if req_u s \<noteq> 0 \<and> req_u s = r then do {
              d2 \<leftarrow> upd_ws w (\<lambda>s. s\<lparr>req_u := 0, sat_e := hws_closed\<rparr>) d1;
              d3 \<leftarrow> http_ws_unlink w d2;
              Some (free_ws w d3) }
            else Some d1 } }"

text \<open>
  The handshake of a request: \<open>hdr\<close> is the length of its key header, if it has one, \<open>client_key\<close> the
  bytes of the key as libh2o points to them, \<open>dat\<close> the request as a noun with its address.
\<close>

definition key_buffer :: "nat option \<Rightarrow> u8 list \<Rightarrow> u8 list option" where
  "key_buffer hdr client_key =
     (let len0 = (case hdr of None \<Rightarrow> 0 | Some n \<Rightarrow> n); len = (if 29 \<le> len0 then 28 else len0)
      in if len \<le> length client_key then Some ((memcpy_at (replicate 29 0) 0 (take len client_key))[len := 0]) else None)"

definition http_ws_handshake :: "nat \<Rightarrow> nat option \<Rightarrow> u8 list \<Rightarrow> nat \<Rightarrow> httd \<Rightarrow> httd option" where
  "http_ws_handshake r hdr client_key dat d =
     do { q \<leftarrow> reqs d r;
          key \<leftarrow> key_buffer hdr client_key;
          let wid = (if next_wid d = 0 then 1 else next_wid d);
          let w = brk d;
          let s = \<lparr>woc_u = 0, req_u = r, nex_u = 0, pre_u = 0, sat_e = hws_pending, wid_l = wid,
                   sev_coq_seq = duct_u q, key_c = key\<rparr>;
          let d1 = d\<lparr>next_wid := wid + 1, brk := w + 1, wss := (wss d)(w \<mapsto> s)\<rparr>;
          d2 \<leftarrow> http_ws_link w d1;
          d3 \<leftarrow> upd_req r (\<lambda>q. q\<lparr>wsu_u := w, rsat_e := rsat_plan\<rparr>) d2;
          Some (tell (websocket_handshake (duct_u q) wid dat) d3) }"

text \<open>
  The callback of a connection: its end (\<open>None\<close>), or a message, of which a close frame is one. The
  session is the one left with the connection; the driver does not look at anything else of it.
\<close>

definition WSLAY_CONNECTION_CLOSE :: u8 where
  "WSLAY_CONNECTION_CLOSE = 8"

definition http_ws_message_cb :: "nat \<Rightarrow> (u8 \<times> u8 list) option \<Rightarrow> httd \<Rightarrow> httd option" where
  "http_ws_message_cb woc arg d =
     do { c \<leftarrow> conns d woc;
          let w = data_u c;
          if w = 0 then Some d
          else do {
            s \<leftarrow> wss d w;
            case arg of
              None \<Rightarrow> do {
                d1 \<leftarrow> (if sat_e s \<noteq> hws_closed then do {
                         da \<leftarrow> upd_ws w (\<lambda>s. s\<lparr>sat_e := hws_closed\<rparr>) d;
                         http_ws_plan_event w ws_disconnect da }
                       else Some d);
                d2 \<leftarrow> http_ws_unlink w d1;
                Some (free_ws w d2) }
            | Some (opcode, msg) \<Rightarrow>
                if opcode = WSLAY_CONNECTION_CLOSE then
                  if sat_e s \<noteq> hws_closed then do {
                    da \<leftarrow> upd_ws w (\<lambda>s. s\<lparr>sat_e := hws_closed\<rparr>) d;
                    http_ws_plan_event w ws_disconnect da }
                  else Some d
                else http_ws_plan_event w (ws_message opcode (if msg = [] then None else Some msg)) d } }"

section \<open>Requests and effects\<close>

definition http_req_kill :: "nat \<Rightarrow> httd \<Rightarrow> httd option" where
  "http_req_kill r d = do { q \<leftarrow> reqs d r; Some (tell (cancel_request (duct_u q)) d) }"

definition http_req_close :: "nat \<Rightarrow> httd \<Rightarrow> httd option" where
  "http_req_close r d =
     do { q \<leftarrow> reqs d r;
          d1 \<leftarrow> (if wsu_u q \<noteq> 0 then http_ws_detach_request r d else Some d);
          d2 \<leftarrow> (if rsat_e q = rsat_plan then http_req_kill r d1 else Some d1);
          if tim_u q then upd_req r (\<lambda>q. q\<lparr>tim_u := False\<rparr>) (ask (timer_close r) d2) else Some d2 }"

definition http_req_timer_cb :: "nat \<Rightarrow> httd \<Rightarrow> httd option" where
  "http_req_timer_cb r d =
     do { q \<leftarrow> reqs d r;
          case rsat_e q of
            rsat_init \<Rightarrow> None
          | rsat_plan \<Rightarrow> do {
              d1 \<leftarrow> http_req_kill r d;
              d2 \<leftarrow> upd_req r (\<lambda>q. q\<lparr>rsat_e := rsat_ripe\<rparr>) d1;
              Some (ask (send_error r 504) d2) }
          | rsat_peek \<Rightarrow>
              let d1 = ask (send_error r 504) (ask (forget_peek r) d)
              in if wsu_u q \<noteq> 0 then http_ws_detach_request r d1 else Some d1
          | rsat_ripe \<Rightarrow> do {
              (sat, red) \<leftarrow> gen_u q;
              d1 \<leftarrow> (if sat = hgen_wait then http_req_kill r d else Some d);
              d2 \<leftarrow> upd_req r (\<lambda>q. q\<lparr>gen_u := Some (hgen_fail, red)\<rparr>) d1;
              Some (if red then ask (hgen_send r) d2 else d2) } }"

definition http_cancel_respond :: "nat \<Rightarrow> httd \<Rightarrow> httd option" where
  "http_cancel_respond r d =
     do { q \<leftarrow> reqs d r;
          case rsat_e q of
            rsat_init \<Rightarrow> None
          | rsat_peek \<Rightarrow> None
          | rsat_plan \<Rightarrow> do {
              d1 \<leftarrow> upd_req r (\<lambda>q. q\<lparr>rsat_e := rsat_ripe\<rparr>) d;
              let d2 = ask (send_error r 500) d1;
              if wsu_u q \<noteq> 0 then http_ws_detach_request r d2 else Some d2 }
          | rsat_ripe \<Rightarrow> do {
              (sat, red) \<leftarrow> (if tim_u q then gen_u q else None);
              d1 \<leftarrow> upd_req r (\<lambda>q. q\<lparr>gen_u := Some (hgen_fail, red)\<rparr>) (ask (timer_stop r) d);
              Some (if red then ask (hgen_send r) d1 else d1) } }"

text \<open>A \<open>%websocket-response\<close> effect of Eyre.\<close>

datatype ws_response = res_accept | res_reject | res_disconnect | res_message "u32 option" ws_body | res_other

definition websocket_response :: "nat \<Rightarrow> int \<Rightarrow> u32 option \<Rightarrow> ws_response \<Rightarrow> httd \<Rightarrow> httd option" where
  "websocket_response woc sas wid res d =
     (case wid of
        None \<Rightarrow> Some d
      | Some wid_w \<Rightarrow> do {
          w \<leftarrow> http_ws_find d wid_w;
          if w = 0 then Some d
          else case res of
            res_accept \<Rightarrow> http_ws_accept woc w d
          | res_reject \<Rightarrow> http_ws_reject w d
          | res_disconnect \<Rightarrow> http_ws_disconnect w d
          | res_message opcode body \<Rightarrow> map_option snd (http_ws_send_message sas w opcode body d)
          | res_other \<Rightarrow> Some d })"

end
