(* ===== verification/HttpWsInv.thy ===== *)
theory HttpWsInv
  imports HttpWs
begin

text \<open>
  The invariant of the websocket sessions, and what linking, unlinking, finding, rejecting and
  disconnecting a session do to it. \<open>onward\<close> is the order in which sessions go on.
\<close>

section \<open>The list is a list\<close>

definition links_of :: "(nat \<rightharpoonup> hws) \<Rightarrow> links" where
  "links_of h = (\<lambda>x. map_option (\<lambda>s. (nex_u s, pre_u s)) (h x))"

definition strip :: "hws \<Rightarrow> hws" where
  "strip s = s\<lparr>nex_u := 0, pre_u := 0\<rparr>"

definition same_ws :: "(nat \<rightharpoonup> hws) \<Rightarrow> (nat \<rightharpoonup> hws) \<Rightarrow> bool" where
  "same_ws h h' \<longleftrightarrow> (\<forall>x. map_option strip (h x) = map_option strip (h' x))"

lemma strip_simps [simp]:
  "strip (s\<lparr>nex_u := n\<rparr>) = strip s" "strip (s\<lparr>pre_u := p\<rparr>) = strip s"
  by (simp_all add: strip_def)

lemma same_ws_refl [simp]: "same_ws h h"
  by (simp add: same_ws_def)

lemma same_ws_trans: "same_ws h h1 \<Longrightarrow> same_ws h1 h2 \<Longrightarrow> same_ws h h2"
  by (simp add: same_ws_def)

lemma same_ws_upd: "h x = Some s \<Longrightarrow> strip (f s) = strip s \<Longrightarrow> same_ws h (h(x \<mapsto> f s))"
  by (simp add: same_ws_def)

lemma same_ws_dom: "same_ws h h' \<Longrightarrow> dom h' = dom h"
  unfolding same_ws_def dom_def by (metis option.map_disc_iff)

lemma strip_eqD:
  assumes "strip s = strip s'"
  shows "woc_u s = woc_u s'" "req_u s = req_u s'" "sat_e s = sat_e s'" "wid_l s = wid_l s'"
    "sev_coq_seq s = sev_coq_seq s'" "key_c s = key_c s'"
  using assms by (cases s; cases s'; simp add: strip_def)+

lemma same_wsD: "same_ws h h' \<Longrightarrow> h x = Some s \<Longrightarrow> \<exists>s'. h' x = Some s' \<and> strip s' = strip s"
  unfolding same_ws_def by (metis option.simps(9) map_option_eq_Some)

lemma same_wsD2: "same_ws h h' \<Longrightarrow> h' x = Some s' \<Longrightarrow> \<exists>s. h x = Some s \<and> strip s' = strip s"
  unfolding same_ws_def by (metis option.simps(9) map_option_eq_Some)

lemma links_of_next: "h x = Some s \<Longrightarrow> links_of (h(x \<mapsto> s\<lparr>nex_u := n\<rparr>)) = set_next x n (links_of h)"
  by (auto simp: links_of_def set_next_def)

lemma links_of_prev: "h x = Some s \<Longrightarrow> links_of (h(x \<mapsto> s\<lparr>pre_u := p\<rparr>)) = set_prev x p (links_of h)"
  by (auto simp: links_of_def set_prev_def)

lemma links_of_both: "links_of (h(x \<mapsto> s\<lparr>nex_u := n, pre_u := p\<rparr>)) = (links_of h)(x \<mapsto> (n, p))"
  by (auto simp: links_of_def)

lemma links_of_Some: "links_of h x = Some (n, p) \<longleftrightarrow> (\<exists>s. h x = Some s \<and> nex_u s = n \<and> pre_u s = p)"
  by (auto simp: links_of_def)

lemma links_of_keep: "h x = Some s \<Longrightarrow> nex_u s' = nex_u s \<Longrightarrow> pre_u s' = pre_u s \<Longrightarrow> links_of (h(x \<mapsto> s')) = links_of h"
  by (auto simp: links_of_def)

lemma dlist_alloc: "dlist (links_of h) p a xs \<Longrightarrow> x \<in> set xs \<Longrightarrow> \<exists>s. h x = Some s"
  using dlist_member [of "links_of h" p a xs x] by (auto simp: links_of_def)

lemma http_ws_link_spec:
  assumes L: "dlist (links_of (wss d)) 0 (web_u d) xs" and w: "wss d w = Some s" "w \<notin> set xs" "w \<noteq> 0"
  shows "\<exists>h. http_ws_link w d = Some (d\<lparr>wss := h, web_u := w\<rparr>) \<and> dlist (links_of h) 0 w (w # xs) \<and> same_ws (wss d) h"
proof -
  let ?h = "(wss d)(w \<mapsto> s\<lparr>nex_u := web_u d, pre_u := 0\<rparr>)"
  have h: "links_of ?h = (links_of (wss d))(w \<mapsto> (web_u d, 0))" by (rule links_of_both)
  have same: "same_ws (wss d) ?h" using w by (simp add: same_ws_def)
  show ?thesis
  proof (cases "web_u d = 0")
    case True
    then show ?thesis using dlist_push [OF L w(3,2)] w(1) h same
      by (intro exI [of _ ?h]) (simp add: http_ws_link_def upd_ws_def)
  next
    case False
    then have a: "web_u d \<in> set xs" using L by (cases xs) auto
    then have ne: "web_u d \<noteq> w" using w(2) by auto
    obtain t where t: "?h (web_u d) = Some t" using dlist_alloc [OF L a] ne by auto
    let ?h1 = "?h(web_u d \<mapsto> t\<lparr>pre_u := w\<rparr>)"
    have "links_of ?h1 = set_prev (web_u d) w ((links_of (wss d))(w \<mapsto> (web_u d, 0)))"
      unfolding links_of_prev [where h = ?h, OF t] h ..
    then have "dlist (links_of ?h1) 0 w (w # xs)" using dlist_push [OF L w(3,2)] False by simp
    moreover have "same_ws (wss d) ?h1"
      by (rule same_ws_trans [OF same same_ws_upd [where h = ?h, OF t]]) simp
    ultimately show ?thesis using w(1) False t
      by (intro exI [of _ ?h1]) (simp add: http_ws_link_def upd_ws_def)
  qed
qed

lemma http_ws_unlink_spec:
  assumes L: "dlist (links_of (wss d)) 0 (web_u d) xs" and w: "w \<in> set xs"
  shows "\<exists>h a. http_ws_unlink w d = Some (d\<lparr>wss := h, web_u := a\<rparr>) \<and> dlist (links_of h) 0 a (remove1 w xs) \<and> same_ws (wss d) h"
proof -
  have dist: "distinct xs" using L by (rule dlist_distinct)
  obtain as bs where xs: "xs = as @ w # bs" using w by (auto simp: in_set_conv_decomp)
  obtain s where s: "wss d w = Some s" using dlist_alloc [OF L w] by blast
  let ?n = "nex_u s" and ?p = "pre_u s"
  have np: "?n = (if bs = [] then 0 else hd bs)" "?p = (if as = [] then 0 else last as)"
    using dlist_neighbours [OF L [unfolded xs]] s by (simp_all add: links_of_def)
  have Lw: "links_of (wss d) w = Some (?n, ?p)" using s by (simp add: links_of_def)
  have nz: "0 \<notin> set xs" using dlist_member [OF L, of 0] by auto
  have byp: "dlist (bypass ?n ?p (links_of (wss d))) 0 (if as = [] then ?n else web_u d) (as @ bs)"
    by (rule dlist_bypass [OF L [unfolded xs] Lw]) (use nz dist xs in auto)
  have p0: "?p = 0 \<longleftrightarrow> as = []"
  proof (cases "as = []")
    case False
    then have "last as \<in> set xs" using xs by simp
    then have "last as \<noteq> 0" using nz by metis
    then show ?thesis using np(2) False by simp
  qed (use np(2) in simp)
  have rm: "remove1 w xs = as @ bs" using dist xs by (simp add: remove1_append)
  have nin: "?n \<noteq> 0 \<Longrightarrow> ?n \<in> set bs" using np by (auto split: if_splits)
  have pin: "?p \<noteq> 0 \<Longrightarrow> ?p \<in> set as" using np p0 by auto
  have dis: "w \<notin> set as" "w \<notin> set bs" "set as \<inter> set bs = {}" using dist xs by auto
  define d1 where "d1 = (if as = [] then d\<lparr>web_u := ?n\<rparr> else d)"
  define step where "step = (if ?p \<noteq> 0 then
                  do { d1 \<leftarrow> upd_ws (pre_u s) (\<lambda>p. p\<lparr>nex_u := nex_u s\<rparr>) d;
                       if nex_u s \<noteq> 0 then upd_ws (nex_u s) (\<lambda>n. n\<lparr>pre_u := pre_u s\<rparr>) d1 else Some d1 }
                else if web_u d = w then
                  if nex_u s \<noteq> 0 then upd_ws (nex_u s) (\<lambda>n. n\<lparr>pre_u := 0\<rparr>) (d\<lparr>web_u := nex_u s\<rparr>)
                  else Some (d\<lparr>web_u := nex_u s\<rparr>)
                else Some d)"
  have "\<exists>h. step = Some (d1\<lparr>wss := h\<rparr>) \<and> links_of h = bypass ?n ?p (links_of (wss d)) \<and> same_ws (wss d) h \<and> h w = Some s"
  proof (cases "as = []")
    case True
    then have hd: "web_u d = w" using L xs by simp
    show ?thesis
    proof (cases "?n = 0")
      case True
      then show ?thesis using \<open>as = []\<close> p0 hd s by (intro exI [of _ "wss d"]) (simp add: step_def d1_def bypass_def)
    next
      case False
      then have nb: "?n \<in> set bs" by (rule nin)
      then obtain t where t: "wss d ?n = Some t" using dlist_alloc [OF L] xs by auto
      have "?n \<noteq> w" using nb dis by auto
      then show ?thesis using \<open>as = []\<close> p0 hd s t False links_of_prev [where h = "wss d", OF t, of 0]
        by (intro exI [of _ "(wss d)(?n \<mapsto> t\<lparr>pre_u := 0\<rparr>)"]) (simp add: step_def d1_def bypass_def upd_ws_def same_ws_upd)
    qed
  next
    case False
    then have p: "?p \<noteq> 0" "?p \<in> set as" using p0 pin by auto
    then obtain t where t: "wss d ?p = Some t" using dlist_alloc [OF L] xs by auto
    have pw: "?p \<noteq> w" using p dis by auto
    let ?h = "(wss d)(?p \<mapsto> t\<lparr>nex_u := ?n\<rparr>)"
    have same: "same_ws (wss d) ?h" by (rule same_ws_upd [where h = "wss d", OF t]) simp
    show ?thesis
    proof (cases "?n = 0")
      case True
      then show ?thesis using False p s t pw same links_of_next [where h = "wss d", OF t, of ?n]
        by (intro exI [of _ ?h]) (simp add: step_def d1_def bypass_def upd_ws_def)
    next
      case n: False
      then have nb: "?n \<in> set bs" by (rule nin)
      then have "?n \<noteq> w" "?n \<noteq> ?p" using dis p by auto
      obtain u where u: "wss d ?n = Some u" using nb dlist_alloc [OF L] xs by auto
      then have u': "?h ?n = Some u" using \<open>?n \<noteq> ?p\<close> by simp
      have "links_of (?h(?n \<mapsto> u\<lparr>pre_u := ?p\<rparr>)) = bypass ?n ?p (links_of (wss d))"
        unfolding links_of_prev [where h = ?h, OF u'] links_of_next [where h = "wss d", OF t] using n p by (simp add: bypass_def)
      moreover have "same_ws (wss d) (?h(?n \<mapsto> u\<lparr>pre_u := ?p\<rparr>))"
        by (rule same_ws_trans [OF same same_ws_upd [where h = ?h, OF u']]) simp
      ultimately show ?thesis using False p s t u n pw \<open>?n \<noteq> w\<close> \<open>?n \<noteq> ?p\<close>
        by (intro exI [of _ "?h(?n \<mapsto> u\<lparr>pre_u := ?p\<rparr>)"]) (simp add: step_def d1_def upd_ws_def)
    qed
  qed
  then obtain h where h: "step = Some (d1\<lparr>wss := h\<rparr>)" "links_of h = bypass ?n ?p (links_of (wss d))"
    "same_ws (wss d) h" "h w = Some s" by blast
  let ?h = "h(w \<mapsto> s\<lparr>nex_u := 0, pre_u := 0\<rparr>)"
  have "http_ws_unlink w d = Some (d1\<lparr>wss := ?h\<rparr>)"
    using s h(1,4) unfolding step_def http_ws_unlink_def by (simp add: upd_ws_def)
  then have "http_ws_unlink w d = Some (d\<lparr>wss := ?h, web_u := if as = [] then ?n else web_u d\<rparr>)"
    by (simp add: d1_def)
  moreover have "dlist (links_of ?h) 0 (if as = [] then ?n else web_u d) (remove1 w xs)"
  proof -
    have "dlist (links_of ?h) 0 b (as @ bs) = dlist (links_of h) 0 b (as @ bs)" for b
      unfolding links_of_both by (rule dlist_cong) (use dis in auto)
    then show ?thesis using byp h(2) rm by simp
  qed
  moreover have "same_ws (wss d) ?h"
    by (rule same_ws_trans [OF h(3)]) (use h(4) in \<open>simp add: same_ws_def\<close>)
  ultimately show ?thesis by blast
qed

section \<open>The invariant\<close>

text \<open>
  A pending session belongs to a request that points back to it; every other one has a connection with
  which it was left. A request points to its pending session, or to the one of the connection that was
  made of it. A connection has a session, which is not pending, and whose connection it is.
\<close>

definition sess_ok :: "(nat \<rightharpoonup> hreq) \<Rightarrow> (nat \<rightharpoonup> conn) \<Rightarrow> nat \<Rightarrow> hws \<Rightarrow> bool" where
  "sess_ok R C w s \<longleftrightarrow>
     (if sat_e s = hws_pending
      then req_u s \<noteq> 0 \<and> woc_u s = 0 \<and> (\<exists>q. R (req_u s) = Some q \<and> wsu_u q = w)
      else req_u s = 0 \<and> woc_u s \<noteq> 0 \<and> map_option data_u (C (woc_u s)) = Some w)"

definition req_ok :: "(nat \<rightharpoonup> hws) \<Rightarrow> (nat \<rightharpoonup> conn) \<Rightarrow> nat \<Rightarrow> hreq \<Rightarrow> bool" where
  "req_ok h C r q \<longleftrightarrow> wsu_u q = 0 \<or>
     (\<exists>s. h (wsu_u q) = Some s \<and> (if sat_e s = hws_pending then req_u s = r else map_option of_req (C (woc_u s)) = Some r))"

definition conn_ok :: "(nat \<rightharpoonup> hws) \<Rightarrow> nat \<Rightarrow> conn \<Rightarrow> bool" where
  "conn_ok h woc c \<longleftrightarrow> (\<exists>s. h (data_u c) = Some s \<and> sat_e s \<noteq> hws_pending \<and> woc_u s = woc)"

definition addr_ok :: "httd \<Rightarrow> bool" where
  "addr_ok d \<longleftrightarrow> 0 < brk d \<and> (\<forall>x \<in> dom (wss d) \<union> dom (reqs d). 0 < x \<and> x < brk d)"

definition listed :: "httd \<Rightarrow> bool" where
  "listed d \<longleftrightarrow> (\<exists>xs. dlist (links_of (wss d)) 0 (web_u d) xs \<and> set xs = dom (wss d))"

definition hws_inv :: "httd \<Rightarrow> bool" where
  "hws_inv d \<longleftrightarrow> listed d \<and> addr_ok d \<and>
     (\<forall>w s. wss d w = Some s \<longrightarrow> sess_ok (reqs d) (conns d) w s) \<and>
     (\<forall>r q. reqs d r = Some q \<longrightarrow> req_ok (wss d) (conns d) r q) \<and>
     (\<forall>woc c. conns d woc = Some c \<longrightarrow> conn_ok (wss d) woc c)"

lemma hws_invD:
  assumes "hws_inv d"
  shows "listed d" "addr_ok d" "\<And>w s. wss d w = Some s \<Longrightarrow> sess_ok (reqs d) (conns d) w s"
    "\<And>r q. reqs d r = Some q \<Longrightarrow> req_ok (wss d) (conns d) r q"
    "\<And>woc c. conns d woc = Some c \<Longrightarrow> conn_ok (wss d) woc c"
  using assms unfolding hws_inv_def by blast+

lemma req_ok_same:
  assumes "same_ws h h'" "req_ok h C r q"
  shows "req_ok h' C r q"
proof (cases "wsu_u q = 0")
  case False
  then obtain s where s: "h (wsu_u q) = Some s"
      "if sat_e s = hws_pending then req_u s = r else map_option of_req (C (woc_u s)) = Some r"
    using assms(2) unfolding req_ok_def by metis
  obtain s' where s': "h' (wsu_u q) = Some s'" "strip s' = strip s" using same_wsD [OF assms(1) s(1)] by blast
  show ?thesis unfolding req_ok_def using s s'(1) strip_eqD [OF s'(2)] by simp
qed (simp add: req_ok_def)

lemma conn_ok_same:
  assumes "same_ws h h'" "conn_ok h woc c"
  shows "conn_ok h' woc c"
proof -
  obtain s where s: "h (data_u c) = Some s" "sat_e s \<noteq> hws_pending" "woc_u s = woc" using assms(2) unfolding conn_ok_def by blast
  obtain s' where s': "h' (data_u c) = Some s'" "strip s' = strip s" using same_wsD [OF assms(1) s(1)] by blast
  show ?thesis unfolding conn_ok_def using s s'(1) strip_eqD [OF s'(2)] by simp
qed

lemma sess_ok_strip: "strip s = strip s' \<Longrightarrow> sess_ok R C w s = sess_ok R C w s'"
proof -
  assume a: "strip s = strip s'"
  show ?thesis unfolding sess_ok_def by (simp only: strip_eqD [OF a])
qed

lemma sess_ok_conns:
  "sess_ok R C w s \<Longrightarrow> (\<And>w. map_option data_u (C x) = Some w \<Longrightarrow> data_u c = w) \<Longrightarrow> sess_ok R (C(x \<mapsto> c)) w s"
  by (auto simp: sess_ok_def split: if_splits)

lemma req_ok_conns:
  "req_ok h C r q \<Longrightarrow> (\<And>r. map_option of_req (C x) = Some r \<Longrightarrow> of_req c = r) \<Longrightarrow> req_ok h (C(x \<mapsto> c)) r q"
  by (auto simp: req_ok_def split: if_splits)

lemma inv_log [simp]: "hws_inv (tell e d) = hws_inv d" "hws_inv (ask c d) = hws_inv d"
  by (simp_all add: hws_inv_def tell_def ask_def listed_def addr_ok_def)

lemma log_simps [simp]:
  "wss (tell e d) = wss d" "wss (ask c d) = wss d" "reqs (tell e d) = reqs d" "reqs (ask c d) = reqs d"
  "web_u (tell e d) = web_u d" "web_u (ask c d) = web_u d" "brk (tell e d) = brk d" "brk (ask c d) = brk d"
  "conns (tell e d) = conns d" "conns (ask c d) = conns d" "next_wid (tell e d) = next_wid d" "next_wid (ask c d) = next_wid d"
  "ova (ask c d) = ova d" "calls (tell e d) = calls d" "ova (tell e d) = ova d @ [e]" "calls (ask c d) = calls d @ [c]"
  by (simp_all add: tell_def ask_def)

text \<open>Changes that keep the invariant.\<close>

lemma inv_upd_ws:
  assumes inv: "hws_inv d" and w: "wss d w = Some s" and s': "nex_u s' = nex_u s" "pre_u s' = pre_u s"
    and st: "sat_e s \<noteq> hws_pending" "sat_e s' \<noteq> hws_pending" "woc_u s' = woc_u s" "req_u s' = req_u s"
  shows "hws_inv (d\<lparr>wss := (wss d)(w \<mapsto> s')\<rparr>)"
proof -
  have "insert w (dom (wss d)) = dom (wss d)" using w by auto
  moreover have "req_ok ((wss d)(w \<mapsto> s')) (conns d) r q" if "reqs d r = Some q" for r q
    using hws_invD(4) [OF inv that] w st by (auto simp: req_ok_def)
  moreover have "conn_ok ((wss d)(w \<mapsto> s')) woc c" if "conns d woc = Some c" for woc c
    using hws_invD(5) [OF inv that] w st by (auto simp: conn_ok_def)
  moreover have "sess_ok (reqs d) (conns d) w s'" using hws_invD(3) [OF inv w] st by (simp add: sess_ok_def)
  ultimately show ?thesis using inv s'
    unfolding hws_inv_def listed_def addr_ok_def by (auto simp: links_of_keep [of "wss d" w s s'] w)
qed

text \<open>A pending session that gets a connection.\<close>

lemma inv_open:
  assumes inv: "hws_inv d" and w: "wss d w = Some s" "sat_e s = hws_pending"
    and s': "nex_u s' = nex_u s" "pre_u s' = pre_u s" "sat_e s' \<noteq> hws_pending" "req_u s' = 0" "woc_u s' = woc"
    and woc: "woc \<noteq> 0" "conns d woc = None" and c: "data_u c = w" "of_req c = req_u s"
  shows "hws_inv (d\<lparr>conns := (conns d)(woc \<mapsto> c), wss := (wss d)(w \<mapsto> s')\<rparr>)"
proof -
  let ?C = "(conns d)(woc \<mapsto> c)"
  have "insert w (dom (wss d)) = dom (wss d)" using w by auto
  moreover have "req_ok ((wss d)(w \<mapsto> s')) ?C r q" if r: "reqs d r = Some q" for r q
  proof (cases "wsu_u q = w")
    case True
    have "0 < w" using hws_invD(2) [OF inv] w(1) unfolding addr_ok_def by auto
    then have "req_u s = r" using hws_invD(4) [OF inv r] w True by (simp add: req_ok_def)
    then show ?thesis using True s' c by (simp add: req_ok_def)
  next
    case False
    have "req_ok (wss d) ?C r q" by (rule req_ok_conns [OF hws_invD(4) [OF inv r]]) (use woc(2) in simp)
    then show ?thesis using False by (simp add: req_ok_def)
  qed
  moreover have "conn_ok ((wss d)(w \<mapsto> s')) woc1 c1" if c1: "?C woc1 = Some c1" for woc1 c1
  proof (cases "woc1 = woc")
    case True
    then show ?thesis using c1 c s' by (simp add: conn_ok_def)
  next
    case False
    then have "conn_ok (wss d) woc1 c1" using hws_invD(5) [OF inv] c1 by simp
    moreover from this have "data_u c1 \<noteq> w" using w unfolding conn_ok_def by auto
    ultimately show ?thesis by (simp add: conn_ok_def)
  qed
  moreover have "sess_ok (reqs d) ?C x t" if x: "((wss d)(w \<mapsto> s')) x = Some t" for x t
  proof (cases "x = w")
    case True
    then show ?thesis using x s' woc c by (auto simp: sess_ok_def)
  next
    case False
    then have x': "wss d x = Some t" using x by simp
    show ?thesis by (rule sess_ok_conns [OF hws_invD(3) [OF inv x']]) (use woc(2) in simp)
  qed
  ultimately show ?thesis using inv s'(1,2)
    unfolding hws_inv_def listed_def addr_ok_def by (auto simp: links_of_keep [of "wss d" w s s'] w)
qed

lemma inv_upd_req:
  assumes "hws_inv d" "reqs d r = Some q" "wsu_u q' = wsu_u q"
  shows "hws_inv (d\<lparr>reqs := (reqs d)(r \<mapsto> q')\<rparr>)"
proof -
  have "insert r (dom (reqs d)) = dom (reqs d)" using assms(2) by auto
  moreover have "sess_ok ((reqs d)(r \<mapsto> q')) (conns d) w s" if "wss d w = Some s" for w s
    using hws_invD(3) [OF assms(1) that] assms(2,3) by (auto simp: sess_ok_def split: if_splits)
  moreover have "req_ok (wss d) (conns d) r q'" using hws_invD(4) [OF assms(1,2)] assms(3) by (simp add: req_ok_def)
  ultimately show ?thesis using assms unfolding hws_inv_def listed_def addr_ok_def by auto
qed

text \<open>
  A session that no request points to can be taken out and freed, whatever it holds. Its connection, if
  it has one, has come to its end.
\<close>

definition without :: "hws \<Rightarrow> (nat \<rightharpoonup> conn) \<Rightarrow> (nat \<rightharpoonup> conn)" where
  "without s C = (if sat_e s = hws_pending then C else C(woc_u s := None))"

lemma without_other:
  assumes inv: "hws_inv d" and w: "wss d w = Some s" and x: "wss d x = Some t" "x \<noteq> w" "sat_e t \<noteq> hws_pending"
  shows "without s (conns d) (woc_u t) = conns d (woc_u t)"
proof (cases "sat_e s = hws_pending")
  case False
  have "map_option data_u (conns d (woc_u s)) = Some w" "map_option data_u (conns d (woc_u t)) = Some x"
    using hws_invD(3) [OF inv w] hws_invD(3) [OF inv x(1)] False x(3) by (simp_all add: sess_ok_def)
  then have "woc_u t \<noteq> woc_u s" using x(2) by auto
  then show ?thesis by (simp add: without_def)
qed (simp add: without_def)

lemma without_conn_ok:
  assumes inv: "hws_inv d" and w: "wss d w = Some s" and c: "without s (conns d) woc = Some c"
  shows "conn_ok ((wss d)(w := None)) woc c"
proof -
  have "conns d woc = Some c" using c by (auto simp: without_def split: if_splits)
  then obtain t where t: "wss d (data_u c) = Some t" "sat_e t \<noteq> hws_pending" "woc_u t = woc"
    using hws_invD(5) [OF inv] unfolding conn_ok_def by blast
  have "data_u c \<noteq> w"
  proof
    assume "data_u c = w"
    then have "without s (conns d) woc = None" using t w by (simp add: without_def)
    then show False using c by simp
  qed
  then show ?thesis using t by (simp add: conn_ok_def)
qed

definition rest_same :: "httd \<Rightarrow> httd \<Rightarrow> bool" where
  "rest_same d d' \<longleftrightarrow> reqs d' = reqs d \<and> conns d' = conns d \<and> next_wid d' = next_wid d \<and> brk d' = brk d \<and>
     ova d' = ova d \<and> calls d' = calls d"

definition unlisted :: "nat \<Rightarrow> httd \<Rightarrow> httd \<Rightarrow> bool" where
  "unlisted w d d' \<longleftrightarrow>
     (\<forall>xs. dlist (links_of (wss d)) 0 (web_u d) xs \<longrightarrow> dlist (links_of (wss d')) 0 (web_u d') (remove1 w xs))"

lemma addr_ok_mono:
  assumes "addr_ok d" "dom (wss d') \<subseteq> dom (wss d)" "dom (reqs d') \<subseteq> dom (reqs d)" "brk d' = brk d"
  shows "addr_ok d'"
  unfolding addr_ok_def
proof (intro conjI ballI)
  show "0 < brk d'" using assms by (simp add: addr_ok_def)
  fix x assume "x \<in> dom (wss d') \<union> dom (reqs d')"
  then have "x \<in> dom (wss d) \<union> dom (reqs d)" using assms(2,3) by blast
  then have "0 < x \<and> x < brk d" using assms(1) unfolding addr_ok_def by blast
  then show "0 < x" "x < brk d'" using assms(4) by simp_all
qed

lemma take_out:
  assumes inv: "hws_inv d" and w: "wss d w = Some s" and s': "nex_u s' = nex_u s" "pre_u s' = pre_u s"
    and d2: "wss d2 = (wss d)(w \<mapsto> s')" "web_u d2 = web_u d" "brk d2 = brk d" "conns d2 = conns d"
    and R: "\<And>r q'. reqs d2 r = Some q' \<Longrightarrow> \<exists>q. reqs d r = Some q \<and> (wsu_u q' = 0 \<or> wsu_u q' = wsu_u q \<and> wsu_u q \<noteq> w)"
    and R': "\<And>r q. reqs d r = Some q \<Longrightarrow> wsu_u q \<noteq> w \<Longrightarrow> \<exists>q'. reqs d2 r = Some q' \<and> wsu_u q' = wsu_u q"
  shows "\<exists>d'. http_ws_unlink w d2 = Some d' \<and> hws_inv ((free_ws w d')\<lparr>conns := without s (conns d)\<rparr>) \<and> rest_same d2 (free_ws w d') \<and>
    same_ws ((wss d)(w := None)) (wss (free_ws w d')) \<and> unlisted w d (free_ws w d')"
proof -
  obtain xs where xs: "dlist (links_of (wss d)) 0 (web_u d) xs" "set xs = dom (wss d)"
    using hws_invD(1) [OF inv] unfolding listed_def by blast
  have "links_of (wss d2) = links_of (wss d)" unfolding d2(1) by (rule links_of_keep [where h = "wss d", OF w s'])
  then have xs2: "dlist (links_of (wss d2)) 0 (web_u d2) xs" using xs(1) d2(2) by simp
  have "w \<in> set xs" using w xs(2) by auto
  then obtain h a where u: "http_ws_unlink w d2 = Some (d2\<lparr>wss := h, web_u := a\<rparr>)" "dlist (links_of h) 0 a (remove1 w xs)"
      "same_ws (wss d2) h"
    using http_ws_unlink_spec [OF xs2] by blast
  let ?d = "free_ws w (d2\<lparr>wss := h, web_u := a\<rparr>)"
  have dist: "distinct xs" using xs(1) by (rule dlist_distinct)
  have dom: "dom h = dom (wss d)" using same_ws_dom [OF u(3)] d2(1) w by auto
  have same: "same_ws ((wss d)(w := None)) (h(w := None))" 
    unfolding same_ws_def
  proof
    fix x show "map_option strip (((wss d)(w := None)) x) = map_option strip ((h(w := None)) x)"
      using spec [OF u(3) [unfolded same_ws_def d2(1)], of x] by (cases "x = w") simp_all
  qed
  have "dlist (links_of (h(w := None))) 0 a (remove1 w xs) = dlist (links_of h) 0 a (remove1 w xs)"
    by (rule dlist_cong) (use dist in \<open>auto simp: links_of_def\<close>)
  moreover have "set (remove1 w xs) = dom (h(w := None))" using dist xs(2) dom by auto
  ultimately have "listed ?d" using u(2) unfolding listed_def free_ws_def by auto
  moreover have "addr_ok ?d"
  proof -
    have "dom (wss ?d) \<subseteq> dom (wss d)" using dom by (auto simp: free_ws_def)
    moreover have "dom (reqs d2) \<subseteq> dom (reqs d)" using R by blast
    ultimately show ?thesis by (intro addr_ok_mono [OF hws_invD(2) [OF inv]]) (simp_all add: free_ws_def d2(3))
  qed
  moreover have "sess_ok (reqs d2) (without s (conns d)) x t" if x: "(h(w := None)) x = Some t" for x t
  proof -
    obtain u where u: "wss d x = Some u" "strip t = strip u" "x \<noteq> w" using same_wsD2 [OF same x] by (auto split: if_splits)
    then have ok: "sess_ok (reqs d) (conns d) x t" using hws_invD(3) [OF inv u(1)] sess_ok_strip by blast
    show ?thesis
    proof (cases "sat_e t = hws_pending")
      case True
      then obtain q where q: "reqs d (req_u t) = Some q" "wsu_u q = x" using ok by (auto simp: sess_ok_def)
      then obtain q' where "reqs d2 (req_u t) = Some q'" "wsu_u q' = x" using R' u(3) by blast
      then show ?thesis using ok True by (simp add: sess_ok_def)
    next
      case False
      then have "without s (conns d) (woc_u t) = conns d (woc_u t)"
        using without_other [OF inv w u(1,3)] strip_eqD [OF u(2)] by simp
      then show ?thesis using ok False by (simp add: sess_ok_def)
    qed
  qed
  moreover have "req_ok (h(w := None)) (without s (conns d)) r q'" if rq: "reqs d2 r = Some q'" for r q'
  proof -
    obtain q where q: "reqs d r = Some q" "wsu_u q' = 0 \<or> wsu_u q' = wsu_u q \<and> wsu_u q \<noteq> w" using R [OF rq] by blast
    have "req_ok ((wss d)(w := None)) (without s (conns d)) r q'"
    proof (cases "wsu_u q' = 0")
      case False
      then have e: "wsu_u q' = wsu_u q" "wsu_u q \<noteq> w" using q(2) by auto
      then obtain t where t: "wss d (wsu_u q) = Some t"
          "if sat_e t = hws_pending then req_u t = r else map_option of_req (conns d (woc_u t)) = Some r"
        using hws_invD(4) [OF inv q(1)] False unfolding req_ok_def by metis
      then show ?thesis using e without_other [OF inv w t(1) e(2)] by (simp add: req_ok_def)
    qed (simp add: req_ok_def)
    then show ?thesis by (rule req_ok_same [OF same])
  qed
  moreover have "conn_ok (h(w := None)) woc c" if c: "without s (conns d) woc = Some c" for woc c
    by (rule conn_ok_same [OF same without_conn_ok [OF inv w c]])
  ultimately have "hws_inv (?d\<lparr>conns := without s (conns d)\<rparr>)"
    unfolding hws_inv_def by (simp add: free_ws_def listed_def addr_ok_def)
  moreover have "unlisted w d ?d"
  proof -
    have "dlist (links_of (h(w := None))) 0 a (remove1 w xs)"
      using u(2) dlist_cong [of "remove1 w xs" "links_of (h(w := None))" "links_of h"] dist by (auto simp: links_of_def)
    then have "dlist (links_of (wss ?d)) 0 (web_u ?d) (remove1 w xs)" by (simp add: free_ws_def)
    then show ?thesis unfolding unlisted_def using dlist_det [OF xs(1)] by blast
  qed
  ultimately show ?thesis using u(1) same by (auto simp: rest_same_def free_ws_def)
qed

section \<open>Finding a session\<close>

lemma find_loop_spec:
  assumes "dlist (links_of h) p x xs"
  shows "find_loop h x wid =
    Some (case List.find (\<lambda>w. map_option wid_l (h w) = Some wid) xs of None \<Rightarrow> 0 | Some w \<Rightarrow> w)"
  using assms
proof (induction xs arbitrary: p x)
  case Nil
  then show ?case by (subst find_loop.simps) simp
next
  case (Cons w ws)
  then obtain s where s: "x = w" "w \<noteq> 0" "h w = Some s" "dlist (links_of h) w (nex_u s) ws"
    by (auto simp: links_of_def)
  show ?case using Cons.IH [OF s(4)] s by (subst find_loop.simps) auto
qed

lemma find_returns:
  assumes "listed d"
  shows "\<exists>w. http_ws_find d wid = Some w \<and>
    (if w = 0 then \<forall>x s. wss d x = Some s \<longrightarrow> wid_l s \<noteq> wid else \<exists>s. wss d w = Some s \<and> wid_l s = wid)"
proof -
  obtain xs where xs: "dlist (links_of (wss d)) 0 (web_u d) xs" "set xs = dom (wss d)" using assms unfolding listed_def by blast
  let ?f = "List.find (\<lambda>w. map_option wid_l (wss d w) = Some wid) xs"
  have f: "http_ws_find d wid = Some (case ?f of None \<Rightarrow> 0 | Some w \<Rightarrow> w)"
    unfolding http_ws_find_def by (rule find_loop_spec [OF xs(1)])
  show ?thesis
  proof (cases ?f)
    case None
    then have "\<forall>x \<in> dom (wss d). map_option wid_l (wss d x) \<noteq> Some wid" unfolding find_None_iff xs(2) [symmetric] by blast
    then show ?thesis using f None by fastforce
  next
    case (Some w)
    then have "map_option wid_l (wss d w) = Some wid" "w \<in> set xs" by (auto simp: find_Some_iff)
    then show ?thesis using f Some dlist_member [OF xs(1)] by auto
  qed
qed

section \<open>What the operations do\<close>

fun rank :: "hwsat \<Rightarrow> nat" where
  "rank hws_pending = 0"
| "rank hws_open = 1"
| "rank hws_closing = 2"
| "rank hws_closed = 3"

text \<open>Sessions go on or disappear; none is made, and none goes back.\<close>

definition onward :: "httd \<Rightarrow> httd \<Rightarrow> bool" where
  "onward d d' \<longleftrightarrow> next_wid d' = next_wid d \<and> brk d \<le> brk d' \<and>
     (\<forall>w s'. wss d' w = Some s' \<longrightarrow> (\<exists>s. wss d w = Some s \<and> wid_l s' = wid_l s \<and> sev_coq_seq s' = sev_coq_seq s \<and>
        rank (sat_e s) \<le> rank (sat_e s')))"

lemma onward_refl [simp]: "onward d d"
  by (simp add: onward_def)

lemma onwardD:
  "onward d d' \<Longrightarrow> wss d' w = Some s' \<Longrightarrow>
    \<exists>s. wss d w = Some s \<and> wid_l s' = wid_l s \<and> sev_coq_seq s' = sev_coq_seq s \<and> rank (sat_e s) \<le> rank (sat_e s')"
  by (simp add: onward_def)

lemma onward_trans:
  assumes "onward d d1" "onward d1 d2"
  shows "onward d d2"
  unfolding onward_def
proof (intro conjI allI impI)
  fix w s2 assume "wss d2 w = Some s2"
  then obtain s1 where s1: "wss d1 w = Some s1" "wid_l s2 = wid_l s1" "sev_coq_seq s2 = sev_coq_seq s1" "rank (sat_e s1) \<le> rank (sat_e s2)"
    using onwardD [OF assms(2)] by blast
  obtain s where "wss d w = Some s" "wid_l s1 = wid_l s" "sev_coq_seq s1 = sev_coq_seq s" "rank (sat_e s) \<le> rank (sat_e s1)"
    using onwardD [OF assms(1) s1(1)] by blast
  then show "\<exists>s. wss d w = Some s \<and> wid_l s2 = wid_l s \<and> sev_coq_seq s2 = sev_coq_seq s \<and> rank (sat_e s) \<le> rank (sat_e s2)"
    using s1 by auto
qed (use assms in \<open>simp_all add: onward_def\<close>)

lemma onward_upd:
  "wss d w = Some s \<Longrightarrow> wid_l s' = wid_l s \<Longrightarrow> sev_coq_seq s' = sev_coq_seq s \<Longrightarrow> rank (sat_e s) \<le> rank (sat_e s') \<Longrightarrow>
    wss d' = (wss d)(w \<mapsto> s') \<Longrightarrow> next_wid d' = next_wid d \<Longrightarrow> brk d' = brk d \<Longrightarrow> onward d d'"
  by (auto simp: onward_def)

lemma onward_gone:
  "same_ws ((wss d)(w := None)) (wss d') \<Longrightarrow> next_wid d' = next_wid d \<Longrightarrow> brk d' = brk d \<Longrightarrow> onward d d'"
  unfolding onward_def
proof (intro conjI allI impI)
  fix x s' assume s: "same_ws ((wss d)(w := None)) (wss d')" and x: "wss d' x = Some s'"
  obtain t where t: "((wss d)(w := None)) x = Some t" "strip s' = strip t" using same_wsD2 [OF s x] by blast
  then have "wss d x = Some t" by (auto split: if_splits)
  then show "\<exists>s. wss d x = Some s \<and> wid_l s' = wid_l s \<and> sev_coq_seq s' = sev_coq_seq s \<and> rank (sat_e s) \<le> rank (sat_e s')"
    using strip_eqD [OF t(2)] by auto
qed auto

lemma onward_same: "wss d' = wss d \<Longrightarrow> next_wid d' = next_wid d \<Longrightarrow> brk d' = brk d \<Longrightarrow> onward d d'"
  by (simp add: onward_def)

lemma pending_request:
  assumes "hws_inv d" "wss d w = Some s" "sat_e s = hws_pending"
  shows "req_u s \<noteq> 0" "woc_u s = 0" "\<exists>q. reqs d (req_u s) = Some q \<and> wsu_u q = w"
    "\<And>r q. reqs d r = Some q \<Longrightarrow> wsu_u q = w \<Longrightarrow> r = req_u s"
proof -
  have ok: "sess_ok (reqs d) (conns d) w s" by (rule hws_invD(3) [OF assms(1,2)])
  show "req_u s \<noteq> 0" "woc_u s = 0" "\<exists>q. reqs d (req_u s) = Some q \<and> wsu_u q = w" using ok assms(3) by (simp_all add: sess_ok_def)
  have w0: "w \<noteq> 0" using hws_invD(2) [OF assms(1)] assms(2) unfolding addr_ok_def by auto
  show "r = req_u s" if "reqs d r = Some q" "wsu_u q = w" for r q
    using hws_invD(4) [OF assms(1) that(1)] that(2) assms(2,3) w0 by (simp add: req_ok_def)
qed

lemma session_nonnull: "hws_inv d \<Longrightarrow> wss d w = Some s \<Longrightarrow> w \<noteq> 0"
  using hws_invD(2) unfolding addr_ok_def by fastforce

text \<open>Taking out a pending session, once its request no longer points to it.\<close>

lemma take_out_pending:
  assumes inv: "hws_inv d" and w: "wss d w = Some s" "sat_e s = hws_pending" and s': "nex_u s' = nex_u s" "pre_u s' = pre_u s"
    and d2: "wss d2 = (wss d)(w \<mapsto> s')" "web_u d2 = web_u d" "brk d2 = brk d" "conns d2 = conns d" "next_wid d2 = next_wid d"
    and R: "reqs d2 = (reqs d)(req_u s \<mapsto> q')" "wsu_u q' = 0"
  shows "\<exists>d'. http_ws_unlink w d2 = Some d' \<and> hws_inv (free_ws w d') \<and> rest_same d2 (free_ws w d') \<and>
    same_ws ((wss d)(w := None)) (wss (free_ws w d')) \<and> onward d (free_ws w d') \<and> unlisted w d (free_ws w d')"
proof -
  note p = pending_request [OF inv w]
  obtain q where q: "reqs d (req_u s) = Some q" "wsu_u q = w" using p(3) by blast
  have "\<exists>d'. http_ws_unlink w d2 = Some d' \<and> hws_inv ((free_ws w d')\<lparr>conns := without s (conns d)\<rparr>) \<and> rest_same d2 (free_ws w d') \<and>
      same_ws ((wss d)(w := None)) (wss (free_ws w d')) \<and> unlisted w d (free_ws w d')"
  proof (rule take_out [OF inv w(1) s' d2(1-4)])
    fix r q1 assume "reqs d2 r = Some q1"
    then show "\<exists>q. reqs d r = Some q \<and> (wsu_u q1 = 0 \<or> wsu_u q1 = wsu_u q \<and> wsu_u q \<noteq> w)"
      using p(4) q(1) R by (cases "r = req_u s") auto
  next
    fix r q1 assume "reqs d r = Some q1" "wsu_u q1 \<noteq> w"
    then show "\<exists>q'. reqs d2 r = Some q' \<and> wsu_u q' = wsu_u q1" using q R by (cases "r = req_u s") auto
  qed
  then obtain d' where d': "http_ws_unlink w d2 = Some d'" "hws_inv ((free_ws w d')\<lparr>conns := without s (conns d)\<rparr>)"
      "rest_same d2 (free_ws w d')" "same_ws ((wss d)(w := None)) (wss (free_ws w d'))" "unlisted w d (free_ws w d')" by blast
  have "(free_ws w d')\<lparr>conns := without s (conns d)\<rparr> = free_ws w d'"
    using d'(3) d2(4) w(2) by (intro httd.equality) (simp_all add: without_def rest_same_def)
  then have inv': "hws_inv (free_ws w d')" using d'(2) by simp
  have "onward d (free_ws w d')" by (rule onward_gone [OF d'(4)]) (use d'(3) d2(3,5) in \<open>simp_all add: rest_same_def\<close>)
  then show ?thesis using d' inv' by blast
qed

lemma reject_spec:
  assumes inv: "hws_inv d" and w: "wss d w = Some s" "sat_e s = hws_pending"
  shows "\<exists>d'. http_ws_reject w d = Some d' \<and> hws_inv d' \<and> onward d d' \<and> same_ws ((wss d)(w := None)) (wss d') \<and>
    conns d' = conns d \<and> ova d' = ova d \<and> unlisted w d d'"
proof -
  note p = pending_request [OF inv w]
  obtain q where q: "reqs d (req_u s) = Some q" "wsu_u q = w" using p(3) by blast
  let ?da = "d\<lparr>wss := (wss d)(w \<mapsto> s\<lparr>sat_e := hws_closed\<rparr>)\<rparr>"
  let ?db = "if tim_u q then ask (timer_stop (req_u s)) ?da else ?da"
  let ?dc = "ask (send_error (req_u s) 403) (?db\<lparr>reqs := (reqs ?db)(req_u s \<mapsto> q\<lparr>rsat_e := rsat_ripe, wsu_u := 0\<rparr>)\<rparr>)"
  have "\<exists>d'. http_ws_unlink w ?dc = Some d' \<and> hws_inv (free_ws w d') \<and> rest_same ?dc (free_ws w d') \<and>
      same_ws ((wss d)(w := None)) (wss (free_ws w d')) \<and> onward d (free_ws w d') \<and> unlisted w d (free_ws w d')"
    by (rule take_out_pending [OF inv w, where s' = "s\<lparr>sat_e := hws_closed\<rparr>" and q' = "q\<lparr>rsat_e := rsat_ripe, wsu_u := 0\<rparr>"]) simp_all
  then obtain d' where d': "http_ws_unlink w ?dc = Some d'" "hws_inv (free_ws w d')" "rest_same ?dc (free_ws w d')"
      "same_ws ((wss d)(w := None)) (wss (free_ws w d'))" "onward d (free_ws w d')" "unlisted w d (free_ws w d')" by blast
  have "http_ws_reject w d = Some (free_ws w d')"
    using session_nonnull [OF inv w(1)] w p(1) q d'(1)
    by (simp add: http_ws_reject_def upd_ws_def upd_req_def split: if_splits)
  then show ?thesis using d' by (auto simp: rest_same_def)
qed

lemma reject_other: "wss d w = Some s \<Longrightarrow> sat_e s \<noteq> hws_pending \<Longrightarrow> http_ws_reject w d = Some d"
  by (simp add: http_ws_reject_def)

lemma disconnect_spec:
  assumes inv: "hws_inv d" and w: "wss d w = Some s"
  shows "\<exists>d'. http_ws_disconnect w d = Some d' \<and> hws_inv d' \<and> onward d d' \<and> conns d' = conns d \<and> ova d' = ova d \<and>
    (\<forall>x t. x \<noteq> w \<longrightarrow> wss d x = Some t \<longrightarrow> (\<exists>t'. wss d' x = Some t' \<and> strip t' = strip t)) \<and>
    (\<forall>s'. wss d' w = Some s' \<longrightarrow> sat_e s' \<noteq> hws_pending \<and> sat_e s' \<noteq> hws_open) \<and>
    (if wss d' w = None then unlisted w d d' else web_u d' = web_u d \<and> links_of (wss d') = links_of (wss d))"
proof -
  note ok = hws_invD(3) [OF inv w]
  consider "sat_e s = hws_pending" | "sat_e s = hws_open" | "sat_e s = hws_closing \<or> sat_e s = hws_closed" by (cases "sat_e s") auto
  then show ?thesis
  proof cases
    case 1
    then obtain d' where d': "http_ws_reject w d = Some d'" "hws_inv d'" "onward d d'" "same_ws ((wss d)(w := None)) (wss d')"
        "conns d' = conns d" "ova d' = ova d" "unlisted w d d'"
      using reject_spec [OF inv w] by blast
    have "http_ws_disconnect w d = Some d'" using 1 w d'(1) session_nonnull [OF inv w] by (simp add: http_ws_disconnect_def)
    moreover have "\<exists>t'. wss d' x = Some t' \<and> strip t' = strip t" if "x \<noteq> w" "wss d x = Some t" for x t
      using same_wsD [OF d'(4), of x t] that by simp
    moreover have "wss d' w = None" using same_wsD2 [OF d'(4), of w] by (cases "wss d' w") auto
    ultimately show ?thesis using d' by auto
  next
    case 2
    let ?d1 = "d\<lparr>wss := (wss d)(w \<mapsto> s\<lparr>sat_e := hws_closing\<rparr>)\<rparr>"
    have "hws_inv ?d1" by (rule inv_upd_ws [OF inv w]) (use 2 in simp_all)
    moreover have "http_ws_disconnect w d = Some (ask (ws_close (woc_u s)) ?d1)"
      using 2 w ok session_nonnull [OF inv w] by (simp add: http_ws_disconnect_def upd_ws_def sess_ok_def)
    moreover have "onward d (ask (ws_close (woc_u s)) ?d1)" by (rule onward_upd [OF w]) (use 2 in simp_all)
    moreover have "links_of (wss ?d1) = links_of (wss d)" using links_of_keep [where h = "wss d", OF w] by simp
    ultimately show ?thesis by simp
  next
    case 3
    then have "http_ws_disconnect w d = Some d" using w session_nonnull [OF inv w] by (auto simp: http_ws_disconnect_def)
    then show ?thesis using inv w 3 by auto
  qed
qed

end
