(* ===== verification/HttpWsOps.thy ===== *)
theory HttpWsOps
  imports HttpWsInv
begin

text \<open>
  What the remaining operations on websocket sessions do: accept, detach, the callback of the
  connection, the handshake, sending, closing all, and the end of a request.
\<close>

text \<open>An accepted handshake, when libh2o makes the connection.\<close>

lemma accept_opens:
  assumes w: "wss d w = Some s" "w \<noteq> 0" and True: "sat_e s = hws_pending" "req_u s \<noteq> 0"
    and q: "reqs d (req_u s) = Some q" "wsu_u q = w" and woc1: "woc \<noteq> 0"
  shows "http_ws_accept woc w d =
    (let d1 = (if tim_u q then ask (timer_stop (req_u s)) d else d);
         dc = d1\<lparr>reqs := (reqs d)(req_u s \<mapsto> q\<lparr>rsat_e := rsat_ripe\<rparr>), conns := (conns d)(woc \<mapsto> \<lparr>sock_u = False, data_u = w, of_req = req_u s\<rparr>),
                wss := (wss d)(w \<mapsto> s\<lparr>req_u := 0, woc_u := woc, sat_e := hws_open\<rparr>)\<rparr>
     in Some (dc\<lparr>calls := calls dc @ [upgrade (req_u s) (key_c s)]\<rparr>))"
proof -
  let ?r = "req_u s" let ?q' = "q\<lparr>rsat_e := rsat_ripe\<rparr>" let ?c = "\<lparr>sock_u = False, data_u = w, of_req = req_u s\<rparr>" let ?s' = "s\<lparr>req_u := 0, woc_u := woc, sat_e := hws_open\<rparr>"
  let ?d1 = "if tim_u q then ask (timer_stop ?r) d else d"
  let ?dc = "?d1\<lparr>reqs := (reqs d)(?r \<mapsto> ?q'), conns := (conns d)(woc \<mapsto> ?c), wss := (wss d)(w \<mapsto> ?s')\<rparr>"
  have "q\<lparr>rsat_e := rsat_ripe, wsu_u := w\<rparr> = ?q'" by (rule hreq.equality) (use q in simp_all)
  then have "?d1\<lparr>calls := calls ?d1 @ [upgrade ?r (key_c s)], conns := (conns d)(woc \<mapsto> ?c), wss := (wss d)(w \<mapsto> ?s'),
        reqs := (reqs d)(?r \<mapsto> q\<lparr>rsat_e := rsat_ripe, wsu_u := w\<rparr>)\<rparr> = ?dc\<lparr>calls := calls ?dc @ [upgrade ?r (key_c s)]\<rparr>"
    by (intro httd.equality) simp_all
  moreover have "http_ws_accept woc w d = Some (?d1\<lparr>calls := calls ?d1 @ [upgrade ?r (key_c s)], conns := (conns d)(woc \<mapsto> ?c),
        wss := (wss d)(w \<mapsto> ?s'), reqs := (reqs d)(?r \<mapsto> q\<lparr>rsat_e := rsat_ripe, wsu_u := w\<rparr>)\<rparr>)"
    using w True q woc1
    by (cases "tim_u q") (simp_all add: http_ws_accept_def upd_ws_def upd_req_def ask_def Let_def)
  ultimately show ?thesis by (simp only: Let_def)
qed

lemma accept_spec:
  assumes inv: "hws_inv d" and w: "wss d w = Some s" and woc: "woc = 0 \<or> conns d woc = None"
  shows "\<exists>d'. http_ws_accept woc w d = Some d' \<and> hws_inv d' \<and> onward d d' \<and> ova d' = ova d"
proof (cases "sat_e s = hws_pending")
  case False
  then have "http_ws_accept woc w d = Some d" using w session_nonnull [OF inv w] by (simp add: http_ws_accept_def)
  then show ?thesis using inv by simp
next
  case True
  note p = pending_request [OF inv w True]
  note w0 = session_nonnull [OF inv w]
  obtain q where q: "reqs d (req_u s) = Some q" "wsu_u q = w" using p(3) by blast
  let ?r = "req_u s"
  let ?d1 = "if tim_u q then ask (timer_stop ?r) d else d"
  show ?thesis
  proof (cases "woc = 0")
    case woc0: True
    let ?s' = "s\<lparr>req_u := ?r, woc_u := 0, sat_e := hws_closed\<rparr>" let ?q' = "q\<lparr>rsat_e := rsat_ripe, wsu_u := 0\<rparr>"
    let ?d2 = "?d1\<lparr>calls := calls ?d1 @ [upgrade ?r (key_c s), send_error ?r 500], reqs := (reqs d)(?r \<mapsto> ?q'), wss := (wss d)(w \<mapsto> ?s')\<rparr>"
    have "\<exists>d'. http_ws_unlink w ?d2 = Some d' \<and> hws_inv (free_ws w d') \<and> rest_same ?d2 (free_ws w d') \<and>
        same_ws ((wss d)(w := None)) (wss (free_ws w d')) \<and> onward d (free_ws w d') \<and> unlisted w d (free_ws w d')"
      by (rule take_out_pending [OF inv w True, where s' = ?s' and q' = ?q']) simp_all
    then obtain d' where d': "http_ws_unlink w ?d2 = Some d'" "hws_inv (free_ws w d')" "rest_same ?d2 (free_ws w d')"
        "onward d (free_ws w d')" by blast
    have "http_ws_accept woc w d = do { d10 \<leftarrow> http_ws_unlink w ?d2; Some (free_ws w d10) }"
      using w0 w True p(1) q woc0
      by (cases "tim_u q") (simp_all add: http_ws_accept_def upd_ws_def upd_req_def ask_def Let_def)
    then have "http_ws_accept woc w d = Some (free_ws w d')" using d'(1) by simp
    then show ?thesis using d' by (auto simp: rest_same_def)
  next
    case woc1: False
    let ?s' = "s\<lparr>req_u := 0, woc_u := woc, sat_e := hws_open\<rparr>" let ?q' = "q\<lparr>rsat_e := rsat_ripe\<rparr>"
    let ?c = "\<lparr>sock_u = False, data_u = w, of_req = req_u s\<rparr>" let ?da = "?d1\<lparr>reqs := (reqs d)(?r \<mapsto> ?q')\<rparr>"
    let ?dc = "?da\<lparr>conns := (conns d)(woc \<mapsto> ?c), wss := (wss d)(w \<mapsto> ?s')\<rparr>"
    have a: "hws_inv ?d1" using inv by simp
    have same: "reqs ?d1 = reqs d" "wss ?d1 = wss d" "conns ?d1 = conns d" by simp_all
    have b: "hws_inv ?da" using inv_upd_req [OF a, of ?r q ?q'] q same by simp
    have "hws_inv (?da\<lparr>conns := (conns ?da)(woc \<mapsto> ?c), wss := (wss ?da)(w \<mapsto> ?s')\<rparr>)"
      by (rule inv_open [OF b, where s = s]) (use w woc woc1 True in simp_all)
    then have d: "hws_inv ?dc" by (cases "tim_u q") simp_all
    have "hws_inv (?dc\<lparr>calls := calls ?dc @ [upgrade ?r (key_c s)]\<rparr>)" using d inv_log(2) [of "upgrade ?r (key_c s)" ?dc] unfolding ask_def by simp
    moreover have "http_ws_accept woc w d = Some (?dc\<lparr>calls := calls ?dc @ [upgrade ?r (key_c s)]\<rparr>)"
      by (rule accept_opens [OF w w0 True p(1) q woc1, unfolded Let_def])
    moreover have "onward d (?dc\<lparr>calls := calls ?dc @ [upgrade ?r (key_c s)]\<rparr>)"
      by (rule onward_upd [OF w, where s' = ?s']) (use True in simp_all)
    ultimately show ?thesis by simp
  qed
qed

lemma detach_spec:
  assumes inv: "hws_inv d" and r: "reqs d r = Some q"
  shows "\<exists>d'. http_ws_detach_request r d = Some d' \<and> hws_inv d' \<and> onward d d' \<and> ova d' = ova d \<and> calls d' = calls d \<and>
    reqs d' = (reqs d)(r \<mapsto> q\<lparr>wsu_u := 0\<rparr>) \<and> conns d' = conns d"
proof (cases "wsu_u q = 0")
  case True
  then have "http_ws_detach_request r d = Some d" using r by (simp add: http_ws_detach_request_def)
  moreover have "q\<lparr>wsu_u := 0\<rparr> = q" using True by simp
  ultimately show ?thesis using inv r by (simp add: map_upd_triv)
next
  case False
  let ?w = "wsu_u q" let ?q' = "q\<lparr>wsu_u := 0\<rparr>" let ?d1 = "d\<lparr>reqs := (reqs d)(r \<mapsto> ?q')\<rparr>"
  obtain s where s: "wss d ?w = Some s" "sat_e s = hws_pending \<longrightarrow> req_u s = r"
    using hws_invD(4) [OF inv r] False by (auto simp: req_ok_def split: if_splits)
  note ok = hws_invD(3) [OF inv s(1)]
  show ?thesis
  proof (cases "sat_e s = hws_pending")
    case True
    then have rs: "req_u s = r" "r \<noteq> 0" using s(2) pending_request(1) [OF inv s(1)] by auto
    let ?s' = "s\<lparr>req_u := 0, sat_e := hws_closed\<rparr>" let ?d2 = "?d1\<lparr>wss := (wss d)(?w \<mapsto> ?s')\<rparr>"
    have "\<exists>d'. http_ws_unlink ?w ?d2 = Some d' \<and> hws_inv (free_ws ?w d') \<and> rest_same ?d2 (free_ws ?w d') \<and>
        same_ws ((wss d)(?w := None)) (wss (free_ws ?w d')) \<and> onward d (free_ws ?w d') \<and> unlisted ?w d (free_ws ?w d')"
      by (rule take_out_pending [OF inv s(1) True, where s' = ?s' and q' = ?q']) (simp_all add: rs)
    then obtain d' where d': "http_ws_unlink ?w ?d2 = Some d'" "hws_inv (free_ws ?w d')" "rest_same ?d2 (free_ws ?w d')"
        "onward d (free_ws ?w d')" by blast
    have "http_ws_detach_request r d = Some (free_ws ?w d')"
      using r s(1) False rs d'(1) by (simp add: http_ws_detach_request_def upd_req_def upd_ws_def)
    then show ?thesis using d' by (auto simp: rest_same_def)
  next
    case np: False
    then have "req_u s = 0" using ok by (simp add: sess_ok_def)
    then have e: "http_ws_detach_request r d = Some ?d1"
      using r s(1) False by (simp add: http_ws_detach_request_def upd_req_def)
    have "hws_inv ?d1"
    proof -
      have "sess_ok (reqs ?d1) (conns d) x t" if x: "wss d x = Some t" for x t
      proof (cases "sat_e t = hws_pending")
        case True
        note p = pending_request [OF inv x True]
        have "req_u t \<noteq> r"
        proof
          assume "req_u t = r"
          then have "?w = x" using p(3) r by auto
          then show False using s(1) x True np by simp
        qed
        then show ?thesis using hws_invD(3) [OF inv x] True by (simp add: sess_ok_def)
      next
        case False
        then show ?thesis using hws_invD(3) [OF inv x] by (simp add: sess_ok_def)
      qed
      moreover have "insert r (dom (reqs d)) = dom (reqs d)" using r by auto
      moreover have "req_ok (wss d) (conns d) r ?q'" by (simp add: req_ok_def)
      ultimately show ?thesis using inv unfolding hws_inv_def listed_def addr_ok_def by simp
    qed
    then show ?thesis using e by (auto intro: onward_same)
  qed
qed

text \<open>The session that is left with a connection.\<close>

lemma conn_session:
  assumes inv: "hws_inv d" and c: "conns d woc = Some c"
  obtains s where "wss d (data_u c) = Some s" "sat_e s \<noteq> hws_pending" "woc_u s = woc"
  using hws_invD(5) [OF inv c] unfolding conn_ok_def by blast

lemma session_conn:
  assumes inv: "hws_inv d" and w: "wss d w = Some s" "sat_e s \<noteq> hws_pending"
  obtains c where "conns d (woc_u s) = Some c" "data_u c = w"
  using hws_invD(3) [OF inv w(1)] w(2) unfolding sess_ok_def by auto

lemma conn_forgotten:
  assumes inv: "hws_inv d" and c: "conns d woc = Some c" "reqs d (of_req c) = None" and r: "reqs d r = Some q"
  shows "wsu_u q \<noteq> data_u c"
proof
  assume e: "wsu_u q = data_u c"
  obtain s where s: "wss d (data_u c) = Some s" "sat_e s \<noteq> hws_pending" "woc_u s = woc" by (rule conn_session [OF inv c(1)])
  have "wsu_u q \<noteq> 0" using session_nonnull [OF inv s(1)] e by simp
  then have "of_req c = r" using hws_invD(4) [OF inv r] e s c(1) by (simp add: req_ok_def)
  then show False using c(2) r by simp
qed

lemma message_cb_spec:
  assumes inv: "hws_inv d" and w: "wss d w = Some s" "sat_e s \<noteq> hws_pending"
  shows "\<exists>d'. http_ws_message_cb (woc_u s) arg d = Some d' \<and> onward d d' \<and> calls d' = calls d \<and> reqs d' = reqs d \<and> conns d' = conns d \<and>
    (case arg of
       None \<Rightarrow> ova d' = ova d @ (if sat_e s = hws_closed then [] else [websocket_event (sev_coq_seq s) (wid_l s) ws_disconnect]) \<and>
         same_ws ((wss d)(w := None)) (wss d') \<and>
         ((\<forall>r q. reqs d r = Some q \<longrightarrow> wsu_u q \<noteq> w) \<longrightarrow> hws_inv (d'\<lparr>conns := (conns d')(woc_u s := None)\<rparr>))
     | Some (opcode, msg) \<Rightarrow> hws_inv d' \<and>
         (if opcode = WSLAY_CONNECTION_CLOSE
          then ova d' = ova d @ (if sat_e s = hws_closed then [] else [websocket_event (sev_coq_seq s) (wid_l s) ws_disconnect]) \<and>
            wss d' = (wss d)(w \<mapsto> s\<lparr>sat_e := hws_closed\<rparr>)
          else ova d' = ova d @ [websocket_event (sev_coq_seq s) (wid_l s) (ws_message opcode (if msg = [] then None else Some msg))] \<and>
            wss d' = wss d))"
proof -
  note w0 = session_nonnull [OF inv w(1)]
  obtain c where c: "conns d (woc_u s) = Some c" "data_u c = w" by (rule session_conn [OF inv w])
  let ?s' = "s\<lparr>sat_e := hws_closed\<rparr>" let ?e = "websocket_event (sev_coq_seq s) (wid_l s) ws_disconnect"
  let ?d1 = "if sat_e s = hws_closed then d else tell ?e (d\<lparr>wss := (wss d)(w \<mapsto> ?s')\<rparr>)"
  have s_id: "?s' = s" if "sat_e s = hws_closed" using that by simp
  have wss1: "wss ?d1 = (wss d)(w \<mapsto> ?s')" using w(1) s_id by (auto simp: fun_upd_idem)
  have inv1: "hws_inv (d\<lparr>wss := (wss d)(w \<mapsto> ?s')\<rparr>)"
    by (rule inv_upd_ws [OF inv w(1)]) (use w(2) in simp_all)
  then have i1: "hws_inv ?d1" using inv by simp
  have on1: "onward d ?d1" by (rule onward_upd [OF w(1) _ _ _ wss1]) (cases "sat_e s"; simp)+
  have close: "(if sat_e s \<noteq> hws_closed then do { da \<leftarrow> upd_ws w (\<lambda>s. s\<lparr>sat_e := hws_closed\<rparr>) d; http_ws_plan_event w ws_disconnect da }
      else Some d) = Some ?d1"
    using w(1) by (simp add: upd_ws_def http_ws_plan_event_def)
  show ?thesis
  proof (cases arg)
    case None
    obtain xs where xs: "dlist (links_of (wss ?d1)) 0 (web_u ?d1) xs" "set xs = dom (wss ?d1)"
      using hws_invD(1) [OF i1] unfolding listed_def by blast
    then have "w \<in> set xs" unfolding wss1 by simp
    then obtain h a where u: "http_ws_unlink w ?d1 = Some (?d1\<lparr>wss := h, web_u := a\<rparr>)" "same_ws (wss ?d1) h"
      using http_ws_unlink_spec [OF xs(1)] by blast
    let ?d2 = "free_ws w (?d1\<lparr>wss := h, web_u := a\<rparr>)"
    have same: "same_ws ((wss d)(w := None)) (wss ?d2)"
      unfolding same_ws_def
    proof
      fix x show "map_option strip (((wss d)(w := None)) x) = map_option strip (wss ?d2 x)"
        using spec [OF u(2) [unfolded same_ws_def wss1], of x] by (cases "x = w") (simp_all add: free_ws_def)
    qed
    have e: "http_ws_message_cb (woc_u s) arg d = Some ?d2"
      using c w0 w(1) close u(1) by (simp add: http_ws_message_cb_def None)
    have inv2: "hws_inv (?d2\<lparr>conns := (conns ?d2)(woc_u s := None)\<rparr>)" if fin: "\<forall>r q. reqs d r = Some q \<longrightarrow> wsu_u q \<noteq> w"
    proof -
      have "\<exists>d'. http_ws_unlink w ?d1 = Some d' \<and> hws_inv ((free_ws w d')\<lparr>conns := without s (conns d)\<rparr>) \<and> rest_same ?d1 (free_ws w d') \<and>
          same_ws ((wss d)(w := None)) (wss (free_ws w d')) \<and> unlisted w d (free_ws w d')"
      proof (rule take_out [OF inv w(1) _ _ wss1])
        fix r q' assume "reqs ?d1 r = Some q'"
        then have "reqs d r = Some q'" by (simp split: if_splits)
        then show "\<exists>q. reqs d r = Some q \<and> (wsu_u q' = 0 \<or> wsu_u q' = wsu_u q \<and> wsu_u q \<noteq> w)" using fin by blast
      qed simp_all
      then have "hws_inv (?d2\<lparr>conns := without s (conns d)\<rparr>)" using u(1) by auto
      moreover have "without s (conns d) = (conns ?d2)(woc_u s := None)" using w(2) by (simp add: without_def free_ws_def)
      ultimately show ?thesis by simp
    qed
    have rest: "calls ?d2 = calls d" "reqs ?d2 = reqs d" "conns ?d2 = conns d" "next_wid ?d2 = next_wid d" "brk ?d2 = brk d"
        "ova ?d2 = ova d @ (if sat_e s = hws_closed then [] else [?e])" by (simp_all add: free_ws_def)
    have on2: "onward d ?d2" by (rule onward_gone [OF same rest(4,5)])
    show ?thesis using e same inv2 on2 rest None by (intro exI [of _ ?d2]) simp
  next
    case (Some a)
    obtain opcode msg where a: "a = (opcode, msg)" by (cases a)
    show ?thesis
    proof (cases "opcode = WSLAY_CONNECTION_CLOSE")
      case True
      then have "http_ws_message_cb (woc_u s) arg d = Some ?d1" using c w0 w(1) close Some a by (simp add: http_ws_message_cb_def)
      then show ?thesis using Some a True i1 on1 wss1 by simp
    next
      case False
      then show ?thesis using c w0 w(1) Some a inv
        by (auto simp: http_ws_message_cb_def http_ws_plan_event_def intro: onward_same)
    qed
  qed
qed

lemma handshake_spec:
  assumes inv: "hws_inv d" and r: "reqs d r = Some q" "wsu_u q = 0" and key: "key_buffer hdr ck = Some key"
  shows "\<exists>d'. http_ws_handshake r hdr ck dat d = Some d' \<and> hws_inv d' \<and>
    next_wid d' = (if next_wid d = 0 then 1 else next_wid d) + 1 \<and> brk d' = Suc (brk d) \<and>
    (\<exists>s. wss d' (brk d) = Some s \<and> sat_e s = hws_pending \<and> wid_l s = (if next_wid d = 0 then 1 else next_wid d) \<and> req_u s = r \<and>
       key_c s = key \<and> sev_coq_seq s = duct_u q) \<and>
    (\<forall>w. w \<noteq> brk d \<longrightarrow> map_option strip (wss d' w) = map_option strip (wss d w)) \<and>
    reqs d' = (reqs d)(r \<mapsto> q\<lparr>wsu_u := brk d, rsat_e := rsat_plan\<rparr>) \<and> conns d' = conns d \<and> calls d' = calls d \<and>
    ova d' = ova d @ [websocket_handshake (duct_u q) (if next_wid d = 0 then 1 else next_wid d) dat]"
proof -
  let ?wid = "if next_wid d = 0 then 1 else next_wid d" let ?w = "brk d"
  let ?s = "\<lparr>woc_u = 0, req_u = r, nex_u = 0, pre_u = 0, sat_e = hws_pending, wid_l = ?wid, sev_coq_seq = duct_u q, key_c = key\<rparr>"
  let ?d1 = "d\<lparr>next_wid := ?wid + 1, brk := ?w + 1, wss := (wss d)(?w \<mapsto> ?s)\<rparr>" let ?q' = "q\<lparr>wsu_u := ?w, rsat_e := rsat_plan\<rparr>"
  obtain xs where xs: "dlist (links_of (wss d)) 0 (web_u d) xs" "set xs = dom (wss d)"
    using hws_invD(1) [OF inv] unfolding listed_def by blast
  have ad: "0 < ?w" "\<And>x. x \<in> dom (wss d) \<union> dom (reqs d) \<Longrightarrow> 0 < x \<and> x < ?w"
    using hws_invD(2) [OF inv] unfolding addr_ok_def by blast+
  have fresh: "wss d ?w = None" using ad(2) [of ?w] by auto
  have wr: "r < ?w" "0 < r" using ad(2) [of r] r by auto
  then have nx: "?w \<notin> set xs" using fresh xs(2) by auto
  have "dlist (links_of ((wss d)(?w \<mapsto> t))) 0 (web_u d) xs = dlist (links_of (wss d)) 0 (web_u d) xs" for t
    by (rule dlist_cong) (use nx in \<open>auto simp: links_of_def\<close>)
  then have L1: "dlist (links_of (wss ?d1)) 0 (web_u ?d1) xs" using xs(1) by simp
  obtain h where h: "http_ws_link ?w ?d1 = Some (?d1\<lparr>wss := h, web_u := ?w\<rparr>)" "dlist (links_of h) 0 ?w (?w # xs)" "same_ws (wss ?d1) h"
    using http_ws_link_spec [OF L1, of ?w ?s] nx ad(1) by auto
  let ?d3 = "?d1\<lparr>wss := h, web_u := ?w, reqs := (reqs d)(r \<mapsto> ?q')\<rparr>"
  have e: "http_ws_handshake r hdr ck dat d = Some (tell (websocket_handshake (duct_u q) ?wid dat) ?d3)"
    using r key h(1) by (simp add: http_ws_handshake_def Let_def upd_req_def)
  have dom: "dom h = insert ?w (dom (wss d))" using same_ws_dom [OF h(3)] by simp
  have keep: "map_option strip (h x) = map_option strip (wss d x)" if "x \<noteq> ?w" for x
    using spec [OF h(3) [unfolded same_ws_def], of x] that by simp
  obtain s where s: "h ?w = Some s" "strip s = strip ?s" using same_wsD [OF h(3), of ?w ?s] by auto
  note sD = strip_eqD [OF s(2), simplified]
  have "hws_inv ?d3"
    unfolding hws_inv_def
  proof (intro conjI allI impI)
    show "listed ?d3" unfolding listed_def using h(2) dom xs(2) by (intro exI [of _ "?w # xs"]) auto
    show "addr_ok ?d3" using ad r(1) wr unfolding addr_ok_def by (auto simp: dom less_Suc_eq dest: ad(2))
    fix x t assume x: "wss ?d3 x = Some t"
    show "sess_ok (reqs ?d3) (conns ?d3) x t"
    proof (cases "x = ?w")
      case True
      then show ?thesis using x s sD wr by (simp add: sess_ok_def)
    next
      case False
      then obtain u where u: "wss d x = Some u" "strip t = strip u" using keep [OF False] x by (cases "wss d x") auto
      have "sess_ok (reqs d) (conns d) x t" using hws_invD(3) [OF inv u(1)] sess_ok_strip [OF u(2)] by simp
      moreover have "x \<noteq> 0" using ad(2) [of x] u(1) by auto
      ultimately show ?thesis using r False by (auto simp: sess_ok_def split: if_splits)
    qed
  next
    fix r' q1 assume q1: "reqs ?d3 r' = Some q1"
    show "req_ok (wss ?d3) (conns ?d3) r' q1"
    proof (cases "r' = r")
      case True
      then show ?thesis using q1 s sD by (auto simp: req_ok_def)
    next
      case False
      then have "reqs d r' = Some q1" using q1 by simp
      then have ok: "req_ok (wss d) (conns d) r' q1" by (rule hws_invD(4) [OF inv])
      show ?thesis
      proof (cases "wsu_u q1 = 0")
        case n0: False
        then obtain u where u: "wss d (wsu_u q1) = Some u" using ok unfolding req_ok_def by auto
        then have "wsu_u q1 \<noteq> ?w" using fresh by auto
        then obtain t where t: "h (wsu_u q1) = Some t" "strip t = strip u" using keep [of "wsu_u q1"] u by (cases "h (wsu_u q1)") auto
        show ?thesis using ok n0 u t(1) strip_eqD [OF t(2)] by (simp add: req_ok_def)
      qed (simp add: req_ok_def)
    qed
  next
    fix woc c assume "conns ?d3 woc = Some c"
    then have "conn_ok (wss d) woc c" using hws_invD(5) [OF inv] by simp
    then obtain u where u: "wss d (data_u c) = Some u" "sat_e u \<noteq> hws_pending" "woc_u u = woc" unfolding conn_ok_def by blast
    then have "data_u c \<noteq> ?w" using fresh by auto
    then obtain t where t: "h (data_u c) = Some t" "strip t = strip u" using keep [of "data_u c"] u(1) by (cases "h (data_u c)") auto
    show "conn_ok (wss ?d3) woc c" using u t(1) strip_eqD [OF t(2)] by (simp add: conn_ok_def)
  qed
  then show ?thesis using e s sD keep by simp
qed

lemma send_spec:
  assumes inv: "hws_inv d" and w: "wss d w = Some s"
  shows "(\<exists>ok d'. http_ws_send_message sas w opcode body d = Some (ok, d') \<and> hws_inv d' \<and> onward d d' \<and> ova d' = ova d) \<or>
    http_ws_send_message sas w opcode body d = None \<and> sas = 0 \<and> sat_e s = hws_open \<and> map_option sock_u (conns d (woc_u s)) = Some False"
proof -
  note w0 = session_nonnull [OF inv w]
  show ?thesis
  proof (cases "sat_e s = hws_open \<and> woc_u s \<noteq> 0 \<and> opcode \<noteq> None \<and> body \<noteq> body_bad")
    case False
    then have "http_ws_send_message sas w opcode body d = Some (False, d)"
      using w0 w by (cases opcode; cases body; simp add: http_ws_send_message_def)
    then show ?thesis using inv onward_refl by blast
  next
    case True
    then obtain opc where opc: "opcode = Some opc" by auto
    obtain c where c: "conns d (woc_u s) = Some c" using session_conn [OF inv w] True by auto
    obtain buf where e: "http_ws_send_message sas w opcode body d =
        (let d1 = ask (queue_msg (woc_u s) (ucast (opc AND 0xFF)) buf) d
         in if sas \<noteq> 0 then Some (False, d1) else if sock_u c then Some (True, ask (proceed (woc_u s)) d1) else None)"
      using w0 w True opc c by (cases body) (auto simp: http_ws_send_message_def Let_def)
    show ?thesis
    proof (cases "sas = 0 \<and> \<not> sock_u c")
      case True
      then show ?thesis using e c \<open>sat_e s = hws_open \<and> _\<close> by simp
    next
      case False
      then show ?thesis using e inv by (auto simp: Let_def intro: onward_same)
    qed
  qed
qed

lemma close_loop_spec:
  "hws_inv d \<Longrightarrow> dlist (links_of (wss d)) 0 (web_u d) (done0 @ ys) \<Longrightarrow>
    (\<forall>x \<in> set done0. \<forall>s. wss d x = Some s \<longrightarrow> sat_e s \<noteq> hws_pending \<and> sat_e s \<noteq> hws_open) \<Longrightarrow>
    set (done0 @ ys) = dom (wss d) \<Longrightarrow> x = (if ys = [] then 0 else hd ys) \<Longrightarrow>
    \<exists>d'. close_loop x d = Some d' \<and> hws_inv d' \<and> onward d d' \<and> ova d' = ova d \<and> conns d' = conns d \<and>
      (\<forall>w s. wss d' w = Some s \<longrightarrow> sat_e s \<noteq> hws_pending \<and> sat_e s \<noteq> hws_open)"
proof (induction ys arbitrary: d done0 x)
  case Nil
  then have "close_loop x d = Some d" by (subst close_loop.simps) simp
  moreover have "\<forall>w s. wss d w = Some s \<longrightarrow> sat_e s \<noteq> hws_pending \<and> sat_e s \<noteq> hws_open" using Nil.prems(3,4) by auto
  ultimately show ?case using Nil.prems(1) by auto
next
  case (Cons y ys)
  note inv = Cons.prems(1) and L = Cons.prems(2)
  obtain s where s: "wss d y = Some s" using dlist_alloc [OF L, of y] by auto
  have x: "x = y" using Cons.prems(5) by simp
  have n: "nex_u s = (if ys = [] then 0 else hd ys)" using dlist_neighbours [OF L] s by (simp add: links_of_def)
  have dist: "distinct (done0 @ y # ys)" using L by (rule dlist_distinct)
  obtain d1 where d1: "http_ws_disconnect y d = Some d1" "hws_inv d1" "onward d d1" "conns d1 = conns d" "ova d1 = ova d"
    "\<And>x t. x \<noteq> y \<Longrightarrow> wss d x = Some t \<Longrightarrow> \<exists>t'. wss d1 x = Some t' \<and> strip t' = strip t"
    "\<And>s'. wss d1 y = Some s' \<Longrightarrow> sat_e s' \<noteq> hws_pending \<and> sat_e s' \<noteq> hws_open"
    "if wss d1 y = None then unlisted y d d1 else web_u d1 = web_u d \<and> links_of (wss d1) = links_of (wss d)"
    using disconnect_spec [OF inv s] by blast
  define done1 where "done1 = (if wss d1 y = None then done0 else done0 @ [y])"
  have L1: "dlist (links_of (wss d1)) 0 (web_u d1) (done1 @ ys)"
  proof (cases "wss d1 y = None")
    case True
    then have "dlist (links_of (wss d1)) 0 (web_u d1) (remove1 y (done0 @ y # ys))" using d1(8) L unfolding unlisted_def by auto
    then show ?thesis using dist True by (simp add: done1_def remove1_append)
  next
    case False
    then have ne: "(wss d1 y = None) = False" by simp
    show ?thesis using d1(8) L unfolding done1_def ne by simp
  qed
  obtain zs where zs: "dlist (links_of (wss d1)) 0 (web_u d1) zs" "set zs = dom (wss d1)"
    using hws_invD(1) [OF d1(2)] unfolding listed_def by blast
  have set1: "set (done1 @ ys) = dom (wss d1)" using dlist_det [OF L1 zs(1)] zs(2) by simp
  have "\<forall>x \<in> set done1. \<forall>s. wss d1 x = Some s \<longrightarrow> sat_e s \<noteq> hws_pending \<and> sat_e s \<noteq> hws_open"
  proof (intro ballI allI impI)
    fix z t assume z: "z \<in> set done1" "wss d1 z = Some t"
    show "sat_e t \<noteq> hws_pending \<and> sat_e t \<noteq> hws_open"
    proof (cases "z = y")
      case True
      then show ?thesis using d1(7) z(2) by simp
    next
      case False
      then have z0: "z \<in> set done0" using z(1) by (auto simp: done1_def split: if_splits)
      then obtain u where u: "wss d z = Some u" using dlist_alloc [OF L, of z] by auto
      then have "strip t = strip u" using d1(6) [OF False u] z(2) by auto
      then show ?thesis using Cons.prems(3) z0 u strip_eqD(3) by metis
    qed
  qed
  then obtain d' where d': "close_loop (nex_u s) d1 = Some d'" "hws_inv d'" "onward d1 d'" "ova d' = ova d1" "conns d' = conns d1"
      "\<forall>w s. wss d' w = Some s \<longrightarrow> sat_e s \<noteq> hws_pending \<and> sat_e s \<noteq> hws_open"
    using Cons.IH [OF d1(2) L1 _ set1 n] by blast
  have y0: "y \<noteq> 0" using session_nonnull [OF inv s] .
  have "close_loop x d = Some d'" using x y0 s d1(1) d'(1) by (subst close_loop.simps) simp
  then show ?case using d' d1 onward_trans by metis
qed

lemma close_all_spec:
  assumes "hws_inv d"
  shows "\<exists>d'. http_ws_close_all d = Some d' \<and> hws_inv d' \<and> onward d d' \<and> ova d' = ova d \<and> conns d' = conns d \<and>
    (\<forall>w s. wss d' w = Some s \<longrightarrow> sat_e s \<noteq> hws_pending \<and> sat_e s \<noteq> hws_open)"
proof -
  obtain xs where xs: "dlist (links_of (wss d)) 0 (web_u d) xs" "set xs = dom (wss d)"
    using hws_invD(1) [OF assms] unfolding listed_def by blast
  have "web_u d = (if xs = [] then 0 else hd xs)" using xs(1) by (cases xs) auto
  then show ?thesis unfolding http_ws_close_all_def by (intro close_loop_spec [OF assms, of "[]" xs]) (use xs in simp_all)
qed

lemma req_close_spec:
  assumes inv: "hws_inv d" and r: "reqs d r = Some q"
  shows "\<exists>d'. http_req_close r d = Some d' \<and> hws_inv (d'\<lparr>reqs := (reqs d')(r := None)\<rparr>) \<and>
    onward d (d'\<lparr>reqs := (reqs d')(r := None)\<rparr>) \<and>
    ova d' = ova d @ (if rsat_e q = rsat_plan then [cancel_request (duct_u q)] else [])"
proof -
  obtain d1 where d1: "http_ws_detach_request r d = Some d1" "hws_inv d1" "onward d d1" "ova d1 = ova d"
      "reqs d1 = (reqs d)(r \<mapsto> q\<lparr>wsu_u := 0\<rparr>)"
    using detach_spec [OF inv r] by blast
  have det: "(if wsu_u q \<noteq> 0 then http_ws_detach_request r d else Some d) = Some d1"
    using d1(1) r by (auto simp: http_ws_detach_request_def)
  let ?d2 = "if rsat_e q = rsat_plan then tell (cancel_request (duct_u q)) d1 else d1"
  let ?d3 = "if tim_u q then (ask (timer_close r) ?d2)\<lparr>reqs := (reqs d1)(r \<mapsto> q\<lparr>wsu_u := 0, tim_u := False\<rparr>)\<rparr> else ?d2"
  have "http_req_close r d = Some ?d3"
    using r det d1(5) by (simp add: http_req_close_def http_req_kill_def upd_req_def)
  moreover have "(reqs ?d3)(r := None) = (reqs d1)(r := None)" by auto
  moreover have "hws_inv (?d3\<lparr>reqs := (reqs d1)(r := None)\<rparr>)"
  proof -
    have "sess_ok ((reqs d1)(r := None)) (conns d1) w s" if w: "wss d1 w = Some s" for w s
    proof (cases "sat_e s = hws_pending")
      case True
      note p = pending_request [OF d1(2) w True]
      have "req_u s \<noteq> r" using p(3) d1(5) session_nonnull [OF d1(2) w] by auto
      then show ?thesis using hws_invD(3) [OF d1(2) w] True by (simp add: sess_ok_def)
    next
      case False
      then show ?thesis using hws_invD(3) [OF d1(2) w] by (simp add: sess_ok_def)
    qed
    then have "hws_inv (d1\<lparr>reqs := (reqs d1)(r := None)\<rparr>)"
      using d1(2) unfolding hws_inv_def listed_def addr_ok_def by auto
    then show ?thesis by (simp add: hws_inv_def listed_def addr_ok_def split: if_split)
  qed
  moreover have "onward d (?d3\<lparr>reqs := (reqs d1)(r := None)\<rparr>)"
    by (rule onward_trans [OF d1(3)]) (rule onward_same; simp)
  moreover have "ova ?d3 = ova d @ (if rsat_e q = rsat_plan then [cancel_request (duct_u q)] else [])"
    using d1(4) by simp
  ultimately show ?thesis by auto
qed

end
