(* ===== verification/HttpWsRun.thy ===== *)
theory HttpWsRun
  imports HttpWsOps
begin

text \<open>
  Runs of the driver as far as websocket sessions go, and the properties of the states they reach.
\<close>

lemma upd_req_spec:
  assumes "hws_inv d" "upd_req r f d = Some d'" "\<And>q. wsu_u (f q) = wsu_u q"
  shows "hws_inv d' \<and> onward d d'"
proof -
  obtain q where q: "reqs d r = Some q" "d' = d\<lparr>reqs := (reqs d)(r \<mapsto> f q)\<rparr>" using assms(2) by (auto simp: upd_req_def bind_eq_Some_conv)
  then show ?thesis using inv_upd_req [OF assms(1) q(1) assms(3)] by (auto intro: onward_same)
qed

lemma req_kill_spec:
  assumes "http_req_kill r d = Some d'"
  shows "\<exists>e. d' = tell e d"
  using assms by (auto simp: http_req_kill_def bind_eq_Some_conv)

lemma onward_log [simp]: "onward d (tell e d') = onward d d'" "onward d (ask c d') = onward d d'"
  "onward (tell e d) d' = onward d d'" "onward (ask c d) d' = onward d d'"
  by (simp_all add: onward_def)

lemma detach_keeps: "hws_inv d \<Longrightarrow> http_ws_detach_request r d = Some d' \<Longrightarrow> hws_inv d' \<and> onward d d'"
  using detach_spec [of d r] by (cases "reqs d r") (auto simp: http_ws_detach_request_def)

lemma timer_keeps:
  assumes inv: "hws_inv d" and t: "http_req_timer_cb r d = Some d'"
  shows "hws_inv d' \<and> onward d d'"
proof -
  obtain q where q: "reqs d r = Some q" using t by (auto simp: http_req_timer_cb_def bind_eq_Some_conv)
  show ?thesis
  proof (cases "rsat_e q")
    case rsat_init
    then show ?thesis using t q by (simp add: http_req_timer_cb_def)
  next
    case rsat_plan
    then obtain d1 d2 where d: "http_req_kill r d = Some d1" "upd_req r (\<lambda>q. q\<lparr>rsat_e := rsat_ripe\<rparr>) d1 = Some d2" "d' = ask (send_error r 504) d2"
      using t q by (auto simp: http_req_timer_cb_def bind_eq_Some_conv)
    then have "hws_inv d1" "onward d d1" using req_kill_spec [OF d(1)] inv by auto
    then have "hws_inv d2 \<and> onward d d2" using upd_req_spec [OF _ d(2)] onward_trans by fastforce
    then show ?thesis using d(3) by simp
  next
    case rsat_peek
    let ?d1 = "ask (send_error r 504) (ask (forget_peek r) d)"
    have "d' = ?d1 \<or> http_ws_detach_request r ?d1 = Some d'"
      using t q rsat_peek by (auto simp: http_req_timer_cb_def Let_def split: if_splits)
    then show ?thesis using detach_keeps [of ?d1 r d'] inv by auto
  next
    case rsat_ripe
    then obtain sat red d1 d2 where d: "gen_u q = Some (sat, red)" "(if sat = hgen_wait then http_req_kill r d else Some d) = Some d1"
        "upd_req r (\<lambda>q. q\<lparr>gen_u := Some (hgen_fail, red)\<rparr>) d1 = Some d2" "d' = (if red then ask (hgen_send r) d2 else d2)"
      using t q by (auto simp: http_req_timer_cb_def bind_eq_Some_conv split: prod.splits)
    have "hws_inv d1" "onward d d1" using d(2) req_kill_spec [of r d d1] inv by (auto split: if_splits)
    then have "hws_inv d2 \<and> onward d d2" using upd_req_spec [OF _ d(3)] onward_trans by fastforce
    then show ?thesis using d(4) by simp
  qed
qed

lemma cancel_keeps:
  assumes inv: "hws_inv d" and t: "http_cancel_respond r d = Some d'"
  shows "hws_inv d' \<and> onward d d'"
proof -
  obtain q where q: "reqs d r = Some q" using t by (auto simp: http_cancel_respond_def bind_eq_Some_conv)
  show ?thesis
  proof (cases "rsat_e q")
    case rsat_plan
    then obtain d1 where d: "upd_req r (\<lambda>q. q\<lparr>rsat_e := rsat_ripe\<rparr>) d = Some d1"
        "d' = ask (send_error r 500) d1 \<or> http_ws_detach_request r (ask (send_error r 500) d1) = Some d'"
      using t q by (auto simp: http_cancel_respond_def bind_eq_Some_conv Let_def split: if_splits)
    have "hws_inv d1 \<and> onward d d1" by (rule upd_req_spec [OF inv d(1)]) simp
    then show ?thesis using d(2) detach_keeps [of "ask (send_error r 500) d1" r d'] onward_trans [of d d1 d'] by auto
  next
    case rsat_ripe
    then obtain sat red d2 where d: "upd_req r (\<lambda>q. q\<lparr>gen_u := Some (hgen_fail, red)\<rparr>) (ask (timer_stop r) d) = Some d2"
        "d' = (if red then ask (hgen_send r) d2 else d2)"
      using t q by (auto simp: http_cancel_respond_def bind_eq_Some_conv split: prod.splits if_splits)
    have "hws_inv (ask (timer_stop r) d)" using inv by simp
    from upd_req_spec [OF this d(1)] have "hws_inv d2 \<and> onward d d2" by simp
    then show ?thesis using d(2) by simp
  qed (use t q in \<open>simp_all add: http_cancel_respond_def\<close>)
qed

lemma response_spec:
  assumes inv: "hws_inv d" and woc: "woc = 0 \<or> conns d woc = None"
  shows "(\<exists>d'. websocket_response woc sas wid res d = Some d' \<and> hws_inv d' \<and> onward d d') \<or>
    websocket_response woc sas wid res d = None \<and>
    (\<exists>w s opcode body. wss d w = Some s \<and> wid = Some (wid_l s) \<and> res = res_message opcode body \<and> sat_e s = hws_open \<and> map_option sock_u (conns d (woc_u s)) = Some False)"
proof (cases wid)
  case None
  then show ?thesis using inv by (simp add: websocket_response_def)
next
  case (Some wid_w)
  obtain w where w: "http_ws_find d wid_w = Some w"
    "if w = 0 then \<forall>x s. wss d x = Some s \<longrightarrow> wid_l s \<noteq> wid_w else \<exists>s. wss d w = Some s \<and> wid_l s = wid_w"
    using find_returns [OF hws_invD(1) [OF inv]] by blast
  show ?thesis
  proof (cases "w = 0")
    case True
    then show ?thesis using w(1) Some inv by (simp add: websocket_response_def)
  next
    case False
    then obtain s where s: "wss d w = Some s" "wid_l s = wid_w" using w(2) by auto
    show ?thesis
    proof (cases res)
      case res_accept
      then show ?thesis using accept_spec [OF inv s(1) woc] w(1) Some False by (auto simp: websocket_response_def)
    next
      case res_reject
      show ?thesis
      proof (cases "sat_e s = hws_pending")
        case True
        then show ?thesis using reject_spec [OF inv s(1)] w(1) Some False res_reject by (auto simp: websocket_response_def)
      next
        case np: False
        then show ?thesis using reject_other [OF s(1) np] w(1) Some False res_reject inv by (auto simp: websocket_response_def)
      qed
    next
      case res_disconnect
      then show ?thesis using disconnect_spec [OF inv s(1)] w(1) Some False by (auto simp: websocket_response_def)
    next
      case (res_message opcode body)
      then have e: "websocket_response woc sas wid res d = map_option snd (http_ws_send_message sas w opcode body d)"
        using w(1) Some False by (simp add: websocket_response_def)
      from send_spec [OF inv s(1), of sas opcode body] show ?thesis
      proof
        assume "\<exists>ok d'. http_ws_send_message sas w opcode body d = Some (ok, d') \<and> hws_inv d' \<and> onward d d' \<and> ova d' = ova d"
        then show ?thesis unfolding e by auto
      next
        assume "http_ws_send_message sas w opcode body d = None \<and> sas = 0 \<and> sat_e s = hws_open \<and> map_option sock_u (conns d (woc_u s)) = Some False"
        then show ?thesis unfolding e using s Some res_message by auto
      qed
    next
      case res_other
      then show ?thesis using w(1) Some False inv by (simp add: websocket_response_def)
    qed
  qed
qed

section \<open>Runs\<close>

text \<open>
  What can happen. libh2o gives a connection its socket only once it has disposed of the request, and
  calls back about a connection only after that; when it has told the end of a connection it frees it.
  Two connections do not have one address. A response of Eyre gives a request a generator.
\<close>

inductive ws_step :: "httd \<Rightarrow> httd \<Rightarrow> bool" where
  request: "ws_step d (d\<lparr>reqs := (reqs d)(brk d \<mapsto> \<lparr>rsat_e = rsat_init, tim_u = t, gen_u = None, wsu_u = 0, duct_u = k\<rparr>), brk := Suc (brk d)\<rparr>)"
| effect: "woc = 0 \<or> conns d woc = None \<Longrightarrow> websocket_response woc sas wid res d = Some d' \<Longrightarrow> ws_step d d'"
| dispose: "reqs d r = Some q \<Longrightarrow> http_req_close r d = Some d' \<Longrightarrow> ws_step d (d'\<lparr>reqs := (reqs d')(r := None)\<rparr>)"
| timeout: "http_req_timer_cb r d = Some d' \<Longrightarrow> ws_step d d'"
| cancel: "http_cancel_respond r d = Some d' \<Longrightarrow> ws_step d d'"
| respond: "reqs d r = Some q \<Longrightarrow> ws_step d (d\<lparr>reqs := (reqs d)(r \<mapsto> q\<lparr>rsat_e := rsat_ripe, gen_u := Some g\<rparr>)\<rparr>)"
| upgraded: "conns d woc = Some c \<Longrightarrow> reqs d (of_req c) = None \<Longrightarrow> ws_step d (d\<lparr>conns := (conns d)(woc \<mapsto> c\<lparr>sock_u := True\<rparr>)\<rparr>)"
| message: "conns d woc = Some c \<Longrightarrow> reqs d (of_req c) = None \<Longrightarrow> http_ws_message_cb woc (Some m) d = Some d' \<Longrightarrow> ws_step d d'"
| finish: "conns d woc = Some c \<Longrightarrow> reqs d (of_req c) = None \<Longrightarrow> http_ws_message_cb woc None d = Some d' \<Longrightarrow>
    ws_step d (d'\<lparr>conns := (conns d')(woc := None)\<rparr>)"
| close_all: "http_ws_close_all d = Some d' \<Longrightarrow> ws_step d d'"

definition new_httd :: httd where
  "new_httd = \<lparr>web_u = 0, next_wid = 1, wss = Map.empty, reqs = Map.empty, brk = 1, conns = Map.empty, ova = [], calls = []\<rparr>"

text \<open>The number counts the handshakes.\<close>

inductive ws_run :: "nat \<Rightarrow> httd \<Rightarrow> bool" where
  start: "ws_run 0 new_httd"
| step: "ws_run n d \<Longrightarrow> ws_step d d' \<Longrightarrow> ws_run n d'"
| handshake: "ws_run n d \<Longrightarrow> reqs d r = Some q \<Longrightarrow> rsat_e q = rsat_init \<Longrightarrow> wsu_u q = 0 \<Longrightarrow>
    http_ws_handshake r hdr client_key dat d = Some d' \<Longrightarrow> ws_run (Suc n) d'"

lemma step_keeps: "ws_step d d' \<Longrightarrow> hws_inv d \<Longrightarrow> hws_inv d' \<and> onward d d'"
proof (induction rule: ws_step.induct)
  case (request d t k)
  have ad: "0 < brk d" "\<And>x. x \<in> dom (wss d) \<union> dom (reqs d) \<Longrightarrow> 0 < x \<and> x < brk d"
    using hws_invD(2) [OF request] unfolding addr_ok_def by blast+
  then have fresh: "reqs d (brk d) = None" by fastforce
  let ?q = "\<lparr>rsat_e = rsat_init, tim_u = t, gen_u = None, wsu_u = 0, duct_u = k\<rparr>"
  have "sess_ok ((reqs d)(brk d \<mapsto> ?q)) (conns d) w s" if "wss d w = Some s" for w s
    using hws_invD(3) [OF request that] fresh by (auto simp: sess_ok_def split: if_splits)
  moreover have "req_ok (wss d) (conns d) (brk d) ?q" by (simp add: req_ok_def)
  moreover have "addr_ok (d\<lparr>reqs := (reqs d)(brk d \<mapsto> ?q), brk := Suc (brk d)\<rparr>)"
    using ad unfolding addr_ok_def by (auto simp: less_Suc_eq dest: ad(2))
  ultimately show ?case using request unfolding hws_inv_def listed_def by (auto simp: onward_def)
next
  case (effect woc d sas wid res d')
  then show ?case using response_spec [of d woc sas wid res] by auto
next
  case (dispose d r q d')
  then show ?case using req_close_spec [of d r q] by auto
next
  case (timeout r d d')
  then show ?case using timer_keeps by blast
next
  case (cancel r d d')
  then show ?case using cancel_keeps by blast
next
  case (respond d r q g)
  then show ?case using inv_upd_req [of d r q "q\<lparr>rsat_e := rsat_ripe, gen_u := Some g\<rparr>"] by (auto intro: onward_same)
next
  case (upgraded d woc c)
  let ?C = "(conns d)(woc \<mapsto> c\<lparr>sock_u := True\<rparr>)"
  have "sess_ok (reqs d) ?C w s" if "wss d w = Some s" for w s
    by (rule sess_ok_conns [OF hws_invD(3) [OF upgraded(3) that]]) (use upgraded(1) in simp)
  moreover have "req_ok (wss d) ?C r q" if "reqs d r = Some q" for r q
    by (rule req_ok_conns [OF hws_invD(4) [OF upgraded(3) that]]) (use upgraded(1) in simp)
  moreover have "conn_ok (wss d) x e" if "?C x = Some e" for x e
    using hws_invD(5) [OF upgraded(3)] upgraded(1) that by (auto simp: conn_ok_def split: if_splits)
  ultimately show ?case using upgraded(3) unfolding hws_inv_def listed_def addr_ok_def by (auto intro: onward_same)
next
  case (message d woc c m d')
  obtain s where s: "wss d (data_u c) = Some s" "sat_e s \<noteq> hws_pending" "woc_u s = woc" by (rule conn_session [OF message(4,1)])
  from message_cb_spec [OF message(4) s(1,2), of "Some m"] message(3) s(3) show ?case by (auto split: prod.splits)
next
  case (finish d woc c d')
  obtain s where s: "wss d (data_u c) = Some s" "sat_e s \<noteq> hws_pending" "woc_u s = woc" by (rule conn_session [OF finish(4,1)])
  have fin: "\<forall>r q. reqs d r = Some q \<longrightarrow> wsu_u q \<noteq> data_u c" using conn_forgotten [OF finish(4,1,2)] by blast
  from message_cb_spec [OF finish(4) s(1,2), of None] finish(3) s(3) fin
  have "hws_inv (d'\<lparr>conns := (conns d')(woc := None)\<rparr>) \<and> onward d d'" by auto
  then show ?case by (simp add: onward_def)
next
  case (close_all d d')
  then show ?case using close_all_spec [of d] by auto
qed

lemma new_httd_inv: "hws_inv new_httd"
proof -
  have "listed new_httd" unfolding listed_def by (intro exI [of _ "[]"]) (simp add: new_httd_def)
  then show ?thesis by (simp add: hws_inv_def addr_ok_def new_httd_def)
qed

lemma handshake_key: "http_ws_handshake r hdr ck dat d = Some d' \<Longrightarrow> \<exists>key. key_buffer hdr ck = Some key"
  by (auto simp: http_ws_handshake_def bind_eq_Some_conv)

lemma run_inv: "ws_run n d \<Longrightarrow> hws_inv d"
proof (induction rule: ws_run.induct)
  case (handshake n d r q hdr client_key dat d')
  obtain key where "key_buffer hdr client_key = Some key" using handshake_key [OF handshake(5)] by blast
  from handshake_spec [OF handshake(6,2,4) this, where dat = dat] handshake(5) show ?case by auto
qed (use new_httd_inv step_keeps in auto)

section \<open>Numbers of sessions\<close>

definition wids_ok :: "nat \<Rightarrow> httd \<Rightarrow> bool" where
  "wids_ok n d \<longleftrightarrow> next_wid d = of_nat (n + 1) \<and>
     (\<forall>w s. wss d w = Some s \<longrightarrow> 0 < unat (wid_l s) \<and> unat (wid_l s) \<le> n) \<and>
     (\<forall>w w' s s'. wss d w = Some s \<longrightarrow> wss d w' = Some s' \<longrightarrow> wid_l s = wid_l s' \<longrightarrow> w = w')"

lemma wids_onward:
  assumes "wids_ok n d" "onward d d'"
  shows "wids_ok n d'"
  unfolding wids_ok_def
proof (intro conjI allI impI)
  show "next_wid d' = of_nat (n + 1)" using assms by (simp add: wids_ok_def onward_def)
next
  fix w s assume "wss d' w = Some s"
  then obtain t where "wss d w = Some t" "wid_l s = wid_l t" using onwardD [OF assms(2)] by blast
  then show "0 < unat (wid_l s)" "unat (wid_l s) \<le> n" using assms(1) unfolding wids_ok_def by auto
next
  fix w w' s s' assume "wss d' w = Some s" "wss d' w' = Some s'" "wid_l s = wid_l s'"
  moreover from this obtain t t' where "wss d w = Some t" "wid_l s = wid_l t" "wss d w' = Some t'" "wid_l s' = wid_l t'"
    using onwardD [OF assms(2)] by metis
  ultimately show "w = w'" using assms(1) unfolding wids_ok_def by metis
qed

lemma handshake_wids:
  assumes inv: "hws_inv d" and r: "reqs d r = Some q" "wsu_u q = 0" and hs: "http_ws_handshake r hdr ck dat d = Some d'"
    and ok: "wids_ok n d" and n: "Suc n < 2 ^ 32"
  shows "wids_ok (Suc n) d'"
proof -
  let ?wid = "if next_wid d = 0 then 1 else next_wid d"
  obtain key where key: "key_buffer hdr ck = Some key" using handshake_key [OF hs] by blast
  have h: "next_wid d' = ?wid + 1" "\<exists>s. wss d' (brk d) = Some s \<and> wid_l s = ?wid"
      "\<And>w. w \<noteq> brk d \<Longrightarrow> map_option strip (wss d' w) = map_option strip (wss d w)"
    using handshake_spec [OF inv r key, where dat = dat] hs by auto
  have wid: "?wid = of_nat (Suc n)" "unat ?wid = Suc n"
  proof -
    have u: "unat (of_nat (Suc n) :: u32) = Suc n" using n by (simp only: unat_of_nat) (simp add: take_bit_nat_eq_self)
    show a: "?wid = of_nat (Suc n)"
    proof -
      have "next_wid d = of_nat (Suc n)" using ok unfolding wids_ok_def by simp
      moreover from this have "next_wid d \<noteq> 0" using u by force
      ultimately show ?thesis by simp
    qed
    show "unat ?wid = Suc n" unfolding a by (rule u)
  qed
  have old: "\<exists>t. wss d w = Some t \<and> wid_l s = wid_l t" if "wss d' w = Some s" "w \<noteq> brk d" for w s
    using h(3) [OF that(2)] that(1) by (cases "wss d w") (auto dest: strip_eqD(4))
  show ?thesis
    unfolding wids_ok_def
  proof (intro conjI allI impI)
    show "next_wid d' = of_nat (Suc n + 1)" using h(1) wid(1) by simp
  next
    fix w s assume w: "wss d' w = Some s"
    have "0 < unat (wid_l s) \<and> unat (wid_l s) \<le> Suc n"
    proof (cases "w = brk d")
      case True
      then have "wid_l s = ?wid" using h(2) w by auto
      then have "unat (wid_l s) = Suc n" using wid(2) by (rule ssubst)
      then show ?thesis by simp
    next
      case False
      then obtain t where "wss d w = Some t" "wid_l s = wid_l t" using old [OF w] by blast
      then show ?thesis using ok unfolding wids_ok_def by (metis le_SucI)
    qed
    then show "0 < unat (wid_l s)" "unat (wid_l s) \<le> Suc n" by blast+
  next
    fix w w' s s' assume w: "wss d' w = Some s" "wss d' w' = Some s'" "wid_l s = wid_l s'"
    have new: "wid_l t \<noteq> ?wid" if "wss d x = Some t" for x t
    proof
      assume "wid_l t = ?wid"
      then have "unat (wid_l t) = Suc n" using wid(2) by (rule ssubst)
      moreover have "unat (wid_l t) \<le> n" using ok that unfolding wids_ok_def by blast
      ultimately show False by simp
    qed
    show "w = w'"
    proof (cases "w = brk d \<or> w' = brk d")
      case True
      moreover have "w' = brk d" if "w = brk d"
      proof (rule ccontr)
        assume "w' \<noteq> brk d"
        then obtain t where "wss d w' = Some t" "wid_l s' = wid_l t" using old [OF w(2)] by blast
        then show False using new [of w' t] h(2) w that by auto
      qed
      moreover have "w = brk d" if "w' = brk d"
      proof (rule ccontr)
        assume "w \<noteq> brk d"
        then obtain t where "wss d w = Some t" "wid_l s = wid_l t" using old [OF w(1)] by blast
        then show False using new [of w t] h(2) w that by auto
      qed
      ultimately show ?thesis by blast
    next
      case False
      then obtain t t' where "wss d w = Some t" "wid_l s = wid_l t" "wss d w' = Some t'" "wid_l s' = wid_l t'"
        using old [OF w(1)] old [OF w(2)] by blast
      then show ?thesis using w(3) ok unfolding wids_ok_def by metis
    qed
  qed
qed

lemma run_wids: "ws_run n d \<Longrightarrow> n < 2 ^ 32 \<Longrightarrow> wids_ok n d"
proof (induction rule: ws_run.induct)
  case start
  then show ?case by (simp add: wids_ok_def new_httd_def)
next
  case (step n d d')
  then show ?case using wids_onward step_keeps run_inv by blast
next
  case (handshake n d r q hdr client_key dat d')
  then show ?case using handshake_wids [OF run_inv [OF handshake(1)] handshake(2,4,5)] by simp
qed

section \<open>An example\<close>

definition ex_req :: httd where
  "ex_req = new_httd\<lparr>reqs := (reqs new_httd)(brk new_httd \<mapsto> \<lparr>rsat_e = rsat_init, tim_u = True, gen_u = None, wsu_u = 0, duct_u = (1, 2, 3)\<rparr>),
    brk := Suc (brk new_httd)\<rparr>"

definition ex_ws :: httd where
  "ex_ws = the (http_ws_handshake 1 (Some 2) [65, 66] 7 ex_req)"

definition ex_open :: httd where
  "ex_open = the (websocket_response 9 0 (Some 1) res_accept ex_ws)"

lemma ex_req_simps [simp]:
  "wss ex_req = Map.empty" "reqs ex_req = [1 \<mapsto> \<lparr>rsat_e = rsat_init, tim_u = True, gen_u = None, wsu_u = 0, duct_u = (1, 2, 3)\<rparr>]"
  "brk ex_req = 2" "web_u ex_req = 0" "next_wid ex_req = 1" "conns ex_req = Map.empty" "ova ex_req = []" "calls ex_req = []"
  by (simp_all add: ex_req_def new_httd_def)

lemma ex_handshake: "http_ws_handshake 1 (Some 2) [65, 66] 7 ex_req = Some ex_ws"
proof -
  have "\<exists>d. http_ws_handshake 1 (Some 2) [65, 66] 7 ex_req = Some d"
    by (simp add: http_ws_handshake_def key_buffer_def Let_def http_ws_link_def upd_ws_def upd_req_def)
  then show ?thesis by (auto simp: ex_ws_def)
qed

lemma ex_ws_simps [simp]:
  "wss ex_ws = [2 \<mapsto> \<lparr>woc_u = 0, req_u = 1, nex_u = 0, pre_u = 0, sat_e = hws_pending, wid_l = 1, sev_coq_seq = (1, 2, 3), key_c = the (key_buffer (Some 2) [65, 66])\<rparr>]"
  "reqs ex_ws = [1 \<mapsto> \<lparr>rsat_e = rsat_plan, tim_u = True, gen_u = None, wsu_u = 2, duct_u = (1, 2, 3)\<rparr>]"
  "brk ex_ws = 3" "web_u ex_ws = 2" "next_wid ex_ws = 2" "conns ex_ws = Map.empty" "ova ex_ws = [websocket_handshake (1, 2, 3) 1 7]" "calls ex_ws = []"
  unfolding ex_ws_def
  by (simp_all add: http_ws_handshake_def key_buffer_def Let_def http_ws_link_def upd_ws_def upd_req_def tell_def)

lemma ex_find: "http_ws_find ex_ws 1 = Some 2"
  by (simp add: http_ws_find_def find_loop.simps)

lemma ex_accept: "websocket_response 9 0 (Some 1) res_accept ex_ws = Some ex_open"
proof -
  have "\<exists>d. websocket_response 9 0 (Some 1) res_accept ex_ws = Some d"
    by (simp add: websocket_response_def ex_find http_ws_accept_def upd_ws_def upd_req_def ask_def Let_def)
  then show ?thesis by (auto simp: ex_open_def)
qed

lemma ex_open_simps [simp]:
  "wss ex_open = [2 \<mapsto> \<lparr>woc_u = 9, req_u = 0, nex_u = 0, pre_u = 0, sat_e = hws_open, wid_l = 1, sev_coq_seq = (1, 2, 3), key_c = the (key_buffer (Some 2) [65, 66])\<rparr>]"
  "reqs ex_open = [1 \<mapsto> \<lparr>rsat_e = rsat_ripe, tim_u = True, gen_u = None, wsu_u = 2, duct_u = (1, 2, 3)\<rparr>]"
  "brk ex_open = 3" "web_u ex_open = 2" "next_wid ex_open = 2" "conns ex_open = [9 \<mapsto> \<lparr>sock_u = False, data_u = 2, of_req = 1\<rparr>]" "ova ex_open = [websocket_handshake (1, 2, 3) 1 7]"
  "calls ex_open = [timer_stop 1, upgrade 1 (the (key_buffer (Some 2) [65, 66]))]"
  unfolding ex_open_def
  by (simp_all add: websocket_response_def ex_find http_ws_accept_def upd_ws_def upd_req_def ask_def Let_def)

lemma ex_run_ws: "ws_run 1 ex_ws"
proof -
  have "ws_step new_httd ex_req" unfolding ex_req_def by (rule ws_step.request)
  then have "ws_run 0 ex_req" by (rule ws_run.step [OF ws_run.start])
  from ws_run.handshake [OF this _ _ _ ex_handshake] show ?thesis by simp
qed

lemma ex_step: "ws_step ex_ws ex_open"
  by (rule ws_step.effect [OF _ ex_accept]) simp

lemma ex_run_open: "ws_run 1 ex_open"
  by (rule ws_run.step [OF ex_run_ws ex_step])

section \<open>Properties\<close>



text \<open>
  C4: Addressing. As long as fewer than 2^32 handshakes have been made, the number of a session finds
  that session and no other, and a number that no session has finds none.
\<close>
theorem http_ws_addressed:
  assumes run: "ws_run n d" and n: "n < 2 ^ 32"
  shows "http_ws_find d wid = Some (if \<exists>w s. wss d w = Some s \<and> wid_l s = wid then (THE w. \<exists>s. wss d w = Some s \<and> wid_l s = wid) else 0)"
proof -
  have uniq: "w = w'" if "wss d w = Some s" "wss d w' = Some s'" "wid_l s = wid_l s'" for w w' s s'
    using run_wids [OF assms] that unfolding wids_ok_def by blast
  obtain w where w: "http_ws_find d wid = Some w"
    "if w = 0 then \<forall>x s. wss d x = Some s \<longrightarrow> wid_l s \<noteq> wid else \<exists>s. wss d w = Some s \<and> wid_l s = wid"
    using find_returns [OF hws_invD(1) [OF run_inv [OF run]]] by blast
  show ?thesis
  proof (cases "w = 0")
    case True
    then show ?thesis using w by auto
  next
    case False
    then obtain s where s: "wss d w = Some s" "wid_l s = wid" using w(2) by auto
    have "(THE w. \<exists>s. wss d w = Some s \<and> wid_l s = wid) = w"
      by (rule the_equality) (use s uniq in blast)+
    then show ?thesis using w(1) s by auto
  qed
qed

lemma http_ws_addressed_witness:
  "http_ws_find ex_open 1 = Some 2 \<and> http_ws_find ex_open 5 = Some 0"
  using http_ws_addressed [OF ex_run_open, of 1] http_ws_addressed [OF ex_run_open, of 5] by simp

text \<open>
  C3: A session only goes on: no step of the driver takes it back to an earlier state (pending, open,
  closing, closed) or changes its number or the duct of its events, and only a handshake makes one.
\<close>
theorem http_ws_onward:
  assumes "ws_run n d" "ws_step d d'" "wss d' w = Some s'"
  shows "\<exists>s. wss d w = Some s \<and> wid_l s = wid_l s' \<and> sev_coq_seq s = sev_coq_seq s' \<and> rank (sat_e s) \<le> rank (sat_e s')"
proof -
  have "onward d d'" using step_keeps [OF assms(2) run_inv [OF assms(1)]] by blast
  from onwardD [OF this assms(3)] show ?thesis by metis
qed

lemma http_ws_onward_witness:
  "\<exists>s. wss ex_ws 2 = Some s \<and> wid_l s = 1 \<and> rank (sat_e s) \<le> 1"
  using http_ws_onward [OF ex_run_ws ex_step, of 2] by simp

section \<open>What Eyre hears of a session\<close>

primrec frames :: "nat \<Rightarrow> (u8 \<times> u8 list) list \<Rightarrow> httd \<Rightarrow> httd option" where
  "frames woc [] d = Some d"
| "frames woc (m # ms) d = do { d' \<leftarrow> http_ws_message_cb woc (Some m) d; frames woc ms d' }"

definition told :: "duct \<Rightarrow> u32 \<Rightarrow> u8 \<times> u8 list \<Rightarrow> ovum" where
  "told k wid m = websocket_event k wid (ws_message (fst m) (if snd m = [] then None else Some (snd m)))"

lemma frames_spec:
  assumes "hws_inv d" "wss d w = Some s" "sat_e s \<noteq> hws_pending"
  shows "\<exists>d' s' evs. frames (woc_u s) ms d = Some d' \<and> hws_inv d' \<and> wss d' w = Some s' \<and> sat_e s' \<noteq> hws_pending \<and>
    woc_u s' = woc_u s \<and> wid_l s' = wid_l s \<and> sev_coq_seq s' = sev_coq_seq s \<and> reqs d' = reqs d \<and> ova d' = ova d @ evs \<and>
    filter (\<lambda>e. e \<noteq> websocket_event (sev_coq_seq s) (wid_l s) ws_disconnect) evs =
      map (told (sev_coq_seq s) (wid_l s)) (filter (\<lambda>m. fst m \<noteq> WSLAY_CONNECTION_CLOSE) ms) \<and>
    count_list evs (websocket_event (sev_coq_seq s) (wid_l s) ws_disconnect) + (if sat_e s' = hws_closed then 0 else 1) =
      (if sat_e s = hws_closed then 0 else 1)"
  using assms
proof (induction ms arbitrary: d s)
  case Nil
  then show ?case by (intro exI [of _ d] exI [of _ s] exI [of _ "[]"]) simp
next
  case (Cons m ms)
  obtain opc msg where m: "m = (opc, msg)" by (cases m)
  obtain d1 where d1: "http_ws_message_cb (woc_u s) (Some m) d = Some d1" "hws_inv d1" "reqs d1 = reqs d"
    "if opc = WSLAY_CONNECTION_CLOSE
     then ova d1 = ova d @ (if sat_e s = hws_closed then [] else [websocket_event (sev_coq_seq s) (wid_l s) ws_disconnect]) \<and>
       wss d1 = (wss d)(w \<mapsto> s\<lparr>sat_e := hws_closed\<rparr>)
     else ova d1 = ova d @ [websocket_event (sev_coq_seq s) (wid_l s) (ws_message opc (if msg = [] then None else Some msg))] \<and> wss d1 = wss d"
    using message_cb_spec [OF Cons.prems, of "Some m"] m by auto
  show ?case
  proof (cases "opc = WSLAY_CONNECTION_CLOSE")
    case True
    then have h: "wss d1 w = Some (s\<lparr>sat_e := hws_closed\<rparr>)" using d1(4) by simp
    from Cons.IH [OF d1(2) h] obtain d' s' evs where r: "frames (woc_u s) ms d1 = Some d'" "hws_inv d'" "wss d' w = Some s'" "sat_e s' \<noteq> hws_pending"
      "woc_u s' = woc_u s" "wid_l s' = wid_l s" "sev_coq_seq s' = sev_coq_seq s" "reqs d' = reqs d1" "ova d' = ova d1 @ evs"
      "filter (\<lambda>e. e \<noteq> websocket_event (sev_coq_seq s) (wid_l s) ws_disconnect) evs =
        map (told (sev_coq_seq s) (wid_l s)) (filter (\<lambda>m. fst m \<noteq> WSLAY_CONNECTION_CLOSE) ms)"
      "count_list evs (websocket_event (sev_coq_seq s) (wid_l s) ws_disconnect) + (if sat_e s' = hws_closed then 0 else 1) = 0"
      by auto
    show ?thesis
      by (intro exI [of _ d'] exI [of _ s']
          exI [of _ "(if sat_e s = hws_closed then [] else [websocket_event (sev_coq_seq s) (wid_l s) ws_disconnect]) @ evs"])
        (use r d1 True m in \<open>auto split: if_splits\<close>)
  next
    case False
    then have h: "wss d1 w = Some s" using d1(4) Cons.prems(2) by simp
    from Cons.IH [OF d1(2) h Cons.prems(3)] obtain d' s' evs where r: "frames (woc_u s) ms d1 = Some d'" "hws_inv d'" "wss d' w = Some s'" "sat_e s' \<noteq> hws_pending"
      "woc_u s' = woc_u s" "wid_l s' = wid_l s" "sev_coq_seq s' = sev_coq_seq s" "reqs d' = reqs d1" "ova d' = ova d1 @ evs"
      "filter (\<lambda>e. e \<noteq> websocket_event (sev_coq_seq s) (wid_l s) ws_disconnect) evs =
        map (told (sev_coq_seq s) (wid_l s)) (filter (\<lambda>m. fst m \<noteq> WSLAY_CONNECTION_CLOSE) ms)"
      "count_list evs (websocket_event (sev_coq_seq s) (wid_l s) ws_disconnect) + (if sat_e s' = hws_closed then 0 else 1) =
        (if sat_e s = hws_closed then 0 else 1)"
      by auto
    show ?thesis
      by (intro exI [of _ d'] exI [of _ s'] exI [of _ "told (sev_coq_seq s) (wid_l s) m # evs"])
        (use r d1 False m in \<open>simp add: told_def\<close>)
  qed
qed

text \<open>
  C2: What a client sends reaches Eyre: whatever frames come on the connection of an established session
  before its end, Eyre is told of each message in order, with the number and the duct of the session,
  and exactly once of the disconnection, however many close frames there were; then the session is gone.
\<close>
theorem http_ws_tells:
  assumes run: "ws_run n d" and w: "wss d w = Some s" "sat_e s = hws_open \<or> sat_e s = hws_closing"
  shows "\<exists>d1 d2 evs. frames (woc_u s) ms d = Some d1 \<and> http_ws_message_cb (woc_u s) None d1 = Some d2 \<and> wss d2 w = None \<and> ova d2 = ova d @ evs \<and>
    filter (\<lambda>e. e \<noteq> websocket_event (sev_coq_seq s) (wid_l s) ws_disconnect) evs =
      map (told (sev_coq_seq s) (wid_l s)) (filter (\<lambda>m. fst m \<noteq> WSLAY_CONNECTION_CLOSE) ms) \<and>
    count_list evs (websocket_event (sev_coq_seq s) (wid_l s) ws_disconnect) = 1"
proof -
  have "sat_e s \<noteq> hws_pending" "sat_e s \<noteq> hws_closed" using w(2) by auto
  with frames_spec [OF run_inv [OF run] w(1), of ms]
  obtain d1 s1 evs where d1: "frames (woc_u s) ms d = Some d1" "hws_inv d1" "wss d1 w = Some s1" "sat_e s1 \<noteq> hws_pending"
    "woc_u s1 = woc_u s" "wid_l s1 = wid_l s" "sev_coq_seq s1 = sev_coq_seq s" "reqs d1 = reqs d" "ova d1 = ova d @ evs"
    "filter (\<lambda>e. e \<noteq> websocket_event (sev_coq_seq s) (wid_l s) ws_disconnect) evs =
      map (told (sev_coq_seq s) (wid_l s)) (filter (\<lambda>m. fst m \<noteq> WSLAY_CONNECTION_CLOSE) ms)"
    "count_list evs (websocket_event (sev_coq_seq s) (wid_l s) ws_disconnect) + (if sat_e s1 = hws_closed then 0 else 1) = 1"
    by auto
  obtain d2 where d2: "http_ws_message_cb (woc_u s) None d1 = Some d2" "same_ws ((wss d1)(w := None)) (wss d2)"
    "ova d2 = ova d1 @ (if sat_e s1 = hws_closed then [] else [websocket_event (sev_coq_seq s) (wid_l s) ws_disconnect])"
    using message_cb_spec [OF d1(2-4), of None] by (auto simp only: d1(5-7) option.case)
  have "wss d2 w = None" using same_wsD2 [OF d2(2), of w] by (cases "wss d2 w") auto
  then show ?thesis
    by (intro exI [of _ d1] exI [of _ d2] exI [of _ "evs @ (if sat_e s1 = hws_closed then [] else [websocket_event (sev_coq_seq s) (wid_l s) ws_disconnect])"])
      (use d1 d2 in \<open>simp split: if_splits\<close>)
qed

definition ex_gone :: httd where
  "ex_gone = (let d = the (http_req_close 1 ex_open) in d\<lparr>reqs := (reqs d)(1 := None)\<rparr>)"

lemma ex_close: "\<exists>d. http_req_close 1 ex_open = Some d"
  by (simp add: http_req_close_def http_ws_detach_request_def upd_req_def Let_def)

lemma ex_gone_simps [simp]:
  "wss ex_gone = wss ex_open" "reqs ex_gone = Map.empty" "ova ex_gone = ova ex_open" "web_u ex_gone = 2"
  unfolding ex_gone_def
  by (simp_all add: http_req_close_def http_ws_detach_request_def upd_req_def Let_def)

lemma ex_run_gone: "ws_run 1 ex_gone"
proof -
  obtain d where d: "http_req_close 1 ex_open = Some d" using ex_close by blast
  have "ws_step ex_open (d\<lparr>reqs := (reqs d)(1 := None)\<rparr>)" by (rule ws_step.dispose [OF _ d]) simp
  then have "ws_step ex_open ex_gone" using d by (simp add: ex_gone_def)
  then show ?thesis by (rule ws_run.step [OF ex_run_open])
qed

lemma http_ws_tells_witness:
  "\<exists>d1 d2 evs. frames 9 [(1, [104, 105]), (8, []), (8, [])] ex_gone = Some d1 \<and> http_ws_message_cb 9 None d1 = Some d2 \<and> wss d2 2 = None \<and>
    ova d2 = ova ex_gone @ evs \<and> count_list evs (websocket_event (1, 2, 3) 1 ws_disconnect) = 1"
  using http_ws_tells [OF ex_run_gone, of 2 _ "[(1, [104, 105]), (8, []), (8, [])]"] by fastforce

lemma find_loop_cong:
  assumes "listed d" "web_u d' = web_u d" "links_of (wss d') = links_of (wss d)"
    "\<And>x. map_option wid_l (wss d' x) = map_option wid_l (wss d x)"
  shows "http_ws_find d' wid = http_ws_find d wid"
proof -
  obtain xs where xs: "dlist (links_of (wss d)) 0 (web_u d) xs" using assms(1) unfolding listed_def by blast
  then have "dlist (links_of (wss d')) 0 (web_u d') xs" using assms(2,3) by simp
  from find_loop_spec [OF this] find_loop_spec [OF xs] show ?thesis unfolding http_ws_find_def using assms(4) by simp
qed

text \<open>
  C5: An early message: when Eyre accepts a pending session and sends a message before libh2o has
  completed the upgrade, the driver goes on with a connection that has no socket, and crashes.
\<close>
theorem http_ws_early_message:
  assumes run: "ws_run n d" and f: "http_ws_find d wid = Some w" and w: "wss d w = Some s" "sat_e s = hws_pending"
    and woc: "woc \<noteq> 0" "conns d woc = None"
  shows "\<exists>d1. websocket_response woc sas (Some wid) res_accept d = Some d1 \<and>
    websocket_response woc' 0 (Some wid) (res_message (Some opc) body_nul) d1 = None"
proof -
  note inv = run_inv [OF run]
  note p = pending_request [OF inv w] and w0 = session_nonnull [OF inv w(1)]
  obtain q where q: "reqs d (req_u s) = Some q" "wsu_u q = w" using p(3) by blast
  obtain d1 where d1: "http_ws_accept woc w d = Some d1" "wss d1 = (wss d)(w \<mapsto> s\<lparr>req_u := 0, woc_u := woc, sat_e := hws_open\<rparr>)"
      "conns d1 = (conns d)(woc \<mapsto> \<lparr>sock_u = False, data_u = w, of_req = req_u s\<rparr>)" "web_u d1 = web_u d"
    using accept_opens [OF w(1) w0 w(2) p(1) q woc(1)] by (simp add: Let_def)
  have "http_ws_find d1 wid = http_ws_find d wid"
    by (rule find_loop_cong [OF hws_invD(1) [OF inv] d1(4)])
      (use d1(2) w(1) in \<open>simp_all add: links_of_def fun_eq_iff\<close>)
  then have "websocket_response woc' 0 (Some wid) (res_message (Some opc) body_nul) d1 = None"
    using f w0 d1(2,3) woc(1) by (simp add: websocket_response_def http_ws_send_message_def)
  then show ?thesis using d1(1) f w0 by (simp add: websocket_response_def)
qed

lemma http_ws_early_message_witness:
  "\<exists>d1. websocket_response 9 0 (Some 1) res_accept ex_ws = Some d1 \<and>
    websocket_response 0 0 (Some 1) (res_message (Some 1) body_nul) d1 = None"
  by (rule http_ws_early_message [OF ex_run_ws ex_find], simp, simp, simp, simp)

text \<open>
  C6: A late accept: after the timeout of a handshake the client has its 504 response and Eyre a
  cancellation, but the session is still pending, and an accept of Eyre that was under way makes libh2o
  upgrade the request that has been answered.
\<close>
theorem http_ws_late_accept:
  assumes run: "ws_run n d" and f: "http_ws_find d wid = Some w" and w: "wss d w = Some s" "sat_e s = hws_pending"
    and r: "reqs d (req_u s) = Some q" "rsat_e q = rsat_plan" and woc: "woc \<noteq> 0"
  shows "\<exists>d1 d2. http_req_timer_cb (req_u s) d = Some d1 \<and> wss d1 = wss d \<and> ova d1 = ova d @ [cancel_request (duct_u q)] \<and>
    calls d1 = calls d @ [send_error (req_u s) 504] \<and> websocket_response woc sas (Some wid) res_accept d1 = Some d2 \<and> ova d2 = ova d1 \<and>
    calls d2 = calls d @ send_error (req_u s) 504 # (if tim_u q then [timer_stop (req_u s)] else []) @ [upgrade (req_u s) (key_c s)]"
proof -
  note inv = run_inv [OF run]
  note p = pending_request [OF inv w] and w0 = session_nonnull [OF inv w(1)]
  have qw: "wsu_u q = w" using p(3) r(1) by auto
  obtain d1 where d1: "http_req_timer_cb (req_u s) d = Some d1" "wss d1 = wss d" "web_u d1 = web_u d" "conns d1 = conns d"
      "reqs d1 = (reqs d)(req_u s \<mapsto> q\<lparr>rsat_e := rsat_ripe\<rparr>)" "calls d1 = calls d @ [send_error (req_u s) 504]"
      "ova d1 = ova d @ [cancel_request (duct_u q)]"
    using r by (simp add: http_req_timer_cb_def http_req_kill_def upd_req_def)
  have "http_ws_find d1 wid = Some w" using f d1(2,3) by (simp add: http_ws_find_def)
  moreover have "wss d1 w = Some s" "reqs d1 (req_u s) = Some (q\<lparr>rsat_e := rsat_ripe\<rparr>)" using w(1) d1(2,5) by simp_all
  note acc = accept_opens [OF this(1) w0 w(2) p(1) this(2) _ woc]
  ultimately show ?thesis
    using d1 qw w0 acc by (auto simp: websocket_response_def Let_def)
qed

lemma http_ws_late_accept_witness:
  "\<exists>d1 d2. http_req_timer_cb 1 ex_ws = Some d1 \<and> ova d2 = [websocket_handshake (1, 2, 3) 1 7, cancel_request (1, 2, 3)] \<and> websocket_response 9 0 (Some 1) res_accept d1 = Some d2 \<and>
    calls d2 = [send_error 1 504, timer_stop 1, upgrade 1 (the (key_buffer (Some 2) [65, 66]))]"
proof -
  define s where "s = the (wss ex_ws 2)"
  define q where "q = the (reqs ex_ws 1)"
  have w: "wss ex_ws 2 = Some s" "sat_e s = hws_pending" "req_u s = 1" "key_c s = the (key_buffer (Some 2) [65, 66])" by (simp_all add: s_def)
  have r: "reqs ex_ws (req_u s) = Some q" "rsat_e q = rsat_plan" "tim_u q" "duct_u q = (1, 2, 3)" using w(3) by (simp_all add: q_def)
  have n: "(9::nat) \<noteq> 0" by simp
  from http_ws_late_accept [OF ex_run_ws ex_find w(1,2) r(1,2) n, of 0] show ?thesis using w(3,4) r(3,4) by auto
qed

text \<open>
  Numbers wrap: the handshake that comes when the counter has wrapped to 0 gets the number 1 again.
  If the first session is still there, its number then finds the new session, so that Eyre's responses
  to the old one go to the new one.
\<close>
lemma http_ws_number_wraps:
  assumes inv: "hws_inv d" and nx: "next_wid d = 0" and w: "wss d w = Some s" "wid_l s = 1"
    and r: "reqs d r = Some q" "wsu_u q = 0" and hs: "http_ws_handshake r hdr ck dat d = Some d'"
  shows "http_ws_find d 1 \<noteq> Some 0 \<and> http_ws_find d' 1 = Some (brk d) \<and> brk d \<noteq> w \<and> (\<exists>s'. wss d' w = Some s' \<and> wid_l s' = 1)"
proof -
  obtain key where key: "key_buffer hdr ck = Some key" using handshake_key [OF hs] by blast
  obtain t where h: "hws_inv d'" "wss d' (brk d) = Some t" "wid_l t = 1"
      "\<And>x. x \<noteq> brk d \<Longrightarrow> map_option strip (wss d' x) = map_option strip (wss d x)"
    using handshake_spec [OF inv r key, where dat = dat] hs nx by auto
  have b: "brk d \<noteq> w" "brk d \<noteq> 0" using hws_invD(2) [OF inv] w(1) unfolding addr_ok_def by force+
  have old: "\<exists>s'. wss d' w = Some s' \<and> wid_l s' = 1"
    using h(4) [OF b(1) [symmetric]] w by (cases "wss d' w") (auto dest: strip_eqD(4))
  have "web_u d' = brk d"
    using hs r key by (auto simp: http_ws_handshake_def http_ws_link_def upd_ws_def upd_req_def bind_eq_Some_conv Let_def split: if_splits)
  then have "http_ws_find d' 1 = Some (brk d)"
    using h(2,3) b(2) by (simp add: http_ws_find_def find_loop.simps)
  moreover have "http_ws_find d 1 \<noteq> Some 0" using find_returns [OF hws_invD(1) [OF inv], of 1] w by auto
  ultimately show ?thesis using b old by simp
qed

lemma http_ws_number_wraps_witness:
  "\<exists>d d' :: httd. \<exists>w w'. w \<noteq> w' \<and> next_wid d = 0 \<and> http_ws_find d 1 \<noteq> Some 0 \<and> wss d w \<noteq> None \<and> http_ws_find d' 1 = Some w'"
proof -
  let ?q = "\<lparr>rsat_e = rsat_init, tim_u = True, gen_u = None, wsu_u = 0, duct_u = (1, 2, 4)\<rparr>"
  let ?d = "ex_ws\<lparr>next_wid := 0, reqs := (reqs ex_ws)(brk ex_ws \<mapsto> ?q), brk := Suc (brk ex_ws)\<rparr>"
  have "ws_step ex_ws (ex_ws\<lparr>reqs := (reqs ex_ws)(brk ex_ws \<mapsto> ?q), brk := Suc (brk ex_ws)\<rparr>)" by (rule ws_step.request)
  then have "hws_inv (ex_ws\<lparr>reqs := (reqs ex_ws)(brk ex_ws \<mapsto> ?q), brk := Suc (brk ex_ws)\<rparr>)"
    using step_keeps run_inv [OF ex_run_ws] by blast
  then have inv: "hws_inv ?d" unfolding hws_inv_def listed_def addr_ok_def by simp
  obtain d' where d': "http_ws_handshake 3 None [] 8 ?d = Some d'"
  proof -
    have "\<exists>key. key_buffer None [] = Some key" by (simp add: key_buffer_def)
    then obtain key where key: "key_buffer None [] = Some key" by blast
    have q: "reqs ?d 3 = Some ?q" "wsu_u ?q = 0" by simp_all
    show ?thesis using handshake_spec [OF inv q key, where dat = 8] that by blast
  qed
  have "\<exists>s. wss ?d 2 = Some s \<and> wid_l s = 1" by simp
  then obtain s where s: "wss ?d 2 = Some s" "wid_l s = 1" by blast
  have "http_ws_find ?d 1 \<noteq> Some 0 \<and> http_ws_find d' 1 = Some (brk ?d) \<and> brk ?d \<noteq> 2 \<and> (\<exists>s'. wss d' 2 = Some s' \<and> wid_l s' = 1)"
    by (rule http_ws_number_wraps [OF inv _ s _ _ d', where q = ?q]) simp_all
  then show ?thesis using s by (intro exI [of _ ?d] exI [of _ d'] exI [of _ 2] exI [of _ "brk ?d"]) auto
qed

end
