(* ===== verification/WsKey.thy ===== *)
theory WsKey
  imports Prelude "HOL-Library.Monad_Syntax"
begin

text \<open>
  The opening handshake of the http client's websockets (\<^verbatim>\<open>pkg/vere/io/cttp.c\<close>): base64, the key of
  the request and the accept value that the server has to send back, the search for its header, and
  the rewriting of the URL. SHA-1 (openssl) is a parameter. A result \<open>None\<close> is an access out of bounds.
\<close>

section \<open>Base64\<close>

definition tab_c :: "u8 list" where
  "tab_c = map of_char ''ABCDEFGHIJKLMNOPQRSTUVWXYZabcdefghijklmnopqrstuvwxyz0123456789+/''"

definition PAD :: u8 where "PAD = 61"

definition rd :: "u8 list \<Rightarrow> nat \<Rightarrow> u8 option" where
  "rd src i = (if i < length src then Some (src ! i) else None)"

definition wr :: "u8 list \<Rightarrow> nat \<Rightarrow> u8 \<Rightarrow> u8 list option" where
  "wr dst i c = (if i < length dst then Some (dst[i := c]) else None)"

definition tab :: "u8 \<Rightarrow> u8" where
  "tab i = tab_c ! unat i"

text \<open>The sextets of a group, and what is written for a whole group and for the last one or two bytes.\<close>

definition sx0 :: "u8 \<Rightarrow> u8" where "sx0 a = drop_bit 2 a AND 0x3F"
definition sx1 :: "u8 \<Rightarrow> u8 \<Rightarrow> u8" where "sx1 a b = push_bit 4 (a AND 0x3) OR drop_bit 4 b"
definition sx2 :: "u8 \<Rightarrow> u8 \<Rightarrow> u8" where "sx2 b c = push_bit 2 (b AND 0xF) OR drop_bit 6 c"
definition sx3 :: "u8 \<Rightarrow> u8" where "sx3 c = c AND 0x3F"

fun base64_loop :: "u8 list \<Rightarrow> nat \<Rightarrow> u8 list \<Rightarrow> nat \<Rightarrow> nat \<Rightarrow> (u8 list \<times> nat \<times> nat \<times> nat) option" where
  "base64_loop dst j src i len =
     (if 3 \<le> len then do {
        a \<leftarrow> rd src i; b \<leftarrow> rd src (i + 1); c \<leftarrow> rd src (i + 2);
        d1 \<leftarrow> wr dst j (tab (sx0 a));
        d2 \<leftarrow> wr d1 (j + 1) (tab (sx1 a b));
        d3 \<leftarrow> wr d2 (j + 2) (tab (sx2 b c));
        d4 \<leftarrow> wr d3 (j + 3) (tab (sx3 c));
        base64_loop d4 (j + 4) src (i + 3) (len - 3) }
      else Some (dst, j, i, len))"

declare base64_loop.simps [simp del]

definition base64_encode :: "u8 list \<Rightarrow> u8 list \<Rightarrow> nat \<Rightarrow> u8 list option" where
  "base64_encode dst src len = do {
     (d, j, i, n) \<leftarrow> base64_loop dst 0 src 0 len;
     (d', j') \<leftarrow>
       (if 0 < n then do {
          a \<leftarrow> rd src i;
          d1 \<leftarrow> wr d j (tab (sx0 a));
          if n = 1 then do {
            d2 \<leftarrow> wr d1 (j + 1) (tab (push_bit 4 (a AND 0x3)));
            d3 \<leftarrow> wr d2 (j + 2) PAD;
            d4 \<leftarrow> wr d3 (j + 3) PAD;
            Some (d4, j + 4) }
          else do {
            b \<leftarrow> rd src (i + 1);
            d2 \<leftarrow> wr d1 (j + 1) (tab (sx1 a b));
            d3 \<leftarrow> wr d2 (j + 2) (tab (push_bit 2 (b AND 0xF)));
            d4 \<leftarrow> wr d3 (j + 3) PAD;
            Some (d4, j + 4) } }
        else Some (d, j));
     wr d' j' 0 }"

section \<open>Key and accept value\<close>

text \<open>The 64 bytes of the 16 random words, least significant byte first.\<close>

definition words_bytes :: "u32 list \<Rightarrow> u8 list" where
  "words_bytes ws = concat (map (\<lambda>w. map (\<lambda>k. ucast (drop_bit (8 * k) w)) [0..<4]) ws)"

definition cttp_ws_generate_key :: "u32 list \<Rightarrow> u8 list option" where
  "cttp_ws_generate_key rad = base64_encode (replicate 29 0) (take 16 (words_bytes rad)) 16"

definition U3_WS_GUID :: "u8 list" where
  "U3_WS_GUID = map of_char ''258EAFA5-E914-47DA-95CA-C5AB0DC85B11''"

text \<open>\<open>out\<close> is the caller's buffer, on its stack.\<close>

definition cttp_ws_compute_accept :: "(u8 list \<Rightarrow> u8 list) \<Rightarrow> u8 list \<Rightarrow> u8 list \<Rightarrow> u8 list option" where
  "cttp_ws_compute_accept sha key out =
     (if 24 \<le> length key then base64_encode out (sha (take 24 key @ U3_WS_GUID)) 20 else None)"

section \<open>Headers\<close>

definition tolower :: "u8 \<Rightarrow> u8" where
  "tolower c = (if 65 \<le> c \<and> c \<le> 90 then c + 32 else c)"

definition cttp_header_is :: "u8 list \<Rightarrow> u8 list \<Rightarrow> bool" where
  "cttp_header_is nam name_c \<longleftrightarrow>
     (if length nam \<noteq> length name_c then False
      else list_all (\<lambda>i. tolower (nam ! i) = tolower (name_c ! i)) [0..<length name_c])"

primrec cttp_find_header :: "(u8 list \<times> u8 list) list \<Rightarrow> u8 list \<Rightarrow> u8 list option" where
  "cttp_find_header [] name_c = None"
| "cttp_find_header (h # hs) name_c = (if cttp_header_is (fst h) name_c then Some (snd h) else cttp_find_header hs name_c)"

definition ACCEPT_HEADER :: "u8 list" where
  "ACCEPT_HEADER = map of_char ''sec-websocket-accept''"

text \<open>The checks of a response to a handshake: the reason to refuse it, if there is one.\<close>

datatype ws_refusal = ws_error | ws_status | ws_missing_accept | ws_bad_accept

definition ws_check :: "(u8 list \<Rightarrow> u8 list) \<Rightarrow> u8 list \<Rightarrow> bool \<Rightarrow> int \<Rightarrow> (u8 list \<times> u8 list) list \<Rightarrow> u8 list \<Rightarrow> ws_refusal option option" where
  "ws_check sha key err sas hed exp =
     (if err then Some (Some ws_error)
      else if sas \<noteq> 101 then Some (Some ws_status)
      else case cttp_find_header hed ACCEPT_HEADER of
        None \<Rightarrow> Some (Some ws_missing_accept)
      | Some acc \<Rightarrow> do {
          e \<leftarrow> cttp_ws_compute_accept sha key exp;
          Some (if length acc \<noteq> 28 \<or> acc \<noteq> take 28 e then Some ws_bad_accept else None) })"

section \<open>URLs\<close>

text \<open>A C string ends before its first zero byte.\<close>

definition cstr :: "u8 list \<Rightarrow> u8 list" where
  "cstr bs = takeWhile (\<lambda>c. c \<noteq> 0) bs"

fun strstr :: "u8 list \<Rightarrow> u8 list \<Rightarrow> nat option" where
  "strstr s pat =
     (if take (length pat) s = pat then Some 0
      else case s of [] \<Rightarrow> None | _ # cs \<Rightarrow> map_option Suc (strstr cs pat))"

declare strstr.simps [simp del]

definition strchr :: "u8 list \<Rightarrow> u8 \<Rightarrow> nat option" where
  "strchr s c = (if c \<in> set s then Some (length (takeWhile (\<lambda>x. x \<noteq> c) s)) else None)"

definition cttp_ws_origin :: "u8 list \<Rightarrow> u8 list" where
  "cttp_ws_origin nor =
     (let url_c = cstr nor;
          start = (case strstr url_c (map of_char ''://'') of None \<Rightarrow> 0 | Some i \<Rightarrow> i + 3);
          len_w = (case strchr (drop start url_c) 47 of None \<Rightarrow> length url_c | Some j \<Rightarrow> start + j)
      in take len_w url_c)"

definition cttp_ws_normalize_url :: "u8 list \<Rightarrow> u8 list" where
  "cttp_ws_normalize_url url =
     (let url_c = cstr url
      in if 5 \<le> length url_c \<and> take 5 url_c = map of_char ''ws://'' then map of_char ''http://'' @ drop 5 url_c
         else if 6 \<le> length url_c \<and> take 6 url_c = map of_char ''wss://'' then map of_char ''https://'' @ drop 6 url_c
         else url)"

section \<open>The encoding\<close>

text \<open>Bits, most significant first, and the value of a character of the alphabet.\<close>

definition be_bits :: "nat \<Rightarrow> 'a::semiring_bits \<Rightarrow> bool list" where
  "be_bits n x = rev (bits_of n x)"

definition b64_val :: "u8 \<Rightarrow> nat" where
  "b64_val c = length (takeWhile (\<lambda>x. x \<noteq> c) tab_c)"

definition text_bits :: "u8 list \<Rightarrow> bool list" where
  "text_bits tx = concat (map (\<lambda>c. be_bits 6 (b64_val c)) tx)"

definition data_bits :: "u8 list \<Rightarrow> bool list" where
  "data_bits bs = concat (map (be_bits 8) bs)"

lemma tab_c_facts: "length tab_c = 64" "distinct tab_c" "PAD \<notin> set tab_c" "0 \<notin> set tab_c"
  by (simp_all add: tab_c_def PAD_def)

lemma b64_val_nth: "i < 64 \<Longrightarrow> b64_val (tab_c ! i) = i"
proof -
  assume i: "i < 64"
  have "takeWhile (\<lambda>x. x \<noteq> tab_c ! i) tab_c = take i tab_c"
  proof (rule takeWhile_eq_take_P_nth)
    show "tab_c ! k \<noteq> tab_c ! i" if "k < i" "k < length tab_c" for k
      using that i tab_c_facts(1,2) by (simp add: nth_eq_iff_index_eq)
  qed simp
  then show ?thesis using i tab_c_facts(1) by (simp add: b64_val_def)
qed

lemma be_bits_unfold:
  "be_bits 8 (a :: u8) = [bit a 7, bit a 6, bit a 5, bit a 4, bit a 3, bit a 2, bit a 1, bit a 0]"
  "be_bits 6 n = [bit n 5, bit n 4, bit n 3, bit n 2, bit n 1, bit n 0]"
  by (simp_all add: be_bits_def bits_of_def upt_rec numeral_eq_Suc)

lemma tab_bits: "s < 64 \<Longrightarrow> tab s \<in> set tab_c \<and> be_bits 6 (b64_val (tab s)) = [bit s 5, bit s 4, bit s 3, bit s 2, bit s 1, bit s 0]"
proof -
  assume "s < 64"
  then have "unat s < 64" by (simp add: word_less_nat_alt)
  then show ?thesis using b64_val_nth [of "unat s"] tab_c_facts(1) by (simp add: tab_def be_bits_unfold bit_unsigned_iff)
qed

lemma small_word: "(\<And>k. bit (s :: u8) k \<Longrightarrow> k < 6) \<Longrightarrow> s < 64"
proof -
  assume a: "\<And>k. bit s k \<Longrightarrow> k < 6"
  have "s = take_bit 6 s" by (rule bit_eqI) (use a in \<open>auto simp: bit_take_bit_iff\<close>)
  then have "unat s < 2 ^ 6" by (metis unsigned_take_bit_eq take_bit_nat_less_exp)
  then show ?thesis by (simp add: word_less_nat_alt)
qed

text \<open>The sextets of three bytes, and of the last one or two.\<close>

lemma masks: "(0x3 :: u8) = mask 2" "(0xF :: u8) = mask 4" "(0x3F :: u8) = mask 6"
  by (simp_all add: mask_eq_exp_minus_1)

lemma byte_bit: "bit (b :: u8) k \<Longrightarrow> k < 8"
  using bit_imp_le_length [of b k] by simp

lemma sx_bits:
  "bit (sx0 a) k \<longleftrightarrow> bit a (k + 2)"
  "bit (sx1 a b) k \<longleftrightarrow> 4 \<le> k \<and> k < 6 \<and> bit a (k - 4) \<or> bit b (k + 4)"
  "bit (sx2 b c) k \<longleftrightarrow> 2 \<le> k \<and> k < 6 \<and> bit b (k - 2) \<or> bit c (k + 6)"
  "bit (sx3 c) k \<longleftrightarrow> k < 6 \<and> bit c k"
  unfolding sx0_def sx1_def sx2_def sx3_def masks
  by (auto simp: bit_and_iff bit_or_iff bit_mask_iff bit_drop_bit_eq bit_push_bit_iff add.commute dest: byte_bit)

lemma sextets: "sx0 a < 64" "sx1 a b < 64" "sx2 b c < 64" "sx3 c < 64"
  by (rule small_word; auto simp: sx_bits dest: byte_bit)+

lemma last_sextets: "push_bit 4 (a AND 0x3) = sx1 a 0" "push_bit 2 (b AND 0xF) = sx2 b 0"
  by (simp_all add: sx1_def sx2_def)

lemma group3:
  "text_bits [tab (sx0 a), tab (sx1 a b), tab (sx2 b c), tab (sx3 c)] = data_bits [a, b, c]"
  unfolding text_bits_def data_bits_def
  by (simp add: tab_bits sextets) (simp add: be_bits_unfold sx_bits, auto simp: numeral_eq_Suc dest: byte_bit)

lemma group1: "text_bits [tab (sx0 a), tab (sx1 a 0)] = data_bits [a] @ [False, False, False, False]"
  unfolding text_bits_def data_bits_def
  by (simp add: tab_bits sextets) (simp add: be_bits_unfold sx_bits, auto simp: numeral_eq_Suc dest: byte_bit)

lemma group2: "text_bits [tab (sx0 a), tab (sx1 a b), tab (sx2 b 0)] = data_bits [a, b] @ [False, False]"
  unfolding text_bits_def data_bits_def
  by (simp add: tab_bits sextets) (simp add: be_bits_unfold sx_bits, auto simp: numeral_eq_Suc dest: byte_bit)

text \<open>Writing four characters.\<close>

definition put :: "u8 list \<Rightarrow> nat \<Rightarrow> u8 list \<Rightarrow> u8 list" where
  "put dst j xs = take j dst @ xs @ drop (j + length xs) dst"

lemma put_put: "j + length xs + length ys \<le> length dst \<Longrightarrow> put (put dst j xs) (j + length xs) ys = put dst j (xs @ ys)"
  by (simp add: put_def ac_simps)

lemma length_put [simp]: "j + length xs \<le> length dst \<Longrightarrow> length (put dst j xs) = length dst"
  by (simp add: put_def)

lemma put_Nil [simp]: "put dst j [] = dst"
  by (simp add: put_def)

lemma wr_put: "j < length dst \<Longrightarrow> wr dst j c = Some (put dst j [c])"
  by (simp add: wr_def put_def upd_conv_take_nth_drop)

lemma wr_put_next: "j + length xs < length dst \<Longrightarrow> n = j + length xs \<Longrightarrow> wr (put dst j xs) n c = Some (put dst j (xs @ [c]))"
  using wr_put [of n "put dst j xs" c] put_put [of j xs "[c]" dst] by simp

lemma write4:
  assumes "j + 3 < length dst"
  shows "do { d1 \<leftarrow> wr dst j a; d2 \<leftarrow> wr d1 (j + 1) b; d3 \<leftarrow> wr d2 (j + 2) c; d4 \<leftarrow> wr d3 (j + 3) e; F d4 } = F (put dst j [a, b, c, e])"
  using assms wr_put [of j dst a] wr_put_next [of j "[a]" dst "j + 1" b] wr_put_next [of j "[a, b]" dst "j + 2" c]
    wr_put_next [of j "[a, b, c]" dst "j + 3" e] by (simp del: put_put)

lemma base64_loop_spec:
  "i + len \<le> length src \<Longrightarrow> j + 4 * (len div 3) \<le> length dst \<Longrightarrow>
   \<exists>tx. base64_loop dst j src i len = Some (put dst j tx, j + length tx, i + 3 * (len div 3), len mod 3) \<and>
     length tx = 4 * (len div 3) \<and> set tx \<subseteq> set tab_c \<and> text_bits tx = data_bits (take (3 * (len div 3)) (drop i src))"
proof (induction len arbitrary: dst i j rule: less_induct)
  case (less len)
  show ?case
  proof (cases "3 \<le> len")
    case False
    then show ?thesis by (subst base64_loop.simps) (simp add: text_bits_def data_bits_def)
  next
    case True
    let ?g = "[tab (sx0 (src ! i)), tab (sx1 (src ! i) (src ! (i + 1))), tab (sx2 (src ! (i + 1)) (src ! (i + 2))), tab (sx3 (src ! (i + 2)))]"
    let ?d = "put dst j ?g" let ?n = "(len - 3) div 3"
    have dv: "len div 3 = Suc ?n" "len mod 3 = (len - 3) mod 3" using True by (simp_all add: div_if mod_if)
    have bounds: "i + 2 < length src" "j + 3 < length dst" using less.prems True dv by simp_all
    have step: "base64_loop dst j src i len = base64_loop ?d (j + 4) src (i + 3) (len - 3)"
      using True bounds by (subst base64_loop.simps) (simp add: rd_def write4 [OF bounds(2), simplified])
    have "len - 3 < len" "i + 3 + (len - 3) \<le> length src" "j + 4 + 4 * ?n \<le> length ?d"
      using True less.prems bounds dv by simp_all
    from less.IH [OF this] obtain tx
      where tx: "base64_loop ?d (j + 4) src (i + 3) (len - 3) = Some (put ?d (j + 4) tx, j + 4 + length tx, i + 3 + 3 * ?n, (len - 3) mod 3)"
      "length tx = 4 * ?n" "set tx \<subseteq> set tab_c" "text_bits tx = data_bits (take (3 * ?n) (drop (i + 3) src))" by blast
    have g: "length ?g = 4" by simp
    have "j + 4 + length tx \<le> length dst" using less.prems(2) tx(2) dv by simp
    then have "put ?d (j + 4) tx = put dst j (?g @ tx)" using put_put [of j ?g tx dst, unfolded g] by blast
    moreover have "take (3 * (len div 3)) (drop i src) = src ! i # src ! (i + 1) # src ! (i + 2) # take (3 * ?n) (drop (i + 3) src)"
    proof -
      have "drop i src = src ! i # src ! (i + 1) # src ! (i + 2) # drop (i + 3) src"
        using bounds by (simp add: Cons_nth_drop_Suc numeral_3_eq_3)
      moreover have "3 * (len div 3) = Suc (Suc (Suc (3 * ?n)))" using dv by simp
      ultimately show ?thesis by (simp only: take_Suc_Cons)
    qed
    moreover have "text_bits (?g @ tx) = text_bits ?g @ text_bits tx" by (simp add: text_bits_def)
    moreover have "set ?g \<subseteq> set tab_c" using tab_bits sextets by simp
    ultimately show ?thesis using step tx dv group3 [of "src ! i" "src ! (i + 1)" "src ! (i + 2)"]
      by (intro exI [of _ "?g @ tx"]) (simp add: data_bits_def)
  qed
qed

lemma take_two: "n + 1 < length xs \<Longrightarrow> m = n + 2 \<Longrightarrow> take m xs = take n xs @ [xs ! n, xs ! (n + 1)]"
  by (simp add: take_Suc_conv_app_nth)

text \<open>
  C14: Base64 (RFC 4648). The encoder writes characters of the alphabet whose six-bit values, put
  together, are the bits of the data, most significant first, and zeros up to the next six bits; then
  the padding up to four characters, and a zero byte. It stays inside the data and inside a buffer of that size.
\<close>
theorem base64_is_rfc4648:
  assumes "len \<le> length src" "4 * ((len + 2) div 3) < length dst"
  shows "\<exists>tx pad. base64_encode dst src len = Some (put dst 0 (tx @ replicate pad PAD @ [0])) \<and>
    pad = (3 - len mod 3) mod 3 \<and> length tx + pad = 4 * ((len + 2) div 3) \<and> set tx \<subseteq> set tab_c \<and>
    text_bits tx = data_bits (take len src) @ replicate (2 * pad) False"
proof -
  let ?q = "len div 3" let ?i = "3 * ?q"
  have q: "len = ?i + len mod 3" by simp
  have room: "4 * ?q \<le> length dst" using assms(2) by linarith
  obtain tx where tx: "base64_loop dst 0 src 0 len = Some (put dst 0 tx, length tx, ?i, len mod 3)" "length tx = 4 * ?q"
      "set tx \<subseteq> set tab_c" "text_bits tx = data_bits (take ?i src)"
    using base64_loop_spec [of 0 len src 0 dst] assms(1) room by auto
  have app: "text_bits (tx @ ys) = text_bits tx @ text_bits ys" for ys by (simp add: text_bits_def)
  have wr0: "wr (put dst 0 ys) n 0 = Some (put dst 0 (ys @ [0]))" if "n = length ys" "n < length dst" for ys n
    using wr_put_next [of 0 ys dst n 0] that by simp
  have four: "put (put dst 0 tx) (length tx) ys = put dst 0 (tx @ ys)" if "length tx + length ys \<le> length dst" for ys
    using put_put [of 0 tx ys dst] that by simp
  consider "len mod 3 = 0" | "len mod 3 = 1" | "len mod 3 = 2" by linarith
  then show ?thesis
  proof cases
    case 1
    then have "len = ?i" "(len + 2) div 3 = ?q" using q by linarith+
    then show ?thesis using tx 1 wr0 [of "length tx" tx] assms(2)
      by (intro exI [of _ tx] exI [of _ 0]) (simp add: base64_encode_def)
  next
    case 2
    let ?a = "src ! ?i" let ?g = "[tab (sx0 ?a), tab (sx1 ?a 0)]"
    have l: "len = ?i + 1" "(len + 2) div 3 = Suc ?q" using q 2 by linarith+
    have b: "?i < length src" "length tx + 3 < length dst" "length tx + 4 < length dst" using l assms tx(2) by linarith+
    have "take len src = take ?i src @ [?a]" using l(1) b(1) by (metis Suc_eq_plus1 take_Suc_conv_app_nth)
    then have bits: "text_bits (tx @ ?g) = data_bits (take len src) @ [False, False, False, False]"
      using tx(4) group1 by (simp add: app data_bits_def)
    have "base64_encode dst src len = wr (put (put dst 0 tx) (length tx) (?g @ [PAD, PAD])) (length tx + 4) 0"
      unfolding base64_encode_def last_sextets
      using tx(1) 2 b write4 [of "length tx" "put dst 0 tx"] room tx(2) by (simp add: rd_def)
    then have "base64_encode dst src len = Some (put dst 0 ((tx @ ?g) @ [PAD, PAD] @ [0]))"
      using four [of "?g @ [PAD, PAD]"] wr0 [of "length tx + 4" "tx @ ?g @ [PAD, PAD]"] b(3) by simp
    moreover have "set ?g \<subseteq> set tab_c" using tab_bits sextets by simp
    ultimately show ?thesis using tx(2,3) 2 l(2) bits
      by (intro exI [of _ "tx @ ?g"] exI [of _ 2]) (simp add: numeral_2_eq_2)
  next
    case 3
    let ?a = "src ! ?i" let ?b = "src ! (?i + 1)" let ?g = "[tab (sx0 ?a), tab (sx1 ?a ?b), tab (sx2 ?b 0)]"
    have l: "len = ?i + 2" "(len + 2) div 3 = Suc ?q" using q 3 by linarith+
    have b: "?i < length src" "?i + 1 < length src" "length tx + 3 < length dst" "length tx + 4 < length dst" using l assms tx(2) by linarith+
    have "take len src = take ?i src @ [?a, ?b]" by (rule take_two [OF b(2) l(1)])
    then have bits: "text_bits (tx @ ?g) = data_bits (take len src) @ [False, False]"
      using tx(4) group2 by (simp add: app data_bits_def)
    have "base64_encode dst src len = wr (put (put dst 0 tx) (length tx) (?g @ [PAD])) (length tx + 4) 0"
      unfolding base64_encode_def last_sextets
      using tx(1) 3 b write4 [of "length tx" "put dst 0 tx"] room tx(2) by (simp add: rd_def)
    then have "base64_encode dst src len = Some (put dst 0 ((tx @ ?g) @ [PAD] @ [0]))"
      using four [of "?g @ [PAD]"] wr0 [of "length tx + 4" "tx @ ?g @ [PAD]"] b(4) by simp
    moreover have "set ?g \<subseteq> set tab_c" using tab_bits sextets by simp
    ultimately show ?thesis using tx(2,3) 3 l(2) bits
      by (intro exI [of _ "tx @ ?g"] exI [of _ 1]) (simp, simp add: numeral_2_eq_2)
  qed
qed

lemma base64_is_rfc4648_witness:
  "\<exists>tx pad. base64_encode (replicate 9 7) [77, 97, 110, 77] 4 = Some (put (replicate 9 7) 0 (tx @ replicate pad PAD @ [0])) \<and> pad = 2 \<and> length tx = 6"
  using base64_is_rfc4648 [of 4 "[77, 97, 110, 77]" "replicate 9 7"] by force

section \<open>The handshake\<close>

lemma text_value_inj:
  assumes "length tx = length ty" "set tx \<subseteq> set tab_c" "set ty \<subseteq> set tab_c" "text_bits tx = text_bits ty"
  shows "tx = ty"
  using assms
proof (induction tx ty rule: list_induct2)
  case (Cons x xs y ys)
  obtain k l where k: "x = tab_c ! k" "k < 64" "y = tab_c ! l" "l < 64"
    using Cons.prems(1,2) tab_c_facts(1) by (auto simp: in_set_conv_nth)
  have "be_bits 6 (b64_val x) = be_bits 6 (b64_val y)" "text_bits xs = text_bits ys"
    using Cons.prems(3) by (simp_all add: text_bits_def be_bits_def append_eq_append_conv)
  then have "bits_of 6 k = bits_of 6 l" using k b64_val_nth by (simp add: be_bits_def)
  then have "bit k i = bit l i" if "i < 6" for i using nth_bits_of [OF that] by metis
  then have "take_bit 6 k = take_bit 6 l" by (intro bit_eqI) (auto simp: bit_take_bit_iff)
  then have "x = y" using k by (simp add: take_bit_nat_eq_self)
  then show ?case using Cons \<open>text_bits xs = text_bits ys\<close> by simp
qed simp

text \<open>A fresh key, and the accept value of a key.\<close>

lemma generate_key_spec:
  assumes "length rad = 16"
  shows "\<exists>tx. cttp_ws_generate_key rad = Some (tx @ [PAD, PAD] @ replicate 5 0) \<and> length tx = 22 \<and> set tx \<subseteq> set tab_c \<and>
    text_bits tx = data_bits (take 16 (words_bytes rad)) @ replicate 4 False"
proof -
  have "length (words_bytes rad) = 64"
  proof -
    have "length (words_bytes ws) = 4 * length ws" for ws by (induction ws) (simp_all add: words_bytes_def)
    then show ?thesis using assms by simp
  qed
  then obtain tx where tx: "cttp_ws_generate_key rad = Some (put (replicate 29 0) 0 (tx @ replicate 2 PAD @ [0]))"
    "length tx = 22" "set tx \<subseteq> set tab_c" "text_bits tx = data_bits (take 16 (words_bytes rad)) @ replicate 4 False"
    unfolding cttp_ws_generate_key_def using base64_is_rfc4648 [of 16 "take 16 (words_bytes rad)" "replicate 29 0"] by auto
  then show ?thesis by (intro exI [of _ tx]) (simp add: put_def eval_nat_numeral)
qed

lemma header_is_eq: "cttp_header_is nam name_c \<longleftrightarrow> map tolower nam = map tolower name_c"
proof (cases "length nam = length name_c")
  case True
  then have "map tolower nam = map tolower name_c \<longleftrightarrow> (\<forall>i < length name_c. tolower (nam ! i) = tolower (name_c ! i))"
    by (simp add: list_eq_iff_nth_eq)
  then show ?thesis using True unfolding cttp_header_is_def list_all_iff by auto
next
  case False
  then show ?thesis unfolding cttp_header_is_def by (metis length_map)
qed

lemma find_header_eq: "cttp_find_header hed name_c = map_option snd (List.find (\<lambda>h. map tolower (fst h) = map tolower name_c) hed)"
  by (induction hed) (simp_all add: header_is_eq)

lemma compute_accept_spec:
  assumes "length key = 29" "length (sha (take 24 key @ U3_WS_GUID)) = 20" "length exp = 29"
  shows "\<exists>tx. cttp_ws_compute_accept sha key exp = Some (tx @ [PAD, 0]) \<and> length tx = 27 \<and> set tx \<subseteq> set tab_c \<and>
    text_bits tx = data_bits (sha (take 24 key @ U3_WS_GUID)) @ [False, False]"
proof -
  obtain tx where tx: "base64_encode exp (sha (take 24 key @ U3_WS_GUID)) 20 = Some (put exp 0 (tx @ replicate 1 PAD @ [0]))"
    "length tx = 27" "set tx \<subseteq> set tab_c" "text_bits tx = data_bits (sha (take 24 key @ U3_WS_GUID)) @ replicate 2 False"
    using base64_is_rfc4648 [of 20 "sha (take 24 key @ U3_WS_GUID)" exp] assms by auto
  then show ?thesis using assms by (intro exI [of _ tx]) (simp add: cttp_ws_compute_accept_def put_def numeral_2_eq_2)
qed

text \<open>
  C13: The opening handshake. With a fresh key, the check of a response always returns, and it lets a
  response through exactly when it is a 101 whose first Sec-WebSocket-Accept header, in any case of
  letters, is the base64 text of the SHA-1 of the key and the fixed GUID (RFC 6455, section 4.1).
\<close>
theorem ws_handshake_accepts:
  assumes rad: "length rad = 16" "cttp_ws_generate_key rad = Some key" and sha: "\<And>x. length (sha x) = 20" and exp: "length exp = 29"
  shows "\<exists>res. ws_check sha key err sas hed exp = Some res \<and>
    (res = None \<longleftrightarrow> \<not> err \<and> sas = 101 \<and>
      (\<exists>nam tx. List.find (\<lambda>h. map tolower (fst h) = map tolower ACCEPT_HEADER) hed = Some (nam, tx @ [PAD]) \<and> length tx = 27 \<and>
        set tx \<subseteq> set tab_c \<and> text_bits tx = data_bits (sha (take 24 key @ U3_WS_GUID)) @ [False, False]))"
proof -
  have "length key = 29" using generate_key_spec [OF rad(1)] rad(2) by auto
  from compute_accept_spec [where sha = sha, OF this sha exp] obtain ty where ty: "cttp_ws_compute_accept sha key exp = Some (ty @ [PAD, 0])"
    "length ty = 27" "set ty \<subseteq> set tab_c" "text_bits ty = data_bits (sha (take 24 key @ U3_WS_GUID)) @ [False, False]" by blast
  have "take 28 (ty @ [PAD, 0]) = ty @ [PAD]" using ty(2) by simp
  then have chk: "cttp_ws_compute_accept sha key exp = Some (ty @ [PAD, 0]) \<and>
      (length acc \<noteq> 28 \<or> acc \<noteq> take 28 (ty @ [PAD, 0])) = (acc \<noteq> ty @ [PAD])" for acc using ty(1,2) by auto
  show ?thesis
  proof (cases "List.find (\<lambda>h. map tolower (fst h) = map tolower ACCEPT_HEADER) hed")
    case None
    then show ?thesis by (simp add: ws_check_def find_header_eq)
  next
    case (Some h)
    obtain nam acc where h: "h = (nam, acc)" by (cases h)
    have "(acc = ty @ [PAD]) = (\<exists>tx. acc = tx @ [PAD] \<and> length tx = 27 \<and> set tx \<subseteq> set tab_c \<and>
        text_bits tx = data_bits (sha (take 24 key @ U3_WS_GUID)) @ [False, False])"
      using ty(2-4) text_value_inj [of _ ty] by metis
    then show ?thesis using Some h chk [of acc] by (auto simp: ws_check_def find_header_eq)
  qed
qed

lemma ws_handshake_accepts_witness:
  "\<exists>key. cttp_ws_generate_key (replicate 16 0) = Some key \<and>
    (\<exists>res. ws_check (\<lambda>_. replicate 20 0) key False 200 [] (replicate 29 0) = Some res \<and> res \<noteq> None)"
proof -
  have rad: "length (replicate 16 (0 :: u32)) = 16" by simp
  obtain key where key: "cttp_ws_generate_key (replicate 16 0) = Some key" using generate_key_spec [OF rad] by blast
  have "length (replicate 20 (0 :: u8)) = 20" "length (replicate 29 (0 :: u8)) = 29" by simp_all
  from ws_handshake_accepts [OF rad key this, of False 200 "[]"] show ?thesis using key by auto
qed

section \<open>The origin\<close>

lemma cstr_id: "0 \<notin> set bs \<Longrightarrow> cstr bs = bs"
  by (auto simp: cstr_def takeWhile_eq_all_conv)

lemma strstr_skip: "take (length pat) (c # cs) \<noteq> pat \<Longrightarrow> strstr (c # cs) pat = map_option Suc (strstr cs pat)"
  by (subst strstr.simps) simp

lemma strstr_here: "strstr (pat @ cs) pat = Some 0"
  by (subst strstr.simps) simp

lemma strstr_scheme:
  "strstr (map of_char ''http://'' @ cs) (map of_char ''://'') = Some 4"
  "strstr (map of_char ''https://'' @ cs) (map of_char ''://'') = Some 5"
  using strstr_here [of "map of_char ''://''" cs] by (simp_all add: strstr_skip)

lemma origin_of:
  assumes s: "strstr (sch @ host @ path) (map of_char ''://'') = Some k" "length sch = k + 3" and z: "0 \<notin> set (sch @ host @ path)"
    and h: "47 \<notin> set host" "path = [] \<or> hd path = 47"
  shows "cttp_ws_origin (sch @ host @ path) = sch @ host"
proof -
  have d: "drop (k + 3) (sch @ host @ path) = host @ path" using s(2) by simp
  have "(case strchr (host @ path) 47 of None \<Rightarrow> length (sch @ host @ path) | Some j \<Rightarrow> k + 3 + j) = length sch + length host"
  proof (cases path)
    case Nil
    then show ?thesis using h(1) by (simp add: strchr_def)
  next
    case (Cons c cs)
    then have "takeWhile (\<lambda>x. x \<noteq> 47) (host @ path) = host" using h by (subst takeWhile_append2) auto
    then show ?thesis using Cons h s(2) by (simp add: strchr_def)
  qed
  then show ?thesis unfolding cttp_ws_origin_def Let_def cstr_id [OF z] s(1) option.case d by simp
qed

text \<open>
  The URL of a websocket becomes one of http: for \<open>ws\<close> and \<open>wss\<close> the scheme is replaced by \<open>http\<close> and
  \<open>https\<close>, the rest is kept, and the Origin header of the request is that scheme with the host (and port)
  of the URL, without its path.
\<close>
lemma ws_url_origin:
  assumes z: "0 \<notin> set (host @ path)" and h: "47 \<notin> set host" "path = [] \<or> hd path = 47"
    and sch: "sch = (if sec then map of_char ''wss://'' else map of_char ''ws://'')"
  shows "cttp_ws_normalize_url (sch @ host @ path) = (if sec then map of_char ''https://'' else map of_char ''http://'') @ host @ path \<and>
    cttp_ws_origin (cttp_ws_normalize_url (sch @ host @ path)) = (if sec then map of_char ''https://'' else map of_char ''http://'') @ host"
proof -
  have c: "cstr (sch @ host @ path) = sch @ host @ path" by (rule cstr_id) (use z sch in auto)
  have n: "cttp_ws_normalize_url (sch @ host @ path) = (if sec then map of_char ''https://'' else map of_char ''http://'') @ host @ path"
    unfolding cttp_ws_normalize_url_def c using sch by simp
  show ?thesis
  proof (cases sec)
    case True
    then show ?thesis unfolding n using origin_of [of "map of_char ''https://''" host path 5] strstr_scheme(2) z h by simp
  next
    case False
    then show ?thesis unfolding n using origin_of [of "map of_char ''http://''" host path 4] strstr_scheme(1) z h by simp
  qed
qed

lemma ws_url_origin_witness:
  "cttp_ws_origin (cttp_ws_normalize_url (map of_char ''wss://'' @ map of_char ''a:8'' @ map of_char ''/b'')) =
    map of_char ''https://'' @ map of_char ''a:8''"
proof -
  have "0 \<notin> set (map of_char ''a:8'' @ map of_char ''/b'' :: u8 list)" "47 \<notin> set (map of_char ''a:8'' :: u8 list)"
    "(map of_char ''/b'' :: u8 list) = [] \<or> hd (map of_char ''/b'' :: u8 list) = 47" by simp_all
  note u = ws_url_origin [OF this, of "map of_char ''wss://''" True]
  have "(map of_char ''wss://'' :: u8 list) = (if True then map of_char ''wss://'' else map of_char ''ws://'')" by (simp only: if_True)
  from u [OF this, THEN conjunct2] show ?thesis unfolding if_True .
qed

end
