(* ===== verification/CttpWs.thy ===== *)
theory CttpWs
  imports Links WsKey
begin

text \<open>
  Websocket sessions of the http client (\<^verbatim>\<open>pkg/vere/io/cttp.c\<close>), with what requests have to do with them. A
  session begins as a request of its own, whose socket it takes over when the server accepts; then wslay
  turns bytes into frames. wslay calls back while it receives, so a close is put off until it is done.

  Sessions and requests live in two stores; their links are kept beside them, at the same addresses, and
  0 is null. A result \<open>None\<close> is an access to memory that is not allocated, a null pointer that is followed,
  or a failed assertion. What libh2o, libuv and wslay are asked is recorded, and what they answer is an
  argument.
\<close>

section \<open>Linked lists\<close>

definition link_in :: "nat \<Rightarrow> links \<Rightarrow> nat \<Rightarrow> (links \<times> nat) option" where
  "link_in x L a =
     (let L1 = L(x \<mapsto> (a, 0))
      in if a \<noteq> 0 then do { (n, p) \<leftarrow> L1 a; Some (L1(a \<mapsto> (n, x)), x) } else Some (L1, x))"

definition link_out :: "bool \<Rightarrow> nat \<Rightarrow> links \<Rightarrow> nat \<Rightarrow> (links \<times> nat) option" where
  "link_out guard x L a =
     do { (n, p) \<leftarrow> L x;
          if p \<noteq> 0 then do {
            (np, pp) \<leftarrow> L p;
            let L1 = L(p \<mapsto> (n, pp));
            if n \<noteq> 0 then do { (nn, pn) \<leftarrow> L1 n; Some (L1(n \<mapsto> (nn, p)), a) } else Some (L1, a) }
          else if \<not> guard \<or> a = x then
            (if n \<noteq> 0 then do { (nn, pn) \<leftarrow> L n; Some (L(n \<mapsto> (nn, 0)), n) } else Some (L, n))
          else Some (L, a) }"

section \<open>State\<close>

datatype csat = csat_init | csat_addr | csat_quit | csat_conn | csat_ripe

datatype cwsat = cws_pending | cws_open | cws_closing | cws_closed

record cws =
  wid_l :: u32
  sat_e :: cwsat
  key_c :: "u8 list"
  ceq_u :: nat
  sok_u :: bool
  wsl_w :: bool
  out_y :: bool
  wsl_on :: bool
  clo_ev :: bool
  clo_on :: bool

record creq =
  num_l :: u32
  cli_u :: nat
  csat_e :: csat
  ipf_c :: bool
  wsu_u :: nat

datatype cws_event = cws_accept | cws_reject | cws_disconnect | cws_message u8 "u8 list option"

datatype ctp_ovum = ctp_ws u32 cws_event | ctp_receive u32 nat

datatype ctp_call =
    client_cancel nat
  | wslay_free nat
  | wslay_queue_close nat
  | wslay_queue_msg nat u8 "u8 list"
  | socket_close nat
  | socket_write nat
  | read_start nat
  | read_stop nat
  | input_drop nat
  | send_request nat

text \<open>
  The driver: its lists of sessions and of requests, and the requests whose address libuv has been asked
  to look up.
\<close>

record cttp =
  ws_l :: links
  ws_a :: nat
  wss :: "nat \<rightharpoonup> cws"
  rq_l :: links
  rq_a :: nat
  rqs :: "nat \<rightharpoonup> creq"
  brk :: nat
  addrs :: "nat list"
  ova :: "ctp_ovum list"
  calls :: "ctp_call list"

definition upd_cws :: "nat \<Rightarrow> (cws \<Rightarrow> cws) \<Rightarrow> cttp \<Rightarrow> cttp option" where
  "upd_cws w f d = do { s \<leftarrow> wss d w; Some (d\<lparr>wss := (wss d)(w \<mapsto> f s)\<rparr>) }"

definition upd_creq :: "nat \<Rightarrow> (creq \<Rightarrow> creq) \<Rightarrow> cttp \<Rightarrow> cttp option" where
  "upd_creq r f d = do { q \<leftarrow> rqs d r; Some (d\<lparr>rqs := (rqs d)(r \<mapsto> f q)\<rparr>) }"

definition ctell :: "ctp_ovum \<Rightarrow> cttp \<Rightarrow> cttp" where
  "ctell e d = d\<lparr>ova := ova d @ [e]\<rparr>"

definition cask :: "ctp_call \<Rightarrow> cttp \<Rightarrow> cttp" where
  "cask c d = d\<lparr>calls := calls d @ [c]\<rparr>"

section \<open>Lists of sessions and requests\<close>

definition cttp_ws_link :: "nat \<Rightarrow> cttp \<Rightarrow> cttp option" where
  "cttp_ws_link w d = do { (L, a) \<leftarrow> link_in w (ws_l d) (ws_a d); Some (d\<lparr>ws_l := L, ws_a := a\<rparr>) }"

definition cttp_ws_unlink :: "nat \<Rightarrow> cttp \<Rightarrow> cttp option" where
  "cttp_ws_unlink w d = do { (L, a) \<leftarrow> link_out True w (ws_l d) (ws_a d); Some (d\<lparr>ws_l := L, ws_a := a\<rparr>) }"

definition free_cws :: "nat \<Rightarrow> cttp \<Rightarrow> cttp" where
  "free_cws w d = d\<lparr>wss := (wss d)(w := None), ws_l := (ws_l d)(w := None)\<rparr>"

partial_function (option) ws_find_loop :: "(nat \<rightharpoonup> cws) \<Rightarrow> links \<Rightarrow> nat \<Rightarrow> u32 \<Rightarrow> nat option" where
  "ws_find_loop h L x wid =
     (if x = 0 then Some 0
      else do { s \<leftarrow> h x; if wid = wid_l s then Some x else do { (n, p) \<leftarrow> L x; ws_find_loop h L n wid } })"

definition cttp_ws_find :: "cttp \<Rightarrow> u32 \<Rightarrow> nat option" where
  "cttp_ws_find d wid = ws_find_loop (wss d) (ws_l d) (ws_a d) wid"

partial_function (option) creq_find_loop :: "(nat \<rightharpoonup> creq) \<Rightarrow> links \<Rightarrow> nat \<Rightarrow> u32 \<Rightarrow> nat option" where
  "creq_find_loop h L x num =
     (if x = 0 then Some 0
      else do { q \<leftarrow> h x; if num = num_l q then Some x else do { (n, p) \<leftarrow> L x; creq_find_loop h L n num } })"

definition cttp_creq_find :: "cttp \<Rightarrow> u32 \<Rightarrow> nat option" where
  "cttp_creq_find d num = creq_find_loop (rqs d) (rq_l d) (rq_a d) num"

definition cttp_creq_link :: "nat \<Rightarrow> cttp \<Rightarrow> cttp option" where
  "cttp_creq_link r d = do { (L, a) \<leftarrow> link_in r (rq_l d) (rq_a d); Some (d\<lparr>rq_l := L, rq_a := a\<rparr>) }"

definition cttp_creq_unlink :: "nat \<Rightarrow> cttp \<Rightarrow> cttp option" where
  "cttp_creq_unlink r d = do { (L, a) \<leftarrow> link_out False r (rq_l d) (rq_a d); Some (d\<lparr>rq_l := L, rq_a := a\<rparr>) }"

definition cttp_creq_free :: "nat \<Rightarrow> cttp \<Rightarrow> cttp option" where
  "cttp_creq_free r d =
     do { d1 \<leftarrow> upd_creq r (\<lambda>q. q\<lparr>wsu_u := 0\<rparr>) d;
          d2 \<leftarrow> cttp_creq_unlink r d1;
          Some (d2\<lparr>rqs := (rqs d2)(r := None), rq_l := (rq_l d2)(r := None)\<rparr>) }"

text \<open>A request: \<open>pul\<close> is whether its URL could be parsed and, if so, whether the host is an address.\<close>

definition cttp_creq_new :: "u32 \<Rightarrow> bool option \<Rightarrow> cttp \<Rightarrow> (nat \<times> cttp) option" where
  "cttp_creq_new num pul d =
     (case pul of
        None \<Rightarrow> Some (0, d)
      | Some ip \<Rightarrow> do {
          let r = brk d;
          d1 \<leftarrow> cttp_creq_link r (d\<lparr>brk := Suc r,
                  rqs := (rqs d)(r \<mapsto> \<lparr>num_l = num, cli_u = 0, csat_e = csat_init, ipf_c = ip, wsu_u = 0\<rparr>)\<rparr>);
          Some (r, d1) })"

section \<open>Closing\<close>

definition cttp_ws_plan_event :: "nat \<Rightarrow> cws_event \<Rightarrow> cttp \<Rightarrow> cttp option" where
  "cttp_ws_plan_event w ev d = do { s \<leftarrow> wss d w; Some (ctell (ctp_ws (wid_l s) ev) d) }"

definition cttp_ws_close :: "nat \<Rightarrow> bool \<Rightarrow> cttp \<Rightarrow> cttp option" where
  "cttp_ws_close w send d =
     (if w = 0 then Some d
      else do {
        s \<leftarrow> wss d w;
        if wsl_on s then upd_cws w (\<lambda>s. s\<lparr>clo_ev := clo_ev s \<or> send, clo_on := True\<rparr>) d
        else do {
          d1 \<leftarrow> (if ceq_u s \<noteq> 0 then do {
                   da \<leftarrow> upd_cws w (\<lambda>s. s\<lparr>ceq_u := 0\<rparr>) d;
                   q \<leftarrow> rqs da (ceq_u s);
                   if wsu_u q = w then do {
                     db \<leftarrow> upd_creq (ceq_u s) (\<lambda>q. q\<lparr>wsu_u := 0\<rparr>) da;
                     cttp_creq_free (ceq_u s) (if cli_u q \<noteq> 0 then cask (client_cancel (cli_u q)) db else db) }
                   else Some da }
                 else Some d);
          d2 \<leftarrow> (if sat_e s \<noteq> cws_closed then do {
                   da \<leftarrow> upd_cws w (\<lambda>s. s\<lparr>sat_e := cws_closed\<rparr>) d1;
                   db \<leftarrow> (if send then cttp_ws_plan_event w cws_disconnect da else Some da);
                   dc \<leftarrow> (if wsl_w s then upd_cws w (\<lambda>s. s\<lparr>wsl_w := False\<rparr>) (cask (wslay_free w) db) else Some db);
                   if sok_u s then upd_cws w (\<lambda>s. s\<lparr>sok_u := False\<rparr>) (cask (socket_close w) dc) else Some dc }
                 else if send then cttp_ws_plan_event w cws_disconnect d1
                 else Some d1);
          d3 \<leftarrow> (if out_y s then upd_cws w (\<lambda>s. s\<lparr>out_y := False\<rparr>) d2 else Some d2);
          d4 \<leftarrow> cttp_ws_unlink w d3;
          Some (free_cws w d4) } })"

definition cttp_ws_flush_close :: "nat \<Rightarrow> cttp \<Rightarrow> (bool \<times> cttp) option" where
  "cttp_ws_flush_close w d =
     do { s \<leftarrow> wss d w;
          if \<not> clo_on s then Some (False, d)
          else do {
            d1 \<leftarrow> upd_cws w (\<lambda>s. s\<lparr>clo_on := False, clo_ev := False\<rparr>) d;
            d2 \<leftarrow> cttp_ws_close w (clo_ev s) d1;
            Some (True, d2) } }"

definition cttp_ws_fail_handshake :: "nat \<Rightarrow> cttp \<Rightarrow> cttp option" where
  "cttp_ws_fail_handshake r d =
     do { q \<leftarrow> rqs d r;
          if wsu_u q = 0 then Some d
          else do {
            d1 \<leftarrow> upd_creq r (\<lambda>q. q\<lparr>wsu_u := 0\<rparr>) d;
            d2 \<leftarrow> cttp_ws_plan_event (wsu_u q) cws_reject d1;
            cttp_ws_close (wsu_u q) False d2 } }"

section \<open>Frames\<close>

definition CONNECTION_CLOSE :: u8 where "CONNECTION_CLOSE = 8"

definition cttp_ws_msg_cb :: "nat \<Rightarrow> (u8 \<times> u8 list) option \<Rightarrow> cttp \<Rightarrow> cttp option" where
  "cttp_ws_msg_cb w arg d =
     (case arg of
        None \<Rightarrow> cttp_ws_close w True d
      | Some (opcode, msg) \<Rightarrow>
          if opcode = CONNECTION_CLOSE then cttp_ws_close w True d
          else cttp_ws_plan_event w (cws_message opcode (if msg = [] then None else Some msg)) d)"

primrec msg_cbs :: "nat \<Rightarrow> (u8 \<times> u8 list) option list \<Rightarrow> cttp \<Rightarrow> cttp option" where
  "msg_cbs w [] d = Some d"
| "msg_cbs w (m # ms) d = do { d1 \<leftarrow> cttp_ws_msg_cb w m d; msg_cbs w ms d1 }"

text \<open>
  wslay asks for at most \<open>len\<close> bytes of input, and there are some or it would block; and for a mask, which is
  made of blocks of 16 random words.
\<close>

definition cttp_ws_recv_cb :: "u8 list \<Rightarrow> nat \<Rightarrow> (u8 list \<times> u8 list) option" where
  "cttp_ws_recv_cb input len =
     (if input = [] then None
      else let n = (if length input < len then length input else len) in Some (take n input, drop n input))"

function genmask_loop :: "(nat \<Rightarrow> u32 list) \<Rightarrow> nat \<Rightarrow> nat \<Rightarrow> nat \<Rightarrow> u8 list \<Rightarrow> u8 list" where
  "genmask_loop rand k off len buf =
     (if off < len then let chc = min (len - off) 64 in genmask_loop rand (Suc k) (off + chc) len (buf @ take chc (words_bytes (rand k)))
      else buf)"
  by pat_completeness auto
termination
  by (relation "measure (\<lambda>(rand, k, off, len, buf). len - off)") auto

declare genmask_loop.simps [simp del]

definition cttp_ws_genmask_cb :: "(nat \<Rightarrow> u32 list) \<Rightarrow> nat \<Rightarrow> u8 list" where
  "cttp_ws_genmask_cb rand len = genmask_loop rand 0 0 len []"

text \<open>wslay hands over bytes to write: the socket is not writing, and they are not empty.\<close>

definition cttp_ws_send_cb :: "nat \<Rightarrow> cttp \<Rightarrow> cttp option" where
  "cttp_ws_send_cb w d =
     do { s \<leftarrow> wss d w;
          if \<not> sok_u s then None
          else upd_cws w (\<lambda>s. s\<lparr>out_y := True\<rparr>) (cask (socket_write w) d) }"

text \<open>
  How wslay returns from a call, as far as the driver tells: with success, with the error that it would
  block, or with another one.
\<close>

datatype wslay_res = wslay_ok | wslay_would_block | wslay_failed

text \<open>
  What the libraries answer in one round of the loop: whether the socket is writing, whether wslay wants to
  write, whether it does, and with what result; whether there is input and wslay wants it, the messages it
  finds there, and with what result. When they have no more to say, none of them wants anything.
\<close>

record round =
  writing :: bool
  want_write :: bool
  writes :: bool
  send_res :: wslay_res
  has_input :: bool
  msgs :: "(u8 \<times> u8 list) option list"
  recv_res :: wslay_res

text \<open>
  A call into wslay: the session is marked, the call makes its callbacks, and a close that came with them is
  made up for. The result says whether the session is gone and whether something was done.
\<close>

definition wslay_call :: "nat \<Rightarrow> (cttp \<Rightarrow> cttp option) \<Rightarrow> wslay_res \<Rightarrow> cttp \<Rightarrow> (bool \<times> bool \<times> cttp) option" where
  "wslay_call w cbs sas d =
     do { d1 \<leftarrow> upd_cws w (\<lambda>s. s\<lparr>wsl_on := True\<rparr>) d;
          d2 \<leftarrow> cbs d1;
          d3 \<leftarrow> upd_cws w (\<lambda>s. s\<lparr>wsl_on := False\<rparr>) d2;
          (flushed, d4) \<leftarrow> cttp_ws_flush_close w d3;
          if flushed then Some (True, False, d4)
          else if sas = wslay_ok then Some (False, True, d4)
          else if sas \<noteq> wslay_would_block then do { d5 \<leftarrow> cttp_ws_close w True d4; Some (True, False, d5) }
          else Some (False, False, d4) }"

definition proceed_end :: "nat \<Rightarrow> bool \<Rightarrow> bool \<Rightarrow> cttp \<Rightarrow> cttp option" where
  "proceed_end w want_read pending d =
     do { s \<leftarrow> wss d w;
          if \<not> sok_u s \<or> \<not> wsl_w s then None
          else Some (cask (if want_read \<or> \<not> pending then read_start w else read_stop w) d) }"

primrec proceed_loop :: "nat \<Rightarrow> bool \<Rightarrow> bool \<Rightarrow> round list \<Rightarrow> cttp \<Rightarrow> cttp option" where
  "proceed_loop w want_read pending [] d = proceed_end w want_read pending d"
| "proceed_loop w want_read pending (x # xs) d =
     do { s \<leftarrow> wss d w;
          if \<not> sok_u s \<or> \<not> wsl_w s then None
          else do {
            (gone, did, d1) \<leftarrow> (if \<not> writing x \<and> want_write x
               then wslay_call w (if writes x then cttp_ws_send_cb w else Some) (send_res x) d else Some (False, False, d));
            if gone then Some d1
            else do {
              (gone2, did2, d2) \<leftarrow> (if has_input x then wslay_call w (msg_cbs w (msgs x)) (recv_res x) d1 else Some (False, False, d1));
              if gone2 then Some d2
              else if did \<or> did2 then proceed_loop w want_read pending xs d2
              else proceed_end w want_read pending d2 } } }"

definition cttp_ws_proceed :: "nat \<Rightarrow> bool \<Rightarrow> bool \<Rightarrow> round list \<Rightarrow> cttp \<Rightarrow> cttp option" where
  "cttp_ws_proceed w want_read pending rounds d =
     do { s \<leftarrow> wss d w; if \<not> sok_u s then Some d else proceed_loop w want_read pending rounds d }"

definition cttp_ws_read_cb :: "nat \<Rightarrow> bool \<Rightarrow> bool \<Rightarrow> bool \<Rightarrow> round list \<Rightarrow> cttp \<Rightarrow> cttp option" where
  "cttp_ws_read_cb w err want_read pending rounds d =
     (if err then cttp_ws_close w True d else cttp_ws_proceed w want_read pending rounds d)"

definition cttp_ws_write_cb :: "nat \<Rightarrow> bool \<Rightarrow> bool \<Rightarrow> bool \<Rightarrow> round list \<Rightarrow> cttp \<Rightarrow> cttp option" where
  "cttp_ws_write_cb w err want_read pending rounds d =
     do { d1 \<leftarrow> upd_cws w (\<lambda>s. s\<lparr>out_y := False\<rparr>) d;
          if err then cttp_ws_close w True d1 else cttp_ws_proceed w want_read pending rounds d1 }"

definition cttp_ws_queue_close :: "nat \<Rightarrow> bool \<Rightarrow> bool \<Rightarrow> round list \<Rightarrow> cttp \<Rightarrow> cttp option" where
  "cttp_ws_queue_close w want_read pending rounds d =
     do { s \<leftarrow> wss d w;
          if sat_e s \<noteq> cws_open \<or> \<not> wsl_w s then cttp_ws_close w True d
          else if sat_e s = cws_closing then Some d
          else do {
            d1 \<leftarrow> upd_cws w (\<lambda>s. s\<lparr>sat_e := cws_closing\<rparr>) d;
            cttp_ws_proceed w want_read pending rounds (cask (wslay_queue_close w) d1) } }"

text \<open>
  The body of a message: none, one whose head is not null, or octets with their length. (On other nouns the
  runtime bails out before the driver has changed anything.)
\<close>

datatype cws_body = cbody_nul | cbody_bad | cbody_octs u64 "u8 list"

definition cttp_ws_send_message :: "nat \<Rightarrow> u32 option \<Rightarrow> cws_body \<Rightarrow> int \<Rightarrow> bool \<Rightarrow> bool \<Rightarrow> round list \<Rightarrow> cttp \<Rightarrow> (bool \<times> cttp) option" where
  "cttp_ws_send_message w opcode body sas want_read pending rounds d =
     do { s \<leftarrow> wss d w;
          if sat_e s \<noteq> cws_open \<or> \<not> wsl_w s then Some (False, d)
          else case opcode of
            None \<Rightarrow> Some (False, d)
          | Some opc \<Rightarrow>
              (case body of
                 cbody_bad \<Rightarrow> Some (False, d)
               | _ \<Rightarrow>
                 let buf = (case body of cbody_octs len octs \<Rightarrow> take (unat len) (octs @ replicate (unat len) 0) | _ \<Rightarrow> []);
                     d1 = cask (wslay_queue_msg w (ucast (opc AND 0xFF)) buf) d
                 in if sas \<noteq> 0 then Some (False, d1)
                    else do { d2 \<leftarrow> cttp_ws_proceed w want_read pending rounds d1; Some (True, d2) }) }"

section \<open>Requests\<close>

definition cttp_http_client_receive :: "nat \<Rightarrow> nat \<Rightarrow> cttp \<Rightarrow> cttp option" where
  "cttp_http_client_receive r sas d = do { q \<leftarrow> rqs d r; Some (ctell (ctp_receive (num_l q) sas) d) }"

definition cttp_creq_quit :: "nat \<Rightarrow> cttp \<Rightarrow> cttp option" where
  "cttp_creq_quit r d =
     do { q \<leftarrow> rqs d r;
          if wsu_u q \<noteq> 0 then do { d1 \<leftarrow> cttp_ws_fail_handshake r d; cttp_creq_free r d1 }
          else if csat_e q = csat_addr then upd_creq r (\<lambda>q. q\<lparr>csat_e := csat_quit\<rparr>) d
          else cttp_creq_free r (if cli_u q \<noteq> 0 then cask (client_cancel (cli_u q)) d else d) }"

definition cttp_creq_fail :: "nat \<Rightarrow> cttp \<Rightarrow> cttp option" where
  "cttp_creq_fail r d =
     do { q \<leftarrow> rqs d r;
          if wsu_u q \<noteq> 0 then do { d1 \<leftarrow> cttp_ws_fail_handshake r d; cttp_creq_free r d1 }
          else do { d1 \<leftarrow> cttp_http_client_receive r 504 d; cttp_creq_free r d1 } }"

definition cttp_creq_on_connect :: "nat \<Rightarrow> bool \<Rightarrow> cttp \<Rightarrow> cttp option" where
  "cttp_creq_on_connect r err d =
     do { q \<leftarrow> rqs d r;
          if err then
            (if csat_e q = csat_conn then upd_creq r (\<lambda>q. q\<lparr>csat_e := csat_quit\<rparr>) d
             else if csat_e q = csat_ripe then cttp_creq_fail r d
             else None)
          else Some (cask (send_request r) d) }"

text \<open>
  libh2o makes a client for the request, or fails and calls back at once; then the state says so.
\<close>

definition cttp_creq_connect :: "nat \<Rightarrow> nat \<Rightarrow> bool \<Rightarrow> cttp \<Rightarrow> cttp option" where
  "cttp_creq_connect r cli fails d =
     do { q \<leftarrow> rqs d r;
          if csat_e q \<noteq> csat_conn \<or> \<not> ipf_c q then None
          else do {
            d1 \<leftarrow> upd_creq r (\<lambda>q. q\<lparr>cli_u := cli\<rparr>) d;
            d2 \<leftarrow> (if fails then cttp_creq_on_connect r True d1 else Some d1);
            q2 \<leftarrow> rqs d2 r;
            if csat_e q2 \<noteq> csat_conn then
              (if csat_e q2 = csat_quit then cttp_creq_fail r d2 else None)
            else upd_creq r (\<lambda>q. q\<lparr>csat_e := csat_ripe\<rparr>) d2 } }"

definition cttp_creq_resolve :: "nat \<Rightarrow> bool \<Rightarrow> cttp \<Rightarrow> cttp option" where
  "cttp_creq_resolve r fails d =
     do { q \<leftarrow> rqs d r;
          if csat_e q \<noteq> csat_addr then None
          else if fails then cttp_creq_fail r d
          else Some (d\<lparr>addrs := addrs d @ [r]\<rparr>) }"

definition cttp_creq_start :: "nat \<Rightarrow> nat \<Rightarrow> bool \<Rightarrow> cttp \<Rightarrow> cttp option" where
  "cttp_creq_start r cli fails d =
     do { q \<leftarrow> rqs d r;
          if ipf_c q then do { d1 \<leftarrow> upd_creq r (\<lambda>q. q\<lparr>csat_e := csat_conn\<rparr>) d; cttp_creq_connect r cli fails d1 }
          else do { d1 \<leftarrow> upd_creq r (\<lambda>q. q\<lparr>csat_e := csat_addr\<rparr>) d; cttp_creq_resolve r fails d1 } }"

text \<open>An address, or an error, comes back for a request that was looked up.\<close>

definition cttp_creq_resolve_cb :: "nat \<Rightarrow> bool \<Rightarrow> nat \<Rightarrow> bool \<Rightarrow> cttp \<Rightarrow> cttp option" where
  "cttp_creq_resolve_cb r err cli fails d =
     do { q \<leftarrow> rqs d r;
          if csat_e q = csat_quit then cttp_creq_quit r d
          else if err then cttp_creq_fail r d
          else do {
            d1 \<leftarrow> upd_creq r (\<lambda>q. q\<lparr>ipf_c := True, csat_e := csat_conn\<rparr>) d;
            cttp_creq_connect r cli fails d1 } }"

text \<open>
  The head of the response to a handshake (that of an ordinary request is not modelled): it is checked, the
  socket is taken over, if libh2o gives it, what came with the head is dropped, and the session begins.
  \<open>exp\<close> is the buffer on the stack, and \<open>steals\<close> is whether there is a socket, and has input.
\<close>

definition cttp_creq_on_head ::
  "(u8 list \<Rightarrow> u8 list) \<Rightarrow> nat \<Rightarrow> bool \<Rightarrow> int \<Rightarrow> (u8 list \<times> u8 list) list \<Rightarrow> u8 list \<Rightarrow> bool option \<Rightarrow> bool \<Rightarrow> bool \<Rightarrow>
   round list \<Rightarrow> cttp \<Rightarrow> cttp option" where
  "cttp_creq_on_head sha r err sas hed exp steals want_read pending rounds d =
     do { q \<leftarrow> rqs d r;
          s \<leftarrow> wss d (wsu_u q);
          let w = wsu_u q;
          refused \<leftarrow> ws_check sha (key_c s) err sas hed exp;
          if refused \<noteq> None \<or> steals = None then do { d1 \<leftarrow> cttp_ws_fail_handshake r d; cttp_creq_free r d1 }
          else do {
            d1 \<leftarrow> upd_creq r (\<lambda>q. q\<lparr>wsu_u := 0, cli_u := 0\<rparr>) d;
            d2 \<leftarrow> upd_cws w (\<lambda>s. s\<lparr>ceq_u := 0\<rparr>) d1;
            d3 \<leftarrow> cttp_creq_free r (if steals = Some True then cask (input_drop w) d2 else d2);
            d4 \<leftarrow> upd_cws w (\<lambda>s. s\<lparr>wsl_w := True, sok_u := True, sat_e := cws_open\<rparr>) d3;
            d5 \<leftarrow> cttp_ws_plan_event w cws_accept d4;
            cttp_ws_proceed w want_read pending rounds d5 } }"

text \<open>A new session and its request.\<close>

definition cttp_ws_start :: "u32 \<Rightarrow> u32 list \<Rightarrow> bool option \<Rightarrow> nat \<Rightarrow> bool \<Rightarrow> cttp \<Rightarrow> cttp option" where
  "cttp_ws_start wid rad pul cli fails d =
     do { key \<leftarrow> cttp_ws_generate_key rad;
          let w = brk d;
          d1 \<leftarrow> cttp_ws_link w (d\<lparr>brk := Suc w, wss := (wss d)(w \<mapsto>
                 \<lparr>wid_l = wid, sat_e = cws_pending, key_c = key, ceq_u = 0, sok_u = False, wsl_w = False,
                  out_y = False, wsl_on = False, clo_ev = False, clo_on = False\<rparr>)\<rparr>);
          (r, d2) \<leftarrow> cttp_creq_new wid pul d1;
          if r = 0 then do { d3 \<leftarrow> cttp_ws_plan_event w cws_reject d2; cttp_ws_close w False d3 }
          else do {
            d3 \<leftarrow> upd_creq r (\<lambda>q. q\<lparr>wsu_u := w\<rparr>) d2;
            d4 \<leftarrow> upd_cws w (\<lambda>s. s\<lparr>ceq_u := r\<rparr>) d3;
            cttp_creq_start r cli fails d4 } }"

section \<open>Effects and exit\<close>

text \<open>The effects of Iris. A number that is not a word is \<open>None\<close>.\<close>

datatype cttp_ef =
    ef_request "u32 option"
  | ef_cancel "u32 option"
  | ef_handshake "u32 option"
  | ef_message "u32 option" "u32 option" cws_body
  | ef_disconnect "u32 option"
  | ef_accept "u32 option"
  | ef_strange "u32 option"
  | ef_other

definition cttp_ef_http_client ::
  "cttp_ef \<Rightarrow> bool option \<Rightarrow> nat \<Rightarrow> bool \<Rightarrow> u32 list \<Rightarrow> int \<Rightarrow> bool \<Rightarrow> bool \<Rightarrow> round list \<Rightarrow> cttp \<Rightarrow> (bool \<times> cttp) option" where
  "cttp_ef_http_client ef pul cli fails rad sas want_read pending rounds d =
     (case ef of
        ef_request (Some num) \<Rightarrow> do {
          (r, d1) \<leftarrow> cttp_creq_new num pul d;
          if r \<noteq> 0 then do { d2 \<leftarrow> cttp_creq_start r cli fails d1; Some (True, d2) } else Some (False, d1) }
      | ef_cancel (Some num) \<Rightarrow> do {
          r \<leftarrow> cttp_creq_find d num;
          if r \<noteq> 0 then do { d1 \<leftarrow> cttp_creq_quit r d; Some (True, d1) } else Some (True, d) }
      | ef_handshake (Some wid) \<Rightarrow> do { d1 \<leftarrow> cttp_ws_start wid rad pul cli fails d; Some (True, d1) }
      | ef_message (Some wid) opcode body \<Rightarrow> do {
          w \<leftarrow> cttp_ws_find d wid;
          if w = 0 then Some (False, d) else cttp_ws_send_message w opcode body sas want_read pending rounds d }
      | ef_disconnect (Some wid) \<Rightarrow> do {
          w \<leftarrow> cttp_ws_find d wid;
          if w = 0 then Some (True, d)
          else do { d1 \<leftarrow> cttp_ws_queue_close w want_read pending rounds d; Some (True, d1) } }
      | ef_accept (Some wid) \<Rightarrow> do { w \<leftarrow> cttp_ws_find d wid; Some (True, d) }
      | ef_strange (Some wid) \<Rightarrow> do { w \<leftarrow> cttp_ws_find d wid; Some (w = 0, d) }
      | _ \<Rightarrow> Some (False, d))"

partial_function (option) exit_ws_loop :: "nat \<Rightarrow> cttp \<Rightarrow> cttp option" where
  "exit_ws_loop x d =
     (if x = 0 then Some d
      else do { (n, p) \<leftarrow> ws_l d x; d1 \<leftarrow> cttp_ws_close x False d; exit_ws_loop n d1 })"

partial_function (option) exit_creq_loop :: "nat \<Rightarrow> cttp \<Rightarrow> cttp option" where
  "exit_creq_loop x d =
     (if x = 0 then Some d
      else do { d1 \<leftarrow> cttp_creq_quit x d; (n, p) \<leftarrow> rq_l d1 x; exit_creq_loop n d1 })"

definition cttp_io_exit :: "cttp \<Rightarrow> cttp option" where
  "cttp_io_exit d = do { d1 \<leftarrow> exit_ws_loop (ws_a d) d; exit_creq_loop (rq_a d1) d1 }"

definition new_cttp :: cttp where
  "new_cttp = \<lparr>ws_l = Map.empty, ws_a = 0, wss = Map.empty, rq_l = Map.empty, rq_a = 0, rqs = Map.empty, brk = 1,
     addrs = [], ova = [], calls = []\<rparr>"

end
