(* ===== verification/CttpWsInv.thy ===== *)
theory CttpWsInv
  imports CttpWs
begin

text \<open>
  The state of the http client: its lists, the pointers between a session and its request, what is told of the
  ends of sessions; and that requests, answered or not, keep all of it.
\<close>

section \<open>Lists\<close>

lemma link_in_spec:
  assumes L: "dlist L 0 a xs" "set xs = dom L" and x: "x \<noteq> 0" "L x = None"
  shows "\<exists>L'. link_in x L a = Some (L', x) \<and> dlist L' 0 x (x # xs) \<and> dom L' = insert x (dom L)"
proof -
  have nx: "x \<notin> set xs" using x(2) L(2) by auto
  note push = dlist_push [OF L(1) x(1) nx]
  show ?thesis
  proof (cases "a = 0")
    case True
    then show ?thesis using push by (simp add: link_in_def)
  next
    case False
    then obtain ys where xs: "xs = a # ys" using L(1) by (cases xs) auto
    then obtain n where n: "L a = Some (n, 0)" using L(1) by auto
    have "a \<noteq> x" using xs nx by auto
    then have "link_in x L a = Some (set_prev a x (L(x \<mapsto> (a, 0))), x)"
      using False n by (simp add: link_in_def set_prev_def)
    moreover have "dom (set_prev a x (L(x \<mapsto> (a, 0)))) = insert x (dom L)"
      using n \<open>a \<noteq> x\<close> by (auto simp: set_prev_def)
    ultimately show ?thesis using push False by simp
  qed
qed

lemma link_out_spec:
  assumes L: "dlist L 0 a xs" "set xs = dom L" and x: "x \<in> set xs"
  shows "\<exists>L' a'. link_out g x L a = Some (L', a') \<and> dlist (L'(x := None)) 0 a' (remove1 x xs) \<and> dom L' = dom L"
proof -
  have dist: "distinct xs" using L(1) by (rule dlist_distinct)
  obtain as bs where xs: "xs = as @ x # bs" using x by (auto simp: in_set_conv_decomp)
  let ?n = "if bs = [] then 0 else hd bs" and ?p = "if as = [] then 0 else last as"
  have Lx: "L x = Some (?n, ?p)" by (rule dlist_neighbours [OF L(1) [unfolded xs]])
  have nz: "0 \<notin> set xs" using dlist_member [OF L(1), of 0] by auto
  have byp: "dlist (bypass ?n ?p L) 0 (if as = [] then ?n else a) (as @ bs)"
    by (rule dlist_bypass [OF L(1) [unfolded xs] Lx]) (use nz dist xs in auto)
  have dis: "x \<notin> set as" "x \<notin> set bs" "set as \<inter> set bs = {}" using dist xs by auto
  have rm: "remove1 x xs = as @ bs" using dis xs by (simp add: remove1_append)
  have pin: "last as \<in> set xs \<and> last as \<noteq> 0" if "as \<noteq> []"
  proof -
    have "last as \<in> set xs" using that xs by simp
    then show ?thesis using nz by metis
  qed
  have nin: "hd bs \<in> set xs \<and> hd bs \<noteq> 0" if "bs \<noteq> []"
  proof -
    have "hd bs \<in> set xs" using that xs by (cases bs) simp_all
    then show ?thesis using nz by metis
  qed
  have np: "hd bs \<noteq> last as" if "as \<noteq> []" "bs \<noteq> []" using that dis(3) by (cases bs) auto
  have "link_out g x L a = Some (bypass ?n ?p L, if as = [] then ?n else a) \<and> dom (bypass ?n ?p L) = dom L"
  proof (cases "as = []")
    case True
    then have a: "a = x" using L(1) xs by simp
    show ?thesis
    proof (cases "bs = []")
      case True
      then show ?thesis using \<open>as = []\<close> Lx a by (simp add: link_out_def bypass_def)
    next
      case False
      obtain m k where "L (hd bs) = Some (m, k)" using nin [OF False] L(2) by (auto simp: dom_def)
      then show ?thesis using \<open>as = []\<close> False nin [OF False] Lx a
        by (auto simp: link_out_def bypass_def set_prev_def Let_def)
    qed
  next
    case False
    obtain m k where p: "L (last as) = Some (m, k)" using pin [OF False] L(2) by (auto simp: dom_def)
    show ?thesis
    proof (cases "bs = []")
      case True
      then show ?thesis using False pin [OF False] Lx p by (auto simp: link_out_def bypass_def set_next_def)
    next
      case nb: False
      obtain m' k' where "L (hd bs) = Some (m', k')" using nin [OF nb] L(2) by (auto simp: dom_def)
      then show ?thesis using False nb pin [OF False] nin [OF nb] np [OF False nb] Lx p
        by (auto simp: link_out_def bypass_def set_next_def set_prev_def Let_def)
    qed
  qed
  moreover have "dlist ((bypass ?n ?p L)(x := None)) 0 b (as @ bs) = dlist (bypass ?n ?p L) 0 b (as @ bs)" for b
    by (rule dlist_cong) (use dis in auto)
  ultimately show ?thesis using byp rm by auto
qed

section \<open>The invariant\<close>

text \<open>Each list holds the objects of its store.\<close>

definition ctp_lists :: "cttp \<Rightarrow> bool" where
  "ctp_lists d \<longleftrightarrow> 0 < brk d \<and>
     (\<exists>xs. dlist (ws_l d) 0 (ws_a d) xs \<and> set xs = dom (ws_l d)) \<and> dom (ws_l d) = dom (wss d) \<and>
     (\<exists>xs. dlist (rq_l d) 0 (rq_a d) xs \<and> set xs = dom (rq_l d)) \<and> dom (rq_l d) = dom (rqs d) \<and>
     (\<forall>x \<in> dom (wss d) \<union> dom (rqs d). x < brk d)"

text \<open>A session is waiting for its own request, or has its socket and wslay.\<close>

definition cws_ok :: "(nat \<rightharpoonup> creq) \<Rightarrow> nat \<Rightarrow> cws \<Rightarrow> bool" where
  "cws_ok Q w s \<longleftrightarrow> \<not> wsl_on s \<and> \<not> clo_on s \<and> \<not> clo_ev s \<and> length (key_c s) = 29 \<and>
     (if ceq_u s \<noteq> 0 then sat_e s = cws_pending \<and> \<not> sok_u s \<and> \<not> wsl_w s \<and> (\<exists>q. Q (ceq_u s) = Some q \<and> wsu_u q = w)
      else (sat_e s = cws_open \<or> sat_e s = cws_closing) \<and> sok_u s \<and> wsl_w s)"

definition ctp_ptrs :: "(nat \<rightharpoonup> cws) \<Rightarrow> (nat \<rightharpoonup> creq) \<Rightarrow> bool" where
  "ctp_ptrs H Q \<longleftrightarrow> (\<forall>w s. H w = Some s \<longrightarrow> cws_ok Q w s) \<and>
     (\<forall>r q. Q r = Some q \<longrightarrow> wsu_u q \<noteq> 0 \<longrightarrow> (\<exists>s. H (wsu_u q) = Some s \<and> ceq_u s = r))"

definition ctp_inv :: "cttp \<Rightarrow> bool" where
  "ctp_inv d \<longleftrightarrow> ctp_lists d \<and> ctp_ptrs (wss d) (rqs d)"

lemma ctp_invD: "ctp_inv d \<Longrightarrow> ctp_lists d" "ctp_inv d \<Longrightarrow> ctp_ptrs (wss d) (rqs d)"
  by (simp_all add: ctp_inv_def)

lemma ctp_ptrsD:
  "ctp_ptrs H Q \<Longrightarrow> H w = Some s \<Longrightarrow> cws_ok Q w s"
  "ctp_ptrs H Q \<Longrightarrow> Q r = Some q \<Longrightarrow> wsu_u q \<noteq> 0 \<Longrightarrow> \<exists>s. H (wsu_u q) = Some s \<and> ceq_u s = r"
  by (auto simp: ctp_ptrs_def)

lemma ctp_nonnull:
  assumes "ctp_lists d"
  shows "wss d w = Some s \<Longrightarrow> w \<noteq> 0" "rqs d r = Some q \<Longrightarrow> r \<noteq> 0" "wss d (brk d) = None" "rqs d (brk d) = None"
proof -
  obtain xs ys where "dlist (ws_l d) 0 (ws_a d) xs" "set xs = dom (wss d)" "dlist (rq_l d) 0 (rq_a d) ys" "set ys = dom (rqs d)"
    using assms unfolding ctp_lists_def by metis
  then show "wss d w = Some s \<Longrightarrow> w \<noteq> 0" "rqs d r = Some q \<Longrightarrow> r \<noteq> 0" using dlist_member by blast+
  show "wss d (brk d) = None" "rqs d (brk d) = None" using assms unfolding ctp_lists_def by fastforce+
qed

lemma ctp_lists_log [simp]: "ctp_lists (ctell e d) = ctp_lists d" "ctp_lists (cask c d) = ctp_lists d"
  by (simp_all add: ctp_lists_def ctell_def cask_def)

lemma ctp_inv_log [simp]: "ctp_inv (ctell e d) = ctp_inv d" "ctp_inv (cask c d) = ctp_inv d"
  by (simp_all add: ctp_inv_def) (simp_all add: ctell_def cask_def)

lemma clog_simps [simp]:
  "wss (ctell e d) = wss d" "wss (cask c d) = wss d" "rqs (ctell e d) = rqs d" "rqs (cask c d) = rqs d"
  "ws_l (ctell e d) = ws_l d" "ws_l (cask c d) = ws_l d" "ws_a (ctell e d) = ws_a d" "ws_a (cask c d) = ws_a d"
  "rq_l (ctell e d) = rq_l d" "rq_l (cask c d) = rq_l d" "rq_a (ctell e d) = rq_a d" "rq_a (cask c d) = rq_a d"
  "brk (ctell e d) = brk d" "brk (cask c d) = brk d" "addrs (ctell e d) = addrs d" "addrs (cask c d) = addrs d"
  "ova (cask c d) = ova d" "calls (ctell e d) = calls d" "ova (ctell e d) = ova d @ [e]" "calls (cask c d) = calls d @ [c]"
  by (simp_all add: ctell_def cask_def)

lemma ctp_lists_upd:
  "ctp_lists d \<Longrightarrow> wss d w = Some s \<Longrightarrow> ctp_lists (d\<lparr>wss := (wss d)(w \<mapsto> s')\<rparr>)"
  "ctp_lists d \<Longrightarrow> rqs d r = Some q \<Longrightarrow> ctp_lists (d\<lparr>rqs := (rqs d)(r \<mapsto> q')\<rparr>)"
  by (auto simp: ctp_lists_def insert_absorb)

text \<open>What does not change: everything but the stores, the lists, and what is told and asked.\<close>

definition ctp_same :: "cttp \<Rightarrow> cttp \<Rightarrow> bool" where
  "ctp_same d d' \<longleftrightarrow> brk d' = brk d \<and> addrs d' = addrs d"

lemma creq_free_spec:
  assumes lists: "ctp_lists d" and r: "rqs d r = Some q"
  shows "\<exists>d'. cttp_creq_free r d = Some d' \<and> ctp_lists d' \<and> wss d' = wss d \<and> rqs d' = (rqs d)(r := None) \<and>
    ws_l d' = ws_l d \<and> ws_a d' = ws_a d \<and> ova d' = ova d \<and> calls d' = calls d \<and> ctp_same d d'"
proof -
  obtain xs where xs: "dlist (rq_l d) 0 (rq_a d) xs" "set xs = dom (rq_l d)" and dom: "dom (rq_l d) = dom (rqs d)"
    using lists unfolding ctp_lists_def by blast
  then have x: "r \<in> set xs" using r by auto
  obtain L a where L: "link_out False r (rq_l d) (rq_a d) = Some (L, a)" "dlist (L(r := None)) 0 a (remove1 r xs)" "dom L = dom (rq_l d)"
    using link_out_spec [OF xs x] by blast
  let ?d = "d\<lparr>rqs := (rqs d)(r := None), rq_l := L(r := None), rq_a := a\<rparr>"
  have "cttp_creq_free r d = Some ?d"
    using r L(1) by (simp add: cttp_creq_free_def upd_creq_def cttp_creq_unlink_def)
  moreover have "ctp_lists ?d"
  proof -
    have "set (remove1 r xs) = dom (L(r := None))" using xs(2) L(3) dlist_distinct [OF xs(1)] by auto
    then show ?thesis using lists L(2,3) dom unfolding ctp_lists_def by auto
  qed
  ultimately show ?thesis by (simp add: ctp_same_def)
qed

definition ws_shorter :: "nat \<Rightarrow> cttp \<Rightarrow> cttp \<Rightarrow> bool" where
  "ws_shorter w d d' \<longleftrightarrow> (\<forall>xs. dlist (ws_l d) 0 (ws_a d) xs \<longrightarrow> set xs = dom (wss d) \<longrightarrow> dlist (ws_l d') 0 (ws_a d') (remove1 w xs))"

lemma ws_take_out:
  assumes lists: "ctp_lists d" and w: "wss d w = Some s"
  shows "\<exists>d'. cttp_ws_unlink w d = Some d' \<and> ctp_lists (free_cws w d') \<and> wss (free_cws w d') = (wss d)(w := None) \<and>
    rqs (free_cws w d') = rqs d \<and> ova (free_cws w d') = ova d \<and> calls (free_cws w d') = calls d \<and> ctp_same d (free_cws w d') \<and>
    ws_shorter w d (free_cws w d')"
proof -
  obtain xs where xs: "dlist (ws_l d) 0 (ws_a d) xs" "set xs = dom (ws_l d)" and dom: "dom (ws_l d) = dom (wss d)"
    using lists unfolding ctp_lists_def by blast
  then have x: "w \<in> set xs" using w by auto
  obtain L a where L: "link_out True w (ws_l d) (ws_a d) = Some (L, a)" "dlist (L(w := None)) 0 a (remove1 w xs)" "dom L = dom (ws_l d)"
    using link_out_spec [OF xs x] by blast
  have "set (remove1 w xs) = dom (L(w := None))" using xs(2) L(3) dlist_distinct [OF xs(1)] by auto
  then have "ctp_lists (free_cws w (d\<lparr>ws_l := L, ws_a := a\<rparr>))"
    using lists L(2,3) dom unfolding ctp_lists_def free_cws_def by auto
  moreover have "dlist (L(w := None)) 0 a (remove1 w ys)" if ys: "dlist (ws_l d) 0 (ws_a d) ys" "set ys = dom (wss d)" for ys
    using link_out_spec [OF ys(1), of w True] ys(2) dom x xs(2) L(1) by auto
  ultimately show ?thesis using L(1) by (simp add: cttp_ws_unlink_def free_cws_def ctp_same_def ws_shorter_def)
qed

section \<open>Closing a session\<close>

lemma ctp_lists_cong:
  assumes "ctp_lists d" and eqs: "wss d' = wss d" "rqs d' = rqs d" "ws_l d' = ws_l d" "ws_a d' = ws_a d" "rq_l d' = rq_l d"
    "rq_a d' = rq_a d" "brk d' = brk d"
  shows "ctp_lists d'"
  using assms(1) unfolding ctp_lists_def eqs .

definition owns :: "nat \<Rightarrow> cws \<Rightarrow> cttp \<Rightarrow> bool" where
  "owns w s d \<longleftrightarrow> ceq_u s \<noteq> 0 \<and> (\<exists>q. rqs d (ceq_u s) = Some q \<and> wsu_u q = w)"

lemma owns_none [simp]: "ceq_u s = 0 \<Longrightarrow> \<not> owns w s d"
  by (simp add: owns_def)

definition close_calls :: "nat \<Rightarrow> cws \<Rightarrow> cttp \<Rightarrow> ctp_call list" where
  "close_calls w s d =
     (if owns w s d \<and> cli_u (the (rqs d (ceq_u s))) \<noteq> 0 then [client_cancel (cli_u (the (rqs d (ceq_u s))))] else []) @
     (if sat_e s \<noteq> cws_closed then (if wsl_w s then [wslay_free w] else []) @ (if sok_u s then [socket_close w] else []) else [])"

text \<open>
  The request of a session goes with it, unless the session has been taken from it before; one
  disconnection is told when it is to be told.
\<close>

definition cws_gone :: "nat \<Rightarrow> cws \<Rightarrow> bool \<Rightarrow> cttp \<Rightarrow> cttp \<Rightarrow> bool" where
  "cws_gone w s send d d' \<longleftrightarrow> ctp_lists d' \<and> wss d' = (wss d)(w := None) \<and>
     rqs d' = (if owns w s d then (rqs d)(ceq_u s := None) else rqs d) \<and> calls d' = calls d @ close_calls w s d \<and>
     ova d' = ova d @ (if send then [ctp_ws (wid_l s) cws_disconnect] else []) \<and> ctp_same d d' \<and> ws_shorter w d d'"

lemma close_spec:
  assumes lists: "ctp_lists d" and w: "wss d w = Some s" "\<not> wsl_on s" and c: "ceq_u s \<noteq> 0 \<Longrightarrow> rqs d (ceq_u s) \<noteq> None"
  shows "\<exists>d'. cttp_ws_close w send d = Some d' \<and> cws_gone w s send d d'"
proof -
  note w0 = ctp_nonnull(1) [OF lists w(1)]
  let ?own = "owns w s d" let ?cc = "if ?own \<and> cli_u (the (rqs d (ceq_u s))) \<noteq> 0 then [client_cancel (cli_u (the (rqs d (ceq_u s))))] else []"
  let ?sc = "if sat_e s \<noteq> cws_closed then (if wsl_w s then [wslay_free w] else []) @ (if sok_u s then [socket_close w] else []) else []"
  define step1 where "step1 = (if ceq_u s \<noteq> 0 then do {
                   da \<leftarrow> upd_cws w (\<lambda>s. s\<lparr>ceq_u := 0\<rparr>) d;
                   q \<leftarrow> rqs da (ceq_u s);
                   if wsu_u q = w then do {
                     db \<leftarrow> upd_creq (ceq_u s) (\<lambda>q. q\<lparr>wsu_u := 0\<rparr>) da;
                     cttp_creq_free (ceq_u s) (if cli_u q \<noteq> 0 then cask (client_cancel (cli_u q)) db else db) }
                   else Some da }
                 else Some d)"
  have "\<exists>d1 t. step1 = Some d1 \<and> ctp_lists d1 \<and> wss d1 = (wss d)(w \<mapsto> t) \<and> wid_l t = wid_l s \<and> out_y t = out_y s \<and>
      rqs d1 = (if ?own then (rqs d)(ceq_u s := None) else rqs d) \<and> ova d1 = ova d \<and> ctp_same d d1 \<and> ws_l d1 = ws_l d \<and> ws_a d1 = ws_a d \<and>
      calls d1 = calls d @ ?cc"
  proof (cases "ceq_u s = 0")
    case True
    then show ?thesis using lists w(1) by (intro exI [of _ d] exI [of _ s]) (auto simp: step1_def ctp_same_def map_upd_triv owns_def)
  next
    case False
    let ?t = "s\<lparr>ceq_u := 0\<rparr>" let ?da = "d\<lparr>wss := (wss d)(w \<mapsto> s\<lparr>ceq_u := 0\<rparr>)\<rparr>"
    obtain q where q: "rqs d (ceq_u s) = Some q" using c False by auto
    have la: "ctp_lists ?da" by (rule ctp_lists_upd(1) [OF lists w(1)])
    show ?thesis
    proof (cases "wsu_u q = w")
      case own: False
      then show ?thesis using False q w(1) la by (intro exI [of _ ?da] exI [of _ ?t]) (simp add: step1_def upd_cws_def ctp_same_def owns_def)
    next
      case own: True
      let ?db = "?da\<lparr>rqs := (rqs d)(ceq_u s \<mapsto> q\<lparr>wsu_u := 0\<rparr>)\<rparr>"
      let ?dc = "if cli_u q \<noteq> 0 then cask (client_cancel (cli_u q)) ?db else ?db"
      have "ctp_lists ?db" using ctp_lists_upd(2) [OF la, of "ceq_u s" q] q by simp
      then have "ctp_lists ?dc" by simp
      moreover have "rqs ?dc (ceq_u s) = Some (q\<lparr>wsu_u := 0\<rparr>)" by simp
      ultimately obtain d1 where d1: "cttp_creq_free (ceq_u s) ?dc = Some d1" "ctp_lists d1" "wss d1 = wss ?dc"
          "rqs d1 = (rqs ?dc)(ceq_u s := None)" "ova d1 = ova ?dc" "ctp_same ?dc d1" "ws_l d1 = ws_l ?dc" "ws_a d1 = ws_a ?dc"
          "calls d1 = calls ?dc"
        using creq_free_spec by blast
      have "step1 = Some d1" using False q w(1) own d1(1) by (simp add: step1_def upd_cws_def upd_creq_def)
      then show ?thesis using d1 own q False by (intro exI [of _ d1] exI [of _ ?t]) (simp add: ctp_same_def owns_def)
    qed
  qed
  then obtain d1 t where d1: "step1 = Some d1" "ctp_lists d1" "wss d1 = (wss d)(w \<mapsto> t)" "wid_l t = wid_l s" "out_y t = out_y s"
      "rqs d1 = (if ?own then (rqs d)(ceq_u s := None) else rqs d)" "ova d1 = ova d" "ctp_same d d1" "ws_l d1 = ws_l d" "ws_a d1 = ws_a d"
      "calls d1 = calls d @ ?cc" by blast
  define step2 where "step2 = (if sat_e s \<noteq> cws_closed then do {
                   da \<leftarrow> upd_cws w (\<lambda>s. s\<lparr>sat_e := cws_closed\<rparr>) d1;
                   db \<leftarrow> (if send then cttp_ws_plan_event w cws_disconnect da else Some da);
                   dc \<leftarrow> (if wsl_w s then upd_cws w (\<lambda>s. s\<lparr>wsl_w := False\<rparr>) (cask (wslay_free w) db) else Some db);
                   if sok_u s then upd_cws w (\<lambda>s. s\<lparr>sok_u := False\<rparr>) (cask (socket_close w) dc) else Some dc }
                 else if send then cttp_ws_plan_event w cws_disconnect d1
                 else Some d1)"
  have "\<exists>d2 u. step2 = Some d2 \<and> ctp_lists d2 \<and> wss d2 = (wss d)(w \<mapsto> u) \<and> rqs d2 = rqs d1 \<and>
      ova d2 = ova d1 @ (if send then [ctp_ws (wid_l s) cws_disconnect] else []) \<and> ctp_same d1 d2 \<and> ws_l d2 = ws_l d1 \<and> ws_a d2 = ws_a d1 \<and>
      calls d2 = calls d1 @ ?sc"
  proof (cases "sat_e s = cws_closed")
    case True
    then show ?thesis using d1(2-4)
      by (intro exI [of _ "if send then ctell (ctp_ws (wid_l s) cws_disconnect) d1 else d1"] exI [of _ t])
        (simp add: step2_def cttp_ws_plan_event_def ctp_same_def)
  next
    case False
    let ?c1 = "if wsl_w s then [wslay_free w] else []" and ?c2 = "if sok_u s then [socket_close w] else []"
    let ?u0 = "t\<lparr>sat_e := cws_closed\<rparr>" let ?u1 = "if wsl_w s then ?u0\<lparr>wsl_w := False\<rparr> else ?u0"
    let ?u = "if sok_u s then ?u1\<lparr>sok_u := False\<rparr> else ?u1"
    let ?d2 = "d1\<lparr>wss := (wss d)(w \<mapsto> ?u), ova := ova d1 @ (if send then [ctp_ws (wid_l s) cws_disconnect] else []), calls := calls d1 @ ?c1 @ ?c2\<rparr>"
    have "step2 = Some ?d2" using False d1(3,4)
      by (cases send; cases "wsl_w s"; cases "sok_u s") (simp_all add: step2_def upd_cws_def cttp_ws_plan_event_def ctell_def cask_def)
    moreover have "ctp_lists ?d2"
    proof -
      have "ctp_lists (d1\<lparr>wss := (wss d1)(w \<mapsto> ?u)\<rparr>)" by (rule ctp_lists_upd(1) [OF d1(2), of w t]) (simp add: d1(3))
      then show ?thesis by (rule ctp_lists_cong) (simp_all add: d1(3))
    qed
    ultimately show ?thesis using False by (intro exI [of _ ?d2] exI [of _ ?u]) (simp add: ctp_same_def)
  qed
  then obtain d2 u where d2: "step2 = Some d2" "ctp_lists d2" "wss d2 = (wss d)(w \<mapsto> u)" "rqs d2 = rqs d1"
      "ova d2 = ova d1 @ (if send then [ctp_ws (wid_l s) cws_disconnect] else [])" "ctp_same d1 d2" "ws_l d2 = ws_l d1" "ws_a d2 = ws_a d1"
      "calls d2 = calls d1 @ ?sc" by blast
  define d3 where "d3 = (if out_y s then d2\<lparr>wss := (wss d)(w \<mapsto> u\<lparr>out_y := False\<rparr>)\<rparr> else d2)"
  have step3: "(if out_y s then upd_cws w (\<lambda>s. s\<lparr>out_y := False\<rparr>) d2 else Some d2) = Some d3"
    using d2(3) by (simp add: d3_def upd_cws_def)
  have d3: "ctp_lists d3" "wss d3 w \<noteq> None" "(wss d3)(w := None) = (wss d)(w := None)" "rqs d3 = rqs d2" "ova d3 = ova d2" "ctp_same d2 d3"
    "calls d3 = calls d2" "ws_l d3 = ws_l d2" "ws_a d3 = ws_a d2" "dom (wss d3) = dom (wss d)"
    using ctp_lists_upd(1) [OF d2(2), of w u "u\<lparr>out_y := False\<rparr>"] d2(2,3) w(1) by (auto simp: d3_def ctp_same_def)
  then obtain v where "wss d3 w = Some v" by auto
  from ws_take_out [OF d3(1) this] obtain d4 where d4: "cttp_ws_unlink w d3 = Some d4" "ctp_lists (free_cws w d4)"
      "wss (free_cws w d4) = (wss d3)(w := None)" "rqs (free_cws w d4) = rqs d3" "ova (free_cws w d4) = ova d3" "ctp_same d3 (free_cws w d4)"
      "ws_shorter w d3 (free_cws w d4)" "calls (free_cws w d4) = calls d3" by blast
  have "cttp_ws_close w send d = Some (free_cws w d4)"
    using w0 w step3 d4(1) d1(1) d2(1) unfolding step1_def step2_def cttp_ws_close_def by simp
  moreover have "cws_gone w s send d (free_cws w d4)"
    using d4 d3 d2 d1 unfolding cws_gone_def ctp_same_def ws_shorter_def close_calls_def by simp
  ultimately show ?thesis by blast
qed

text \<open>Without its request, or with it, a session of a good state leaves a good state.\<close>

lemma ptrs_without:
  assumes "ctp_ptrs H Q" "H w = Some s" "Q' = (if ceq_u s \<noteq> 0 then Q(ceq_u s := None) else Q)" "Q 0 = None"
  shows "ctp_ptrs (H(w := None)) Q'"
  unfolding ctp_ptrs_def
proof (intro conjI allI impI)
  fix x t assume t: "(H(w := None)) x = Some t"
  then have x: "x \<noteq> w" "H x = Some t" by (auto split: if_splits)
  have ok: "cws_ok Q x t" by (rule ctp_ptrsD(1) [OF assms(1) x(2)])
  have okw: "cws_ok Q w s" by (rule ctp_ptrsD(1) [OF assms(1,2)])
  have "ceq_u t \<noteq> ceq_u s" if "ceq_u t \<noteq> 0" "ceq_u s \<noteq> 0"
    using ok okw that x(1) by (auto simp: cws_ok_def)
  then show "cws_ok Q' x t" using ok assms(3) by (auto simp: cws_ok_def)
next
  fix r q assume q: "Q' r = Some q" "wsu_u q \<noteq> 0"
  then have "Q r = Some q" using assms(3) by (auto split: if_splits)
  then obtain t where t: "H (wsu_u q) = Some t" "ceq_u t = r" using ctp_ptrsD(2) [OF assms(1)] q(2) by blast
  have "wsu_u q \<noteq> w"
  proof
    assume "wsu_u q = w"
    then have "t = s" using t(1) assms(2) by simp
    then show False using q(1) t(2) assms(3,4) by (cases "r = 0") (auto split: if_splits)
  qed
  then show "\<exists>s. (H(w := None)) (wsu_u q) = Some s \<and> ceq_u s = r" using t by auto
qed

section \<open>Accounts\<close>

text \<open>What a session number is owed: its sessions, and the ends that it has been told.\<close>

definition is_last :: "u32 \<Rightarrow> ctp_ovum \<Rightarrow> bool" where
  "is_last wid e \<longleftrightarrow> e = ctp_ws wid cws_reject \<or> e = ctp_ws wid cws_disconnect"

definition live :: "u32 \<Rightarrow> (nat \<rightharpoonup> cws) \<Rightarrow> nat" where
  "live wid H = card {w. \<exists>s. H w = Some s \<and> wid_l s = wid}"

definition account :: "u32 \<Rightarrow> cttp \<Rightarrow> nat" where
  "account wid d = length (filter (is_last wid) (ova d)) + live wid (wss d)"

lemma live_upd: "H w = Some s \<Longrightarrow> wid_l s' = wid_l s \<Longrightarrow> live wid (H(w \<mapsto> s')) = live wid H"
  unfolding live_def by (rule arg_cong [where f = card]) auto

lemma live_finite: "finite (dom H) \<Longrightarrow> finite {w. \<exists>s. H w = Some s \<and> wid_l s = wid}"
  by (rule finite_subset [of _ "dom H"]) auto

lemma live_without:
  assumes "finite (dom H)" "H w = Some s"
  shows "live wid H = live wid (H(w := None)) + (if wid_l s = wid then 1 else 0)"
proof -
  let ?A = "{x. \<exists>t. (H(w := None)) x = Some t \<and> wid_l t = wid}"
  have "{x. \<exists>t. H x = Some t \<and> wid_l t = wid} = (if wid_l s = wid then insert w ?A else ?A)"
    using assms(2) by (auto split: if_splits)
  moreover have "finite ?A" "w \<notin> ?A" using live_finite [of "H(w := None)"] assms(1) by auto
  ultimately show ?thesis by (simp add: live_def)
qed

lemma ctp_finite: "ctp_lists d \<Longrightarrow> finite (dom (wss d))"
  unfolding ctp_lists_def by (metis List.finite_set)

text \<open>The state stays good, and no account changes.\<close>

definition kept :: "cttp \<Rightarrow> cttp \<Rightarrow> bool" where
  "kept d d' \<longleftrightarrow> ctp_inv d' \<and> (\<forall>wid. account wid d' = account wid d)"

lemma kept_inv: "kept d d' \<Longrightarrow> ctp_inv d'"
  by (simp add: kept_def)

lemma kept_refl: "ctp_inv d \<Longrightarrow> kept d d"
  by (simp add: kept_def)

lemma kept_trans: "kept d1 d2 \<Longrightarrow> kept d2 d3 \<Longrightarrow> kept d1 d3"
  by (simp add: kept_def)

lemma kept_same: "ctp_inv d' \<Longrightarrow> wss d' = wss d \<Longrightarrow> ova d' = ova d \<Longrightarrow> kept d d'"
  by (simp add: kept_def account_def)

lemma account_simps [simp]: "account wid (d\<lparr>rqs := Q\<rparr>) = account wid d" "account wid (d\<lparr>addrs := xs\<rparr>) = account wid d"
  "account wid (cask c d) = account wid d" "account wid (ctell (ctp_receive n sas) d) = account wid d"
  by (simp_all add: account_def is_last_def)

lemma kept_simps [simp]: "kept (d\<lparr>rqs := Q\<rparr>) d' = kept d d'" "kept (cask c d) d' = kept d d'"
  "kept (ctell (ctp_receive n sas) d) d' = kept d d'" "kept d (d\<lparr>rqs := Q\<rparr>) = ctp_inv (d\<lparr>rqs := Q\<rparr>)"
  "kept d (d\<lparr>rqs := Q, addrs := xs\<rparr>) = ctp_inv (d\<lparr>rqs := Q, addrs := xs\<rparr>)"
  by (simp_all add: kept_def)

lemma kept_upd: "ctp_inv d' \<Longrightarrow> wss d w = Some s \<Longrightarrow> wss d' = (wss d)(w \<mapsto> s') \<Longrightarrow> wid_l s' = wid_l s \<Longrightarrow> ova d' = ova d \<Longrightarrow> kept d d'"
  by (simp add: kept_def account_def live_upd)

lemma kept_quiet: "kept d d' \<Longrightarrow> \<forall>e \<in> set es. \<forall>wid. \<not> is_last wid e \<Longrightarrow> ova d'' = ova d' @ es \<Longrightarrow> wss d'' = wss d' \<Longrightarrow> ctp_inv d'' \<Longrightarrow> kept d d''"
  by (simp add: kept_def account_def filter_empty_conv)

lemma kept_end:
  assumes "ctp_inv d'" "ctp_lists d" "wss d w = Some s" "wss d' = (wss d)(w := None)"
    and "ova d' = ova d @ es @ [ctp_ws (wid_l s) e]" "e = cws_reject \<or> e = cws_disconnect" "\<forall>x \<in> set es. \<forall>wid. \<not> is_last wid x"
  shows "kept d d'"
proof -
  have "filter (is_last wid) [ctp_ws (wid_l s) e] = (if wid_l s = wid then [ctp_ws (wid_l s) e] else [])" for wid
    using assms(6) by (auto simp: is_last_def)
  moreover have "filter (is_last wid) es = []" for wid using assms(7) by (simp add: filter_empty_conv)
  ultimately show ?thesis using assms(1,4,5) live_without [OF ctp_finite [OF assms(2)] assms(3)]
    by (simp add: kept_def account_def)
qed

lemma gone_inv:
  assumes inv: "ctp_inv d" and w: "wss d w = Some s"
  shows "\<exists>d'. cttp_ws_close w send d = Some d' \<and> cws_gone w s send d d' \<and> ctp_inv d'"
proof -
  have ok: "cws_ok (rqs d) w s" by (rule ctp_ptrsD(1) [OF ctp_invD(2) [OF inv] w])
  then obtain d' where d': "cttp_ws_close w send d = Some d'" "cws_gone w s send d d'"
    using close_spec [OF ctp_invD(1) [OF inv] w] by (auto simp: cws_ok_def split: if_splits)
  have own: "owns w s d = (ceq_u s \<noteq> 0)" using ok by (auto simp: owns_def cws_ok_def)
  have "rqs d 0 = None" using ctp_nonnull(2) [OF ctp_invD(1) [OF inv], of 0] by (cases "rqs d 0") auto
  then have "ctp_ptrs (wss d') (rqs d')"
    using ptrs_without [OF ctp_invD(2) [OF inv] w refl] d'(2) own by (simp add: cws_gone_def)
  then show ?thesis using d' by (auto simp: ctp_inv_def cws_gone_def)
qed

text \<open>A request that a session has gave up, or never had, can go.\<close>

lemma ptrs_drop:
  assumes "ctp_ptrs H Q" "Q r = Some q" "wsu_u q = 0" "H 0 = None"
  shows "ctp_ptrs H (Q(r := None))"
  unfolding ctp_ptrs_def
proof (intro conjI allI impI)
  fix w s assume w: "H w = Some s"
  have ok: "cws_ok Q w s" by (rule ctp_ptrsD(1) [OF assms(1) w])
  show "cws_ok (Q(r := None)) w s"
  proof (cases "ceq_u s = 0")
    case False
    then obtain q' where "Q (ceq_u s) = Some q'" "wsu_u q' = w" using ok by (auto simp: cws_ok_def)
    moreover have "w \<noteq> 0" using w assms(4) by (cases "w = 0") auto
    ultimately have "ceq_u s \<noteq> r" using assms(2,3) by auto
    then show ?thesis using ok assms(2,3) by (auto simp: cws_ok_def)
  qed (use ok in \<open>simp add: cws_ok_def\<close>)
qed (use ctp_ptrsD(2) [OF assms(1)] in \<open>auto split: if_splits\<close>)

text \<open>A handshake that fails takes its session and its request with it, and tells of one rejection.\<close>

lemma fail_handshake_free:
  assumes inv: "ctp_inv d" and r: "rqs d r = Some q" "wsu_u q \<noteq> 0"
  shows "\<exists>d1 d' s. kept d d' \<and> wss d (wsu_u q) = Some s \<and> cttp_ws_fail_handshake r d = Some d1 \<and> cttp_creq_free r d1 = Some d' \<and> ctp_inv d' \<and>
    wss d' = (wss d)(wsu_u q := None) \<and> rqs d' = (rqs d)(r := None) \<and> ova d' = ova d @ [ctp_ws (wid_l s) cws_reject] \<and> ctp_same d d' \<and>
    calls d' = calls d"
proof -
  note lists = ctp_invD(1) [OF inv] note ptrs = ctp_invD(2) [OF inv]
  let ?w = "wsu_u q"
  obtain s where s: "wss d ?w = Some s" "ceq_u s = r" using ctp_ptrsD(2) [OF ptrs r] by blast
  have ok: "cws_ok (rqs d) ?w s" by (rule ctp_ptrsD(1) [OF ptrs s(1)])
  have r0: "r \<noteq> 0" by (rule ctp_nonnull(2) [OF lists r(1)])
  let ?d0 = "ctell (ctp_ws (wid_l s) cws_reject) (d\<lparr>rqs := (rqs d)(r \<mapsto> q\<lparr>wsu_u := 0\<rparr>)\<rparr>)"
  have l0: "ctp_lists ?d0" using ctp_lists_upd(2) [OF lists r(1)] by simp
  have w0: "wss ?d0 ?w = Some s" "\<not> wsl_on s" using s(1) ok by (simp_all add: cws_ok_def)
  have c0: "ceq_u s \<noteq> 0 \<Longrightarrow> rqs ?d0 (ceq_u s) \<noteq> None" using s(2) by simp
  from close_spec [OF l0 w0 c0, of False] obtain d1 where d1: "cttp_ws_close ?w False ?d0 = Some d1" "cws_gone ?w s False ?d0 d1" by blast
  have rq1: "rqs d1 = (rqs d)(r \<mapsto> q\<lparr>wsu_u := 0\<rparr>)" and ca1: "calls d1 = calls d"
    using d1(2) s(2) r(2) ok r0 by (simp_all add: cws_gone_def owns_def close_calls_def cws_ok_def)
  have f: "cttp_ws_fail_handshake r d = Some d1"
    using r s(1) d1(1) by (simp add: cttp_ws_fail_handshake_def upd_creq_def cttp_ws_plan_event_def)
  have "ctp_lists d1" using d1(2) by (simp add: cws_gone_def)
  from creq_free_spec [OF this, of r "q\<lparr>wsu_u := 0\<rparr>"] rq1 obtain d' where d': "cttp_creq_free r d1 = Some d'" "ctp_lists d'"
      "wss d' = wss d1" "rqs d' = (rqs d1)(r := None)" "ova d' = ova d1" "ctp_same d1 d'" "calls d' = calls d1" by auto
  have st: "wss d' = (wss d)(?w := None)" "rqs d' = (rqs d)(r := None)"
    using d' d1(2) rq1 by (simp_all add: cws_gone_def)
  have "rqs d 0 = None" using ctp_nonnull(2) [OF lists, of 0] by (cases "rqs d 0") auto
  then have "ctp_inv d'" using ptrs_without [OF ptrs s(1) refl] d'(2) st s(2) r0 by (simp add: ctp_inv_def)
  moreover have ova: "ova d' = ova d @ [ctp_ws (wid_l s) cws_reject]" using d'(5) d1(2) by (simp add: cws_gone_def)
  ultimately have "kept d d'" 
    by (intro kept_end [OF _ lists s(1) st(1), where e = cws_reject and es = "[]"]) simp_all
  then show ?thesis using \<open>ctp_inv d'\<close> ova s(1) f d' st d1(2) ca1 by (auto simp: cws_gone_def ctp_same_def)
qed

text \<open>Changes of a request, or of a session, that keep their pointers to each other.\<close>

lemma inv_upd_creq:
  assumes "ctp_inv d" "rqs d r = Some q" "wsu_u q' = wsu_u q"
  shows "ctp_inv (d\<lparr>rqs := (rqs d)(r \<mapsto> q')\<rparr>)"
  unfolding ctp_inv_def
proof
  show "ctp_lists (d\<lparr>rqs := (rqs d)(r \<mapsto> q')\<rparr>)" by (rule ctp_lists_upd(2) [OF ctp_invD(1) [OF assms(1)] assms(2)])
  note p = ctp_invD(2) [OF assms(1)]
  have "cws_ok ((rqs d)(r \<mapsto> q')) w s" if "wss d w = Some s" for w s
    using ctp_ptrsD(1) [OF p that] assms(2,3) by (auto simp: cws_ok_def)
  moreover have "\<exists>s. wss d (wsu_u p) = Some s \<and> ceq_u s = x" if "((rqs d)(r \<mapsto> q')) x = Some p" "wsu_u p \<noteq> 0" for x p
    using that ctp_ptrsD(2) [OF ctp_invD(2) [OF assms(1)], of x] assms(2,3) by (auto split: if_splits)
  ultimately show "ctp_ptrs (wss (d\<lparr>rqs := (rqs d)(r \<mapsto> q')\<rparr>)) (rqs (d\<lparr>rqs := (rqs d)(r \<mapsto> q')\<rparr>))"
    by (simp add: ctp_ptrs_def)
qed

lemma inv_upd_cws:
  assumes "ctp_inv d" "wss d w = Some s" "ceq_u s' = ceq_u s" "cws_ok (rqs d) w s'"
  shows "ctp_inv (d\<lparr>wss := (wss d)(w \<mapsto> s')\<rparr>)"
  unfolding ctp_inv_def
proof
  show "ctp_lists (d\<lparr>wss := (wss d)(w \<mapsto> s')\<rparr>)" by (rule ctp_lists_upd(1) [OF ctp_invD(1) [OF assms(1)] assms(2)])
  note p = ctp_invD(2) [OF assms(1)]
  have "cws_ok (rqs d) x t" if "((wss d)(w \<mapsto> s')) x = Some t" for x t
    using that ctp_ptrsD(1) [OF p, of x t] assms(4) by (auto split: if_splits)
  moreover have "\<exists>s. ((wss d)(w \<mapsto> s')) (wsu_u q) = Some s \<and> ceq_u s = r" if "rqs d r = Some q" "wsu_u q \<noteq> 0" for r q
    using ctp_ptrsD(2) [OF p that] assms(2,3) by auto
  ultimately show "ctp_ptrs (wss (d\<lparr>wss := (wss d)(w \<mapsto> s')\<rparr>)) (rqs (d\<lparr>wss := (wss d)(w \<mapsto> s')\<rparr>))"
    by (simp add: ctp_ptrs_def)
qed

lemma creq_drop:
  assumes "ctp_inv d" "rqs d r = Some q" "wsu_u q = 0"
  shows "\<exists>d'. cttp_creq_free r d = Some d' \<and> ctp_inv d' \<and> wss d' = wss d \<and> rqs d' = (rqs d)(r := None) \<and> ova d' = ova d \<and> ctp_same d d'"
proof -
  have "wss d 0 = None" using ctp_nonnull(1) [OF ctp_invD(1) [OF assms(1)], of 0] by (cases "wss d 0") auto
  then show ?thesis
    using creq_free_spec [OF ctp_invD(1) [OF assms(1)] assms(2)] ptrs_drop [OF ctp_invD(2) [OF assms(1)] assms(2,3)]
    by (auto simp: ctp_inv_def)
qed

lemma kept_drop:
  assumes "ctp_inv d" "rqs d r = Some q" "wsu_u q = 0"
  shows "\<exists>d'. cttp_creq_free r d = Some d' \<and> kept d d'"
  using creq_drop [OF assms] kept_same by metis

section \<open>Requests\<close>

lemma quit_spec:
  assumes inv: "ctp_inv d" and r: "rqs d r = Some q"
  shows "\<exists>d'. cttp_creq_quit r d = Some d' \<and> kept d d'"
proof (cases "wsu_u q = 0")
  case False
  then show ?thesis using fail_handshake_free [OF inv r] r by (auto simp: cttp_creq_quit_def)
next
  case True
  show ?thesis
  proof (cases "csat_e q = csat_addr")
    case csat: True
    then show ?thesis using True r inv_upd_creq [OF inv r, of "q\<lparr>csat_e := csat_quit\<rparr>"] by (simp add: cttp_creq_quit_def upd_creq_def)
  next
    case csat: False
    let ?d = "if cli_u q \<noteq> 0 then cask (client_cancel (cli_u q)) d else d"
    have "ctp_inv ?d" "rqs ?d r = Some q" using inv r by simp_all
    from kept_drop [OF this True] show ?thesis using True csat r by (auto simp: cttp_creq_quit_def)
  qed
qed

lemma fail_spec:
  assumes inv: "ctp_inv d" and r: "rqs d r = Some q"
  shows "\<exists>d'. cttp_creq_fail r d = Some d' \<and> kept d d'"
proof (cases "wsu_u q = 0")
  case False
  then show ?thesis using fail_handshake_free [OF inv r] r by (auto simp: cttp_creq_fail_def)
next
  case True
  let ?d = "ctell (ctp_receive (num_l q) 504) d"
  have "ctp_inv ?d" "rqs ?d r = Some q" using inv r by simp_all
  from kept_drop [OF this True] show ?thesis using True r by (auto simp: cttp_creq_fail_def cttp_http_client_receive_def)
qed

lemma connect_spec:
  assumes inv: "ctp_inv d" and r: "rqs d r = Some q" "csat_e q = csat_conn" "ipf_c q"
  shows "\<exists>d'. cttp_creq_connect r cli fails d = Some d' \<and> kept d d'"
proof -
  let ?q1 = "q\<lparr>cli_u := cli\<rparr>" let ?d1 = "d\<lparr>rqs := (rqs d)(r \<mapsto> ?q1)\<rparr>"
  have i1: "ctp_inv ?d1" by (rule inv_upd_creq [OF inv r(1)]) simp
  show ?thesis
  proof (cases fails)
    case True
    let ?q2 = "?q1\<lparr>csat_e := csat_quit\<rparr>" let ?d2 = "d\<lparr>rqs := (rqs d)(r \<mapsto> ?q2)\<rparr>"
    have "ctp_inv ?d2" by (rule inv_upd_creq [OF inv r(1)]) simp
    moreover have "rqs ?d2 r = Some ?q2" by simp
    ultimately obtain d' where d': "cttp_creq_fail r ?d2 = Some d'" "kept ?d2 d'" using fail_spec by blast
    have "cttp_creq_connect r cli fails d = cttp_creq_fail r ?d2"
      using r True by (simp add: cttp_creq_connect_def cttp_creq_on_connect_def upd_creq_def)
    then show ?thesis using d' by simp
  next
    case False
    have "ctp_inv (d\<lparr>rqs := (rqs d)(r \<mapsto> ?q1\<lparr>csat_e := csat_ripe\<rparr>)\<rparr>)" by (rule inv_upd_creq [OF inv r(1)]) simp
    then show ?thesis using r False by (simp add: cttp_creq_connect_def upd_creq_def)
  qed
qed

lemma inv_addrs: "ctp_inv d \<Longrightarrow> ctp_inv (d\<lparr>addrs := xs\<rparr>)"
  using ctp_lists_cong [of d "d\<lparr>addrs := xs\<rparr>"] by (simp add: ctp_inv_def)

lemma start_spec:
  assumes inv: "ctp_inv d" and r: "rqs d r = Some q"
  shows "\<exists>d'. cttp_creq_start r cli fails d = Some d' \<and> kept d d'"
proof (cases "ipf_c q")
  case True
  let ?q1 = "q\<lparr>csat_e := csat_conn\<rparr>"
  have "ctp_inv (d\<lparr>rqs := (rqs d)(r \<mapsto> ?q1)\<rparr>)" by (rule inv_upd_creq [OF inv r]) simp
  from connect_spec [OF this, of r ?q1 cli fails] show ?thesis using True r by (simp add: cttp_creq_start_def upd_creq_def)
next
  case False
  let ?q1 = "q\<lparr>csat_e := csat_addr\<rparr>" let ?d1 = "d\<lparr>rqs := (rqs d)(r \<mapsto> ?q1)\<rparr>"
  have i: "ctp_inv ?d1" by (rule inv_upd_creq [OF inv r]) simp
  show ?thesis
  proof (cases fails)
    case True
    then show ?thesis using False r fail_spec [OF i, of r ?q1] by (simp add: cttp_creq_start_def upd_creq_def cttp_creq_resolve_def)
  next
    case nf: False
    then show ?thesis using False r inv_addrs [OF i] by (simp add: cttp_creq_start_def upd_creq_def cttp_creq_resolve_def)
  qed
qed

lemma resolve_cb_spec:
  assumes inv: "ctp_inv d" and r: "rqs d r = Some q"
  shows "\<exists>d'. cttp_creq_resolve_cb r err cli fails d = Some d' \<and> kept d d'"
proof -
  let ?q1 = "q\<lparr>ipf_c := True, csat_e := csat_conn\<rparr>"
  have i: "ctp_inv (d\<lparr>rqs := (rqs d)(r \<mapsto> ?q1)\<rparr>)" by (rule inv_upd_creq [OF inv r]) simp
  consider "csat_e q = csat_quit" | "csat_e q \<noteq> csat_quit" "err" | "csat_e q \<noteq> csat_quit" "\<not> err" by blast
  then show ?thesis
  proof cases
    case 1
    then show ?thesis using quit_spec [OF inv r] r by (simp add: cttp_creq_resolve_cb_def)
  next
    case 2
    then show ?thesis using fail_spec [OF inv r] r by (simp add: cttp_creq_resolve_cb_def)
  next
    case 3
    then show ?thesis using connect_spec [OF i, of r ?q1 cli fails] r by (simp add: cttp_creq_resolve_cb_def upd_creq_def)
  qed
qed

end
