(* ===== verification/CttpWsOps.thy ===== *)
theory CttpWsOps
  imports CttpWsInv
begin

text \<open>
  What an open session does when its socket or wslay calls, against the contract of the loop, and the
  handshake that opens it.
\<close>

section \<open>Frames\<close>

text \<open>The messages among what wslay delivers, and whether it delivers an end.\<close>

definition is_end :: "(u8 \<times> u8 list) option \<Rightarrow> bool" where
  "is_end m \<longleftrightarrow> (case m of None \<Rightarrow> True | Some (opc, _) \<Rightarrow> opc = CONNECTION_CLOSE)"

definition ctold :: "u32 \<Rightarrow> (u8 \<times> u8 list) option list \<Rightarrow> ctp_ovum list" where
  "ctold wid ms = map (\<lambda>m. ctp_ws wid (cws_message (fst (the m)) (if snd (the m) = [] then None else Some (snd (the m)))))
     (filter (\<lambda>m. \<not> is_end m) ms)"

lemma ctold_simps [simp]: "ctold wid [] = []"
  "ctold wid (m # ms) = (if is_end m then [] else [ctp_ws wid (cws_message (fst (the m)) (if snd (the m) = [] then None else Some (snd (the m))))]) @ ctold wid ms"
  by (simp_all add: ctold_def)

text \<open>While wslay receives, an end is only noted.\<close>

lemma msg_cbs_spec:
  "wss d w = Some s \<Longrightarrow> w \<noteq> 0 \<Longrightarrow> wsl_on s \<Longrightarrow>
   msg_cbs w ms d = Some (d\<lparr>wss := (wss d)(w \<mapsto> s\<lparr>clo_ev := clo_ev s \<or> (\<exists>m \<in> set ms. is_end m), clo_on := clo_on s \<or> (\<exists>m \<in> set ms. is_end m)\<rparr>),
     ova := ova d @ ctold (wid_l s) ms\<rparr>)"
proof (induction ms arbitrary: d s)
  case Nil
  then show ?case by (simp add: map_upd_triv)
next
  case (Cons m ms)
  show ?case
  proof (cases "is_end m")
    case True
    let ?s = "s\<lparr>clo_ev := True, clo_on := True\<rparr>" let ?d = "d\<lparr>wss := (wss d)(w \<mapsto> ?s)\<rparr>"
    have "cttp_ws_msg_cb w m d = Some ?d"
      using Cons.prems True by (auto simp: cttp_ws_msg_cb_def is_end_def cttp_ws_close_def upd_cws_def split: option.splits prod.splits)
    then show ?thesis using Cons.IH [of ?d ?s] Cons.prems True by (simp cong: if_cong)
  next
    case False
    then obtain opc msg where m: "m = Some (opc, msg)" "opc \<noteq> CONNECTION_CLOSE" by (auto simp: is_end_def split: option.splits)
    let ?d = "ctell (ctp_ws (wid_l s) (cws_message opc (if msg = [] then None else Some msg))) d"
    have "cttp_ws_msg_cb w m d = Some ?d" using Cons.prems m by (simp add: cttp_ws_msg_cb_def cttp_ws_plan_event_def)
    moreover have "wss ?d w = Some s" using Cons.prems(1) by simp
    ultimately show ?thesis using Cons.IH [of ?d s] Cons.prems(2,3) False m by (simp add: ctell_def)
  qed
qed

text \<open>
  What becomes of an open session when the libraries are asked: it stays, at most with another write
  under way, or it is gone and one disconnection has been told, after the messages. The libraries are asked
  to write to the socket, or to read from it or not, and at the end to let go of both; of nothing else.
\<close>

definition went :: "nat \<Rightarrow> cws \<Rightarrow> ctp_ovum list \<Rightarrow> cttp \<Rightarrow> bool \<Rightarrow> cttp \<Rightarrow> bool" where
  "went w s evs d gone d' \<longleftrightarrow> ctp_inv d' \<and> rqs d' = rqs d \<and> ctp_same d d' \<and>
     (if gone then wss d' = (wss d)(w := None) \<and> ova d' = ova d @ evs @ [ctp_ws (wid_l s) cws_disconnect]
      else (\<exists>b. wss d' = (wss d)(w \<mapsto> s\<lparr>out_y := b\<rparr>)) \<and> ova d' = ova d @ evs) \<and>
     (\<exists>cs. calls d' = calls d @ cs @ (if gone then [wslay_free w, socket_close w] else []) \<and> set cs \<subseteq> {socket_write w, read_start w, read_stop w})"

lemma went_inv: "went w s evs d gone d' \<Longrightarrow> ctp_inv d'"
  by (simp add: went_def)

definition up :: "cws \<Rightarrow> bool" where
  "up s \<longleftrightarrow> (sat_e s = cws_open \<or> sat_e s = cws_closing) \<and> ceq_u s = 0 \<and> sok_u s \<and> wsl_w s"

lemma up_out [simp]: "up (s\<lparr>out_y := b\<rparr>) = up s"
  by (simp add: up_def)

lemma close_up:
  assumes inv: "ctp_inv d" and w: "wss d w = Some s" "up s"
  shows "\<exists>d'. cttp_ws_close w True d = Some d' \<and> went w s [] d True d'"
  using gone_inv [OF inv w(1), of True] w(2) by (auto simp: went_def cws_gone_def up_def close_calls_def owns_def)

lemma went_close:
  assumes "went w s evs d False d1" "up s"
  shows "\<exists>d2. cttp_ws_close w True d1 = Some d2 \<and> went w s evs d True d2"
proof -
  obtain b cs where b: "ctp_inv d1" "wss d1 = (wss d)(w \<mapsto> s\<lparr>out_y := b\<rparr>)" "ova d1 = ova d @ evs" "rqs d1 = rqs d" "ctp_same d d1"
      "calls d1 = calls d @ cs" "set cs \<subseteq> {socket_write w, read_start w, read_stop w}"
    using assms(1) by (auto simp: went_def)
  have "wss d1 w = Some (s\<lparr>out_y := b\<rparr>)" using b(2) by simp
  from close_up [OF b(1) this] assms(2) obtain d2 where d2: "cttp_ws_close w True d1 = Some d2" "went w (s\<lparr>out_y := b\<rparr>) [] d1 True d2" by auto
  then obtain cs' where "calls d2 = calls d1 @ cs' @ [wslay_free w, socket_close w]" "set cs' \<subseteq> {socket_write w, read_start w, read_stop w}"
    by (auto simp: went_def)
  then have "\<exists>cs. calls d2 = calls d @ cs @ [wslay_free w, socket_close w] \<and> set cs \<subseteq> {socket_write w, read_start w, read_stop w}"
    using b(6,7) by (intro exI [of _ "cs @ cs'"]) simp
  then show ?thesis using b d2 by (auto simp: went_def ctp_same_def)
qed

definition fatal :: "wslay_res \<Rightarrow> bool" where
  "fatal res \<longleftrightarrow> res = wslay_failed"

lemma fatal_simps [simp]: "fatal wslay_failed" "\<not> fatal wslay_ok" "\<not> fatal wslay_would_block"
  by (simp_all add: fatal_def)

text \<open>A call into wslay whose callbacks, while the mark is set, write or deliver \<open>ms\<close>.\<close>

lemma wslay_call_spec:
  assumes inv: "ctp_inv d" and w: "wss d w = Some s" "up s"
    and cbs: "\<And>d1 s1. wss d1 w = Some s1 \<Longrightarrow> wsl_on s1 \<Longrightarrow> sok_u s1 \<Longrightarrow> wid_l s1 = wid_l s \<Longrightarrow> \<not> clo_on s1 \<Longrightarrow> \<not> clo_ev s1 \<Longrightarrow>
      \<exists>b c. cbs d1 = Some (d1\<lparr>wss := (wss d1)(w \<mapsto> s1\<lparr>out_y := b, clo_ev := ended, clo_on := ended\<rparr>), ova := ova d1 @ evs, calls := calls d1 @ c\<rparr>) \<and>
        set c \<subseteq> {socket_write w, read_start w, read_stop w}"
  shows "\<exists>d'. wslay_call w cbs sas d = Some (ended \<or> fatal sas, \<not> ended \<and> sas = wslay_ok, d') \<and> went w s evs d (ended \<or> fatal sas) d'"
proof -
  have ok: "cws_ok (rqs d) w s" by (rule ctp_ptrsD(1) [OF ctp_invD(2) [OF inv] w(1)])
  then have s0: "\<not> wsl_on s" "\<not> clo_on s" "\<not> clo_ev s" by (simp_all add: cws_ok_def)
  let ?d1 = "d\<lparr>wss := (wss d)(w \<mapsto> s\<lparr>wsl_on := True\<rparr>)\<rparr>"
  obtain b c where b: "cbs ?d1 = Some (?d1\<lparr>wss := (wss d)(w \<mapsto> s\<lparr>wsl_on := True, out_y := b, clo_ev := ended, clo_on := ended\<rparr>),
      ova := ova d @ evs, calls := calls d @ c\<rparr>)" "set c \<subseteq> {socket_write w, read_start w, read_stop w}"
    using cbs [of ?d1 "s\<lparr>wsl_on := True\<rparr>"] s0 w(2) by (auto simp: up_def)
  let ?s3 = "s\<lparr>out_y := b, clo_ev := ended, clo_on := ended\<rparr>"
  let ?d3 = "d\<lparr>wss := (wss d)(w \<mapsto> ?s3), ova := ova d @ evs, calls := calls d @ c\<rparr>"
  let ?d4 = "d\<lparr>wss := (wss d)(w \<mapsto> s\<lparr>out_y := b\<rparr>), ova := ova d @ evs, calls := calls d @ c\<rparr>"
  have clean: "s\<lparr>out_y := b, clo_ev := False, clo_on := False\<rparr> = s\<lparr>out_y := b\<rparr>" using s0 by (intro cws.equality) simp_all
  have wn: "went w s evs d False ?d4"
  proof -
    have "ctp_inv (d\<lparr>wss := (wss d)(w \<mapsto> s\<lparr>out_y := b\<rparr>)\<rparr>)"
      by (rule inv_upd_cws [OF inv w(1)]) (use ok in \<open>simp_all add: cws_ok_def\<close>)
    then have "ctp_inv ?d4" using ctp_lists_cong [of "d\<lparr>wss := (wss d)(w \<mapsto> s\<lparr>out_y := b\<rparr>)\<rparr>" ?d4] by (simp add: ctp_inv_def)
    then show ?thesis using b(2) by (auto simp: went_def ctp_same_def)
  qed
  have pre: "wslay_call w cbs sas d = do {
      (flushed, d4) \<leftarrow> cttp_ws_flush_close w ?d3;
      if flushed then Some (True, False, d4)
      else if sas = wslay_ok then Some (False, True, d4)
      else if sas \<noteq> wslay_would_block then do { d5 \<leftarrow> cttp_ws_close w True d4; Some (True, False, d5) }
      else Some (False, False, d4) }"
  proof -
    have s3: "s\<lparr>out_y := b, clo_ev := ended, clo_on := ended, wsl_on := False\<rparr> = ?s3" using s0 by (intro cws.equality) simp_all
    have "d\<lparr>ova := ova d @ evs, calls := calls d @ c, wss := (wss d)(w \<mapsto> s\<lparr>out_y := b, clo_ev := ended, clo_on := ended, wsl_on := False\<rparr>)\<rparr> = ?d3"
      unfolding s3 by simp
    then show ?thesis using w(1) b(1) by (simp add: wslay_call_def upd_cws_def)
  qed
  from went_close [OF wn w(2)] obtain d5 where d5: "cttp_ws_close w True ?d4 = Some d5" "went w s evs d True d5" by blast
  show ?thesis
  proof (cases ended)
    case True
    have c2: "s\<lparr>out_y := b, clo_on := False, clo_ev := False\<rparr> = s\<lparr>out_y := b\<rparr>" using s0 by (intro cws.equality) simp_all
    have same: "d\<lparr>ova := ova d @ evs, calls := calls d @ c, wss := (wss d)(w \<mapsto> s\<lparr>out_y := b\<rparr>)\<rparr> = ?d4" by simp
    have "cttp_ws_flush_close w ?d3 = Some (True, d5)"
      using True d5(1) by (simp add: cttp_ws_flush_close_def upd_cws_def c2 same)
    then show ?thesis using pre d5(2) True by simp
  next
    case False
    then have "?d3 = ?d4" using clean by simp
    moreover have "cttp_ws_flush_close w ?d4 = Some (False, ?d4)" using s0 by (simp add: cttp_ws_flush_close_def)
    ultimately show ?thesis using pre wn d5 False by (cases sas) simp_all
  qed
qed

lemma words_bytes_length: "length (words_bytes ws) = 4 * length ws"
  by (induction ws) (simp_all add: words_bytes_def)

text \<open>The mask is as long as wslay asks.\<close>

lemma genmask_length:
  assumes "\<And>k. length (rand k) = 16"
  shows "length (cttp_ws_genmask_cb rand len) = len"
proof -
  have "\<forall>k. length (rand k) = 16 \<Longrightarrow> off \<le> len \<Longrightarrow> length (genmask_loop rand k off len buf) = length buf + (len - off)" for k off buf
    by (induction rand k off len buf rule: genmask_loop.induct)
      (subst genmask_loop.simps, simp add: words_bytes_length Let_def)
  then show ?thesis using assms by (simp add: cttp_ws_genmask_cb_def)
qed

text \<open>What wslay gets of the input is what it lacks then.\<close>

lemma recv_cb_append: "cttp_ws_recv_cb input len = Some (got, rest) \<Longrightarrow> input = got @ rest \<and> length got \<le> len"
  by (auto simp: cttp_ws_recv_cb_def Let_def split: if_splits)

definition read_msgs :: "round \<Rightarrow> (u8 \<times> u8 list) option list" where
  "read_msgs x = (if has_input x then msgs x else [])"

text \<open>What a session hears, round by round, and whether it ends: the contract of the loop.\<close>

primrec fate :: "round list \<Rightarrow> (u8 \<times> u8 list) option list \<times> bool" where
  "fate [] = ([], False)"
| "fate (x # xs) =
     (let asks = (\<not> writing x \<and> want_write x); ended = (\<exists>m \<in> set (read_msgs x). is_end m)
      in if asks \<and> fatal (send_res x) then ([], True)
         else if has_input x \<and> (ended \<or> fatal (recv_res x)) then (read_msgs x, True)
         else if asks \<and> send_res x = wslay_ok \<or> has_input x \<and> recv_res x = wslay_ok then (read_msgs x @ fst (fate xs), snd (fate xs))
         else (read_msgs x, False))"

lemma ctold_append [simp]: "ctold wid (ms @ ns) = ctold wid ms @ ctold wid ns"
  by (induction ms) simp_all

lemma went_cask:
  assumes "went w s evs d False d'" "c \<in> {socket_write w, read_start w, read_stop w}"
  shows "went w s evs d False (cask c d')"
proof -
  obtain cs where "calls d' = calls d @ cs" "set cs \<subseteq> {socket_write w, read_start w, read_stop w}" using assms(1) by (auto simp: went_def)
  then have "\<exists>cs. calls (cask c d') = calls d @ cs \<and> set cs \<subseteq> {socket_write w, read_start w, read_stop w}"
    using assms(2) by (intro exI [of _ "cs @ [c]"]) (simp add: cask_def)
  then show ?thesis using assms(1) by (simp add: went_def ctp_same_def)
qed

lemma went_refl: "ctp_inv d \<Longrightarrow> wss d w = Some s \<Longrightarrow> went w s [] d False d"
  by (auto simp: went_def ctp_same_def map_upd_triv intro!: exI [of _ "out_y s"])

lemma went_stays: "went w s evs d False d' \<Longrightarrow> \<exists>b. wss d' w = Some (s\<lparr>out_y := b\<rparr>)"
  by (auto simp: went_def)

lemma went_not: "went w s evs d g d' \<Longrightarrow> \<not> g \<Longrightarrow> went w s evs d False d'"
  by simp

lemma went_trans:
  assumes "went w s e1 d False d1" "went w (s\<lparr>out_y := b\<rparr>) e2 d1 gone d2"
  shows "went w s (e1 @ e2) d gone d2"
proof -
  let ?fin = "if gone then [wslay_free w, socket_close w] else []" and ?S = "{socket_write w, read_start w, read_stop w}"
  obtain cs1 where c1: "calls d1 = calls d @ cs1" "set cs1 \<subseteq> ?S" using assms(1) by (auto simp: went_def)
  obtain cs2 where c2: "calls d2 = calls d1 @ cs2 @ ?fin" "set cs2 \<subseteq> ?S" using assms(2) unfolding went_def by blast
  have "\<exists>cs. calls d2 = calls d @ cs @ ?fin \<and> set cs \<subseteq> ?S" using c1 c2 by (intro exI [of _ "cs1 @ cs2"]) simp
  then show ?thesis using assms by (cases gone) (auto simp: went_def ctp_same_def)
qed

lemma send_call_spec:
  assumes inv: "ctp_inv d" and w: "wss d w = Some s" "up s"
  shows "\<exists>d'. wslay_call w (if puts then cttp_ws_send_cb w else Some) sas d = Some (fatal sas, sas = wslay_ok, d') \<and> went w s [] d (fatal sas) d'"
proof -
  have "\<exists>b c. (if puts then cttp_ws_send_cb w else Some) d1 =
      Some (d1\<lparr>wss := (wss d1)(w \<mapsto> s1\<lparr>out_y := b, clo_ev := False, clo_on := False\<rparr>), ova := ova d1 @ [], calls := calls d1 @ c\<rparr>) \<and>
      set c \<subseteq> {socket_write w, read_start w, read_stop w}"
    if s1: "wss d1 w = Some s1" "wsl_on s1" "sok_u s1" "wid_l s1 = wid_l s" "\<not> clo_on s1" "\<not> clo_ev s1" for d1 :: cttp and s1
  proof (cases puts)
    case True
    have "s1\<lparr>out_y := True, clo_ev := False, clo_on := False\<rparr> = s1\<lparr>out_y := True\<rparr>" using s1 by (intro cws.equality) simp_all
    moreover have "d1\<lparr>wss := (wss d1)(w \<mapsto> s1\<lparr>out_y := True\<rparr>), ova := ova d1 @ [], calls := calls d1 @ [socket_write w]\<rparr> =
        (cask (socket_write w) d1)\<lparr>wss := (wss d1)(w \<mapsto> s1\<lparr>out_y := True\<rparr>)\<rparr>"
      by (intro cttp.equality) (simp_all add: cask_def)
    ultimately show ?thesis using True s1(1,3)
      by (intro exI [of _ True] exI [of _ "[socket_write w]"]) (simp add: cttp_ws_send_cb_def upd_cws_def)
  next
    case False
    have "s1\<lparr>out_y := out_y s1, clo_ev := False, clo_on := False\<rparr> = s1" using s1 by (intro cws.equality) simp_all
    then show ?thesis using False s1(1) by (intro exI [of _ "out_y s1"] exI [of _ "[]"]) (simp add: map_upd_triv)
  qed
  then have "\<exists>d'. wslay_call w (if puts then cttp_ws_send_cb w else Some) sas d = Some (False \<or> fatal sas, \<not> False \<and> sas = wslay_ok, d') \<and>
      went w s [] d (False \<or> fatal sas) d'" by (rule wslay_call_spec [OF inv w])
  then show ?thesis by simp
qed

lemma recv_call_spec:
  assumes inv: "ctp_inv d" and w: "wss d w = Some s" "up s" and ended: "ended = (\<exists>m \<in> set ms. is_end m)"
  shows "\<exists>d'. wslay_call w (msg_cbs w ms) res d = Some (ended \<or> fatal res, \<not> ended \<and> res = wslay_ok, d') \<and>
    went w s (ctold (wid_l s) ms) d (ended \<or> fatal res) d'"
proof (rule wslay_call_spec [OF inv w])
  fix d1 :: cttp and s1 assume s1: "wss d1 w = Some s1" "wsl_on s1" "sok_u s1" "wid_l s1 = wid_l s" "\<not> clo_on s1" "\<not> clo_ev s1"
  have w0: "w \<noteq> 0" by (rule ctp_nonnull(1) [OF ctp_invD(1) [OF inv] w(1)])
  have "s1\<lparr>out_y := out_y s1, clo_ev := ended, clo_on := ended\<rparr> = s1\<lparr>clo_ev := ended, clo_on := ended\<rparr>" by simp
  then show "\<exists>b c. msg_cbs w ms d1 = Some (d1\<lparr>wss := (wss d1)(w \<mapsto> s1\<lparr>out_y := b, clo_ev := ended, clo_on := ended\<rparr>),
      ova := ova d1 @ ctold (wid_l s) ms, calls := calls d1 @ c\<rparr>) \<and>
      set c \<subseteq> {socket_write w, read_start w, read_stop w}"
    using msg_cbs_spec [OF s1(1) w0 s1(2), of ms] s1 ended by (intro exI [of _ "out_y s1"] exI [of _ "[]"]) simp
qed

lemma proceed_end_spec:
  assumes "ctp_inv d" "wss d w = Some s" "up s"
  shows "\<exists>d'. proceed_end w want_read pending d = Some d' \<and> went w s [] d False d'"
  using assms went_cask [OF went_refl [OF assms(1,2)]] by (auto simp: proceed_end_def up_def)

lemma proceed_loop_spec:
  "ctp_inv d \<Longrightarrow> wss d w = Some s \<Longrightarrow> up s \<Longrightarrow>
   \<exists>d'. proceed_loop w want_read pending xs d = Some d' \<and> went w s (ctold (wid_l s) (fst (fate xs))) d (snd (fate xs)) d'"
proof (induction xs arbitrary: d s)
  case Nil
  then show ?case using proceed_end_spec by simp
next
  case (Cons x xs)
  note inv = Cons.prems(1) note w = Cons.prems(2,3)
  let ?asks = "\<not> writing x \<and> want_write x" and ?ended = "\<exists>m \<in> set (msgs x). is_end m"
  have sw: "sok_u s" "wsl_w s" using w(2) by (simp_all add: up_def)
  let ?send = "if ?asks then wslay_call w (if writes x then cttp_ws_send_cb w else Some) (send_res x) d else Some (False, False, d)"
  obtain d1 where d1: "?send = Some (?asks \<and> fatal (send_res x), ?asks \<and> send_res x = wslay_ok, d1)" "went w s [] d (?asks \<and> fatal (send_res x)) d1"
    using send_call_spec [OF inv w, of "writes x" "send_res x"] went_refl [OF inv w(1)] by (cases ?asks) auto
  show ?case
  proof (cases "?asks \<and> fatal (send_res x)")
    case True
    then show ?thesis using d1 w(1) sw by simp
  next
    case no: False
    then have False: "(?asks \<and> fatal (send_res x)) = False" by blast
    have st: "went w s [] d False d1" using d1(2) unfolding False .
    from went_stays [OF this] obtain b where b: "wss d1 w = Some (s\<lparr>out_y := b\<rparr>)" by blast
    have up1: "up (s\<lparr>out_y := b\<rparr>)" using w(2) by simp
    let ?recv = "if has_input x then wslay_call w (msg_cbs w (msgs x)) (recv_res x) d1 else Some (False, False, d1)"
    let ?gone = "has_input x \<and> (?ended \<or> fatal (recv_res x))" and ?did = "has_input x \<and> \<not> ?ended \<and> recv_res x = wslay_ok"
    obtain d2 where d2: "?recv = Some (?gone, ?did, d2)" "went w (s\<lparr>out_y := b\<rparr>) (ctold (wid_l s) (read_msgs x)) d1 ?gone d2"
      using recv_call_spec [OF went_inv [OF st] b up1 refl, of "msgs x" "recv_res x"] went_refl [OF went_inv [OF st] b]
      by (cases "has_input x") (auto simp: read_msgs_def)
    note w2 = went_trans [OF st d2(2), simplified]
    have step: "proceed_loop w want_read pending (x # xs) d =
        (if ?gone then Some d2 else if ?asks \<and> send_res x = wslay_ok \<or> ?did then proceed_loop w want_read pending xs d2 else proceed_end w want_read pending d2)"
      using w(1) sw d1(1) d2(1) False by auto
    have em: "(\<exists>m \<in> set (read_msgs x). is_end m) = (has_input x \<and> ?ended)" by (auto simp: read_msgs_def)
    show ?thesis
    proof (cases ?gone)
      case True
      then show ?thesis using step w2 False em by auto
    next
      case stay: False
      have w3: "went w s (ctold (wid_l s) (read_msgs x)) d False d2" by (rule went_not [OF w2 stay])
      from went_stays [OF w3] obtain c where c: "wss d2 w = Some (s\<lparr>out_y := c\<rparr>)" by blast
      have up2: "up (s\<lparr>out_y := c\<rparr>)" using w(2) by simp
      show ?thesis
      proof (cases "?asks \<and> send_res x = wslay_ok \<or> ?did")
        case True
        obtain d3 where d3: "proceed_loop w want_read pending xs d2 = Some d3"
            "went w (s\<lparr>out_y := c\<rparr>) (ctold (wid_l s) (fst (fate xs))) d2 (snd (fate xs)) d3"
          using Cons.IH [OF went_inv [OF w3] c up2] by auto
        have f: "fate (x # xs) = (read_msgs x @ fst (fate xs), snd (fate xs))" using True False stay em by (auto simp: Let_def)
        have "proceed_loop w want_read pending (x # xs) d = Some d3" unfolding step if_not_P [OF stay] if_P [OF True] by (rule d3(1))
        then show ?thesis using went_trans [OF w3 d3(2)] unfolding f by simp
      next
        case nd: False
        obtain d3 where d3: "proceed_end w want_read pending d2 = Some d3" "went w (s\<lparr>out_y := c\<rparr>) [] d2 False d3"
          using proceed_end_spec [OF went_inv [OF w3] c up2] by blast
        have f: "fate (x # xs) = (read_msgs x, False)" using nd False stay em by (auto simp: Let_def)
        have "proceed_loop w want_read pending (x # xs) d = Some d3" unfolding step if_not_P [OF stay] if_not_P [OF nd] by (rule d3(1))
        then show ?thesis using went_trans [OF w3 d3(2)] unfolding f by simp
      qed
    qed
  qed
qed

section \<open>Callbacks of a session\<close>

lemma ctold_quiet: "\<forall>x \<in> set (ctold n ms). \<forall>wid. \<not> is_last wid x"
  by (induction ms) (auto simp: is_last_def)

lemma went_kept:
  assumes "went w s (ctold n ms) d gone d'" "ctp_inv d" "wss d w = Some s"
  shows "kept d d'"
proof (cases gone)
  case True
  then show ?thesis using assms(1)
    by (intro kept_end [OF _ ctp_invD(1) [OF assms(2)] assms(3), where e = cws_disconnect and es = "ctold n ms"])
      (simp_all add: went_def ctold_quiet)
next
  case False
  then obtain b where b: "ctp_inv d'" "wss d' = (wss d)(w \<mapsto> s\<lparr>out_y := b\<rparr>)" "ova d' = ova d @ ctold n ms"
    using assms(1) by (auto simp: went_def)
  have "filter (is_last wid) (ctold n ms) = []" for wid using ctold_quiet by (simp add: filter_empty_conv)
  then show ?thesis using b assms(3) by (simp add: kept_def account_def live_upd)
qed

lemma proceed_spec:
  assumes "ctp_inv d" "wss d w = Some s" "up s"
  shows "\<exists>d'. cttp_ws_proceed w want_read pending xs d = Some d' \<and>
    went w s (ctold (wid_l s) (fst (fate xs))) d (snd (fate xs)) d'"
  using proceed_loop_spec [OF assms] assms(2,3) by (simp add: cttp_ws_proceed_def up_def)

lemma inv_up:
  assumes "ctp_inv d" "wss d w = Some s"
  shows "up s \<longleftrightarrow> ceq_u s = 0" "up s \<longleftrightarrow> sat_e s = cws_open \<or> sat_e s = cws_closing" "up s \<longleftrightarrow> sok_u s" "up s \<longleftrightarrow> wsl_w s"
  using ctp_ptrsD(1) [OF ctp_invD(2) [OF assms(1)] assms(2)] by (auto simp: cws_ok_def up_def split: if_splits)

text \<open>What a callback of an open session does: it tells the messages, and of the end if there is one.\<close>

lemma read_cb_spec:
  assumes "ctp_inv d" "wss d w = Some s" "up s"
  shows "\<exists>d'. cttp_ws_read_cb w err want_read pending xs d = Some d' \<and>
    went w s (if err then [] else ctold (wid_l s) (fst (fate xs))) d (err \<or> snd (fate xs)) d'"
  using proceed_spec [OF assms] close_up [OF assms] by (cases err) (simp_all add: cttp_ws_read_cb_def)

lemma out_off:
  assumes inv: "ctp_inv d" and w: "wss d w = Some s"
  shows "ctp_inv (d\<lparr>wss := (wss d)(w \<mapsto> s\<lparr>out_y := b\<rparr>)\<rparr>)"
  by (rule inv_upd_cws [OF inv w]) (use ctp_ptrsD(1) [OF ctp_invD(2) [OF inv] w] in \<open>simp_all add: cws_ok_def\<close>)

lemma write_cb_spec:
  assumes inv: "ctp_inv d" and w: "wss d w = Some s" "up s"
  shows "\<exists>d'. cttp_ws_write_cb w err want_read pending xs d = Some d' \<and>
    went w s (if err then [] else ctold (wid_l s) (fst (fate xs))) d (err \<or> snd (fate xs)) d'"
proof -
  let ?d = "d\<lparr>wss := (wss d)(w \<mapsto> s\<lparr>out_y := False\<rparr>)\<rparr>"
  note i = out_off [OF inv w(1), of False]
  have x: "wss ?d w = Some (s\<lparr>out_y := False\<rparr>)" "up (s\<lparr>out_y := False\<rparr>)" using w(2) by simp_all
  have d1: "went w s [] d False ?d" using i by (auto simp: went_def ctp_same_def)
  have wid: "wid_l (s\<lparr>out_y := False\<rparr>) = wid_l s" by simp
  from read_cb_spec [OF i x, of err want_read pending xs, unfolded wid] obtain d' where d': "cttp_ws_read_cb w err want_read pending xs ?d = Some d'"
    "went w (s\<lparr>out_y := False\<rparr>) (if err then [] else ctold (wid_l s) (fst (fate xs))) ?d (err \<or> snd (fate xs)) d'" by blast
  have "cttp_ws_write_cb w err want_read pending xs d = Some d'"
    using d'(1) w(1) by (simp add: cttp_ws_write_cb_def cttp_ws_read_cb_def upd_cws_def)
  then show ?thesis using went_trans [OF d1 d'(2)] by auto
qed

text \<open>Asked to close, a session that is not open ends at once, and an open one is closing until wslay is done.\<close>

lemma queue_close_spec:
  assumes inv: "ctp_inv d" and w: "wss d w = Some s"
  shows "\<exists>d'. cttp_ws_queue_close w want_read pending xs d = Some d' \<and> kept d d' \<and> ctp_inv d' \<and>
    (if sat_e s = cws_open then
       (\<exists>b. wss d' = (wss d)(w := (if snd (fate xs) then None else Some (s\<lparr>sat_e := cws_closing, out_y := b\<rparr>)))) \<and>
       ova d' = ova d @ ctold (wid_l s) (fst (fate xs)) @ (if snd (fate xs) then [ctp_ws (wid_l s) cws_disconnect] else [])
     else wss d' = (wss d)(w := None) \<and> ova d' = ova d @ [ctp_ws (wid_l s) cws_disconnect] \<and> calls d' = calls d @ close_calls w s d)"
proof (cases "sat_e s = cws_open")
  case False
  then obtain d' where d': "cttp_ws_queue_close w want_read pending xs d = Some d'" "cws_gone w s True d d'" "ctp_inv d'"
    using gone_inv [OF inv w, of True] w by (auto simp: cttp_ws_queue_close_def)
  have "kept d d'" using d'(2,3)
    by (intro kept_end [OF _ ctp_invD(1) [OF inv] w, where e = cws_disconnect and es = "[]"]) (simp_all add: cws_gone_def)
  then show ?thesis using d' False by (simp add: cws_gone_def)
next
  case True
  have up: "up s" using inv_up(2) [OF inv w] True by simp
  let ?s = "s\<lparr>sat_e := cws_closing\<rparr>" let ?d = "cask (wslay_queue_close w) (d\<lparr>wss := (wss d)(w \<mapsto> ?s)\<rparr>)"
  have ok: "cws_ok (rqs d) w s" by (rule ctp_ptrsD(1) [OF ctp_invD(2) [OF inv] w])
  have "ctp_inv (d\<lparr>wss := (wss d)(w \<mapsto> ?s)\<rparr>)"
    by (rule inv_upd_cws [OF inv w]) (use ok up in \<open>simp_all add: cws_ok_def up_def\<close>)
  then have i: "ctp_inv ?d" by simp
  have x: "wss ?d w = Some ?s" "up ?s" using up by (simp_all add: up_def)
  from proceed_spec [OF i x, of want_read pending xs] obtain d' where d': "cttp_ws_proceed w want_read pending xs ?d = Some d'"
    "went w ?s (ctold (wid_l s) (fst (fate xs))) ?d (snd (fate xs)) d'" by auto
  have "kept d ?d" by (rule kept_upd [OF i w, where s' = ?s]) simp_all
  then have k: "kept d d'" by (rule kept_trans) (rule went_kept [OF d'(2) i x(1)])
  have "cttp_ws_queue_close w want_read pending xs d = Some d'"
    using d'(1) w True up by (auto simp: cttp_ws_queue_close_def upd_cws_def up_def)
  moreover have "\<exists>b. wss d' = (wss d)(w := (if snd (fate xs) then None else Some (s\<lparr>sat_e := cws_closing, out_y := b\<rparr>)))"
    and "ova d' = ova d @ ctold (wid_l s) (fst (fate xs)) @ (if snd (fate xs) then [ctp_ws (wid_l s) cws_disconnect] else [])"
    using d'(2) by (auto simp: went_def)
  ultimately show ?thesis using k kept_inv [OF k] unfolding if_P [OF True] by blast
qed

lemma send_message_spec:
  assumes inv: "ctp_inv d" and w: "wss d w = Some s"
  shows "\<exists>b d'. cttp_ws_send_message w opcode body sas want_read pending xs d = Some (b, d') \<and> kept d d'"
proof -
  let ?go = "sat_e s = cws_open \<and> wsl_w s \<and> opcode \<noteq> None \<and> body \<noteq> cbody_bad"
  show ?thesis
  proof (cases ?go)
    case False
    then show ?thesis using kept_refl [OF inv] w by (auto simp: cttp_ws_send_message_def split: option.splits cws_body.splits)
  next
    case True
    then obtain opc where opc: "opcode = Some opc" by auto
    have up: "up s" using inv_up(2) [OF inv w] True by simp
    define buf where "buf = (case body of cbody_octs len octs \<Rightarrow> take (unat len) (octs @ replicate (unat len) 0) | _ \<Rightarrow> [])"
    let ?d = "cask (wslay_queue_msg w (ucast (opc AND 0xFF)) buf) d"
    have i: "ctp_inv ?d" "wss ?d w = Some s" using inv w by simp_all
    from proceed_spec [OF i up] obtain d' where d': "cttp_ws_proceed w want_read pending xs ?d = Some d'" "kept ?d d'"
      using went_kept [OF _ i] by blast
    have "cttp_ws_send_message w opcode body sas want_read pending xs d = (if sas \<noteq> 0 then Some (False, ?d) else Some (True, d'))"
      using True w opc d'(1) unfolding buf_def cttp_ws_send_message_def by (cases body) (simp_all add: Let_def)
    then show ?thesis using d'(2) kept_refl [OF inv] i(1) by (auto simp: kept_def)
  qed
qed

section \<open>The handshake\<close>

lemma ws_check_total:
  assumes "length key = 29" "\<And>x. length (sha x) = 20" "length exp = 29"
  shows "\<exists>res. ws_check sha key err sas hed exp = Some res"
  using compute_accept_spec [of key sha exp] assms by (auto simp: ws_check_def split: option.splits)

text \<open>A response that passes, on a socket that libh2o gives up, opens the session; anything else rejects it.\<close>

lemma on_head_spec:
  assumes inv: "ctp_inv d" and r: "rqs d r = Some q" "wsu_u q \<noteq> 0" and s: "wss d (wsu_u q) = Some s"
    and chk: "ws_check sha (key_c s) err sas hed exp = Some res"
  shows "\<exists>d'. cttp_creq_on_head sha r err sas hed exp steals want_read pending xs d = Some d' \<and> kept d d' \<and>
    rqs d' = (rqs d)(r := None) \<and>
    (if res \<noteq> None \<or> steals = None then
       wss d' = (wss d)(wsu_u q := None) \<and> ova d' = ova d @ [ctp_ws (wid_l s) cws_reject] \<and> calls d' = calls d
     else
       (\<exists>b. wss d' = (wss d)(wsu_u q := (if snd (fate xs) then None
          else Some (s\<lparr>ceq_u := 0, wsl_w := True, sok_u := True, sat_e := cws_open, out_y := b\<rparr>)))) \<and>
       ova d' = ova d @ ctp_ws (wid_l s) cws_accept # ctold (wid_l s) (fst (fate xs)) @
         (if snd (fate xs) then [ctp_ws (wid_l s) cws_disconnect] else []) \<and>
       (\<exists>cs. calls d' = calls d @ (if steals = Some True then [input_drop (wsu_u q)] else []) @ cs @
           (if snd (fate xs) then [wslay_free (wsu_u q), socket_close (wsu_u q)] else []) \<and>
         set cs \<subseteq> {socket_write (wsu_u q), read_start (wsu_u q), read_stop (wsu_u q)}))"
proof (cases "res \<noteq> None \<or> steals = None")
  case True
  have "cttp_creq_on_head sha r err sas hed exp steals want_read pending xs d =
      do { d1 \<leftarrow> cttp_ws_fail_handshake r d; cttp_creq_free r d1 }"
    using r(1) s chk True by (simp add: cttp_creq_on_head_def)
  then show ?thesis using fail_handshake_free [OF inv r] s True by auto
next
  case False
  note lists = ctp_invD(1) [OF inv] note ptrs = ctp_invD(2) [OF inv]
  let ?w = "wsu_u q"
  obtain s' where "wss d ?w = Some s'" "ceq_u s' = r" using ctp_ptrsD(2) [OF ptrs r] by blast
  then have cr: "ceq_u s = r" using s by simp
  have ok: "cws_ok (rqs d) ?w s" by (rule ctp_ptrsD(1) [OF ptrs s])
  have r0: "r \<noteq> 0" by (rule ctp_nonnull(2) [OF lists r(1)])
  let ?s2 = "s\<lparr>ceq_u := 0\<rparr>" let ?q1 = "q\<lparr>wsu_u := 0, cli_u := 0\<rparr>"
  let ?d2 = "d\<lparr>rqs := (rqs d)(r \<mapsto> ?q1), wss := (wss d)(?w \<mapsto> ?s2)\<rparr>"
  have l1: "ctp_lists (d\<lparr>rqs := (rqs d)(r \<mapsto> ?q1)\<rparr>)" by (rule ctp_lists_upd(2) [OF lists r(1)])
  have l2: "ctp_lists ?d2" using ctp_lists_upd(1) [OF l1, where w = ?w and s = s and s' = ?s2] s by simp
  let ?dr = "if steals = Some True then cask (input_drop ?w) ?d2 else ?d2"
  have lr: "ctp_lists ?dr" and rr: "rqs ?dr r = Some ?q1" using l2 by simp_all
  from creq_free_spec [OF lr rr] obtain d3 where d3: "cttp_creq_free r ?dr = Some d3" "ctp_lists d3" "wss d3 = wss ?d2"
      "rqs d3 = (rqs d)(r := None)" "ova d3 = ova d" "ctp_same ?dr d3" "calls d3 = calls ?dr" by auto
  let ?s4 = "?s2\<lparr>wsl_w := True, sok_u := True, sat_e := cws_open\<rparr>"
  let ?d4 = "d3\<lparr>wss := (wss d3)(?w \<mapsto> ?s4)\<rparr>" let ?d5 = "ctell (ctp_ws (wid_l s) cws_accept) ?d4"
  have l4: "ctp_lists ?d4" by (rule ctp_lists_upd(1) [OF d3(2), where w = ?w and s = ?s2]) (simp add: d3(3))
  have w4: "wss ?d4 = (wss d)(?w \<mapsto> ?s4)" using d3(3) by simp
  have p4: "ctp_ptrs ((wss d)(?w \<mapsto> ?s4)) ((rqs d)(r := None))"
  proof -
    have out: "ctp_ptrs ((wss d)(?w := None)) ((rqs d)(r := None))"
      using ptrs_without [OF ptrs s refl] cr r0 ctp_nonnull(2) [OF lists, of 0] by (cases "rqs d 0") auto
    have "cws_ok ((rqs d)(r := None)) ?w ?s4" using ok by (simp add: cws_ok_def)
    then have "cws_ok ((rqs d)(r := None)) x t" if "((wss d)(?w \<mapsto> ?s4)) x = Some t" for x t
      using that ctp_ptrsD(1) [OF out, of x t] by (auto split: if_splits)
    moreover have "\<exists>t. ((wss d)(?w \<mapsto> ?s4)) (wsu_u p) = Some t \<and> ceq_u t = x"
      if "((rqs d)(r := None)) x = Some p" "wsu_u p \<noteq> 0" for x p
      using ctp_ptrsD(2) [OF out that] by (auto split: if_splits)
    ultimately show ?thesis by (simp add: ctp_ptrs_def)
  qed
  have i5: "ctp_inv ?d5" using l4 p4 w4 d3(4) by (simp add: ctp_inv_def)
  have x5: "wss ?d5 ?w = Some ?s4" "up ?s4" by (simp_all add: up_def)
  from proceed_spec [OF i5 x5, of want_read pending xs] obtain d' where d': "cttp_ws_proceed ?w want_read pending xs ?d5 = Some d'"
    "went ?w ?s4 (ctold (wid_l s) (fst (fate xs))) ?d5 (snd (fate xs)) d'" by auto
  have "cttp_creq_on_head sha r err sas hed exp steals want_read pending xs d = Some d'"
    using r(1) s chk False d3(1,3) d'(1)
    by (auto simp: cttp_creq_on_head_def upd_creq_def upd_cws_def cttp_ws_plan_event_def Let_def cong: if_cong)
  moreover have "kept d d'"
  proof (rule kept_trans)
    show "kept d ?d5" using i5 w4 d3(5) s by (simp add: kept_def account_def is_last_def live_upd)
    show "kept ?d5 d'" by (rule went_kept [OF d'(2) i5 x5(1)])
  qed
  moreover have "rqs d' = (rqs d)(r := None)" using d'(2) d3(4) by (simp add: went_def)
  moreover have "\<exists>cs. calls d' = calls d @ (if steals = Some True then [input_drop ?w] else []) @ cs @
      (if snd (fate xs) then [wslay_free ?w, socket_close ?w] else []) \<and> set cs \<subseteq> {socket_write ?w, read_start ?w, read_stop ?w}"
    using d'(2) d3(7) by (auto simp: went_def)
  ultimately show ?thesis using False d'(2) w4 d3(5) by (auto simp: went_def)
qed

end
