(* ===== verification/CttpWsRun.thy ===== *)
theory CttpWsRun
  imports CttpWsOps
begin

text \<open>
  Effects, runs of the driver, its exit, and the properties of its websocket sessions.
\<close>

section \<open>Starting\<close>

lemma creq_new_spec:
  assumes lists: "ctp_lists d"
  shows "\<exists>r d'. cttp_creq_new num pul d = Some (r, d') \<and> ctp_lists d' \<and> wss d' = wss d \<and> ova d' = ova d \<and>
    (if pul = None then r = 0 \<and> d' = d
     else r = brk d \<and> rqs d' = (rqs d)(r \<mapsto> \<lparr>num_l = num, cli_u = 0, csat_e = csat_init, ipf_c = the pul, wsu_u = 0\<rparr>))"
proof (cases pul)
  case None
  then show ?thesis using lists by (simp add: cttp_creq_new_def)
next
  case (Some ip)
  let ?r = "brk d" let ?q = "\<lparr>num_l = num, cli_u = 0, csat_e = csat_init, ipf_c = ip, wsu_u = 0\<rparr>"
  obtain xs where xs: "dlist (rq_l d) 0 (rq_a d) xs" "set xs = dom (rq_l d)" and dom: "dom (rq_l d) = dom (rqs d)" and pos: "0 < brk d"
    using lists unfolding ctp_lists_def by blast
  have new: "rq_l d ?r = None" using ctp_nonnull(4) [OF lists] dom by (metis domIff)
  from link_in_spec [OF xs _ new] pos obtain L where L: "link_in ?r (rq_l d) (rq_a d) = Some (L, ?r)" "dlist L 0 ?r (?r # xs)"
      "dom L = insert ?r (dom (rq_l d))" by auto
  let ?d = "d\<lparr>brk := Suc ?r, rqs := (rqs d)(?r \<mapsto> ?q), rq_l := L, rq_a := ?r\<rparr>"
  have "cttp_creq_new num pul d = Some (?r, ?d)" using Some L(1) by (simp add: cttp_creq_new_def cttp_creq_link_def Let_def)
  moreover have "ctp_lists ?d"
  proof -
    have "set (?r # xs) = dom L" using xs(2) L(3) by simp
    then have "\<exists>ys. dlist L 0 ?r ys \<and> set ys = dom L" using L(2) by blast
    moreover have "\<forall>x \<in> dom (wss d) \<union> insert ?r (dom (rqs d)). x < Suc ?r"
      using lists unfolding ctp_lists_def by (auto simp: less_Suc_eq)
    ultimately show ?thesis using lists L(3) dom unfolding ctp_lists_def by auto
  qed
  ultimately show ?thesis using Some by simp
qed

lemma ws_link_spec:
  assumes lists: "ctp_lists d"
  shows "\<exists>d'. cttp_ws_link (brk d) (d\<lparr>brk := Suc (brk d), wss := (wss d)(brk d \<mapsto> s)\<rparr>) = Some d' \<and> ctp_lists d' \<and>
    wss d' = (wss d)(brk d \<mapsto> s) \<and> rqs d' = rqs d \<and> ova d' = ova d \<and> brk d' = Suc (brk d)"
proof -
  let ?w = "brk d"
  obtain xs where xs: "dlist (ws_l d) 0 (ws_a d) xs" "set xs = dom (ws_l d)" and dom: "dom (ws_l d) = dom (wss d)" and pos: "0 < brk d"
    using lists unfolding ctp_lists_def by blast
  have new: "ws_l d ?w = None" using ctp_nonnull(3) [OF lists] dom by (metis domIff)
  from link_in_spec [OF xs _ new] pos obtain L where L: "link_in ?w (ws_l d) (ws_a d) = Some (L, ?w)" "dlist L 0 ?w (?w # xs)"
      "dom L = insert ?w (dom (ws_l d))" by auto
  let ?d = "d\<lparr>brk := Suc ?w, wss := (wss d)(?w \<mapsto> s), ws_l := L, ws_a := ?w\<rparr>"
  have "set (?w # xs) = dom L" using xs(2) L(3) by simp
  then have "\<exists>ys. dlist L 0 ?w ys \<and> set ys = dom L" using L(2) by blast
  moreover have "\<forall>x \<in> insert ?w (dom (wss d)) \<union> dom (rqs d). x < Suc ?w"
    using lists unfolding ctp_lists_def by (auto simp: less_Suc_eq)
  ultimately have "ctp_lists ?d" using lists L(3) dom unfolding ctp_lists_def by auto
  then show ?thesis using L(1) by (simp add: cttp_ws_link_def)
qed

lemma ptrs_new_creq:
  assumes "ctp_ptrs H Q" "Q r = None" "wsu_u q = 0"
  shows "ctp_ptrs H (Q(r \<mapsto> q))"
proof -
  have "cws_ok (Q(r \<mapsto> q)) w s" if "H w = Some s" for w s
    using ctp_ptrsD(1) [OF assms(1) that] assms(2) by (auto simp: cws_ok_def)
  then show ?thesis using ctp_ptrsD(2) [OF assms(1)] assms(3) by (auto simp: ctp_ptrs_def)
qed

lemma request_spec:
  assumes inv: "ctp_inv d" and new: "cttp_creq_new num pul d = Some (r, d1)" "r \<noteq> 0"
  shows "\<exists>d2. cttp_creq_start r cli fails d1 = Some d2 \<and> kept d d2"
proof -
  note lists = ctp_invD(1) [OF inv]
  have pul: "pul \<noteq> None" using new by (cases pul) (auto simp: cttp_creq_new_def)
  then have d1: "ctp_lists d1" "wss d1 = wss d" "ova d1 = ova d" "r = brk d"
      "rqs d1 = (rqs d)(r \<mapsto> \<lparr>num_l = num, cli_u = 0, csat_e = csat_init, ipf_c = the pul, wsu_u = 0\<rparr>)"
    using creq_new_spec [OF lists, of num pul] new by auto
  have "ctp_inv d1" using ptrs_new_creq [OF ctp_invD(2) [OF inv] ctp_nonnull(4) [OF lists]] d1 by (simp add: ctp_inv_def)
  moreover have "rqs d1 r \<noteq> None" using d1(5) by simp
  ultimately obtain d2 where "cttp_creq_start r cli fails d1 = Some d2" "kept d1 d2" using start_spec by blast
  moreover have "kept d d1" by (rule kept_same) (use \<open>ctp_inv d1\<close> d1 in simp_all)
  ultimately show ?thesis using kept_trans by blast
qed

text \<open>A handshake opens an account, whatever becomes of its request.\<close>

lemma ws_start_spec:
  assumes inv: "ctp_inv d" and rad: "length rad = 16"
  shows "\<exists>d'. cttp_ws_start wid rad pul cli fails d = Some d' \<and> ctp_inv d' \<and>
    (\<forall>x. account x d' = account x d + (if x = wid then 1 else 0))"
proof -
  note lists = ctp_invD(1) [OF inv] note ptrs = ctp_invD(2) [OF inv]
  obtain key where key: "cttp_ws_generate_key rad = Some key" "length key = 29" using generate_key_spec [OF rad] by auto
  let ?w = "brk d"
  let ?s = "\<lparr>wid_l = wid, sat_e = cws_pending, key_c = key, ceq_u = 0, sok_u = False, wsl_w = False,
                  out_y = False, wsl_on = False, clo_ev = False, clo_on = False\<rparr>"
  from ws_link_spec [OF lists, of ?s] obtain d1 where d1:
    "cttp_ws_link ?w (d\<lparr>brk := Suc ?w, wss := (wss d)(?w \<mapsto> ?s)\<rparr>) = Some d1" "ctp_lists d1" "wss d1 = (wss d)(?w \<mapsto> ?s)"
    "rqs d1 = rqs d" "ova d1 = ova d" "brk d1 = Suc ?w" by blast
  from creq_new_spec [OF d1(2), of wid pul] obtain r d2 where d2: "cttp_creq_new wid pul d1 = Some (r, d2)" "ctp_lists d2"
    "wss d2 = wss d1" "ova d2 = ova d1" "if pul = None then r = 0 \<and> d2 = d1
     else r = brk d1 \<and> rqs d2 = (rqs d1)(r \<mapsto> \<lparr>num_l = wid, cli_u = 0, csat_e = csat_init, ipf_c = the pul, wsu_u = 0\<rparr>)" by blast
  have w0: "?w \<noteq> 0" using lists by (simp add: ctp_lists_def)
  have fresh: "wss d ?w = None" by (rule ctp_nonnull(3) [OF lists])
  have liv: "live x ((wss d)(?w \<mapsto> ?s)) = live x (wss d) + (if x = wid then 1 else 0)" for x
    using live_without [of "(wss d)(?w \<mapsto> ?s)" ?w ?s x] ctp_finite [OF lists] fresh by (auto simp: fun_upd_idem)
  show ?thesis
  proof (cases "r = 0")
    case True
    then have pul: "pul = None" "d2 = d1" using d2(5) d1(6) by (auto split: if_splits)
    let ?d3 = "ctell (ctp_ws wid cws_reject) d1"
    have "ctp_lists ?d3" "wss ?d3 ?w = Some ?s" using d1 by simp_all
    from close_spec [OF this, of False] obtain d4 where d4: "cttp_ws_close ?w False ?d3 = Some d4" "cws_gone ?w ?s False ?d3 d4" by auto
    have st: "wss d4 = wss d" "rqs d4 = rqs d" "ctp_lists d4" "ova d4 = ova d @ [ctp_ws wid cws_reject]"
      using d4(2) d1 fresh fun_upd_idem [of "wss d" ?w None] by (simp_all add: cws_gone_def)
    have "cttp_ws_start wid rad pul cli fails d = Some d4"
      using key d1 d2 True pul d4(1) by (simp add: cttp_ws_start_def cttp_ws_plan_event_def Let_def)
    moreover have "ctp_inv d4" using ptrs st by (simp add: ctp_inv_def)
    ultimately show ?thesis using st by (auto simp: account_def is_last_def)
  next
    case False
    then have r: "r = Suc ?w" "rqs d2 = (rqs d)(r \<mapsto> \<lparr>num_l = wid, cli_u = 0, csat_e = csat_init, ipf_c = the pul, wsu_u = 0\<rparr>)"
      using d2(5) d1(4,6) by (auto split: if_splits)
    have freshr: "rqs d r = None" using ctp_nonnull(4) [OF d1(2)] d1(4,6) r(1) by simp
    let ?q = "\<lparr>num_l = wid, cli_u = 0, csat_e = csat_init, ipf_c = the pul, wsu_u = ?w\<rparr>" let ?t = "?s\<lparr>ceq_u := r\<rparr>"
    let ?d3 = "d2\<lparr>rqs := (rqs d)(r \<mapsto> ?q)\<rparr>" let ?d4 = "?d3\<lparr>wss := (wss d)(?w \<mapsto> ?t)\<rparr>"
    have l3: "ctp_lists ?d3" using ctp_lists_upd(2) [OF d2(2), where r = r and q' = ?q] r(2) by simp
    have l4: "ctp_lists ?d4" using ctp_lists_upd(1) [OF l3, where w = ?w and s' = ?t] d2(3) d1(3) by simp
    have "ctp_ptrs ((wss d)(?w \<mapsto> ?t)) ((rqs d)(r \<mapsto> ?q))"
    proof -
      have "cws_ok ((rqs d)(r \<mapsto> ?q)) x u" if "((wss d)(?w \<mapsto> ?t)) x = Some u" for x u
        using that ctp_ptrsD(1) [OF ptrs, of x u] freshr key(2) r(1) by (auto simp: cws_ok_def split: if_splits)
      moreover have "\<exists>u. ((wss d)(?w \<mapsto> ?t)) (wsu_u p) = Some u \<and> ceq_u u = x"
        if "((rqs d)(r \<mapsto> ?q)) x = Some p" "wsu_u p \<noteq> 0" for x p
        using that ctp_ptrsD(2) [OF ptrs, of x p] fresh by (auto split: if_splits)
      ultimately show ?thesis by (simp add: ctp_ptrs_def)
    qed
    then have i4: "ctp_inv ?d4" using l4 by (simp add: ctp_inv_def)
    have "rqs ?d4 r = Some ?q" by simp
    from start_spec [OF i4 this] obtain d5 where d5: "cttp_creq_start r cli fails ?d4 = Some d5" "kept ?d4 d5" by blast
    have "cttp_ws_start wid rad pul cli fails d = Some d5"
      using key d1 d2 False r d5(1) by (simp add: cttp_ws_start_def upd_creq_def upd_cws_def Let_def)
    moreover have "account x ?d4 = account x d + (if x = wid then 1 else 0)" for x
      using liv [of x] live_upd [of "(wss d)(?w \<mapsto> ?s)" ?w ?s ?t x] d2(4) d1(5) by (simp add: account_def)
    ultimately show ?thesis using d5(2) by (auto simp: kept_def)
  qed
qed

section \<open>Finding\<close>

lemma ws_find_loop_spec:
  "dlist L p x xs \<Longrightarrow> set xs \<subseteq> dom h \<Longrightarrow>
   \<exists>y. ws_find_loop h L x wid = Some y \<and> (y \<noteq> 0 \<longrightarrow> (\<exists>s. h y = Some s \<and> wid_l s = wid)) \<and> (y = 0 \<longrightarrow> (\<forall>z \<in> set xs. wid_l (the (h z)) \<noteq> wid))"
proof (induction xs arbitrary: p x)
  case Nil
  then show ?case by (simp add: ws_find_loop.simps)
next
  case (Cons a xs)
  then obtain n s where n: "x = a" "x \<noteq> 0" "L x = Some (n, p)" "dlist L x n xs" "h x = Some s" by auto
  show ?case
  proof (cases "wid_l s = wid")
    case True
    then show ?thesis using n by (subst ws_find_loop.simps) auto
  next
    case False
    then have "ws_find_loop h L x wid = ws_find_loop h L n wid" using n by (subst ws_find_loop.simps) auto
    then show ?thesis using Cons.IH [OF n(4)] Cons.prems(2) False n(1,5) by auto
  qed
qed

lemma creq_find_loop_spec:
  "dlist L p x xs \<Longrightarrow> set xs \<subseteq> dom h \<Longrightarrow> \<exists>y. creq_find_loop h L x num = Some y \<and> (y \<noteq> 0 \<longrightarrow> (\<exists>q. h y = Some q \<and> num_l q = num))"
proof (induction xs arbitrary: p x)
  case Nil
  then show ?case by (simp add: creq_find_loop.simps)
next
  case (Cons a xs)
  then obtain n q where n: "x = a" "x \<noteq> 0" "L x = Some (n, p)" "dlist L x n xs" "h x = Some q" by auto
  show ?case
  proof (cases "num_l q = num")
    case True
    then show ?thesis using n by (subst creq_find_loop.simps) auto
  next
    case False
    then have "creq_find_loop h L x num = creq_find_loop h L n num" using n by (subst creq_find_loop.simps) auto
    then show ?thesis using Cons.IH [OF n(4)] Cons.prems(2) by auto
  qed
qed

lemma find_spec:
  assumes "ctp_inv d"
  shows "\<exists>w. cttp_ws_find d wid = Some w \<and> (w \<noteq> 0 \<longrightarrow> (\<exists>s. wss d w = Some s \<and> wid_l s = wid)) \<and>
      (w = 0 \<longrightarrow> (\<forall>x s. wss d x = Some s \<longrightarrow> wid_l s \<noteq> wid))"
    and "\<exists>r. cttp_creq_find d num = Some r \<and> (r \<noteq> 0 \<longrightarrow> (\<exists>q. rqs d r = Some q \<and> num_l q = num))"
proof -
  obtain xs ys where xs: "dlist (ws_l d) 0 (ws_a d) xs" "set xs = dom (wss d)" "dlist (rq_l d) 0 (rq_a d) ys" "set ys = dom (rqs d)"
    using ctp_invD(1) [OF assms] unfolding ctp_lists_def by metis
  show "\<exists>w. cttp_ws_find d wid = Some w \<and> (w \<noteq> 0 \<longrightarrow> (\<exists>s. wss d w = Some s \<and> wid_l s = wid)) \<and>
      (w = 0 \<longrightarrow> (\<forall>x s. wss d x = Some s \<longrightarrow> wid_l s \<noteq> wid))"
  proof -
    obtain w where w: "cttp_ws_find d wid = Some w" "w \<noteq> 0 \<Longrightarrow> \<exists>s. wss d w = Some s \<and> wid_l s = wid"
        "w = 0 \<Longrightarrow> \<forall>z \<in> dom (wss d). wid_l (the (wss d z)) \<noteq> wid"
      using ws_find_loop_spec [OF xs(1), of "wss d" wid] xs(2) unfolding cttp_ws_find_def by auto
    have "w = 0 \<Longrightarrow> wss d x = Some s \<Longrightarrow> wid_l s \<noteq> wid" for x s using w(3) by (metis domI option.sel)
    then show ?thesis using w(1,2) by blast
  qed
  show "\<exists>r. cttp_creq_find d num = Some r \<and> (r \<noteq> 0 \<longrightarrow> (\<exists>q. rqs d r = Some q \<and> num_l q = num))"
    using creq_find_loop_spec [OF xs(3), of "rqs d" num] xs(4) unfolding cttp_creq_find_def by simp
qed

section \<open>Effects\<close>

text \<open>The session number that an effect begins.\<close>

definition begun :: "cttp_ef \<Rightarrow> u32 option" where
  "begun ef = (case ef of ef_handshake n \<Rightarrow> n | _ \<Rightarrow> None)"

lemma effect_spec:
  assumes inv: "ctp_inv d" and rad: "length rad = 16"
  shows "\<exists>b d'. cttp_ef_http_client ef pul cli fails rad sas want_read pending xs d = Some (b, d') \<and> ctp_inv d' \<and>
    (\<forall>x. account x d' = account x d + (if begun ef = Some x then 1 else 0))"
proof -
  have none: "\<exists>b d'. f = Some (b, d') \<and> ctp_inv d' \<and> (\<forall>x. account x d' = account x d)"
    if "\<exists>b d'. f = Some (b, d') \<and> kept d d'" for f :: "(bool \<times> cttp) option"
    using that by (auto simp: kept_def)
  show ?thesis
  proof (cases ef)
    case (ef_handshake n)
    show ?thesis
    proof (cases n)
      case (Some wid)
      obtain d' where "cttp_ws_start wid rad pul cli fails d = Some d'" "ctp_inv d'"
          "\<forall>x. account x d' = account x d + (if x = wid then 1 else 0)" using ws_start_spec [OF inv rad] by blast
      then show ?thesis using ef_handshake Some by (auto simp: cttp_ef_http_client_def begun_def)
    qed (use ef_handshake inv in \<open>auto simp: cttp_ef_http_client_def begun_def\<close>)
  next
    case (ef_request n)
    have "\<exists>b d'. cttp_ef_http_client ef pul cli fails rad sas want_read pending xs d = Some (b, d') \<and> kept d d'"
    proof (cases n)
      case (Some num)
      obtain r d1 where r: "cttp_creq_new num pul d = Some (r, d1)" "pul = None \<Longrightarrow> d1 = d" "pul \<noteq> None \<Longrightarrow> r = brk d"
        using creq_new_spec [OF ctp_invD(1) [OF inv], of num pul] by auto
      have "r \<noteq> 0" if "pul \<noteq> None" using r(3) that ctp_invD(1) [OF inv] by (simp add: ctp_lists_def)
      then show ?thesis using request_spec [OF inv r(1), of cli fails] r(1,2) ef_request Some kept_refl [OF inv]
        by (cases "r = 0") (auto simp: cttp_ef_http_client_def)
    qed (use ef_request kept_refl [OF inv] in \<open>auto simp: cttp_ef_http_client_def\<close>)
    from none [OF this] show ?thesis using ef_request by (simp add: begun_def)
  next
    case (ef_cancel n)
    have "\<exists>b d'. cttp_ef_http_client ef pul cli fails rad sas want_read pending xs d = Some (b, d') \<and> kept d d'"
    proof (cases n)
      case (Some num)
      obtain w where w: "cttp_creq_find d num = Some w" "w \<noteq> 0 \<Longrightarrow> \<exists>s. rqs d w = Some s" using find_spec(2) [OF inv] by blast
      show ?thesis
      proof (cases "w = 0")
        case True
        then show ?thesis using ef_cancel Some w(1) kept_refl [OF inv] by (auto simp: cttp_ef_http_client_def)
      next
        case False
        then obtain s where "rqs d w = Some s" using w(2) by blast
        from quit_spec [OF inv this] show ?thesis using ef_cancel Some w(1) False by (auto simp: cttp_ef_http_client_def)
      qed
    qed (use ef_cancel kept_refl [OF inv] in \<open>auto simp: cttp_ef_http_client_def\<close>)
    from none [OF this] show ?thesis using ef_cancel by (simp add: begun_def)
  next
    case (ef_message n opc body)
    have "\<exists>b d'. cttp_ef_http_client ef pul cli fails rad sas want_read pending xs d = Some (b, d') \<and> kept d d'"
    proof (cases n)
      case (Some wid)
      obtain w where w: "cttp_ws_find d wid = Some w" "w \<noteq> 0 \<Longrightarrow> \<exists>s. wss d w = Some s" using find_spec(1) [OF inv] by blast
      show ?thesis
      proof (cases "w = 0")
        case True
        then show ?thesis using ef_message Some w(1) kept_refl [OF inv] by (auto simp: cttp_ef_http_client_def)
      next
        case False
        then obtain s where "wss d w = Some s" using w(2) by blast
        from send_message_spec [OF inv this, of opc body sas want_read pending xs] show ?thesis using ef_message Some w(1) False by (auto simp: cttp_ef_http_client_def)
      qed
    qed (use ef_message kept_refl [OF inv] in \<open>auto simp: cttp_ef_http_client_def\<close>)
    from none [OF this] show ?thesis using ef_message by (simp add: begun_def)
  next
    case (ef_disconnect n)
    have "\<exists>b d'. cttp_ef_http_client ef pul cli fails rad sas want_read pending xs d = Some (b, d') \<and> kept d d'"
    proof (cases n)
      case (Some wid)
      obtain w where w: "cttp_ws_find d wid = Some w" "w \<noteq> 0 \<Longrightarrow> \<exists>s. wss d w = Some s" using find_spec(1) [OF inv] by blast
      show ?thesis
      proof (cases "w = 0")
        case True
        then show ?thesis using ef_disconnect Some w(1) kept_refl [OF inv] by (auto simp: cttp_ef_http_client_def)
      next
        case False
        then obtain s where "wss d w = Some s" using w(2) by blast
        from queue_close_spec [OF inv this, of want_read pending xs] show ?thesis using ef_disconnect Some w(1) False by (auto simp: cttp_ef_http_client_def)
      qed
    qed (use ef_disconnect kept_refl [OF inv] in \<open>auto simp: cttp_ef_http_client_def\<close>)
    from none [OF this] show ?thesis using ef_disconnect by (simp add: begun_def)
  next
    case (ef_accept n)
    then show ?thesis using inv find_spec(1) [OF inv, of "the n"] by (cases n) (auto simp: cttp_ef_http_client_def begun_def)
  next
    case (ef_strange n)
    then show ?thesis using inv find_spec(1) [OF inv, of "the n"] by (cases n) (auto simp: cttp_ef_http_client_def begun_def)
  next
    case ef_other
    then show ?thesis using inv by (auto simp: cttp_ef_http_client_def begun_def)
  qed
qed

section \<open>Runs\<close>

text \<open>What happens to the driver: an effect of Iris, or a callback of a library.\<close>

datatype cttp_act =
    act_effect cttp_ef "bool option" nat bool "u32 list" int bool bool "round list"
  | act_resolved nat bool nat bool
  | act_connected nat bool
  | act_head nat bool int "(u8 list \<times> u8 list) list" "u8 list" "bool option" bool bool "round list"
  | act_read nat bool bool bool "round list"
  | act_written nat bool bool bool "round list"

definition cttp_step :: "(u8 list \<Rightarrow> u8 list) \<Rightarrow> cttp_act \<Rightarrow> cttp \<Rightarrow> cttp option" where
  "cttp_step sha a d =
     (case a of
        act_effect ef pul cli fails rad sas want_read pending xs \<Rightarrow>
          do { (b, d1) \<leftarrow> cttp_ef_http_client ef pul cli fails rad sas want_read pending xs d; Some d1 }
      | act_resolved r err cli fails \<Rightarrow> cttp_creq_resolve_cb r err cli fails (d\<lparr>addrs := remove1 r (addrs d)\<rparr>)
      | act_connected r err \<Rightarrow> cttp_creq_on_connect r err d
      | act_head r err sas hed exp steals want_read pending xs \<Rightarrow> cttp_creq_on_head sha r err sas hed exp steals want_read pending xs d
      | act_read w err want_read pending xs \<Rightarrow> cttp_ws_read_cb w err want_read pending xs d
      | act_written w err want_read pending xs \<Rightarrow> cttp_ws_write_cb w err want_read pending xs d)"

text \<open>
  When it may: libuv answers lookups, libh2o calls back for a connection it was given, and for the head of
  a handshake, a socket for its session, and each for an object that is still there.
\<close>

definition timely :: "cttp_act \<Rightarrow> cttp \<Rightarrow> bool" where
  "timely a d =
     (case a of
        act_effect ef pul cli fails rad sas want_read pending xs \<Rightarrow> length rad = 16
      | act_resolved r err cli fails \<Rightarrow> r \<in> set (addrs d) \<and> rqs d r \<noteq> None
      | act_connected r err \<Rightarrow> (case rqs d r of None \<Rightarrow> False | Some q \<Rightarrow> csat_e q = csat_ripe)
      | act_head r err sas hed exp steals want_read pending xs \<Rightarrow>
          length exp = 29 \<and> (case rqs d r of None \<Rightarrow> False | Some q \<Rightarrow> csat_e q = csat_ripe \<and> wsu_u q \<noteq> 0)
      | act_read w err want_read pending xs \<Rightarrow> (case wss d w of None \<Rightarrow> False | Some s \<Rightarrow> sok_u s)
      | act_written w err want_read pending xs \<Rightarrow> (case wss d w of None \<Rightarrow> False | Some s \<Rightarrow> sok_u s))"

inductive cttp_reaches :: "(u8 list \<Rightarrow> u8 list) \<Rightarrow> cttp_act list \<Rightarrow> cttp \<Rightarrow> bool" for sha :: "u8 list \<Rightarrow> u8 list" where
  cttp_begins: "cttp_reaches sha [] new_cttp"
| cttp_goes_on: "cttp_reaches sha acts d \<Longrightarrow> timely a d \<Longrightarrow> cttp_step sha a d = Some d' \<Longrightarrow> cttp_reaches sha (acts @ [a]) d'"

definition begins :: "u32 \<Rightarrow> cttp_act \<Rightarrow> bool" where
  "begins wid a \<longleftrightarrow> (case a of act_effect ef _ _ _ _ _ _ _ _ \<Rightarrow> begun ef = Some wid | _ \<Rightarrow> False)"

lemma on_connect_spec:
  assumes inv: "ctp_inv d" and r: "rqs d r = Some q" "csat_e q = csat_ripe"
  shows "\<exists>d'. cttp_creq_on_connect r err d = Some d' \<and> kept d d'"
proof (cases err)
  case True
  then show ?thesis using fail_spec [OF inv r(1)] r by (simp add: cttp_creq_on_connect_def)
next
  case False
  then show ?thesis using kept_refl [OF inv] inv r by (simp add: cttp_creq_on_connect_def kept_def)
qed

lemma step_spec:
  assumes sha: "\<And>x. length (sha x) = 20" and inv: "ctp_inv d" and a: "timely a d"
  shows "\<exists>d'. cttp_step sha a d = Some d' \<and> ctp_inv d' \<and> (\<forall>wid. account wid d' = account wid d + (if begins wid a then 1 else 0))"
proof -
  have quiet: "\<exists>d'. f = Some d' \<and> ctp_inv d' \<and> (\<forall>wid. account wid d' = account wid d)" if "\<exists>d'. f = Some d' \<and> kept d d'" for f
    using that by (auto simp: kept_def)
  show ?thesis
  proof (cases a)
    case (act_effect ef pul cli fails rad sas want_read pending xs)
    then have "length rad = 16" using a by (simp add: timely_def)
    from effect_spec [OF inv this, of ef pul cli fails sas want_read pending xs] show ?thesis
      using act_effect by (auto simp: cttp_step_def begins_def)
  next
    case (act_resolved r err cli fails)
    then obtain q where q: "rqs d r = Some q" using a by (auto simp: timely_def)
    let ?d = "d\<lparr>addrs := remove1 r (addrs d)\<rparr>"
    have "ctp_inv ?d" "rqs ?d r = Some q" using inv_addrs [OF inv] q by simp_all
    from resolve_cb_spec [OF this, of err cli fails] have "\<exists>d'. cttp_step sha a d = Some d' \<and> kept d d'"
      using act_resolved by (auto simp: cttp_step_def kept_def)
    from quiet [OF this] show ?thesis using act_resolved by (simp add: begins_def)
  next
    case (act_connected r err)
    then obtain q where q: "rqs d r = Some q" "csat_e q = csat_ripe" using a by (auto simp: timely_def split: option.splits)
    from on_connect_spec [OF inv q, of err] have "\<exists>d'. cttp_step sha a d = Some d' \<and> kept d d'"
      using act_connected by (simp add: cttp_step_def)
    from quiet [OF this] show ?thesis using act_connected by (simp add: begins_def)
  next
    case (act_head r err sas hed exp steals want_read pending xs)
    then obtain q where q: "rqs d r = Some q" "wsu_u q \<noteq> 0" "length exp = 29" using a by (auto simp: timely_def split: option.splits)
    obtain s where s: "wss d (wsu_u q) = Some s" using ctp_ptrsD(2) [OF ctp_invD(2) [OF inv] q(1,2)] by blast
    have "length (key_c s) = 29" using ctp_ptrsD(1) [OF ctp_invD(2) [OF inv] s] by (simp add: cws_ok_def)
    from ws_check_total [where sha = sha, OF this sha q(3), of err sas hed] obtain res where
      res: "ws_check sha (key_c s) err sas hed exp = Some res" by blast
    from on_head_spec [OF inv q(1,2) s res, of steals want_read pending xs] have "\<exists>d'. cttp_step sha a d = Some d' \<and> kept d d'"
      using act_head by (auto simp: cttp_step_def)
    from quiet [OF this] show ?thesis using act_head by (simp add: begins_def)
  next
    case (act_read w err want_read pending xs)
    then obtain s where s: "wss d w = Some s" "up s" using a inv_up(3) [OF inv] by (auto simp: timely_def split: option.splits)
    from read_cb_spec [OF inv s, of err want_read pending xs] have "\<exists>d'. cttp_step sha a d = Some d' \<and> kept d d'"
      using act_read went_kept [OF _ inv s(1), where ms = "[]", simplified] went_kept [OF _ inv s(1)] by (cases err) (auto simp: cttp_step_def)
    from quiet [OF this] show ?thesis using act_read by (simp add: begins_def)
  next
    case (act_written w err want_read pending xs)
    then obtain s where s: "wss d w = Some s" "up s" using a inv_up(3) [OF inv] by (auto simp: timely_def split: option.splits)
    from write_cb_spec [OF inv s, of err want_read pending xs] have "\<exists>d'. cttp_step sha a d = Some d' \<and> kept d d'"
      using act_written went_kept [OF _ inv s(1), where ms = "[]", simplified] went_kept [OF _ inv s(1)] by (cases err) (auto simp: cttp_step_def)
    from quiet [OF this] show ?thesis using act_written by (simp add: begins_def)
  qed
qed

lemma new_inv: "ctp_inv new_cttp"
  by (auto simp: ctp_inv_def ctp_lists_def ctp_ptrs_def new_cttp_def intro!: exI [of _ "[]"])

lemma reaches_spec:
  assumes "cttp_reaches sha acts d" and sha: "\<And>x. length (sha x) = 20"
  shows "ctp_inv d \<and> (\<forall>wid. account wid d = length (filter (begins wid) acts))"
  using assms(1)
proof induction
  case cttp_begins
  then show ?case using new_inv by (simp add: account_def live_def new_cttp_def)
next
  case (cttp_goes_on acts d a d')
  then show ?case using step_spec [where sha = sha, OF sha _ cttp_goes_on.hyps(2)] by auto
qed

text \<open>
  C7: In a run of the client, every session number hears of exactly one end, a rejection or a
  disconnection, for each handshake that has been begun under it and whose session is over, whatever Iris
  asks, the servers answer and the peers send, and however many ends come at once. The state stays good,
  and nothing that may happen next is a fault, as long as the libraries call back for objects that are still
  there.
\<close>
theorem cttp_ws_ends_once:
  assumes run: "cttp_reaches sha acts d" and sha: "\<And>x. length (sha x) = 20"
  shows "(\<forall>wid. length (filter (is_last wid) (ova d)) + card {w. \<exists>s. wss d w = Some s \<and> wid_l s = wid} = length (filter (begins wid) acts)) \<and>
    ctp_inv d \<and> (\<forall>a. timely a d \<longrightarrow> cttp_step sha a d \<noteq> None)"
  using reaches_spec [OF run sha] step_spec [where sha = sha, OF sha] by (fastforce simp: account_def live_def)

lemma cttp_ws_ends_once_witness:
  "\<exists>d. cttp_reaches (\<lambda>_. replicate 20 0) [act_effect (ef_handshake (Some 7)) None 0 False (replicate 16 0) 0 False False []] d \<and>
    ova d = [ctp_ws 7 cws_reject] \<and> card {w. \<exists>s. wss d w = Some s \<and> wid_l s = 7} = 0"
proof -
  let ?a = "act_effect (ef_handshake (Some 7)) None 0 False (replicate 16 0) 0 False False []"
  let ?sha = "\<lambda>_ :: u8 list. replicate 20 (0 :: u8)"
  have "length (replicate 16 (0 :: u32)) = 16" by simp
  from generate_key_spec [OF this] obtain key where key: "cttp_ws_generate_key (replicate 16 0) = Some key" by blast
  have st: "cttp_step ?sha ?a new_cttp = Some (new_cttp\<lparr>brk := 2, ova := [ctp_ws 7 cws_reject]\<rparr>)"
    using key by (simp add: cttp_step_def cttp_ef_http_client_def cttp_ws_start_def cttp_ws_link_def link_in_def cttp_creq_new_def
      cttp_ws_plan_event_def cttp_ws_close_def cttp_ws_unlink_def link_out_def free_cws_def upd_cws_def new_cttp_def ctell_def Let_def)
  have "timely ?a new_cttp" by (simp add: timely_def)
  from cttp_goes_on [OF cttp_begins this st] have run: "cttp_reaches ?sha [?a] (new_cttp\<lparr>brk := 2, ova := [ctp_ws 7 cws_reject]\<rparr>)" by simp
  have "length (replicate 20 (0 :: u8)) = 20" by simp
  from cttp_ws_ends_once [where sha = ?sha, OF run this] show ?thesis using run by (intro exI conjI) (auto simp: new_cttp_def)
qed

section \<open>Exit\<close>

lemma dlist_head: "dlist L p a xs \<Longrightarrow> a = (if xs = [] then 0 else hd xs)"
  by (cases xs) auto

definition of_no_session :: "(nat \<rightharpoonup> creq) \<Rightarrow> nat \<rightharpoonup> creq" where
  "of_no_session Q r = (case Q r of None \<Rightarrow> None | Some q \<Rightarrow> if wsu_u q = 0 then Some q else None)"

lemma exit_ws_loop_spec:
  "ctp_inv d \<Longrightarrow> dlist (ws_l d) 0 (ws_a d) xs \<Longrightarrow> set xs = dom (wss d) \<Longrightarrow>
   \<exists>d'. exit_ws_loop (ws_a d) d = Some d' \<and> ctp_inv d' \<and> wss d' = Map.empty \<and> ova d' = ova d \<and> rqs d' = of_no_session (rqs d)"
proof (induction xs arbitrary: d)
  case Nil
  have no: "wss d = Map.empty" using Nil.prems(3) by (metis dom_eq_empty_conv set_empty2)
  have "of_no_session (rqs d) r = rqs d r" for r
    using ctp_ptrsD(2) [OF ctp_invD(2) [OF Nil.prems(1)], of r] no by (auto simp: of_no_session_def split: option.splits)
  then have "of_no_session (rqs d) = rqs d" by (rule ext)
  then show ?case using Nil no by (simp add: exit_ws_loop.simps)
next
  case (Cons x xs)
  note inv = Cons.prems(1)
  obtain n where x: "ws_a d = x" "x \<noteq> 0" "ws_l d x = Some (n, 0)" "dlist (ws_l d) x n xs" using Cons.prems(2) by auto
  obtain s where s: "wss d x = Some s" using Cons.prems(3) by auto
  obtain d1 where d1: "cttp_ws_close x False d = Some d1" "cws_gone x s False d d1" "ctp_inv d1" using gone_inv [OF inv s] by blast
  have l1: "dlist (ws_l d1) 0 (ws_a d1) xs"
    using d1(2) Cons.prems(2,3) unfolding cws_gone_def ws_shorter_def by (metis remove1.simps(2))
  have "x \<notin> set xs" using dlist_distinct [OF Cons.prems(2)] by simp
  then have s1: "set xs = dom (wss d1)" using d1(2) Cons.prems(3) by (auto simp: cws_gone_def)
  have "n = ws_a d1" using dlist_head [OF x(4)] dlist_head [OF l1] by simp
  then have step: "exit_ws_loop (ws_a d) d = exit_ws_loop (ws_a d1) d1" using x d1(1) by (subst exit_ws_loop.simps) simp
  have ok: "cws_ok (rqs d) x s" by (rule ctp_ptrsD(1) [OF ctp_invD(2) [OF inv] s])
  have "of_no_session (rqs d1) = of_no_session (rqs d)"
  proof
    fix r
    show "of_no_session (rqs d1) r = of_no_session (rqs d) r"
      using d1(2) ok x(2) by (auto simp: of_no_session_def cws_gone_def cws_ok_def split: option.splits if_splits)
  qed
  then show ?case using Cons.IH [OF d1(3) l1 s1] step d1(2) by (simp add: cws_gone_def)
qed

lemma exit_creq_loop_spec:
  "ctp_inv d \<Longrightarrow> dlist (rq_l d) p x xs \<Longrightarrow> set xs \<subseteq> dom (rqs d) \<Longrightarrow> \<forall>r q. rqs d r = Some q \<longrightarrow> wsu_u q = 0 \<Longrightarrow>
   exit_creq_loop x d = None \<longleftrightarrow> (\<exists>r \<in> set xs. csat_e (the (rqs d r)) \<noteq> csat_addr)"
proof (induction xs arbitrary: d p x)
  case Nil
  then show ?case by (simp add: exit_creq_loop.simps)
next
  case (Cons a xs)
  note inv = Cons.prems(1)
  from Cons.prems(2,3) obtain n q where x: "x = a" "x \<noteq> 0" "rq_l d x = Some (n, p)" "dlist (rq_l d) x n xs" "rqs d x = Some q" by auto
  have q0: "wsu_u q = 0" using Cons.prems(4) x(5) by blast
  show ?case
  proof (cases "csat_e q = csat_addr")
    case True
    let ?d = "d\<lparr>rqs := (rqs d)(x \<mapsto> q\<lparr>csat_e := csat_quit\<rparr>)\<rparr>"
    have quit: "cttp_creq_quit x d = Some ?d" using True q0 x(5) by (simp add: cttp_creq_quit_def upd_creq_def)
    then have step: "exit_creq_loop x d = exit_creq_loop n ?d" using x by (subst exit_creq_loop.simps) simp
    have i: "ctp_inv ?d" by (rule inv_upd_creq [OF inv x(5)]) simp
    have "a \<notin> set xs" using dlist_distinct [OF Cons.prems(2)] by simp
    then have same: "rqs ?d r = rqs d r" if "r \<in> set xs" for r using that x(1) by auto
    have "exit_creq_loop n ?d = None \<longleftrightarrow> (\<exists>r \<in> set xs. csat_e (the (rqs ?d r)) \<noteq> csat_addr)"
    proof (rule Cons.IH [OF i])
      show "dlist (rq_l ?d) x n xs" using x(4) by simp
      show "set xs \<subseteq> dom (rqs ?d)" using Cons.prems(3) by auto
      show "\<forall>r q. rqs ?d r = Some q \<longrightarrow> wsu_u q = 0" using Cons.prems(4) q0 by (auto split: if_splits)
    qed
    then show ?thesis using step same True x(1,5) by auto
  next
    case False
    let ?d0 = "if cli_u q \<noteq> 0 then cask (client_cancel (cli_u q)) d else d"
    have "ctp_inv ?d0" "rqs ?d0 x = Some q" using inv x(5) by simp_all
    from creq_drop [OF this q0] obtain d1 where d1: "cttp_creq_free x ?d0 = Some d1" "ctp_inv d1" "rqs d1 = (rqs ?d0)(x := None)" by blast
    have "cttp_creq_quit x d = Some d1" using False q0 x(5) d1(1) by (simp add: cttp_creq_quit_def)
    moreover have "rq_l d1 x = None"
    proof -
      have "dom (rq_l d1) = dom (rqs d1)" using ctp_invD(1) [OF d1(2)] by (simp add: ctp_lists_def)
      moreover have "x \<notin> dom (rqs d1)" using d1(3) by simp
      ultimately show ?thesis by blast
    qed
    ultimately have "exit_creq_loop x d = None" using x(2) by (subst exit_creq_loop.simps) simp
    then show ?thesis using False x(1,5) by auto
  qed
qed

lemma exit_creq_loop_returns:
  "exit_creq_loop x d = Some d' \<Longrightarrow> ctp_inv d \<Longrightarrow> dlist (rq_l d) p x xs \<Longrightarrow> set xs \<subseteq> dom (rqs d) \<Longrightarrow> \<forall>r q. rqs d r = Some q \<longrightarrow> wsu_u q = 0 \<Longrightarrow>
   wss d' = wss d \<and> ova d' = ova d \<and> rqs d' = (\<lambda>r. if r \<in> set xs then map_option (\<lambda>q. q\<lparr>csat_e := csat_quit\<rparr>) (rqs d r) else rqs d r)"
proof (induction xs arbitrary: d p x)
  case Nil
  then show ?case by (simp add: exit_creq_loop.simps)
next
  case (Cons a xs)
  note inv = Cons.prems(2)
  from Cons.prems(3,4) obtain n q where x: "x = a" "x \<noteq> 0" "rq_l d x = Some (n, p)" "dlist (rq_l d) x n xs" "rqs d x = Some q" by auto
  have q0: "wsu_u q = 0" using Cons.prems(5) x(5) by blast
  have fine: "exit_creq_loop x d \<noteq> None" using Cons.prems(1) by simp
  have "csat_e q = csat_addr"
  proof (rule ccontr)
    assume "csat_e q \<noteq> csat_addr"
    then have "\<exists>r \<in> set (a # xs). csat_e (the (rqs d r)) \<noteq> csat_addr" using x(1,5) by auto
    then show False using exit_creq_loop_spec [OF inv Cons.prems(3,4,5)] fine by blast
  qed
  let ?d = "d\<lparr>rqs := (rqs d)(x \<mapsto> q\<lparr>csat_e := csat_quit\<rparr>)\<rparr>"
  have quit: "cttp_creq_quit x d = Some ?d" using \<open>csat_e q = csat_addr\<close> q0 x(5) by (simp add: cttp_creq_quit_def upd_creq_def)
  then have step: "exit_creq_loop x d = exit_creq_loop n ?d" using x by (subst exit_creq_loop.simps) simp
  have i: "ctp_inv ?d" by (rule inv_upd_creq [OF inv x(5)]) simp
  have a: "a \<notin> set xs" using dlist_distinct [OF Cons.prems(3)] by simp
  have "wss d' = wss ?d \<and> ova d' = ova ?d \<and> rqs d' = (\<lambda>r. if r \<in> set xs then map_option (\<lambda>q. q\<lparr>csat_e := csat_quit\<rparr>) (rqs ?d r) else rqs ?d r)"
  proof (rule Cons.IH [OF _ i])
    show "exit_creq_loop n ?d = Some d'" using step Cons.prems(1) by simp
    show "dlist (rq_l ?d) x n xs" using x(4) by simp
    show "set xs \<subseteq> dom (rqs ?d)" using Cons.prems(4) by auto
    show "\<forall>r q. rqs ?d r = Some q \<longrightarrow> wsu_u q = 0" using Cons.prems(5) q0 by (auto split: if_splits)
  qed
  then show ?case using a x(1,5) by auto
qed

text \<open>
  C12: When the driver exits it first closes every session with its request, and tells Iris nothing of it; the
  other requests are still there. Then it quits these, and reads the link of each after it has quit it; it
  faults exactly when one of them is not waiting for its address, since it is freed then, also when it has
  been cancelled while its address is looked up. When none is, it returns, has told nothing, and keeps no
  session, and every request is left to its lookup.
\<close>
theorem cttp_exit_faults:
  assumes inv: "ctp_inv d"
  shows "(\<exists>d1. exit_ws_loop (ws_a d) d = Some d1 \<and> wss d1 = Map.empty \<and> ova d1 = ova d \<and> rqs d1 = of_no_session (rqs d)) \<and>
    (cttp_io_exit d = None \<longleftrightarrow> (\<exists>r q. rqs d r = Some q \<and> wsu_u q = 0 \<and> csat_e q \<noteq> csat_addr)) \<and>
    (\<forall>d'. cttp_io_exit d = Some d' \<longrightarrow> wss d' = Map.empty \<and> ova d' = ova d \<and>
      rqs d' = (\<lambda>r. map_option (\<lambda>q. q\<lparr>csat_e := csat_quit\<rparr>) (of_no_session (rqs d) r)))"
proof -
  obtain xs where xs: "dlist (ws_l d) 0 (ws_a d) xs" "set xs = dom (wss d)"
    using ctp_invD(1) [OF inv] unfolding ctp_lists_def by metis
  obtain d1 where d1: "exit_ws_loop (ws_a d) d = Some d1" "ctp_inv d1" "wss d1 = Map.empty" "ova d1 = ova d" "rqs d1 = of_no_session (rqs d)"
    using exit_ws_loop_spec [OF inv xs] by blast
  obtain ys where ys: "dlist (rq_l d1) 0 (rq_a d1) ys" "set ys = dom (rqs d1)"
    using ctp_invD(1) [OF d1(2)] unfolding ctp_lists_def by metis
  have off: "(rqs d1 r = Some q) = (rqs d r = Some q \<and> wsu_u q = 0)" for r q
    unfolding d1(5) by (auto simp: of_no_session_def split: option.splits)
  have ex: "cttp_io_exit d = exit_creq_loop (rq_a d1) d1" using d1(1) by (simp add: cttp_io_exit_def)
  then have "cttp_io_exit d = None \<longleftrightarrow> (\<exists>r \<in> dom (rqs d1). csat_e (the (rqs d1 r)) \<noteq> csat_addr)"
    using exit_creq_loop_spec [OF d1(2) ys(1)] ys(2) off by simp
  also have "\<dots> \<longleftrightarrow> (\<exists>r q. rqs d1 r = Some q \<and> csat_e q \<noteq> csat_addr)" by (metis domD domI option.sel)
  finally have iff: "cttp_io_exit d = None \<longleftrightarrow> (\<exists>r q. rqs d r = Some q \<and> wsu_u q = 0 \<and> csat_e q \<noteq> csat_addr)" unfolding off by blast
  have "wss d' = Map.empty \<and> ova d' = ova d \<and> rqs d' = (\<lambda>r. map_option (\<lambda>q. q\<lparr>csat_e := csat_quit\<rparr>) (of_no_session (rqs d) r))"
    if "cttp_io_exit d = Some d'" for d'
  proof -
    have "exit_creq_loop (rq_a d1) d1 = Some d'" using that ex by simp
    then have "wss d' = wss d1 \<and> ova d' = ova d1 \<and> rqs d' = (\<lambda>r. if r \<in> set ys then map_option (\<lambda>q. q\<lparr>csat_e := csat_quit\<rparr>) (rqs d1 r) else rqs d1 r)"
      by (rule exit_creq_loop_returns [OF _ d1(2) ys(1)]) (use ys(2) off in auto)
    moreover have "(\<lambda>r. if r \<in> set ys then map_option (\<lambda>q. q\<lparr>csat_e := csat_quit\<rparr>) (rqs d1 r) else rqs d1 r) =
        (\<lambda>r. map_option (\<lambda>q. q\<lparr>csat_e := csat_quit\<rparr>) (rqs d1 r))" using ys(2) by (auto simp: domIff)
    ultimately show ?thesis using d1(3-5) by simp
  qed
  then show ?thesis using d1 iff by blast
qed

text \<open>A request that libh2o has, and nothing else.\<close>

definition busy_cttp :: cttp where
  "busy_cttp = new_cttp\<lparr>rq_l := [1 \<mapsto> (0, 0)], rq_a := 1,
     rqs := [1 \<mapsto> \<lparr>num_l = 5, cli_u = 9, csat_e = csat_ripe, ipf_c = True, wsu_u = 0\<rparr>], brk := 2\<rparr>"

lemma busy_inv: "ctp_inv busy_cttp"
proof -
  have "\<exists>xs. dlist Map.empty 0 0 xs \<and> set xs = {}" by (intro exI [of _ "[]"]) simp
  moreover have "\<exists>xs. dlist [1 \<mapsto> (0, 0)] 0 1 xs \<and> set xs = {Suc 0}" by (intro exI [of _ "[1]"]) simp
  ultimately show ?thesis by (auto simp: ctp_inv_def ctp_lists_def ctp_ptrs_def busy_cttp_def new_cttp_def)
qed

lemma cttp_exit_faults_witness: "cttp_io_exit busy_cttp = None"
proof -
  have "rqs busy_cttp 1 = Some \<lparr>num_l = 5, cli_u = 9, csat_e = csat_ripe, ipf_c = True, wsu_u = 0\<rparr>" by (simp add: busy_cttp_def)
  then show ?thesis using cttp_exit_faults [OF busy_inv] by fastforce
qed

text \<open>A session, 1, with its request, 2.\<close>

definition waiting_cttp :: "csat \<Rightarrow> cttp" where
  "waiting_cttp st = \<lparr>ws_l = [1 \<mapsto> (0, 0)], ws_a = 1,
     wss = [1 \<mapsto> \<lparr>wid_l = 7, sat_e = cws_pending, key_c = replicate 29 0, ceq_u = 2, sok_u = False, wsl_w = False,
                  out_y = False, wsl_on = False, clo_ev = False, clo_on = False\<rparr>],
     rq_l = [2 \<mapsto> (0, 0)], rq_a = 2, rqs = [2 \<mapsto> \<lparr>num_l = 7, cli_u = 9, csat_e = st, ipf_c = True, wsu_u = 1\<rparr>],
     brk = 3, addrs = (if st = csat_addr then [2] else []), ova = [], calls = []\<rparr>"

text \<open>A session, 1, that is open.\<close>

definition open_cttp :: cttp where
  "open_cttp = new_cttp\<lparr>ws_l := [1 \<mapsto> (0, 0)], ws_a := 1,
     wss := [1 \<mapsto> \<lparr>wid_l = 7, sat_e = cws_open, key_c = replicate 29 0, ceq_u = 0, sok_u = True, wsl_w = True,
                  out_y = False, wsl_on = False, clo_ev = False, clo_on = False\<rparr>], brk := 2\<rparr>"

lemma waiting_inv: "ctp_inv (waiting_cttp st)"
proof -
  have "\<exists>xs. dlist [1 \<mapsto> (0, 0)] 0 1 xs \<and> set xs = {Suc 0}" by (intro exI [of _ "[1]"]) simp
  moreover have "\<exists>xs. dlist [2 \<mapsto> (0, 0)] 0 2 xs \<and> set xs = {2}" by (intro exI [of _ "[2]"]) simp
  ultimately show ?thesis by (auto simp: ctp_inv_def ctp_lists_def ctp_ptrs_def waiting_cttp_def cws_ok_def)
qed

lemma open_inv: "ctp_inv open_cttp"
proof -
  have "\<exists>xs. dlist Map.empty 0 0 xs \<and> set xs = {}" by (intro exI [of _ "[]"]) simp
  moreover have "\<exists>xs. dlist [1 \<mapsto> (0, 0)] 0 1 xs \<and> set xs = {Suc 0}" by (intro exI [of _ "[1]"]) simp
  ultimately show ?thesis by (auto simp: ctp_inv_def ctp_lists_def ctp_ptrs_def open_cttp_def new_cttp_def cws_ok_def)
qed


section \<open>Callbacks that come too late\<close>

text \<open>
  C10: A session that is closed while the address of its host is looked up frees its request, and the
  lookup still refers to it: when the address, or an error, comes, the callback faults.
\<close>
theorem cttp_lookup_outlived:
  assumes inv: "ctp_inv d" and w: "cttp_ws_find d wid = Some w" "wss d w = Some s" "sat_e s = cws_pending" and r: "ceq_u s \<in> set (addrs d)"
  shows "\<exists>d'. cttp_ef_http_client (ef_disconnect (Some wid)) pul cli fails rad sas want_read pending xs d = Some (True, d') \<and>
    ceq_u s \<in> set (addrs d') \<and> (\<forall>sha err cli' fails'. cttp_step sha (act_resolved (ceq_u s) err cli' fails') d' = None)"
proof -
  have w0: "w \<noteq> 0" by (rule ctp_nonnull(1) [OF ctp_invD(1) [OF inv] w(2)])
  obtain d' where d': "cttp_ws_close w True d = Some d'" "cws_gone w s True d d'" using gone_inv [OF inv w(2)] by blast
  have ok: "cws_ok (rqs d) w s" by (rule ctp_ptrsD(1) [OF ctp_invD(2) [OF inv] w(2)])
  then have "owns w s d" using w(3) by (auto simp: cws_ok_def owns_def split: if_splits)
  then have "rqs d' (ceq_u s) = None" "addrs d' = addrs d" using d'(2) by (simp_all add: cws_gone_def ctp_same_def)
  moreover have "cttp_ef_http_client (ef_disconnect (Some wid)) pul cli fails rad sas want_read pending xs d = Some (True, d')"
    using w w0 d'(1) by (simp add: cttp_ef_http_client_def cttp_ws_queue_close_def)
  ultimately show ?thesis using r by (simp add: cttp_step_def cttp_creq_resolve_cb_def)
qed

lemma cttp_lookup_outlived_witness:
  "\<exists>d'. cttp_ef_http_client (ef_disconnect (Some 7)) None 0 False [] 0 False False [] (waiting_cttp csat_addr) = Some (True, d') \<and>
    (\<forall>sha. cttp_step sha (act_resolved 2 False 9 False) d' = None)"
proof -
  have "cttp_ws_find (waiting_cttp csat_addr) 7 = Some 1" by (simp add: cttp_ws_find_def ws_find_loop.simps waiting_cttp_def)
  moreover have "wss (waiting_cttp csat_addr) 1 = Some \<lparr>wid_l = 7, sat_e = cws_pending, key_c = replicate 29 0, ceq_u = 2, sok_u = False,
      wsl_w = False, out_y = False, wsl_on = False, clo_ev = False, clo_on = False\<rparr>" by (simp add: waiting_cttp_def)
  ultimately show ?thesis
    using cttp_lookup_outlived [OF waiting_inv, of csat_addr 7 1 _ None 0 False "[]" 0 False False "[]"]
    by (fastforce simp: waiting_cttp_def)
qed

text \<open>
  C11: A handshake that is cancelled as a request is freed, but libh2o is not told, and goes on with it: its
  next callback, for the connection or for the head of the response, faults. An ordinary request, in the
  same state, is taken back from libh2o.
\<close>
theorem cttp_cancel_dangles:
  assumes inv: "ctp_inv d" and r: "cttp_creq_find d num = Some r" "rqs d r = Some q" "csat_e q = csat_ripe" "cli_u q \<noteq> 0"
  shows "\<exists>d'. cttp_ef_http_client (ef_cancel (Some num)) pul cli fails rad sas want_read pending xs d = Some (True, d') \<and> rqs d' r = None \<and>
    calls d' = calls d @ (if wsu_u q \<noteq> 0 then [] else [client_cancel (cli_u q)]) \<and>
    (\<forall>sha err. cttp_step sha (act_connected r err) d' = None) \<and>
    (\<forall>sha err st hed exp steals want_read pending xs. cttp_step sha (act_head r err st hed exp steals want_read pending xs) d' = None)"
proof -
  have r0: "r \<noteq> 0" by (rule ctp_nonnull(2) [OF ctp_invD(1) [OF inv] r(2)])
  have "\<exists>d'. cttp_creq_quit r d = Some d' \<and> rqs d' = (rqs d)(r := None) \<and>
      calls d' = calls d @ (if wsu_u q \<noteq> 0 then [] else [client_cancel (cli_u q)])"
  proof (cases "wsu_u q = 0")
    case True
    have l: "ctp_lists (cask (client_cancel (cli_u q)) d)" using ctp_invD(1) [OF inv] by simp
    from creq_free_spec [OF l, of r q] r(2) show ?thesis using True r by (auto simp: cttp_creq_quit_def)
  next
    case False
    from fail_handshake_free [OF inv r(2) False] show ?thesis using False r(2) by (auto simp: cttp_creq_quit_def)
  qed
  then obtain d' where d': "cttp_creq_quit r d = Some d'" "rqs d' = (rqs d)(r := None)"
      "calls d' = calls d @ (if wsu_u q \<noteq> 0 then [] else [client_cancel (cli_u q)])" by blast
  then show ?thesis using r(1) r0
    by (intro exI [of _ d']) (simp add: cttp_ef_http_client_def cttp_step_def cttp_creq_on_connect_def cttp_creq_on_head_def)
qed

lemma cttp_cancel_dangles_witness:
  "\<exists>d'. cttp_ef_http_client (ef_cancel (Some 7)) None 0 False [] 0 False False [] (waiting_cttp csat_ripe) = Some (True, d') \<and>
    calls d' = [] \<and> (\<forall>sha. cttp_step sha (act_connected 2 False) d' = None)"
proof -
  have "cttp_creq_find (waiting_cttp csat_ripe) 7 = Some 2" by (simp add: cttp_creq_find_def creq_find_loop.simps waiting_cttp_def)
  moreover have "rqs (waiting_cttp csat_ripe) 2 = Some \<lparr>num_l = 7, cli_u = 9, csat_e = csat_ripe, ipf_c = True, wsu_u = 1\<rparr>"
    by (simp add: waiting_cttp_def)
  ultimately show ?thesis
    using cttp_cancel_dangles [OF waiting_inv, of csat_ripe 7 2 _ None 0 False "[]" 0 False False "[]"]
    by (fastforce simp: waiting_cttp_def)
qed

section \<open>The life of a session\<close>

text \<open>
  C9: The head of the response decides. If the check refuses it, or libh2o does not give up the socket, the
  session and its request go, one rejection is told and nothing is asked of the libraries. Otherwise the request goes
  alone, without being cancelled, the session is open, and its acceptance is told before any message; what the
  server sent along with the head is dropped first, and then the libraries are asked only to write to the
  socket of the session, or to read from it or not, and, if the session has ended, to let go of both.
\<close>
theorem cttp_upgrade:
  assumes inv: "ctp_inv d" and r: "rqs d r = Some q" "wsu_u q \<noteq> 0" and s: "wss d (wsu_u q) = Some s"
    and chk: "ws_check sha (key_c s) err sas hed exp = Some res"
  shows "\<exists>d'. cttp_creq_on_head sha r err sas hed exp steals want_read pending xs d = Some d' \<and> ctp_inv d' \<and> rqs d' = (rqs d)(r := None) \<and>
    (if res \<noteq> None \<or> steals = None then
       wss d' = (wss d)(wsu_u q := None) \<and> ova d' = ova d @ [ctp_ws (wid_l s) cws_reject] \<and> calls d' = calls d
     else
       (\<exists>b. wss d' = (wss d)(wsu_u q := (if snd (fate xs) then None
          else Some (s\<lparr>ceq_u := 0, wsl_w := True, sok_u := True, sat_e := cws_open, out_y := b\<rparr>)))) \<and>
       ova d' = ova d @ ctp_ws (wid_l s) cws_accept # ctold (wid_l s) (fst (fate xs)) @
         (if snd (fate xs) then [ctp_ws (wid_l s) cws_disconnect] else []) \<and>
       (\<exists>cs. calls d' = calls d @ (if steals = Some True then [input_drop (wsu_u q)] else []) @ cs @
           (if snd (fate xs) then [wslay_free (wsu_u q), socket_close (wsu_u q)] else []) \<and>
         set cs \<subseteq> {socket_write (wsu_u q), read_start (wsu_u q), read_stop (wsu_u q)}))"
  using on_head_spec [OF inv r s chk, of steals want_read pending xs] unfolding kept_def by metis

lemma cttp_upgrade_witness:
  "\<exists>d'. cttp_creq_on_head (\<lambda>_. replicate 20 0) 2 False 200 [] (replicate 29 0) (Some True) False False [] (waiting_cttp csat_ripe) = Some d' \<and>
    ova d' = [ctp_ws 7 cws_reject] \<and> calls d' = []"
proof -
  have "ws_check (\<lambda>_. replicate 20 0) (replicate 29 0) False 200 [] (replicate 29 0) = Some (Some ws_status)" by (simp add: ws_check_def)
  then show ?thesis
    using cttp_upgrade [OF waiting_inv, of csat_ripe 2 "the (rqs (waiting_cttp csat_ripe) 2)"
      "the (wss (waiting_cttp csat_ripe) 1)" "\<lambda>_. replicate 20 0" False 200 "[]" "replicate 29 0" "Some ws_status" "Some True" False False "[]"]
    by (auto simp: waiting_cttp_def)
qed

text \<open>
  C8: When its socket can be read, an open session always gets through what libh2o and wslay answer, round by
  round, and does what the contract \<open>fate\<close> says: it tells the messages in order, and then it is gone, if its
  end has come, with one disconnection, or it is there as it was, at most with a write under way. That an end
  comes in the middle of wslay's own work, when the session can not be freed, makes no difference. Its socket
  and its frames are let go of exactly when it is gone.
\<close>
theorem cttp_session_fate:
  assumes inv: "ctp_inv d" and s: "wss d w = Some s" "sok_u s"
  shows "\<exists>d'. cttp_ws_read_cb w False want_read pending xs d = Some d' \<and> ctp_inv d' \<and> rqs d' = rqs d \<and>
    (\<exists>b. wss d' = (wss d)(w := (if snd (fate xs) then None else Some (s\<lparr>out_y := b\<rparr>)))) \<and>
    ova d' = ova d @ ctold (wid_l s) (fst (fate xs)) @ (if snd (fate xs) then [ctp_ws (wid_l s) cws_disconnect] else []) \<and>
    (\<exists>cs. calls d' = calls d @ cs @ (if snd (fate xs) then [wslay_free w, socket_close w] else []) \<and>
      set cs \<subseteq> {socket_write w, read_start w, read_stop w})"
proof -
  have "up s" using inv_up(3) [OF inv s(1)] s(2) by simp
  from read_cb_spec [OF inv s(1) this, of False want_read pending xs] show ?thesis by (auto simp: went_def)
qed

lemma cttp_session_fate_witness:
  "\<exists>d'. cttp_ws_read_cb 1 False True False
      [\<lparr>writing = False, want_write = False, writes = False, send_res = wslay_ok, has_input = True,
        msgs = [Some (1, [104, 105]), Some (8, [])], recv_res = wslay_ok\<rparr>] open_cttp = Some d' \<and>
    ova d' = [ctp_ws 7 (cws_message 1 (Some [104, 105])), ctp_ws 7 cws_disconnect]"
  using cttp_session_fate [OF open_inv, of 1 "the (wss open_cttp 1)" True False
      "[\<lparr>writing = False, want_write = False, writes = False, send_res = wslay_ok, has_input = True,
        msgs = [Some (1, [104, 105]), Some (8, [])], recv_res = wslay_ok\<rparr>]"]
  by (auto simp: open_cttp_def new_cttp_def read_msgs_def is_end_def CONNECTION_CLOSE_def)

text \<open>
  Asked by Iris to disconnect, an open session queues a close frame and is closing until wslay is done
  with it. In every other state, also when it is closing already, for which the code has a branch of its
  own that is never reached, it ends at once.
\<close>
lemma cttp_disconnect_twice:
  assumes inv: "ctp_inv d" and w: "wss d w = Some s"
  shows "\<exists>d'. cttp_ws_queue_close w want_read pending xs d = Some d' \<and> ctp_inv d' \<and>
    (if sat_e s = cws_open then
       (\<exists>b. wss d' = (wss d)(w := (if snd (fate xs) then None else Some (s\<lparr>sat_e := cws_closing, out_y := b\<rparr>)))) \<and>
       ova d' = ova d @ ctold (wid_l s) (fst (fate xs)) @ (if snd (fate xs) then [ctp_ws (wid_l s) cws_disconnect] else [])
     else wss d' = (wss d)(w := None) \<and> ova d' = ova d @ [ctp_ws (wid_l s) cws_disconnect] \<and> calls d' = calls d @ close_calls w s d)"
  using queue_close_spec [OF inv w, of want_read pending xs] by auto

lemma cttp_disconnect_twice_witness:
  "\<exists>d1 d2. cttp_ws_queue_close 1 True False [] open_cttp = Some d1 \<and> ova d1 = [] \<and>
    cttp_ws_queue_close 1 True False [] d1 = Some d2 \<and> ova d2 = [ctp_ws 7 cws_disconnect]"
proof -
  let ?s = "the (wss open_cttp 1)"
  have s: "wss open_cttp 1 = Some ?s" "sat_e ?s = cws_open" "wid_l ?s = 7" "ova open_cttp = []" by (simp_all add: open_cttp_def new_cttp_def)
  obtain d1 b where d1: "cttp_ws_queue_close 1 True False [] open_cttp = Some d1" "ctp_inv d1"
      "wss d1 = (wss open_cttp)(1 := Some (?s\<lparr>sat_e := cws_closing, out_y := b\<rparr>))" "ova d1 = []"
    using cttp_disconnect_twice [OF open_inv s(1), of True False "[]"] s by auto
  have "wss d1 1 = Some (?s\<lparr>sat_e := cws_closing, out_y := b\<rparr>)" using d1(3) by simp
  from cttp_disconnect_twice [OF d1(2) this, of True False "[]"] show ?thesis using d1(1,4) s by auto
qed

end
