(* ===== verification/Spec2Isabelle.thy ===== *)
theory Spec2Isabelle
  imports BitReader BitWriter Bitstream HashDict Hashcons Nouns Walk Serial CueJam JamReader Serializer Chain Newt Bitset LssVerify HttpWsRun WsKey CttpWsRun
begin

text \<open>
  A verification library for the C runtime of this repository (\<^verbatim>\<open>vere\<close>), whose purpose is to give
  urbit ships websockets (\<^verbatim>\<open>UIP-0125.md\<close>).

  \<^bold>\<open>The program.\<close> A ship is two processes. The serf computes: it holds the state of the ship as nouns,
  that is, numbers and pairs. The king does the input and output through drivers (\<^verbatim>\<open>pkg/vere/io\<close>), and
  the two exchange jammed nouns over pipes (\<^verbatim>\<open>pkg/vere/newt.c\<close>). The driver of the http server
  (\<^verbatim>\<open>io/http.c\<close>) turns requests and websocket frames into events for Eyre, the server inside the ship, and
  its effects into responses; the driver of the http client (\<^verbatim>\<open>io/cttp.c\<close>) does the same for outgoing
  connections. The driver of directed messaging (\<^verbatim>\<open>io/mesa.c\<close>) keeps the fragments of a message in a bitset
  and authenticates them by lockstep streaming (\<^verbatim>\<open>io/lss.c\<close>). The library \<^verbatim>\<open>pkg/ur\<close> stores nouns without
  duplicates and serializes them: it writes and reads the format of the event log and of the pipes.

  \<^bold>\<open>The theories,\<close> in the order in which they build on each other:

  \<^item> \<^verbatim>\<open>Prelude\<close>: machine integers, bits of values and buffers, copying; the collection \<open>bitval\<close>.
  \<^item> \<^verbatim>\<open>BitReader\<close>, \<^verbatim>\<open>BitWriter\<close>, \<^verbatim>\<open>Bitstream\<close>: \<^verbatim>\<open>pkg/ur/bitstream.c\<close>. A reader \<open>bsr\<close> and a writer \<open>bsw\<close> have the
    fields of \<^verbatim>\<open>ur_bsr_t\<close> and \<^verbatim>\<open>ur_bsw_t\<close>, and one definition for each function. \<open>bsr_stream\<close> and \<open>bsw_out\<close>
    abstract them to lists of bits; the locales \<open>any_reader\<close>, \<open>appender\<close> and \<open>bit_channel\<close> are the contracts,
    and each function is an interpretation.
  \<^item> \<^verbatim>\<open>HashDict\<close>: the dictionaries of \<^verbatim>\<open>pkg/ur/hashcons.c\<close>, once for the three of the code. The locale
    \<open>dictionary\<close> is what the noun store and the serializer rely on.
  \<^item> \<^verbatim>\<open>Hashcons\<close>, \<^verbatim>\<open>Nouns\<close>: the noun store \<^verbatim>\<open>ur_root_t\<close>, with MurmurHash3. \<open>rep r ref n\<close> says that a reference
    stands for a noun; \<open>ur_reachable\<close> are the roots that \<^verbatim>\<open>ur_coin64\<close>, \<^verbatim>\<open>ur_coin_bytes\<close> and \<^verbatim>\<open>ur_cons\<close> build.
  \<^item> \<^verbatim>\<open>Walk\<close>: \<^verbatim>\<open>ur_walk_fore\<close>, a traversal with a stack of its own, against the recursion over the noun.
  \<^item> \<^verbatim>\<open>Serial\<close>, \<^verbatim>\<open>CueJam\<close>, \<^verbatim>\<open>JamReader\<close>, \<^verbatim>\<open>Serializer\<close>: \<^verbatim>\<open>pkg/ur/serial.c\<close>, that is, jam, cue and the validator
    cue-test. The locale \<open>jam_reader\<close> holds the induction that cue and cue-test share. \<^verbatim>\<open>Serializer\<close> states the
    properties that span the stream, the store, the dictionaries and the walk; its \<open>ur_built\<close> are the roots that
    any call of the library builds, \<^verbatim>\<open>ur_cue\<close> and its handles included.
  \<^item> \<^verbatim>\<open>Chain\<close>, \<^verbatim>\<open>Links\<close>: singly and doubly linked lists in a store of addresses, where 0 is null.
  \<^item> \<^verbatim>\<open>Newt\<close>: the decoder, the queue and the sender of \<^verbatim>\<open>newt.c\<close>, over a store of blocks.
  \<^item> \<^verbatim>\<open>Bitset\<close>: \<^verbatim>\<open>io/mesa/bitset.c\<close>, with the locale \<open>number_set\<close>.
  \<^item> \<^verbatim>\<open>Lss\<close>, \<^verbatim>\<open>LssBuild\<close>, \<^verbatim>\<open>LssVerify\<close>: \<^verbatim>\<open>io/lss.c\<close>: the builder of the Merkle tree of a message, and the
    verifier that takes its leaves one by one. BLAKE3 is a parameter.
  \<^item> \<^verbatim>\<open>HttpWs\<close>, \<^verbatim>\<open>HttpWsInv\<close>, \<^verbatim>\<open>HttpWsOps\<close>, \<^verbatim>\<open>HttpWsRun\<close>: the websocket sessions of \<^verbatim>\<open>io/http.c\<close>. The record \<open>hws\<close> is
    \<^verbatim>\<open>struct _u3_hws\<close>, \<open>hreq\<close> and \<open>httd\<close> are what requests and the device have to do with sessions, and each
    function \<^verbatim>\<open>_http_ws_x\<close> is a definition \<open>http_ws_x\<close>. \<open>ws_step\<close> and \<open>ws_run\<close> are the runs: requests, effects of
    Eyre, frames, ends of connections, timeouts and disposals, in any order that libh2o allows. The record \<open>conn\<close> is
    what the driver relies on of a connection of libh2o: it has the session that was left with it (\<^verbatim>\<open>conn->data\<close>), it
    gets its socket and calls back when the request that it was made of is gone, and it ends once.
  \<^item> \<^verbatim>\<open>WsKey\<close>: the opening handshake of the client in \<^verbatim>\<open>io/cttp.c\<close>: base64, the key, the check of the response,
    the URL and its origin. SHA-1 is a parameter.
  \<^item> \<^verbatim>\<open>CttpWs\<close>, \<^verbatim>\<open>CttpWsInv\<close>, \<^verbatim>\<open>CttpWsOps\<close>, \<^verbatim>\<open>CttpWsRun\<close>: the websocket sessions of the client in \<^verbatim>\<open>io/cttp.c\<close>, and the
    requests that carry their handshakes. The records \<open>cws\<close>, \<open>creq\<close> and \<open>cttp\<close> are \<^verbatim>\<open>struct _u3_cws\<close>, \<^verbatim>\<open>_u3_creq\<close>
    and \<^verbatim>\<open>_u3_cttp\<close>; each function \<^verbatim>\<open>_cttp_ws_x\<close> or \<^verbatim>\<open>_cttp_creq_x\<close> is a definition \<open>cttp_ws_x\<close> or \<open>cttp_creq_x\<close>. The
    results of wslay are the three cases that the code tells apart (\<open>wslay_res\<close>): success, \<^verbatim>\<open>WSLAY_ERR_WOULDBLOCK\<close>,
    and any other error. \<open>fate\<close> is the contract of a reading session; \<open>cttp_reaches\<close> are the runs.

  \<^bold>\<open>Conventions.\<close> A record has the fields of the struct, a function of the code one definition with its
  branches in the order of the code. \<open>u8\<close>, \<open>u32\<close> and \<open>u64\<close> wrap as the code's integers do. A result \<open>None\<close> is what
  C leaves undefined: an access outside an array, through null, or to freed memory; a failed assertion; or
  a loop that does not end. The cases where the code reports an error are values of a sum. Allocation succeeds, since
  the code aborts otherwise. What libraries outside the repository do (libuv, libh2o, wslay, BLAKE3, SHA-1) is an
  argument, and what they are asked to do is recorded.

  \<^bold>\<open>What is shown.\<close> Of the writer: each call appends the encoding of its argument. Of the serializer: cue inverts jam into
  the same reference, and into an equal noun elsewhere; a backreference never leads outside, whatever the bytes; jam
  returns; cue-test accepts what jam makes, and crashes on other bytes. Of the store: a reference to a root that
  any call has built is one noun, and a noun has one reference as long as \<^verbatim>\<open>ur_cue\<close> and \<^verbatim>\<open>ur_coin_bytes_unsafe\<close> are not
  used, which can store a second zero. Of the dictionaries: put and get, and when a put returns; an eleventh key of
  one hash never gets in. Of the framing: the messages sent are the messages received, however the pipe cuts them,
  up to 4 GiB, where the length is cut. Of lockstep streaming: the verifier accepts the builder's leaves, and no other
  leaf, unless the proof or a pair that it was given holds a second preimage, which is then written out. Of the
  websocket sessions of the server: memory safety of every run, one session to a number, no way back, and exactly one
  disconnection told. Of the client: which responses to a handshake it lets through; that every session is told to
  end exactly once; what it does with its input; and three ways to use freed memory. Each theorem that shows a
  fault of the code names it in its text.

  \<^bold>\<open>Bounds.\<close> Loops that may not end, such as the growing of a dictionary, are partial functions in \<open>option\<close>; theorems
  say when they return. No definition uses fuel. The bounds in theorems are those of the code's types: fewer than
  2 ^ 31 - 1 cells for a walk (its stack has a 32-bit size), cursors below 2 ^ 62 (direct references), at most ten
  keys of one hash (the size of a bucket), 2 ^ 32 handshakes (the width of a session's number).

  \<^bold>\<open>Not modelled.\<close> The noun runtime and the Nock interpreter (\<^verbatim>\<open>pkg/noun\<close>): one mutable image with reference counts,
  jets and long jumps, out of reach of a shallow embedding of this size; \<^verbatim>\<open>pkg/ur\<close> is the part of it that stands
  alone. The processes (\<^verbatim>\<open>king.c\<close>, \<^verbatim>\<open>lord.c\<close>, \<^verbatim>\<open>mars.c\<close>, \<^verbatim>\<open>pier.c\<close>) and the event log (\<^verbatim>\<open>disk.c\<close>): input and output. The rest of the
  http drivers (headers and bodies, streams of responses, the scry cache, servers and TLS; the text of outgoing requests), the drivers of ames, mesa (but for the bitset and lss), terminal, files and timers: glue between libraries and
  nouns of the runtime. The vendored libraries, of which only MurmurHash3 is modelled, with the store. The programs in
  Hoon and TypeScript (\<^verbatim>\<open>app\<close>, \<^verbatim>\<open>arvo\<close>, \<^verbatim>\<open>gui\<close>).
\<close>

end
